(* ===== verification/Prelude.thy ===== *)
theory Prelude
  imports Main "HOL-Library.Word"
begin

text \<open>
  The vocabulary the component theories share: the machine types of the C code, the reading of
  C strings, and the arithmetic and list lemmas that more than one component uses.

  \<^item> The build passes \<^verbatim>\<open>-funsigned-char\<close> (\<^verbatim>\<open>src/Makefile\<close>), so a \<^verbatim>\<open>char\<close> and a
    \<^verbatim>\<open>uint8_t\<close> are the same type here: an 8 bit word, read with \<^const>\<open>uint\<close>.
  \<^item> A pointer into a C string is the list of the bytes from the pointer on. The terminating NUL
    is the end of the list: \<open>deref\<close> of the empty list is 0, as \<^verbatim>\<open>*s\<close> is at the terminator.
    A list that holds a 0 byte is memory with a NUL in it, and the loops below stop there too.
  \<^item> A C \<^verbatim>\<open>int\<close> whose value cannot leave the type's range is an \<^typ>\<open>int\<close>; where the code's
    arithmetic can wrap, the value is a word of the type's width.
\<close>

unbundle bit_operations_syntax

section \<open>Types\<close>

type_synonym u8 = "8 word"
type_synonym u16 = "16 word"
type_synonym u32 = "32 word"
type_synonym u64 = "64 word"
type_synonym bytes = "u8 list"

text \<open>The bytes of a C string literal.\<close>

definition cstr :: "string \<Rightarrow> bytes" where
  "cstr s = map of_char s"

abbreviation chr :: "char \<Rightarrow> u8" where
  "chr c \<equiv> of_char c"

text \<open>\<^verbatim>\<open>*s\<close> for a pointer into a C string.\<close>

definition deref :: "bytes \<Rightarrow> u8" where
  "deref s = (case s of [] \<Rightarrow> 0 | c # _ \<Rightarrow> c)"

text \<open>\<^verbatim>\<open>strlen\<close>, and the bytes it counts.\<close>

definition c_str :: "bytes \<Rightarrow> bytes" where
  "c_str s = takeWhile (\<lambda>c. c \<noteq> 0) s"

definition strlen :: "bytes \<Rightarrow> nat" where
  "strlen s = length (c_str s)"

text \<open>A list of bytes that is a whole C string: no NUL inside.\<close>

definition nul_free :: "bytes \<Rightarrow> bool" where
  "nul_free s \<longleftrightarrow> 0 \<notin> set s"

named_theorems bit_arith \<open>bit operations on nonnegative integers as arithmetic\<close>
named_theorems byte_simps \<open>facts on single bytes\<close>

section \<open>C strings\<close>

lemma deref_simps [simp]: "deref [] = 0" "deref (c # s) = c"
  by (simp_all add: deref_def)

lemma deref_append [simp]: "deref (s @ t) = (if s = [] then deref t else deref s)"
  by (cases s) simp_all

lemma deref_nonzeroD: "deref s \<noteq> 0 \<Longrightarrow> s = deref s # tl s"
  by (cases s) simp_all

lemma deref_nonzero_length: "deref s \<noteq> 0 \<Longrightarrow> length (tl s) < length s"
  by (cases s) simp_all

lemma nul_free_simps [simp]:
  "nul_free []"
  "nul_free (c # s) \<longleftrightarrow> c \<noteq> 0 \<and> nul_free s"
  "nul_free (s @ t) \<longleftrightarrow> nul_free s \<and> nul_free t"
  by (auto simp: nul_free_def)

lemma nul_free_concat [simp]: "nul_free (concat ss) \<longleftrightarrow> (\<forall>s\<in>set ss. nul_free s)"
  by (induction ss) simp_all

lemma nul_free_tl [intro]: "nul_free s \<Longrightarrow> nul_free (tl s)"
  by (cases s) simp_all

lemma nul_free_drop [intro]: "nul_free s \<Longrightarrow> nul_free (drop n s)"
  by (auto simp: nul_free_def dest: in_set_dropD)

lemma nul_free_take [intro]: "nul_free s \<Longrightarrow> nul_free (take n s)"
  by (auto simp: nul_free_def dest: in_set_takeD)

lemma nul_free_deref_zero: "nul_free s \<Longrightarrow> deref s = 0 \<longleftrightarrow> s = []"
  by (cases s) auto

lemma c_str_nul_free [simp]: "nul_free s \<Longrightarrow> c_str s = s"
  by (auto simp: c_str_def nul_free_def takeWhile_eq_all_conv)

lemma nul_free_c_str [simp]: "nul_free (c_str s)"
  by (auto simp: c_str_def nul_free_def dest: set_takeWhileD)

lemma c_str_simps [simp]:
  "c_str [] = []"
  "c_str (c # s) = (if c = 0 then [] else c # c_str s)"
  by (simp_all add: c_str_def)

lemma c_str_append [simp]: "nul_free s \<Longrightarrow> c_str (s @ t) = s @ c_str t"
  by (induction s) simp_all

lemma c_str_deref_zero: "deref s = 0 \<Longrightarrow> c_str s = []"
  by (cases s) simp_all

lemma c_str_deref_nonzero: "deref s \<noteq> 0 \<Longrightarrow> c_str s = deref s # c_str (tl s)"
  by (cases s) simp_all

lemma strlen_nul_free [simp]: "nul_free s \<Longrightarrow> strlen s = length s"
  by (simp add: strlen_def)

lemma cstr_simps [simp]:
  "cstr [] = []"
  "cstr (c # s) = chr c # cstr s"
  by (simp_all add: cstr_def)

lemma length_takeWhile_less: "x \<in> set xs \<Longrightarrow> length (takeWhile (\<lambda>c. c \<noteq> x) xs) < length xs"
  by (induction xs) auto

section \<open>Bits as arithmetic\<close>

lemma and_low_bits [bit_arith]:
  "(c :: int) AND 0x01 = c mod 2" "(c :: int) AND 0x03 = c mod 4" "(c :: int) AND 0x07 = c mod 8"
  "(c :: int) AND 0x0f = c mod 16" "(c :: int) AND 0x1f = c mod 32"
  "(c :: int) AND 0x3f = c mod 64" "(c :: int) AND 0xff = c mod 256"
  using take_bit_eq_mask [of 1 c] take_bit_eq_mask [of 2 c] take_bit_eq_mask [of 3 c]
    take_bit_eq_mask [of 4 c] take_bit_eq_mask [of 5 c] take_bit_eq_mask [of 6 c]
    take_bit_eq_mask [of 8 c]
  by (simp_all add: take_bit_eq_mod mask_eq_exp_minus_1)

lemma low_bits_and [bit_arith]:
  "(0x01 :: int) AND c = c mod 2" "(0x03 :: int) AND c = c mod 4" "(0x07 :: int) AND c = c mod 8"
  "(0x0f :: int) AND c = c mod 16" "(0x1f :: int) AND c = c mod 32"
  "(0x3f :: int) AND c = c mod 64" "(0xff :: int) AND c = c mod 256"
  by (subst and.commute, rule and_low_bits)+

lemma drop_bit_div [bit_arith]: "drop_bit n (c :: int) = c div 2 ^ n"
  by (rule drop_bit_eq_div)

text \<open>A disjunction of values that share no bit is their sum.\<close>

lemma or_add_int:
  assumes "2 ^ n dvd (a :: int)" and "0 \<le> x" and "x < 2 ^ n"
  shows "a OR x = a + x"
proof -
  have "x = take_bit n x"
    using assms(2,3) by (simp add: take_bit_eq_mod)
  moreover have "a = push_bit n (drop_bit n a)"
    using assms(1) by (simp add: push_bit_eq_mult drop_bit_eq_div)
  ultimately have "a AND x = 0"
    by (metis bit_and_iff bit_eq_iff bit_push_bit_iff bit_take_bit_iff bot_nat_0.extremum
        linorder_not_le bit_0_eq bot_apply bot_bool_def)
  then show ?thesis
    by (simp add: disjunctive_add_eq_or)
qed

lemma push_or_int [bit_arith]:
  "0 \<le> x \<Longrightarrow> x < 2 ^ n \<Longrightarrow> push_bit n (r :: int) OR x = r * 2 ^ n + x"
  unfolding push_bit_eq_mult by (rule or_add_int) simp_all

lemma uint_u8_bound [byte_simps]: "0 \<le> uint (c :: u8)" "uint c < 256" "uint c \<le> 255"
proof -
  show "0 \<le> uint c" by simp
  show "uint c < 256" using uint_lt2p [of c] by simp
  then show "uint c \<le> 255" by simp
qed

lemma uint_u8_of_int [simp]: "0 \<le> x \<Longrightarrow> x < 256 \<Longrightarrow> uint (word_of_int x :: u8) = x"
  by (simp add: uint_word_of_int)

section \<open>Decimal numbers\<close>

text \<open>What \<^verbatim>\<open>printf\<close> writes for \<^verbatim>\<open>%d\<close>, and the value of a run of digits.\<close>

fun dec_nat :: "nat \<Rightarrow> bytes" where
  "dec_nat n = (if n < 10 then [48 + of_nat n] else dec_nat (n div 10) @ [48 + of_nat (n mod 10)])"

declare dec_nat.simps [simp del]

definition dec_int :: "int \<Rightarrow> bytes" where
  "dec_int i = (if i < 0 then chr CHR ''-'' # dec_nat (nat (- i)) else dec_nat (nat i))"

definition is_digit :: "u8 \<Rightarrow> bool" where
  "is_digit c \<longleftrightarrow> chr CHR ''0'' \<le> c \<and> c \<le> chr CHR ''9''"

lemma digit_byte [simp]:
  "d < 10 \<Longrightarrow> is_digit (48 + of_nat d)"
  "d < 10 \<Longrightarrow> unat (48 + of_nat d :: u8) = 48 + d"
proof -
  assume "d < 10"
  then have "unat (of_nat (48 + d) :: u8) = 48 + d"
    by (simp add: unat_of_nat take_bit_nat_eq_self del: of_nat_add)
  then show u: "unat (48 + of_nat d :: u8) = 48 + d"
    by (simp only: of_nat_add of_nat_numeral)
  then show "is_digit (48 + of_nat d)"
    using \<open>d < 10\<close> by (simp add: is_digit_def word_le_nat_alt)
qed

lemma dec_nat_induct [case_names small large]:
  assumes "\<And>n. n < 10 \<Longrightarrow> P n" and "\<And>n. 10 \<le> n \<Longrightarrow> P (n div 10) \<Longrightarrow> P n"
  shows "P (n :: nat)"
  by (induction n rule: dec_nat.induct) (metis assms not_le)

lemma dec_nat_rec:
  "n < 10 \<Longrightarrow> dec_nat n = [48 + of_nat n]"
  "10 \<le> n \<Longrightarrow> dec_nat n = dec_nat (n div 10) @ [48 + of_nat (n mod 10)]"
  by (subst dec_nat.simps, simp)+

lemma dec_nat_digits: "list_all is_digit (dec_nat n)"
  by (induction n rule: dec_nat_induct) (simp_all add: dec_nat_rec)

lemma dec_nat_nonempty [simp]: "dec_nat n \<noteq> []"
  by (subst dec_nat.simps) simp

definition digits_value :: "nat \<Rightarrow> bytes \<Rightarrow> nat" where
  "digits_value acc s = foldl (\<lambda>v c. v * 10 + (unat c - 48)) acc s"

lemma digits_value_simps [simp]:
  "digits_value acc [] = acc"
  "digits_value acc (c # s) = digits_value (acc * 10 + (unat c - 48)) s"
  "digits_value acc (s @ t) = digits_value (digits_value acc s) t"
  by (simp_all add: digits_value_def)

lemma digits_value_dec_nat: "digits_value 0 (dec_nat n) = n"
  by (induction n rule: dec_nat_induct) (simp_all add: dec_nat_rec)

lemma dec_nat_length: "n < 10 ^ k \<Longrightarrow> 0 < k \<Longrightarrow> length (dec_nat n) \<le> k"
proof (induction n arbitrary: k rule: dec_nat_induct)
  case (large n)
  then have "1 < k" by (cases "k = 1") auto
  moreover have "n div 10 < 10 ^ (k - 1)"
    using large.prems \<open>1 < k\<close> by (metis less_mult_imp_div_less mult.commute power_minus_mult)
  ultimately have "length (dec_nat (n div 10)) \<le> k - 1"
    using large.IH by simp
  with large(1) \<open>1 < k\<close> show ?case
    by (simp add: dec_nat_rec)
qed (simp add: dec_nat_rec)

lemma is_digit_unat: "is_digit c \<longleftrightarrow> 48 \<le> unat c \<and> unat c \<le> 57"
  by (simp add: is_digit_def word_le_nat_alt)

lemma is_digit_nonzero: "is_digit c \<Longrightarrow> c \<noteq> 0"
  by (auto simp: is_digit_unat)

lemma dec_nat_nul_free [simp]: "nul_free (dec_nat n)"
  using dec_nat_digits [of n] by (auto simp: nul_free_def list_all_iff is_digit_unat)

section \<open>\<^verbatim>\<open>strtol\<close>\<close>

text \<open>The C library's \<^verbatim>\<open>strtol\<close> for a 64 bit \<^verbatim>\<open>long\<close>: white space, a sign, the prefix
  of base 16, digits, and the nearest limit when the number is out of range. The second component
  is the pointer it stores, the start of the string when there is no digit.\<close>

definition is_space :: "u8 \<Rightarrow> bool" where
  "is_space c \<longleftrightarrow> c = 0x20 \<or> (9 \<le> c \<and> c \<le> 13)"

definition digit_value :: "u8 \<Rightarrow> nat" where
  "digit_value c =
     (if chr CHR ''0'' \<le> c \<and> c \<le> chr CHR ''9'' then unat c - 48
      else if chr CHR ''a'' \<le> c \<and> c \<le> chr CHR ''z'' then unat c - 87
      else if chr CHR ''A'' \<le> c \<and> c \<le> chr CHR ''Z'' then unat c - 55
      else 99)"

fun strtol_digits :: "nat \<Rightarrow> nat \<Rightarrow> bytes \<Rightarrow> nat \<times> bytes" where
  "strtol_digits base acc [] = (acc, [])"
| "strtol_digits base acc (c # s) =
     (if digit_value c < base then strtol_digits base (acc * base + digit_value c) s
      else (acc, c # s))"

definition strtol_prefix :: "nat \<Rightarrow> bytes \<Rightarrow> bytes" where
  "strtol_prefix base s =
     (if base = 16 \<and> deref s = chr CHR ''0'' \<and>
         (deref (tl s) = chr CHR ''x'' \<or> deref (tl s) = chr CHR ''X'') \<and>
         digit_value (deref (tl (tl s))) < 16
      then tl (tl s) else s)"

definition strtol :: "nat \<Rightarrow> bytes \<Rightarrow> int \<times> bytes" where
  "strtol base s =
     (let s1 = dropWhile is_space s;
          neg = (deref s1 = chr CHR ''-'');
          s2 = (if neg \<or> deref s1 = chr CHR ''+'' then tl s1 else s1);
          s3 = strtol_prefix base s2;
          (v, rest) = strtol_digits base 0 s3;
          n = (if neg then - int v else int v)
      in if rest = s3 then (0, s)
         else (max (- (2 ^ 63)) (min (2 ^ 63 - 1) n), rest))"

lemma strtol_digits_bound: "fst (strtol_digits base acc s) < (acc + 1) * base ^ length s \<or> base = 0"
proof (induction s arbitrary: acc)
  case (Cons c s)
  show ?case
  proof (cases "digit_value c < base")
    case True
    then have "(acc * base + digit_value c + 1) * base ^ length s \<le> ((acc + 1) * base) * base ^ length s"
      by (intro mult_le_mono1) simp
    then show ?thesis
      using True Cons.IH [of "acc * base + digit_value c"] by (auto simp: algebra_simps)
  next
    case False
    have "(acc + 1) * 1 \<le> (acc + 1) * base ^ length (c # s) \<or> base = 0"
      by (cases "base = 0") (auto intro!: mult_le_mono2 simp del: mult_Suc length_Cons)
    with False show ?thesis by auto
  qed
qed simp

lemma strtol_bound:
  assumes "0 < base"
  shows "\<bar>fst (strtol base s)\<bar> < int base ^ length s"
proof -
  define s1 where "s1 = dropWhile is_space s"
  define s2 where "s2 = (if deref s1 = chr CHR ''-'' \<or> deref s1 = chr CHR ''+'' then tl s1 else s1)"
  define s3 where "s3 = strtol_prefix base s2"
  obtain v rest where v: "strtol_digits base 0 s3 = (v, rest)" by force
  have "length s3 \<le> length s"
    using length_dropWhile_le [of is_space s]
    by (auto simp: s3_def s2_def s1_def strtol_prefix_def)
  then have "base ^ length s3 \<le> base ^ length s"
    using assms by (intro power_increasing) auto
  moreover have "v < base ^ length s3"
    using strtol_digits_bound [of base 0 s3] v assms by simp
  ultimately have "int v < int base ^ length s"
    by (metis of_nat_less_iff of_nat_power order_less_le_trans)
  moreover have "\<bar>fst (strtol base s)\<bar> \<le> int v"
    unfolding strtol_def Let_def s1_def [symmetric] s2_def [symmetric] s3_def [symmetric] v by (simp add: max_def min_def)
  ultimately show ?thesis
    by linarith
qed

section \<open>Runs\<close>

text \<open>A transition system with an invariant: it holds in every state that a run reaches.\<close>

locale invariant_of =
  fixes init :: 's and step :: "'s \<Rightarrow> 's \<Rightarrow> bool" and I :: "'s \<Rightarrow> bool"
  assumes init: "I init" and keep: "\<And>S S'. I S \<Longrightarrow> step S S' \<Longrightarrow> I S'"
begin

lemma run_keeps: "step\<^sup>*\<^sup>* S S' \<Longrightarrow> I S \<Longrightarrow> I S'"
  by (induction rule: rtranclp_induct) (auto intro: keep)

lemma reachable: "step\<^sup>*\<^sup>* init S \<Longrightarrow> I S"
  using run_keeps init by blast

end

end
