(* ===== verification/Utf8.thy ===== *)
theory Utf8
  imports Prelude
begin

text \<open>
  The UTF-8 and UCS-2 code of \<^verbatim>\<open>src/src/misc/str.c\<close>: the decoder \<open>utf8_get\<close>, the encoder
  \<open>utf8_put\<close>, the checks and converters built on them. A decoder call that advances a
  \<^verbatim>\<open>char **\<close> returns the new pointer beside its value. An encoder call that writes through a
  pointer returns the bytes it writes; the C return value is their number.
\<close>

section \<open>Decoder and encoder\<close>

text \<open>The continuation loop of \<open>utf8_get\<close> and the check for overlong forms after it.\<close>

fun utf8_tail :: "nat \<Rightarrow> int \<Rightarrow> int \<Rightarrow> bytes \<Rightarrow> int \<times> bytes" where
  "utf8_tail 0 r m s = (if r < m then 0xfffd else r, s)"
| "utf8_tail (Suc l) r m s =
     (let c = uint (deref s) in
      if c AND 0xc0 \<noteq> 0x80 then (0xfffd, s)
      else utf8_tail l (push_bit 6 r OR (c AND 0x3f)) m (tl s))"

definition utf8_get :: "bytes \<Rightarrow> int \<times> bytes" where
  "utf8_get s =
     (let c = uint (deref s); s' = tl s in
      if c \<le> 127 then (c, s')
      else if 194 \<le> c \<and> c \<le> 223 then utf8_tail 1 (c AND 0x1f) 0x80 s'
      else if 224 \<le> c \<and> c \<le> 239 then utf8_tail 2 (c AND 0x0f) 0x800 s'
      else if 240 \<le> c \<and> c \<le> 247 then utf8_tail 3 (c AND 0x07) 0x10000 s'
      else if 248 \<le> c \<and> c \<le> 251 then utf8_tail 4 (c AND 0x03) 0x200000 s'
      else if 252 \<le> c \<and> c \<le> 253 then utf8_tail 5 (c AND 0x01) 0x4000000 s'
      else (0xfffd, s'))"

definition utf8_put :: "int \<Rightarrow> bytes" where
  "utf8_put c =
     (if c = 0xfffe \<or> c = 0xffff \<or> (0xD800 \<le> c \<and> c < 0xE000) then []
      else if c < 0x80 then [word_of_int c]
      else if c < 0x800 then
        [word_of_int (0xc0 OR (0x1f AND drop_bit 6 c)),
         word_of_int (0x80 OR (0x3f AND c))]
      else if c < 0x10000 then
        [word_of_int (0xe0 OR (0x0f AND drop_bit 12 c)),
         word_of_int (0x80 OR (0x3f AND drop_bit 6 c)),
         word_of_int (0x80 OR (0x3f AND c))]
      else if c < 0x200000 then
        [word_of_int (0xf0 OR (0x07 AND drop_bit 18 c)),
         word_of_int (0x80 OR (0x3f AND drop_bit 12 c)),
         word_of_int (0x80 OR (0x3f AND drop_bit 6 c)),
         word_of_int (0x80 OR (0x3f AND c))]
      else if c < 0x4000000 then
        [word_of_int (0xf8 OR (0x03 AND drop_bit 24 c)),
         word_of_int (0x80 OR (0x3f AND drop_bit 18 c)),
         word_of_int (0x80 OR (0x3f AND drop_bit 12 c)),
         word_of_int (0x80 OR (0x3f AND drop_bit 6 c)),
         word_of_int (0x80 OR (0x3f AND c))]
      else
        [word_of_int (0xfc OR (0x01 AND drop_bit 30 c)),
         word_of_int (0x80 OR (0x3f AND drop_bit 24 c)),
         word_of_int (0x80 OR (0x3f AND drop_bit 18 c)),
         word_of_int (0x80 OR (0x3f AND drop_bit 12 c)),
         word_of_int (0x80 OR (0x3f AND drop_bit 6 c)),
         word_of_int (0x80 OR (0x3f AND c))])"

subsection \<open>Every call consumes what it read\<close>

lemma utf8_tail_length: "length (snd (utf8_tail l r m s)) \<le> length s"
proof (induction l arbitrary: r s)
  case (Suc l)
  have "length (snd (utf8_tail l r' m (tl s))) \<le> length s" for r'
    using Suc.IH [of r' "tl s"] by simp
  then show ?case
    by (simp add: Let_def)
qed simp

lemma utf8_tail_bounds:
  "0 \<le> r \<Longrightarrow> r < 2 ^ (31 - 6 * l) \<Longrightarrow> l \<le> 5 \<Longrightarrow>
     0 \<le> fst (utf8_tail l r m s) \<and> fst (utf8_tail l r m s) < 2 ^ 31"
proof (induction l arbitrary: r s)
  case (Suc l)
  let ?c = "uint (deref s) mod 64"
  have "r * 64 + ?c < (r + 1) * 64" by simp
  also have "\<dots> \<le> 2 ^ (31 - 6 * Suc l) * 64"
    using Suc.prems(2) by simp
  also have "\<dots> = (2 :: int) ^ (31 - 6 * Suc l + 6)"
    by (simp only: power_add) simp
  also have "31 - 6 * Suc l + 6 = 31 - 6 * l"
    using Suc.prems(3) by simp
  finally have "push_bit 6 r OR ?c < 2 ^ (31 - 6 * l)" and "0 \<le> push_bit 6 r OR ?c"
    using Suc.prems(1) by (simp_all add: bit_arith)
  with Suc.IH [of "push_bit 6 r OR ?c" "tl s"] Suc.prems(3) show ?case
    by (auto simp: Let_def bit_arith)
qed simp

lemma utf8_get_length: "length (snd (utf8_get s)) \<le> length (tl s)"
  unfolding utf8_get_def Let_def
  using utf8_tail_length [of _ _ _ "tl s"] by (simp del: utf8_tail.simps)

lemma utf8_get_less: "s \<noteq> [] \<Longrightarrow> length (snd (utf8_get s)) < length s"
  using utf8_get_length [of s] by (cases s) auto

lemma utf8_get_Nil [simp]: "utf8_get [] = (0, [])"
  by (simp add: utf8_get_def)

lemma utf8_get_nonzero_less: "fst (utf8_get s) \<noteq> 0 \<Longrightarrow> length (snd (utf8_get s)) < length s"
  by (rule utf8_get_less) auto

lemma utf8_get_pair_less: "(c, s') = utf8_get s \<Longrightarrow> c \<noteq> 0 \<Longrightarrow> length s' < length s"
  using utf8_get_nonzero_less [of s] by (metis fst_conv snd_conv)

lemma utf8_get_bounds: "0 \<le> fst (utf8_get s) \<and> fst (utf8_get s) < 2 ^ 31"
proof -
  have *: "0 \<le> fst (utf8_tail l (c mod k) m s) \<and> fst (utf8_tail l (c mod k) m s) < 2 ^ 31"
    if "0 < k" "k \<le> 2 ^ (31 - 6 * l)" "l \<le> 5" for l c k m s
  proof (rule utf8_tail_bounds)
    show "c mod k < 2 ^ (31 - 6 * l)"
      using that pos_mod_bound [of k c] by linarith
  qed (use that in simp_all)
  show ?thesis
    unfolding utf8_get_def Let_def bit_arith
    using *[of 32 1] *[of 16 2] *[of 8 3] *[of 4 4] *[of 2 5]
    by (auto split: if_split)
qed

subsection \<open>The encoder's bytes\<close>

lemma lead_or [bit_arith]:
  "0 \<le> x \<Longrightarrow> x < 32 \<Longrightarrow> 0xc0 OR x = (0xc0 + x :: int)"
  "0 \<le> x \<Longrightarrow> x < 16 \<Longrightarrow> 0xe0 OR x = (0xe0 + x :: int)"
  "0 \<le> x \<Longrightarrow> x < 8 \<Longrightarrow> 0xf0 OR x = (0xf0 + x :: int)"
  "0 \<le> x \<Longrightarrow> x < 4 \<Longrightarrow> 0xf8 OR x = (0xf8 + x :: int)"
  "0 \<le> x \<Longrightarrow> x < 2 \<Longrightarrow> 0xfc OR x = (0xfc + x :: int)"
  "0 \<le> x \<Longrightarrow> x < 64 \<Longrightarrow> 0x80 OR x = (0x80 + x :: int)"
  using or_add_int [of 5 "0xc0" x] or_add_int [of 4 "0xe0" x] or_add_int [of 3 "0xf0" x]
    or_add_int [of 2 "0xf8" x] or_add_int [of 1 "0xfc" x] or_add_int [of 6 "0x80" x]
  by simp_all

lemma and_push_bit: "(x :: int) AND push_bit n y = push_bit n (drop_bit n x AND y)"
  by (rule bit_eqI) (auto simp: bit_simps)

lemma cont_byte_and:
  assumes "0 \<le> x" and "x < 256"
  shows "x AND 0xc0 = 0x80 \<longleftrightarrow> 0x80 \<le> x \<and> x < (0xc0 :: int)"
proof -
  have "x AND 0xc0 = push_bit 6 (drop_bit 6 x AND 3)"
    using and_push_bit [of x 6 3] by (simp add: push_bit_eq_mult)
  also have "\<dots> = (x div 64) * 64"
    using assms by (simp add: bit_arith push_bit_eq_mult)
  finally show ?thesis
    using assms by auto
qed

lemma lead_uint:
  "uint (word_of_int (0x80 OR (0x3f AND x)) :: u8) = 0x80 + x mod 64"
  "uint (word_of_int (0xc0 OR (0x1f AND x)) :: u8) = 0xc0 + x mod 32"
  "uint (word_of_int (0xe0 OR (0x0f AND x)) :: u8) = 0xe0 + x mod 16"
  "uint (word_of_int (0xf0 OR (0x07 AND x)) :: u8) = 0xf0 + x mod 8"
  "uint (word_of_int (0xf8 OR (0x03 AND x)) :: u8) = 0xf8 + x mod 4"
  "uint (word_of_int (0xfc OR (0x01 AND x)) :: u8) = 0xfc + x mod 2"
  using uint_u8_of_int [of "0x80 + x mod 64"] uint_u8_of_int [of "0xc0 + x mod 32"]
    uint_u8_of_int [of "0xe0 + x mod 16"] uint_u8_of_int [of "0xf0 + x mod 8"]
    uint_u8_of_int [of "0xf8 + x mod 4"] uint_u8_of_int [of "0xfc + x mod 2"]
  by (simp_all add: low_bits_and lead_or)

lemma utf8_tail_byte:
  assumes "0x80 \<le> uint b" and "uint b < 0xc0"
  shows "utf8_tail (Suc l) r m (b # s) = utf8_tail l (r * 64 + uint b mod 64) m s"
proof -
  have "push_bit 6 r OR (uint b mod 64) = r * 64 + uint b mod 64"
    using push_or_int [of "uint b mod 64" 6 r] by simp
  then show ?thesis
    using assms by (simp add: and_low_bits cont_byte_and uint_u8_bound)
qed

lemma utf8_tail_cont [simp]:
  "utf8_tail (Suc l) r m (word_of_int (0x80 OR (0x3f AND x)) # s) =
     utf8_tail l (r * 64 + x mod 64) m s"
proof -
  define b :: u8 where "b = word_of_int (0x80 OR (0x3f AND x))"
  have b: "uint b = 0x80 + x mod 64"
    unfolding b_def by (rule lead_uint)
  moreover have "(0x80 + x mod 64) mod 64 = x mod 64"
    using mod_mult_self1 [of "x mod 64" 2 64] by (simp add: add.commute)
  ultimately show ?thesis
    using utf8_tail_byte [of b l r m s] by (simp flip: b_def)
qed

lemma horner_step: "0 < k \<Longrightarrow> (c :: int) div (k * 64) * 64 + c div k mod 64 = c div k"
  by (simp add: zdiv_zmult2_eq)

lemmas horner_steps =
  horner_step [of 1, simplified] horner_step [of 64, simplified] horner_step [of 4096, simplified]
  horner_step [of 262144, simplified] horner_step [of 16777216, simplified]

text \<open>The code points that \<open>utf8_put\<close> encodes: not a surrogate and not one of the two
  noncharacters it refuses.\<close>

definition encodable :: "int \<Rightarrow> bool" where
  "encodable c \<longleftrightarrow> 0 \<le> c \<and> c < 2 ^ 31 \<and> c \<noteq> 0xfffe \<and> c \<noteq> 0xffff \<and> \<not> (0xD800 \<le> c \<and> c < 0xE000)"


lemma mod_lead_add: "m = k * n \<Longrightarrow> (m + x mod n) mod n = x mod (n :: int)"
  by simp

lemma lead_mod:
  "(0xc0 + x mod 32) mod 32 = x mod (32 :: int)" "(0xe0 + x mod 16) mod 16 = x mod (16 :: int)"
  "(0xf0 + x mod 8) mod 8 = x mod (8 :: int)" "(0xf8 + x mod 4) mod 4 = x mod (4 :: int)"
  "(0xfc + x mod 2) mod 2 = x mod (2 :: int)"
  by (rule mod_lead_add [where k = 6], simp) (rule mod_lead_add [where k = 14], simp,
      rule mod_lead_add [where k = 30], simp, rule mod_lead_add [where k = 62], simp,
      rule mod_lead_add [where k = 126], simp)

text \<open>What the decoder does after each lead byte.\<close>

lemma utf8_get_range:
  "uint b \<le> 127 \<Longrightarrow> utf8_get (b # s) = (uint b, s)"
  "128 \<le> uint b \<Longrightarrow> uint b \<le> 193 \<Longrightarrow> utf8_get (b # s) = (0xfffd, s)"
  "194 \<le> uint b \<Longrightarrow> uint b \<le> 223 \<Longrightarrow> utf8_get (b # s) = utf8_tail 1 (uint b mod 32) 0x80 s"
  "224 \<le> uint b \<Longrightarrow> uint b \<le> 239 \<Longrightarrow> utf8_get (b # s) = utf8_tail 2 (uint b mod 16) 0x800 s"
  "240 \<le> uint b \<Longrightarrow> uint b \<le> 247 \<Longrightarrow> utf8_get (b # s) = utf8_tail 3 (uint b mod 8) 0x10000 s"
  "248 \<le> uint b \<Longrightarrow> uint b \<le> 251 \<Longrightarrow> utf8_get (b # s) = utf8_tail 4 (uint b mod 4) 0x200000 s"
  "252 \<le> uint b \<Longrightarrow> uint b \<le> 253 \<Longrightarrow> utf8_get (b # s) = utf8_tail 5 (uint b mod 2) 0x4000000 s"
  "254 \<le> uint b \<Longrightarrow> utf8_get (b # s) = (0xfffd, s)"
  by (simp_all add: utf8_get_def and_low_bits del: utf8_tail.simps)

lemma utf8_get_lead:
  "2 \<le> x mod 32 \<Longrightarrow> utf8_get (word_of_int (0xc0 OR (0x1f AND x)) # s) = utf8_tail 1 (x mod 32) 0x80 s"
  "utf8_get (word_of_int (0xe0 OR (0x0f AND x)) # s) = utf8_tail 2 (x mod 16) 0x800 s"
  "utf8_get (word_of_int (0xf0 OR (0x07 AND x)) # s) = utf8_tail 3 (x mod 8) 0x10000 s"
  "utf8_get (word_of_int (0xf8 OR (0x03 AND x)) # s) = utf8_tail 4 (x mod 4) 0x200000 s"
  "utf8_get (word_of_int (0xfc OR (0x01 AND x)) # s) = utf8_tail 5 (x mod 2) 0x4000000 s"
proof -
  have [simp]: "x mod 32 \<le> 31" "x mod 16 \<le> 15" "x mod 8 \<le> 7" "x mod 4 \<le> 3" "x mod 2 \<le> 1"
    using pos_mod_bound [of 32 x] pos_mod_bound [of 16 x] pos_mod_bound [of 8 x]
      pos_mod_bound [of 4 x] pos_mod_bound [of 2 x] by linarith+
  show "2 \<le> x mod 32 \<Longrightarrow> utf8_get (word_of_int (0xc0 OR (0x1f AND x)) # s) = utf8_tail 1 (x mod 32) 0x80 s"
    by (subst utf8_get_range(3)) ((simp_all only: lead_uint lead_mod)?, simp_all?)
  show "utf8_get (word_of_int (0xe0 OR (0x0f AND x)) # s) = utf8_tail 2 (x mod 16) 0x800 s"
    by (subst utf8_get_range(4)) ((simp_all only: lead_uint lead_mod)?, simp_all?)
  show "utf8_get (word_of_int (0xf0 OR (0x07 AND x)) # s) = utf8_tail 3 (x mod 8) 0x10000 s"
    by (subst utf8_get_range(5)) ((simp_all only: lead_uint lead_mod)?, simp_all?)
  show "utf8_get (word_of_int (0xf8 OR (0x03 AND x)) # s) = utf8_tail 4 (x mod 4) 0x200000 s"
    by (subst utf8_get_range(6)) ((simp_all only: lead_uint lead_mod)?, simp_all?)
  show "utf8_get (word_of_int (0xfc OR (0x01 AND x)) # s) = utf8_tail 5 (x mod 2) 0x4000000 s"
    by (subst utf8_get_range(7)) ((simp_all only: lead_uint lead_mod)?, simp_all?)
qed

lemma utf8_tail_cont_numeral [simp]:
  "utf8_tail (numeral k) r m (word_of_int (0x80 OR (0x3f AND x)) # s) =
     utf8_tail (pred_numeral k) (r * 64 + x mod 64) m s"
  by (simp only: numeral_eq_Suc utf8_tail_cont)

lemmas utf8_decode = utf8_tail.simps(1) utf8_tail_cont utf8_tail_cont_numeral pred_numeral_simps
  One_nat_def drop_bit_div

text \<open>Decoding what was encoded.\<close>

lemma utf8_get_put:
  assumes "encodable c"
  shows "utf8_get (utf8_put c @ s) = (c, s)"
proof -
  have c: "0 \<le> c" "c < 2147483648"
    and ok: "\<not> (c = 0xfffe \<or> c = 0xffff \<or> (0xD800 \<le> c \<and> c < 0xE000))"
    using assms by (auto simp: encodable_def)
  consider "c < 0x80" | "0x80 \<le> c" "c < 0x800" | "0x800 \<le> c" "c < 0x10000"
    | "0x10000 \<le> c" "c < 0x200000" | "0x200000 \<le> c" "c < 0x4000000" | "0x4000000 \<le> c"
    by linarith
  then show ?thesis
  proof cases
    case 1
    then show ?thesis
      using c unfolding utf8_put_def if_not_P [OF ok] by (simp add: utf8_get_range)
  next
    case 2
    have "c div 64 < 32" "2 \<le> c div 64"
      using 2 by simp_all
    then have "c div 64 mod 32 = c div 64" "2 \<le> c div 64 mod 32"
      by (simp_all add: mod_pos_pos_trivial)
    then show ?thesis
      using 2 horner_steps unfolding utf8_put_def if_not_P [OF ok]
      by (simp add: utf8_get_lead utf8_decode del: utf8_tail.simps(2))
  next
    case 3
    have "c div 4096 mod 16 = c div 4096"
      using 3 by (simp add: mod_pos_pos_trivial)
    then show ?thesis
      using 3 horner_steps unfolding utf8_put_def if_not_P [OF ok]
      by (simp add: utf8_get_lead utf8_decode del: utf8_tail.simps(2))
  next
    case 4
    have "c div 262144 mod 8 = c div 262144"
      using 4 by (simp add: mod_pos_pos_trivial)
    then show ?thesis
      using 4 horner_steps unfolding utf8_put_def if_not_P [OF ok]
      by (simp add: utf8_get_lead utf8_decode del: utf8_tail.simps(2))
  next
    case 5
    have "c div 16777216 mod 4 = c div 16777216"
      using 5 by (simp add: mod_pos_pos_trivial)
    then show ?thesis
      using 5 horner_steps unfolding utf8_put_def if_not_P [OF ok]
      by (simp add: utf8_get_lead utf8_decode del: utf8_tail.simps(2))
  next
    case 6
    have "c div 1073741824 mod 2 = c div 1073741824"
      using 6 c by (simp add: mod_pos_pos_trivial)
    then show ?thesis
      using 6 horner_steps unfolding utf8_put_def if_not_P [OF ok]
      by (simp add: utf8_get_lead utf8_decode del: utf8_tail.simps(2))
  qed
qed

subsection \<open>No code point has two encodings\<close>

lemma utf8_tail_upper:
  "0 \<le> r \<Longrightarrow> fst (utf8_tail l r m s) \<noteq> 0xfffd \<Longrightarrow>
     m \<le> fst (utf8_tail l r m s) \<and> fst (utf8_tail l r m s) < (r + 1) * 64 ^ l"
proof (induction l arbitrary: r s)
  case (Suc l)
  let ?b = "uint (deref s)"
  let ?r = "r * 64 + ?b mod 64"
  have cont: "?b AND 0xc0 = 0x80" and eq: "utf8_tail (Suc l) r m s = utf8_tail l ?r m (tl s)"
    using Suc.prems push_or_int [of "?b mod 64" 6 r]
    by (auto simp: Let_def and_low_bits split: if_splits)
  have le: "(?r + 1) * 64 ^ l \<le> ((r + 1) * 64) * 64 ^ l"
    using pos_mod_bound [of 64 ?b] by (intro mult_right_mono) auto
  have b: "m \<le> fst (utf8_tail l ?r m (tl s)) \<and> fst (utf8_tail l ?r m (tl s)) < (?r + 1) * 64 ^ l"
    using Suc.prems eq by (intro Suc.IH) auto
  show ?case
    unfolding eq power_Suc mult.assoc [symmetric] using b le by linarith
qed (auto split: if_splits)

lemma utf8_tail_inj:
  "utf8_tail l r m s = (c, u) \<Longrightarrow> utf8_tail l r' m t = (c, u) \<Longrightarrow> c \<noteq> 0xfffd \<Longrightarrow> r = r' \<and> s = t"
proof (induction l arbitrary: r r' s t)
  case 0
  then show ?case by (auto split: if_splits)
next
  case (Suc l)
  have step: "\<exists>b q. x = b # q \<and> 0x80 \<le> uint b \<and> uint b < 0xc0 \<and>
      utf8_tail l (k * 64 + uint b mod 64) m q = (c, u)"
    if "utf8_tail (Suc l) k m x = (c, u)" for k x
  proof -
    have "uint (deref x) AND 0xc0 = 0x80"
      using that Suc.prems(3) by (auto simp: Let_def split: if_splits)
    then have b: "0x80 \<le> uint (deref x)" "uint (deref x) < 0xc0"
      using cont_byte_and [of "uint (deref x)"] uint_u8_bound [of "deref x"] by auto
    then have "x = deref x # tl x"
      by (intro deref_nonzeroD) auto
    with that b utf8_tail_byte [of "deref x" l k m "tl x"] show ?thesis
      by metis
  qed
  obtain b q where s: "s = b # q" "0x80 \<le> uint b" "uint b < 0xc0"
    "utf8_tail l (r * 64 + uint b mod 64) m q = (c, u)"
    using step [OF Suc.prems(1)] by blast
  obtain b' q' where t: "t = b' # q'" "0x80 \<le> uint b'" "uint b' < 0xc0"
    "utf8_tail l (r' * 64 + uint b' mod 64) m q' = (c, u)"
    using step [OF Suc.prems(2)] by blast
  have eq: "r * 64 + uint b mod 64 = r' * 64 + uint b' mod 64" and "q = q'"
    using Suc.IH [OF s(4) t(4) Suc.prems(3)] by auto
  have "uint b mod 64 = uint b - 0x80" "uint b' mod 64 = uint b' - 0x80"
    using s(2,3) t(2,3) by (auto intro: int_mod_pos_eq [where q = 2])
  with eq s(2,3) t(2,3) have "r = r'"
    by linarith
  with eq \<open>uint b mod 64 = uint b - 0x80\<close> \<open>uint b' mod 64 = uint b' - 0x80\<close>
  have "uint b = uint b'"
    by simp
  with \<open>r = r'\<close> s t \<open>q = q'\<close> show ?case
    by (simp add: word_uint_eq_iff)
qed

text \<open>Lead bytes by the number of continuation bytes they announce: the first lead byte of the
  group and the least code point that may use it.\<close>

abbreviation lead_base :: "nat \<Rightarrow> int" where
  "lead_base l \<equiv> [0, 0xc0, 0xe0, 0xf0, 0xf8, 0xfc] ! l"

abbreviation lead_low :: "nat \<Rightarrow> int" where
  "lead_low l \<equiv> [0, 0x80, 0x800, 0x10000, 0x200000, 0x4000000, 0x80000000] ! l"

lemma utf8_get_form:
  assumes "fst (utf8_get (b # t)) \<noteq> 0xfffd"
  shows "\<exists>l \<le> 5. utf8_get (b # t) = utf8_tail l (uint b - lead_base l) (lead_low l) t \<and>
     lead_low l \<le> fst (utf8_get (b # t)) \<and> fst (utf8_get (b # t)) < lead_low (Suc l)"
proof -
  have form: ?thesis
    if "l \<le> 5" "utf8_get (b # t) = utf8_tail l (uint b - lead_base l) (lead_low l) t"
      "0 \<le> uint b - lead_base l" "(uint b - lead_base l + 1) * 64 ^ l \<le> lead_low (Suc l)" for l
  proof (intro exI [of _ l] conjI)
    have up: "lead_low l \<le> fst (utf8_get (b # t))"
      "fst (utf8_get (b # t)) < (uint b - lead_base l + 1) * 64 ^ l"
      using utf8_tail_upper [OF that(3)] assms unfolding that(2) by blast+
    show "lead_low l \<le> fst (utf8_get (b # t))"
      by (rule up(1))
    show "fst (utf8_get (b # t)) < lead_low (Suc l)"
      using up(2) that(4) by (rule order_less_le_trans)
  qed (use that in simp_all)
  have md: "(k + x) mod n = x" if "k = q * n" "0 \<le> x" "x < n" for k x n q :: int
    using that by simp
  have bad: "uint b \<le> 127 \<or> 194 \<le> uint b" "uint b \<le> 253"
    using assms utf8_get_range(2,8) [of b t] by force+
  consider "uint b \<le> 127" | "194 \<le> uint b" "uint b \<le> 223" | "224 \<le> uint b" "uint b \<le> 239"
    | "240 \<le> uint b" "uint b \<le> 247" | "248 \<le> uint b" "uint b \<le> 251" | "252 \<le> uint b" "uint b \<le> 253"
    using bad by linarith
  then show ?thesis
  proof cases
    case 1
    then show ?thesis by (intro form [of 0]) (simp_all add: utf8_get_range)
  next
    case 2
    then show ?thesis
      using md [of "0xc0" 6 32 "uint b - 0xc0"]
      by (intro form [of 1]) (simp_all add: utf8_get_range del: utf8_tail.simps)
  next
    case 3
    then show ?thesis
      using md [of "0xe0" 14 16 "uint b - 0xe0"]
      by (intro form [of 2]) (simp_all add: utf8_get_range del: utf8_tail.simps)
  next
    case 4
    then show ?thesis
      using md [of "0xf0" 30 8 "uint b - 0xf0"]
      by (intro form [of 3]) (simp_all add: utf8_get_range del: utf8_tail.simps)
  next
    case 5
    then show ?thesis
      using md [of "0xf8" 62 4 "uint b - 0xf8"]
      by (intro form [of 4]) (simp_all add: utf8_get_range del: utf8_tail.simps)
  next
    case 6
    then show ?thesis
      using md [of "0xfc" 126 2 "uint b - 0xfc"]
      by (intro form [of 5]) (simp_all add: utf8_get_range del: utf8_tail.simps)
  qed
qed

lemma utf8_get_inj:
  assumes "utf8_get s = (c, u)" "utf8_get t = (c, u)" "c \<noteq> 0xfffd" "s \<noteq> []" "t \<noteq> []"
  shows "s = t"
proof -
  obtain b x b' y where st: "s = b # x" "t = b' # y"
    using assms(4,5) by (meson neq_Nil_conv)
  obtain l where l: "l \<le> 5" "utf8_tail l (uint b - lead_base l) (lead_low l) x = (c, u)"
    "lead_low l \<le> c" "c < lead_low (Suc l)"
    using utf8_get_form [of b x] assms st by auto
  obtain l' where l': "l' \<le> 5" "utf8_tail l' (uint b' - lead_base l') (lead_low l') y = (c, u)"
    "lead_low l' \<le> c" "c < lead_low (Suc l')"
    using utf8_get_form [of b' y] assms st by auto
  have mono: "lead_low i \<le> lead_low j" if "i \<le> j" "j \<le> 6" for i j
    by (rule sorted_nth_mono) (use that in simp_all)
  have "\<not> l < l'" "\<not> l' < l"
    using mono [of "Suc l" l'] mono [of "Suc l'" l] l l' by auto
  then have "l' = l" by simp
  with l l' assms(3) have "uint b - lead_base l = uint b' - lead_base l \<and> x = y"
    by (intro utf8_tail_inj) auto
  with st show ?thesis
    by (simp add: word_uint_eq_iff)
qed

lemma utf8_get_canonical:
  assumes "s \<noteq> []" and "utf8_get s = (c, s')" and "c \<noteq> 0xfffd" and "encodable c"
  shows "s = utf8_put c @ s'"
proof -
  have "utf8_put c \<noteq> []"
    using assms(4) by (auto simp: utf8_put_def encodable_def)
  with assms show ?thesis
    by (intro utf8_get_inj [OF assms(2) utf8_get_put]) auto
qed

section \<open>Loops over a string\<close>

text \<open>The code points that a loop \<^verbatim>\<open>while((c = utf8_get(&s)) != 0)\<close> visits.\<close>

function utf8_codes :: "bytes \<Rightarrow> int list" where
  "utf8_codes s =
     (let (c, s') = utf8_get s in if c = 0 then [] else c # utf8_codes s')"
  by pat_completeness auto
termination
  by (relation "measure length") (auto dest: utf8_get_pair_less)

declare utf8_codes.simps [simp del]

function utf8_verify :: "bytes \<Rightarrow> bool" where
  "utf8_verify str =
     (let (c, str') = utf8_get str in
      if c = 0 then True else if c = 0xfffd then False else utf8_verify str')"
  by pat_completeness auto
termination
  by (relation "measure length") (auto dest: utf8_get_pair_less)

declare utf8_verify.simps [simp del]

text \<open>The first loop of \<open>utf8_cleanup\<close> measures the output and looks for errors, the second
  writes. The result is \<open>None\<close> for \<^verbatim>\<open>NULL\<close>, or the size passed to \<^verbatim>\<open>malloc\<close> and the bytes
  stored in that memory.\<close>

function utf8_cleanup_scan :: "bytes \<Rightarrow> nat \<Rightarrow> bool \<Rightarrow> nat \<times> bool" where
  "utf8_cleanup_scan s outlen bad =
     (let (c, s') = utf8_get s in
      if c = 0 then (outlen, bad)
      else utf8_cleanup_scan s' (outlen + length (utf8_put c)) (bad \<or> c = 0xfffd))"
  by pat_completeness auto
termination
  by (relation "measure (length \<circ> fst)") (auto dest: utf8_get_pair_less)

declare utf8_cleanup_scan.simps [simp del]

function utf8_cleanup_write :: "bytes \<Rightarrow> bytes" where
  "utf8_cleanup_write s =
     (let (c, s') = utf8_get s in
      if c = 0 then [0] else utf8_put c @ utf8_cleanup_write s')"
  by pat_completeness auto
termination
  by (relation "measure length") (auto dest: utf8_get_pair_less)

declare utf8_cleanup_write.simps [simp del]

definition utf8_cleanup :: "bytes \<Rightarrow> (nat \<times> bytes) option" where
  "utf8_cleanup str =
     (let (outlen, bad) = utf8_cleanup_scan str 1 False in
      if \<not> bad then None else Some (outlen, utf8_cleanup_write str))"

function utf8_to_ucs2 :: "bool \<Rightarrow> bytes \<Rightarrow> bytes option" where
  "utf8_to_ucs2 le src =
     (let (c, src') = utf8_get src in
      if c = 0 then Some [0, 0]
      else if 0xffff < c then None
      else map_option (\<lambda>dst. (if le then [word_of_int c, word_of_int (drop_bit 8 c)]
                             else [word_of_int (drop_bit 8 c), word_of_int c]) @ dst)
             (utf8_to_ucs2 le src'))"
  by pat_completeness auto
termination
  by (relation "measure (length \<circ> snd)") (auto dest: utf8_get_pair_less)

declare utf8_to_ucs2.simps [simp del]

function utf8_to_ascii :: "bytes \<Rightarrow> bytes option" where
  "utf8_to_ascii src =
     (let (c, src') = utf8_get src in
      if c = 0 then Some [0]
      else if 0xff < c then None
      else map_option (Cons (word_of_int c)) (utf8_to_ascii src'))"
  by pat_completeness auto
termination
  by (relation "measure length") (auto dest: utf8_get_pair_less)

declare utf8_to_ascii.simps [simp del]

text \<open>A 16 bit unit of the source: \<^verbatim>\<open>src[0] | src[1] << 8\<close> or the other way round.\<close>

definition ucs2_unit :: "bool \<Rightarrow> u8 \<Rightarrow> u8 \<Rightarrow> int" where
  "ucs2_unit le a b =
     (if le then push_bit 8 (uint b) OR uint a else push_bit 8 (uint a) OR uint b)"

text \<open>The bytes \<open>ucs2_to_utf8\<close> stores from \<^verbatim>\<open>dst\<close> on.\<close>

fun ucs2_to_utf8 :: "bool \<Rightarrow> nat \<Rightarrow> bytes \<Rightarrow> bytes" where
  "ucs2_to_utf8 le dstlen (a # b # src) =
     (if 3 < dstlen then
        let c = ucs2_unit le a b in
        if c = 0 then [0]
        else utf8_put c @ ucs2_to_utf8 le (dstlen - length (utf8_put c)) src
      else [0])"
| "ucs2_to_utf8 le dstlen src = [0]"

text \<open>The loops of \<open>utf16_to_utf8\<close>: the first sums the sizes, the second writes the same
  encodings and a terminating NUL into a buffer of that size.\<close>

fun utf16_len :: "bool \<Rightarrow> bytes \<Rightarrow> nat" where
  "utf16_len le (a # b # src) = length (utf8_put (ucs2_unit le a b)) + utf16_len le src"
| "utf16_len le src = 0"

fun utf16_write :: "bool \<Rightarrow> bytes \<Rightarrow> bytes" where
  "utf16_write le (a # b # src) = utf8_put (ucs2_unit le a b) @ utf16_write le src"
| "utf16_write le src = [0]"

definition utf16_to_utf8 :: "bytes \<Rightarrow> (nat \<times> bytes) option" where
  "utf16_to_utf8 src =
     (if length src < 2 then None
      else
        let (le, src') =
          (if src ! 0 = 0xff \<and> src ! 1 = 0xfe then (True, drop 2 src)
           else if src ! 0 = 0xfe \<and> src ! 1 = 0xff then (False, drop 2 src)
           else (False, src))
        in Some (utf16_len le src', utf16_write le src'))"

subsection \<open>The loops in terms of the code points they visit\<close>

lemma utf8_codes_range: "c \<in> set (utf8_codes s) \<Longrightarrow> 0 < c \<and> c < 2 ^ 31"
proof (induction s rule: utf8_codes.induct)
  case (1 s)
  obtain d s' where g: "utf8_get s = (d, s')" by force
  with "1.prems" have "d \<noteq> 0" "c = d \<or> c \<in> set (utf8_codes s')"
    by (auto simp: utf8_codes.simps [of s] split: if_splits)
  then show ?case
    using utf8_get_bounds [of s] "1.IH" [of "(d, s')" d s'] g by auto
qed

lemma utf8_verify_codes: "utf8_verify s \<longleftrightarrow> 0xfffd \<notin> set (utf8_codes s)"
proof (induction s rule: utf8_codes.induct)
  case (1 s)
  then show ?case
    by (subst utf8_codes.simps, subst utf8_verify.simps) (auto split: prod.splits)
qed

lemma utf8_cleanup_scan_codes:
  "utf8_cleanup_scan s n bad =
     (n + length (concat (map utf8_put (utf8_codes s))), bad \<or> 0xfffd \<in> set (utf8_codes s))"
proof (induction s n bad rule: utf8_cleanup_scan.induct)
  case (1 s n bad)
  then show ?case
    by (subst utf8_codes.simps, subst utf8_codes.simps, subst utf8_cleanup_scan.simps)
      (auto split: prod.splits)
qed

lemma utf8_cleanup_write_codes:
  "utf8_cleanup_write s = concat (map utf8_put (utf8_codes s)) @ [0]"
proof (induction s rule: utf8_codes.induct)
  case (1 s)
  then show ?case
    by (subst utf8_codes.simps, subst utf8_cleanup_write.simps) (auto split: prod.splits)
qed

lemma utf8_codes_zero [simp]: "utf8_codes (0 # s) = []" "utf8_codes [] = []"
  by (subst utf8_codes.simps, simp add: utf8_get_range)+

lemma utf8_codes_put: "encodable c \<Longrightarrow> c \<noteq> 0 \<Longrightarrow> utf8_codes (utf8_put c @ s) = c # utf8_codes s"
  by (subst utf8_codes.simps) (simp add: utf8_get_put)

lemma utf8_put_not_encodable: "0 \<le> c \<Longrightarrow> c < 2 ^ 31 \<Longrightarrow> \<not> encodable c \<Longrightarrow> utf8_put c = []"
  by (auto simp: encodable_def utf8_put_def)

lemma utf8_codes_encode:
  assumes "\<forall>c\<in>set cs. 0 < c \<and> c < 2 ^ 31" and "deref t = 0"
  shows "utf8_codes (concat (map utf8_put cs) @ t) = filter encodable cs"
  using assms(1)
proof (induction cs)
  case Nil
  then show ?case
    using assms(2) by (cases t) simp_all
next
  case (Cons c cs)
  then show ?case
    by (cases "encodable c") (auto simp: utf8_codes_put utf8_put_not_encodable)
qed

lemma concat_put_encodable:
  "\<forall>c\<in>set cs. 0 < c \<and> c < 2 ^ 31 \<Longrightarrow>
     concat (map utf8_put (filter encodable cs)) = concat (map utf8_put cs)"
  by (induction cs) (auto simp: utf8_put_not_encodable)

lemma utf8_put_nul_free: "c \<noteq> 0 \<Longrightarrow> 0 \<le> c \<Longrightarrow> nul_free (utf8_put c)"
proof -
  have nz: "b \<noteq> 0" if "0 < uint b" for b :: u8
    using that by auto
  show "c \<noteq> 0 \<Longrightarrow> 0 \<le> c \<Longrightarrow> nul_free (utf8_put c)"
    unfolding utf8_put_def
    by (auto simp: nul_free_def lead_uint add_pos_nonneg intro!: nz dest: sym [where s = 0])
qed

lemma utf8_get_zero: "fst (utf8_get s) = 0 \<Longrightarrow> deref s = 0"
proof (rule ccontr)
  assume z: "fst (utf8_get s) = 0" and nz: "deref s \<noteq> 0"
  let ?b = "deref s" and ?t = "tl s"
  have s: "s = ?b # ?t"
    using nz by (rule deref_nonzeroD)
  have "fst (utf8_get (?b # ?t)) \<noteq> 0xfffd"
    using z s by simp
  then obtain l where l: "utf8_get (?b # ?t) = utf8_tail l (uint ?b - lead_base l) (lead_low l) ?t"
    "lead_low l \<le> 0" "l \<le> 5"
    using utf8_get_form [of ?b ?t] z s by metis
  then have "l = 0"
    by (auto simp: nth_Cons' split: if_splits)
  with l(1) z s nz show False
    by (auto simp: unsigned_eq_0_iff split: if_splits)
qed

lemma utf8_verify_sound:
  assumes "utf8_verify s" and "\<forall>c\<in>set (utf8_codes s). encodable c"
  shows "c_str s = concat (map utf8_put (utf8_codes s))"
  using assms
proof (induction s rule: utf8_codes.induct)
  case (1 s)
  obtain c s' where g: "utf8_get s = (c, s')" by force
  show ?case
  proof (cases "c = 0")
    case True
    then show ?thesis
      using g utf8_get_zero [of s] by (subst utf8_codes.simps) (simp add: c_str_deref_zero)
  next
    case False
    with g have codes: "utf8_codes s = c # utf8_codes s'"
      by (subst utf8_codes.simps) simp
    with "1.prems" have "c \<noteq> 0xfffd" "encodable c" "utf8_verify s'"
      by (auto simp: utf8_verify_codes)
    moreover have "s \<noteq> []"
      using g False by auto
    ultimately have "s = utf8_put c @ s'" "nul_free (utf8_put c)"
      using g False by (auto intro: utf8_get_canonical utf8_put_nul_free simp: encodable_def)
    then have "c_str s = utf8_put c @ c_str s'"
      by simp
    moreover have "c_str s' = concat (map utf8_put (utf8_codes s'))"
      using "1.IH" [of "(c, s')"] g False "1.prems" codes \<open>utf8_verify s'\<close> by simp
    ultimately show ?thesis
      by (simp add: codes)
  qed
qed

lemma utf8_cleanup_Some:
  assumes "utf8_cleanup s = Some (n, b)"
  shows "length b = n \<and> utf8_codes b = filter encodable (utf8_codes s) \<and> utf8_cleanup b = Some (n, b)"
proof (intro conjI)
  have bad: "0xfffd \<in> set (utf8_codes s)"
    and n: "n = 1 + length (concat (map utf8_put (utf8_codes s)))"
    and b: "b = concat (map utf8_put (utf8_codes s)) @ [0]"
    using assms
    by (auto simp: utf8_cleanup_def utf8_cleanup_scan_codes utf8_cleanup_write_codes split: if_splits)
  have range: "\<forall>c\<in>set (utf8_codes s). 0 < c \<and> c < 2 ^ 31"
    using utf8_codes_range by blast
  show "length b = n"
    by (simp add: n b)
  show codes: "utf8_codes b = filter encodable (utf8_codes s)"
    unfolding b by (rule utf8_codes_encode [OF range]) simp
  have "0xfffd \<in> set (utf8_codes b)"
    using bad by (simp add: codes encodable_def)
  moreover have "concat (map utf8_put (utf8_codes b)) = concat (map utf8_put (utf8_codes s))"
    unfolding codes by (rule concat_put_encodable [OF range])
  ultimately show "utf8_cleanup b = Some (n, b)"
    unfolding utf8_cleanup_def utf8_cleanup_scan_codes utf8_cleanup_write_codes
    by (simp add: n flip: b)
qed

subsection \<open>UCS-2 and UTF-16\<close>

lemma utf8_put_length: "length (utf8_put c) \<le> (if c < 0x10000 then 3 else 6)"
  by (simp add: utf8_put_def)

lemma ucs2_unit_range: "0 \<le> ucs2_unit le a b \<and> ucs2_unit le a b < 0x10000"
proof -
  have "0 \<le> push_bit 8 (uint x) OR uint y \<and> push_bit 8 (uint x) OR uint y < 0x10000" for x y :: u8
    using uint_u8_bound [of x] uint_u8_bound [of y] push_or_int [of "uint y" 8 "uint x"] by simp
  then show ?thesis
    by (simp add: ucs2_unit_def)
qed

lemma ucs2_unit_split:
  assumes "0 \<le> c" "c \<le> 0xffff"
  shows "ucs2_unit True (word_of_int c) (word_of_int (drop_bit 8 c)) = c"
    and "ucs2_unit False (word_of_int (drop_bit 8 c)) (word_of_int c) = c"
proof -
  have "uint (word_of_int c :: u8) = c mod 256" "uint (word_of_int (drop_bit 8 c) :: u8) = c div 256"
    using assms by (simp_all add: uint_word_of_int drop_bit_div)
  moreover have "push_bit 8 (c div 256) OR (c mod 256) = c"
    using push_or_int [of "c mod 256" 8 "c div 256"] by simp
  ultimately show "ucs2_unit True (word_of_int c) (word_of_int (drop_bit 8 c)) = c"
    "ucs2_unit False (word_of_int (drop_bit 8 c)) (word_of_int c) = c"
    by (simp_all add: ucs2_unit_def)
qed

lemma ucs2_to_utf8_fits: "0 < dstlen \<Longrightarrow> length (ucs2_to_utf8 le dstlen src) \<le> dstlen"
proof (induction le dstlen src rule: ucs2_to_utf8.induct)
  case (1 le dstlen a b src)
  let ?p = "utf8_put (ucs2_unit le a b)"
  have "length ?p \<le> 3"
    using utf8_put_length [of "ucs2_unit le a b"] ucs2_unit_range [of le a b] by simp
  then show ?case
    using 1 by (auto simp: Let_def)
qed simp_all

lemma utf8_to_ucs2_codes:
  "\<forall>c\<in>set (utf8_codes s). c \<le> 0xffff \<Longrightarrow>
     \<exists>d. utf8_to_ucs2 le s = Some d \<and>
       (\<forall>n. length (concat (map utf8_put (utf8_codes s))) + 4 \<le> n \<longrightarrow>
          ucs2_to_utf8 le n d = concat (map utf8_put (utf8_codes s)) @ [0])"
proof (induction s rule: utf8_codes.induct)
  case (1 s)
  obtain c s' where g: "utf8_get s = (c, s')" by force
  show ?case
  proof (cases "c = 0")
    case True
    then show ?thesis
      using g by (simp add: utf8_codes.simps [of s] utf8_to_ucs2.simps [of le s] ucs2_unit_def)
  next
    case False
    with g have codes: "utf8_codes s = c # utf8_codes s'"
      by (subst utf8_codes.simps) simp
    with "1.prems" have c: "0 \<le> c" "c \<le> 0xffff"
      using utf8_get_bounds [of s] g by auto
    obtain d where d: "utf8_to_ucs2 le s' = Some d"
      and conv: "\<And>n. length (concat (map utf8_put (utf8_codes s'))) + 4 \<le> n \<Longrightarrow>
          ucs2_to_utf8 le n d = concat (map utf8_put (utf8_codes s')) @ [0]"
      using "1.IH" [of "(c, s')" c s'] g False "1.prems" codes by auto
    show ?thesis
      using c False g d ucs2_unit_split [OF c] conv
      by (subst utf8_to_ucs2.simps) (auto simp: codes)
  qed
qed

lemma utf16_write_length: "length (utf16_write le src) = Suc (utf16_len le src)"
  by (induction le src rule: utf16_write.induct) simp_all

section \<open>Properties\<close>



text \<open>
  The decoder accepts only the shortest form: a byte sequence that decodes to a code
  point of the encoder, other than the replacement character it also uses to report an error, is
  exactly the sequence the encoder writes for it. Overlong forms are therefore never accepted.
\<close>

theorem utf8_shortest_form_only:
  assumes "s \<noteq> []" and "utf8_get s = (c, s')" and "c \<noteq> 0xfffd" and "encodable c"
  shows "s = utf8_put c @ s'"
  using assms by (rule utf8_get_canonical)

text \<open>
  A string that passes \<open>utf8_verify\<close> and holds no surrogate or noncharacter is the
  concatenation of the encodings of its code points: the check accepts well formed UTF-8 only.
\<close>

theorem utf8_verify_wellformed:
  assumes "utf8_verify s" and "\<forall>c\<in>set (utf8_codes s). encodable c"
  shows "c_str s = concat (map utf8_put (utf8_codes s))"
  using assms by (rule utf8_verify_sound)

text \<open>
  When \<open>utf8_cleanup\<close> returns a repaired string, the memory it allocated is filled
  exactly, terminator included; the result reads as the input's code points (each bad sequence as
  one replacement character) less those UTF-8 does not encode; and cleaning it again changes
  nothing.
\<close>

theorem utf8_cleanup_repairs:
  assumes "utf8_cleanup s = Some (n, b)"
  shows "length b = n \<and> utf8_codes b = filter encodable (utf8_codes s) \<and> utf8_cleanup b = Some (n, b)"
  using assms by (rule utf8_cleanup_Some)

text \<open>
  A well formed string of the basic multilingual plane survives the conversion to
  UCS-2 and back, in either byte order, when the destination has room.
\<close>

theorem utf8_ucs2_roundtrip:
  assumes "utf8_verify s" and "\<forall>c\<in>set (utf8_codes s). encodable c \<and> c \<le> 0xffff"
    and "length (c_str s) + 4 \<le> n"
  shows "\<exists>d. utf8_to_ucs2 le s = Some d \<and> ucs2_to_utf8 le n d = c_str s @ [0]"
proof -
  have "c_str s = concat (map utf8_put (utf8_codes s))"
    using assms by (auto intro: utf8_verify_sound)
  with assms(2,3) utf8_to_ucs2_codes [of s le] show ?thesis
    by auto
qed

end
