(* ===== verification/Url.thy ===== *)
theory Url
  imports Prelude
begin

text \<open>
  URL escaping and resolution from \<^verbatim>\<open>src/src/misc/str.c\<close>: \<open>str_cleanup\<close>, \<open>url_deescape\<close>,
  \<open>url_escape\<close> with its three tables and \<open>url_resolve_relative\<close>. Functions that write into a
  caller's buffer take the buffer's contents and give the new contents, or \<open>None\<close> for a store
  outside it, so that a theorem can say that no such store happens.
\<close>

section \<open>Stores into a buffer\<close>

definition store :: "nat \<Rightarrow> u8 \<Rightarrow> bytes \<Rightarrow> bytes option" where
  "store i v dst = (if i < length dst then Some (dst[i := v]) else None)"

fun store_bytes :: "nat \<Rightarrow> bytes \<Rightarrow> bytes \<Rightarrow> bytes option" where
  "store_bytes i [] dst = Some dst"
| "store_bytes i (v # vs) dst =
     (case store i v dst of None \<Rightarrow> None | Some dst' \<Rightarrow> store_bytes (Suc i) vs dst')"

lemma store_bytes_Some:
  "i + length vs \<le> length dst \<Longrightarrow>
     store_bytes i vs dst = Some (take i dst @ vs @ drop (i + length vs) dst)"
proof (induction vs arbitrary: i dst)
  case (Cons v vs)
  then have "i < length dst" by simp
  with Cons show ?case
    by (simp add: store_def take_Suc_conv_app_nth upd_conv_take_nth_drop add.commute)
qed simp

lemma store_bytes_length: "store_bytes i vs dst = Some dst' \<Longrightarrow> length dst' = length dst"
  by (induction vs arbitrary: i dst) (auto simp: store_def split: option.splits if_splits)

section \<open>Definitions\<close>

fun str_cleanup :: "bytes \<Rightarrow> bytes \<Rightarrow> bytes" where
  "str_cleanup [] forbidden = []"
| "str_cleanup (c # s) forbidden =
     (if c = 0 then []
      else (if c \<in> set (c_str forbidden) then chr CHR ''_'' else c) # str_cleanup s forbidden)"

text \<open>One \<^verbatim>\<open>switch\<close> of \<open>url_deescape\<close> on a hexadecimal digit; \<open>None\<close> is its \<^verbatim>\<open>default\<close>.\<close>

definition url_nibble :: "u8 \<Rightarrow> u8 option" where
  "url_nibble c =
     (if chr CHR ''0'' \<le> c \<and> c \<le> chr CHR ''9'' then Some (c - chr CHR ''0'')
      else if chr CHR ''a'' \<le> c \<and> c \<le> chr CHR ''f'' then Some (c - chr CHR ''a'' + 10)
      else if chr CHR ''A'' \<le> c \<and> c \<le> chr CHR ''F'' then Some (c - chr CHR ''A'' + 10)
      else None)"

function url_deescape :: "bytes \<Rightarrow> bytes" where
  "url_deescape s =
     (if deref s = 0 then []
      else if deref s = chr CHR ''+'' then chr CHR '' '' # url_deescape (tl s)
      else if deref s = chr CHR ''%'' then
        (case url_nibble (deref (tl s)) of None \<Rightarrow> []
         | Some hi \<Rightarrow>
            (case url_nibble (deref (tl (tl s))) of None \<Rightarrow> []
             | Some lo \<Rightarrow> (push_bit 4 hi OR lo) # url_deescape (tl (tl (tl s)))))
      else deref s # url_deescape (tl s))"
  by pat_completeness auto
termination
  by (relation "measure length") (auto simp: deref_def split: list.splits)

declare url_deescape.simps [simp del]

definition hexchars :: bytes where
  "hexchars = cstr ''0123456789ABCDEF''"

definition url_escape_param :: "nat list" where
  "url_escape_param =
    [0, 0, 0, 0, 0, 0, 0, 0, 0, 0, 0, 0, 0, 0, 0, 0,
     0, 0, 0, 0, 0, 0, 0, 0, 0, 0, 0, 0, 0, 0, 0, 0,
     2, 0, 0, 0, 0, 0, 0, 0, 0, 0, 0, 0, 0, 1, 1, 0,
     1, 1, 1, 1, 1, 1, 1, 1, 1, 1, 0, 0, 0, 0, 0, 0,
     0, 1, 1, 1, 1, 1, 1, 1, 1, 1, 1, 1, 1, 1, 1, 1,
     1, 1, 1, 1, 1, 1, 1, 1, 1, 1, 1, 0, 0, 0, 0, 1,
     0, 1, 1, 1, 1, 1, 1, 1, 1, 1, 1, 1, 1, 1, 1, 1,
     1, 1, 1, 1, 1, 1, 1, 1, 1, 1, 1, 0, 0, 0, 1, 0,
     0, 0, 0, 0, 0, 0, 0, 0, 0, 0, 0, 0, 0, 0, 0, 0,
     0, 0, 0, 0, 0, 0, 0, 0, 0, 0, 0, 0, 0, 0, 0, 0,
     0, 0, 0, 0, 0, 0, 0, 0, 0, 0, 0, 0, 0, 0, 0, 0,
     0, 0, 0, 0, 0, 0, 0, 0, 0, 0, 0, 0, 0, 0, 0, 0,
     0, 0, 0, 0, 0, 0, 0, 0, 0, 0, 0, 0, 0, 0, 0, 0,
     0, 0, 0, 0, 0, 0, 0, 0, 0, 0, 0, 0, 0, 0, 0, 0,
     0, 0, 0, 0, 0, 0, 0, 0, 0, 0, 0, 0, 0, 0, 0, 0,
     0, 0, 0, 0, 0, 0, 0, 0, 0, 0, 0, 0, 0, 0, 0, 0]"

definition url_escape_path :: "nat list" where
  "url_escape_path =
    [0, 0, 0, 0, 0, 0, 0, 0, 0, 0, 0, 0, 0, 0, 0, 0,
     0, 0, 0, 0, 0, 0, 0, 0, 0, 0, 0, 0, 0, 0, 0, 0,
     0, 0, 0, 0, 0, 0, 0, 0, 0, 0, 0, 0, 0, 1, 1, 1,
     1, 1, 1, 1, 1, 1, 1, 1, 1, 1, 0, 0, 0, 0, 0, 0,
     0, 1, 1, 1, 1, 1, 1, 1, 1, 1, 1, 1, 1, 1, 1, 1,
     1, 1, 1, 1, 1, 1, 1, 1, 1, 1, 1, 0, 0, 0, 0, 1,
     0, 1, 1, 1, 1, 1, 1, 1, 1, 1, 1, 1, 1, 1, 1, 1,
     1, 1, 1, 1, 1, 1, 1, 1, 1, 1, 1, 0, 0, 0, 1, 0,
     0, 0, 0, 0, 0, 0, 0, 0, 0, 0, 0, 0, 0, 0, 0, 0,
     0, 0, 0, 0, 0, 0, 0, 0, 0, 0, 0, 0, 0, 0, 0, 0,
     0, 0, 0, 0, 0, 0, 0, 0, 0, 0, 0, 0, 0, 0, 0, 0,
     0, 0, 0, 0, 0, 0, 0, 0, 0, 0, 0, 0, 0, 0, 0, 0,
     0, 0, 0, 0, 0, 0, 0, 0, 0, 0, 0, 0, 0, 0, 0, 0,
     0, 0, 0, 0, 0, 0, 0, 0, 0, 0, 0, 0, 0, 0, 0, 0,
     0, 0, 0, 0, 0, 0, 0, 0, 0, 0, 0, 0, 0, 0, 0, 0,
     0, 0, 0, 0, 0, 0, 0, 0, 0, 0, 0, 0, 0, 0, 0, 0]"

definition url_escape_space_only :: "nat list" where
  "url_escape_space_only =
    [0, 0, 0, 0, 0, 0, 0, 0, 0, 0, 0, 0, 0, 0, 0, 0,
     0, 0, 0, 0, 0, 0, 0, 0, 0, 0, 0, 0, 0, 0, 0, 0,
     0, 1, 1, 1, 1, 1, 1, 1, 1, 1, 1, 1, 1, 1, 1, 1,
     1, 1, 1, 1, 1, 1, 1, 1, 1, 1, 1, 1, 1, 1, 1, 1,
     1, 1, 1, 1, 1, 1, 1, 1, 1, 1, 1, 1, 1, 1, 1, 1,
     1, 1, 1, 1, 1, 1, 1, 1, 1, 1, 1, 1, 1, 1, 1, 1,
     1, 1, 1, 1, 1, 1, 1, 1, 1, 1, 1, 1, 1, 1, 1, 1,
     1, 1, 1, 1, 1, 1, 1, 1, 1, 1, 1, 1, 1, 1, 1, 1,
     1, 1, 1, 1, 1, 1, 1, 1, 1, 1, 1, 1, 1, 1, 1, 1,
     1, 1, 1, 1, 1, 1, 1, 1, 1, 1, 1, 1, 1, 1, 1, 1,
     1, 1, 1, 1, 1, 1, 1, 1, 1, 1, 1, 1, 1, 1, 1, 1,
     1, 1, 1, 1, 1, 1, 1, 1, 1, 1, 1, 1, 1, 1, 1, 1,
     1, 1, 1, 1, 1, 1, 1, 1, 1, 1, 1, 1, 1, 1, 1, 1,
     1, 1, 1, 1, 1, 1, 1, 1, 1, 1, 1, 1, 1, 1, 1, 1,
     1, 1, 1, 1, 1, 1, 1, 1, 1, 1, 1, 1, 1, 1, 1, 1,
     1, 1, 1, 1, 1, 1, 1, 1, 1, 1, 1, 1, 1, 1, 1, 1]"

datatype url_escape_how = URL_ESCAPE_PATH | URL_ESCAPE_PARAM | URL_ESCAPE_SPACE_ONLY

definition url_escape_table :: "url_escape_how \<Rightarrow> nat list" where
  "url_escape_table how =
     (case how of
        URL_ESCAPE_PATH \<Rightarrow> url_escape_path
      | URL_ESCAPE_PARAM \<Rightarrow> url_escape_param
      | URL_ESCAPE_SPACE_ONLY \<Rightarrow> url_escape_space_only)"

text \<open>The loop of \<open>url_escape\<close>: \<open>r\<close> counts the bytes of the whole result, stored or not. A
  store happens only while it leaves room for the terminator.\<close>

fun url_escape_loop :: "nat list \<Rightarrow> int \<Rightarrow> bytes \<Rightarrow> nat \<Rightarrow> bytes \<Rightarrow> (nat \<times> bytes) option" where
  "url_escape_loop table dsize [] r dst = Some (r, dst)"
| "url_escape_loop table dsize (s # src) r dst =
     (if s = 0 then Some (r, dst)
      else if table ! unat s = 0 then
        (if int r < dsize - 3 then
           case store_bytes r [chr CHR ''%'', hexchars ! unat (drop_bit 4 s AND 0xf), hexchars ! unat (s AND 0xf)] dst of
             None \<Rightarrow> None
           | Some dst' \<Rightarrow> url_escape_loop table dsize src (r + 3) dst'
         else url_escape_loop table dsize src (r + 3) dst)
      else
        (let c = (if table ! unat s = 2 then chr CHR ''+'' else s) in
         if int r < dsize - 1 then
           case store r c dst of
             None \<Rightarrow> None
           | Some dst' \<Rightarrow> url_escape_loop table dsize src (r + 1) dst'
         else url_escape_loop table dsize src (r + 1) dst))"

text \<open>\<open>url_escape dst dsize src how\<close> as the returned size and the buffer afterwards.\<close>

definition url_escape :: "bytes \<Rightarrow> int \<Rightarrow> bytes \<Rightarrow> url_escape_how \<Rightarrow> (nat \<times> bytes) option" where
  "url_escape dst dsize src how =
     (case url_escape_loop (url_escape_table how) dsize src 0 dst of
        None \<Rightarrow> None
      | Some (r, dst') \<Rightarrow>
          (if int r < dsize then
             case store r 0 dst' of None \<Rightarrow> None | Some dst'' \<Rightarrow> Some (r + 1, dst'')
           else Some (r + 1, dst')))"

text \<open>What the escaped form of a byte and of a string is, without a buffer.\<close>

definition escape_byte :: "nat list \<Rightarrow> u8 \<Rightarrow> bytes" where
  "escape_byte table s =
     (if table ! unat s = 0 then
        [chr CHR ''%'', hexchars ! unat (drop_bit 4 s AND 0xf), hexchars ! unat (s AND 0xf)]
      else if table ! unat s = 2 then [chr CHR ''+''] else [s])"

definition escaped :: "nat list \<Rightarrow> bytes \<Rightarrow> bytes" where
  "escaped table src = concat (map (escape_byte table) (c_str src))"

text \<open>\<open>url_resolve_relative\<close> builds its result in \<^verbatim>\<open>char out[512]\<close>. \<open>Url_Oob\<close> stands for a store
  behind that array: \<^verbatim>\<open>snprintf\<close> gives the length it would have written, and when that is more
  than 512 the size passed to the second call, an unsigned difference, is huge.\<close>

datatype url_result = Url_Ret bytes | Url_Null | Url_Oob

fun contains :: "bytes \<Rightarrow> bytes \<Rightarrow> bool" where
  "contains [] needle \<longleftrightarrow> needle = []"
| "contains (c # s) needle \<longleftrightarrow> take (length needle) (c # s) = needle \<or> contains s needle"

text \<open>The bytes up to and with the last \<^verbatim>\<open>'/'\<close>: \<^verbatim>\<open>strrchr\<close> and the copy after it.\<close>

definition dir_part :: "bytes \<Rightarrow> bytes option" where
  "dir_part path =
     (if chr CHR ''/'' \<in> set path
      then Some (rev (dropWhile (\<lambda>c. c \<noteq> chr CHR ''/'') (rev path))) else None)"

definition url_prefix :: "bytes \<Rightarrow> bytes \<Rightarrow> int \<Rightarrow> bytes" where
  "url_prefix proto hostname port =
     proto @ cstr ''://'' @ hostname @ (if port \<noteq> -1 then chr CHR '':'' # dec_int port else [])"

definition url_resolve_relative :: "bytes \<Rightarrow> bytes \<Rightarrow> int \<Rightarrow> bytes \<Rightarrow> bytes \<Rightarrow> url_result" where
  "url_resolve_relative proto hostname port path ref =
     (if contains ref (cstr ''://'') then Url_Ret ref
      else
        let p = url_prefix proto hostname port; l = length p;
            rest = (if l < 512 then Url_Ret (p @ take (511 - l) ref)
                    else if l = 512 then Url_Ret (take 511 p)
                    else Url_Oob)
        in
        if deref ref \<noteq> chr CHR ''/'' then
          (case dir_part path of
             Some dir \<Rightarrow>
               (if length dir + l > 511 then Url_Null
                else if length ref + 1 + (l + length dir) > 511 then Url_Null
                else Url_Ret (p @ dir @ ref))
           | None \<Rightarrow> rest)
        else rest)"

section \<open>Escaping\<close>

lemma nibble_less [byte_simps]: "unat ((x :: u8) AND 0xf) < 16"
proof -
  have "unat (x AND 0xf) \<le> unat (0xf :: u8)"
    using word_and_le1 word_le_nat_alt by blast
  then show ?thesis by simp
qed

lemma url_nibble_hexchars: "n < 16 \<Longrightarrow> url_nibble (hexchars ! n) = Some (of_nat n)"
proof -
  have "list_all (\<lambda>n. url_nibble (hexchars ! n) = Some (of_nat n)) [0..<16]"
    by code_simp
  then show "n < 16 \<Longrightarrow> ?thesis"
    by (simp add: list_all_iff)
qed

lemma nibbles_join: "push_bit 4 (drop_bit 4 (s :: u8) AND 0xf) OR (s AND 0xf) = s"
proof -
  have nib: "x AND 0xf = take_bit 4 x" for x :: u8
    by (simp add: take_bit_eq_mask mask_eq_exp_minus_1)
  show ?thesis
    unfolding nib by (auto intro!: bit_word_eqI simp: bit_simps)
qed

text \<open>What makes a table invertible: a byte kept as it is means itself to \<open>url_deescape\<close>, and only
  a space becomes a plus sign.\<close>

definition invertible :: "nat list \<Rightarrow> bool" where
  "invertible table \<longleftrightarrow>
     list_all (\<lambda>i. (table ! i = 2 \<longrightarrow> i = 0x20) \<and>
                   (table ! i \<noteq> 0 \<longrightarrow> i \<noteq> 0x25 \<and> i \<noteq> 0x2b)) [0..<256]"

lemma url_tables_invertible: "invertible url_escape_path" "invertible url_escape_param"
  unfolding invertible_def url_escape_path_def url_escape_param_def by code_simp+

lemma unat_u8_less [byte_simps]: "unat (c :: u8) < 256"
  using unsigned_less [of c, where 'a = nat] by simp

lemma invertibleD:
  fixes c :: u8
  assumes "invertible table"
  shows "table ! unat c = 2 \<Longrightarrow> c = 0x20" "table ! unat c \<noteq> 0 \<Longrightarrow> c \<noteq> 0x25 \<and> c \<noteq> 0x2b"
  using assms unat_u8_less [of c]
  by (auto simp: invertible_def list_all_iff word_unat_eq_iff)

lemma url_deescape_escape_byte:
  assumes "invertible table" and "c \<noteq> 0"
  shows "url_deescape (escape_byte table c @ t) = c # url_deescape t"
  using assms(2) invertibleD [OF assms(1), of c]
    url_nibble_hexchars [OF nibble_less, of "drop_bit 4 c"] url_nibble_hexchars [OF nibble_less, of c]
    nibbles_join [of c]
  by (subst url_deescape.simps) (auto simp: escape_byte_def)

lemma url_deescape_escaped:
  assumes "invertible table" and "deref t = 0"
  shows "url_deescape (escaped table src @ t) = c_str src"
proof -
  have "nul_free s \<Longrightarrow> url_deescape (concat (map (escape_byte table) s) @ t) = s" for s
  proof (induction s)
    case Nil
    then show ?case
      using assms(2) by (subst url_deescape.simps) simp
  next
    case (Cons c s)
    then show ?case
      using url_deescape_escape_byte [OF assms(1), of c] by simp
  qed
  then show ?thesis
    by (simp add: escaped_def)
qed

section \<open>The buffer\<close>

lemma escaped_simps [simp]:
  "escaped table [] = []"
  "escaped table (0 # src) = []"
  "c \<noteq> 0 \<Longrightarrow> escaped table (c # src) = escape_byte table c @ escaped table src"
  by (simp_all add: escaped_def)

lemma take_split: "i \<le> j \<Longrightarrow> take j xs = take i xs @ take (j - i) (drop i xs)"
  by (metis append_take_drop_id le_add_diff_inverse take_add)

text \<open>The loop stays inside a buffer of \<open>dsize\<close> bytes, counts the whole escaped string, and writes
  all of it when there is room for it and the terminator.\<close>

lemma url_escape_loop_buffer:
  assumes "int (length dst) = dsize"
  shows "\<exists>dst'. url_escape_loop table dsize src r dst = Some (r + length (escaped table src), dst') \<and>
     length dst' = length dst \<and>
     (r + length (escaped table src) < length dst \<longrightarrow>
        take (r + length (escaped table src)) dst' = take r dst @ escaped table src)"
  using assms
proof (induction src arbitrary: r dst)
  case (Cons c src)
  let ?e = "escape_byte table c"
  show ?case
  proof (cases "c = 0")
    case False
    have len: "length ?e = (if table ! unat c = 0 then 3 else 1)"
      by (simp add: escape_byte_def)
    show ?thesis
    proof (cases "r + length ?e < length dst")
      case True
      let ?d = "take r dst @ ?e @ drop (r + length ?e) dst"
      have st: "store_bytes r ?e dst = Some ?d"
        using True by (intro store_bytes_Some) simp
      have step: "url_escape_loop table dsize (c # src) r dst = url_escape_loop table dsize src (r + length ?e) ?d"
        using True False st Cons.prems len by (auto simp: escape_byte_def Let_def split: option.splits if_splits)
      obtain dst' where "url_escape_loop table dsize src (r + length ?e) ?d =
            Some (r + length ?e + length (escaped table src), dst')" "length dst' = length ?d"
          "r + length ?e + length (escaped table src) < length ?d \<longrightarrow>
             take (r + length ?e + length (escaped table src)) dst' = take (r + length ?e) ?d @ escaped table src"
        using Cons.IH [of ?d "r + length ?e"] True Cons.prems by auto
      then show ?thesis
        using step True False by (auto simp: add.assoc)
    next
      case small: False
      then have step: "url_escape_loop table dsize (c # src) r dst = url_escape_loop table dsize src (r + length ?e) dst"
        using False len Cons.prems by (auto simp: Let_def)
      then show ?thesis
        using Cons.IH [of dst "r + length ?e"] small False Cons.prems by (auto simp: add.assoc)
    qed
  qed simp
qed simp

lemma url_escape_buffer:
  fixes src how
  defines "e \<equiv> escaped (url_escape_table how) src"
  assumes "int (length dst) = dsize"
  shows "\<exists>dst'. url_escape dst dsize src how = Some (length e + 1, dst') \<and> length dst' = length dst \<and>
     (length e < length dst \<longrightarrow> take (length e + 1) dst' = e @ [0])"
proof -
  obtain d where d: "url_escape_loop (url_escape_table how) dsize src 0 dst = Some (length e, d)"
    "length d = length dst" "length e < length dst \<longrightarrow> take (length e) d = e"
    using url_escape_loop_buffer [OF assms(2), of "url_escape_table how" src 0] by (auto simp: e_def)
  show ?thesis
  proof (cases "length e < length dst")
    case True
    then have "url_escape dst dsize src how = Some (length e + 1, d[length e := 0])"
      using d assms(2) by (simp add: url_escape_def store_def)
    moreover have "take (length e + 1) (d[length e := 0]) = e @ [0]"
      using True d by (simp add: take_Suc_conv_app_nth take_update_cancel)
    ultimately show ?thesis
      using d by auto
  next
    case False
    then show ?thesis
      using d assms(2) by (simp add: url_escape_def)
  qed
qed

lemma dec_int_length: "- (2 ^ 31) \<le> i \<Longrightarrow> i < 2 ^ 31 \<Longrightarrow> length (dec_int i) \<le> 11"
proof -
  assume i: "- (2 ^ 31) \<le> i" "i < 2 ^ 31"
  then have "nat i < 10 ^ 10" "nat (- i) < 10 ^ 10"
    by simp_all
  then have "length (dec_nat (nat i)) \<le> 10" "length (dec_nat (nat (- i))) \<le> 10"
    using dec_nat_length [of _ 10] by simp_all
  then show ?thesis
    by (simp add: dec_int_def)
qed

lemma url_prefix_length:
  "- (2 ^ 31) \<le> port \<Longrightarrow> port < 2 ^ 31 \<Longrightarrow>
     length (url_prefix proto hostname port) \<le> length proto + length hostname + 15"
  using dec_int_length [of port] by (simp add: url_prefix_def)

section \<open>Properties\<close>

text \<open>
  Property C36. \<open>url_escape\<close> with the path or the parameter table is undone by \<open>url_deescape\<close>: when
  the returned size fits, the buffer holds a string that reads back as the source.
\<close>

theorem url_escape_roundtrip:
  assumes "how = URL_ESCAPE_PATH \<or> how = URL_ESCAPE_PARAM"
    and "url_escape dst (int (length dst)) src how = Some (n, dst')" and "n \<le> length dst"
  shows "url_deescape dst' = c_str src"
proof -
  let ?e = "escaped (url_escape_table how) src"
  have inv: "invertible (url_escape_table how)"
    using assms(1) url_tables_invertible by (auto simp: url_escape_table_def)
  have n: "n = length ?e + 1" and "length ?e < length dst \<longrightarrow> take (length ?e + 1) dst' = ?e @ [0]"
    using url_escape_buffer [of dst "int (length dst)" src how] assms(2) by auto
  then have "dst' = ?e @ 0 # drop n dst'"
    using assms(3) append_take_drop_id [of n dst'] by simp
  then show ?thesis
    using url_deescape_escaped [OF inv, of "0 # drop n dst'" src] by simp
qed

theorem url_escape_roundtrip_witness:
  "\<exists>dst'. url_escape (replicate 8 0) 8 (cstr ''a b'') URL_ESCAPE_PATH = Some (6, dst') \<and>
     url_deescape dst' = c_str (cstr ''a b'')"
proof -
  have *: "url_escape (replicate 8 0) (int (length (replicate 8 (0 :: u8)))) (cstr ''a b'') URL_ESCAPE_PATH =
      Some (6, cstr ''a%20b'' @ [0, 0, 0])"
    by code_simp
  show ?thesis
    using url_escape_roundtrip [OF _ *] * by auto
qed

text \<open>
  For every table, source and buffer, \<open>url_escape\<close> called with the size of its buffer
  stores nothing outside it and returns the size the whole result needs, terminator included; when
  that fits, the buffer begins with the escaped string and its terminator.
\<close>

theorem url_escape_bounded:
  "\<exists>dst'. url_escape dst (int (length dst)) src how =
        Some (length (escaped (url_escape_table how) src) + 1, dst') \<and> length dst' = length dst \<and>
      (length (escaped (url_escape_table how) src) < length dst \<longrightarrow>
         take (length (escaped (url_escape_table how) src) + 1) dst' = escaped (url_escape_table how) src @ [0])"
  by (rule url_escape_buffer) simp

text \<open>
  With a scheme and a host name as short as every caller's arrays make them (together
  at most 496 bytes), \<open>url_resolve_relative\<close> stores nothing behind its 512 byte array; an absolute
  reference is returned as it is; and any result it builds from the base starts with the base's
  scheme, host and port.
\<close>

theorem url_resolve_relative_safe:
  assumes "length proto + length hostname \<le> 496" and "- (2 ^ 31) \<le> port" and "port < 2 ^ 31"
  shows "url_resolve_relative proto hostname port path ref \<noteq> Url_Oob \<and>
     (contains ref (cstr ''://'') \<longrightarrow> url_resolve_relative proto hostname port path ref = Url_Ret ref) \<and>
     (\<not> contains ref (cstr ''://'') \<longrightarrow> url_resolve_relative proto hostname port path ref = Url_Null \<or>
        (\<exists>t. url_resolve_relative proto hostname port path ref = Url_Ret (url_prefix proto hostname port @ t)))"
proof -
  have "length (url_prefix proto hostname port) < 512"
    using url_prefix_length [OF assms(2,3), of proto hostname] assms(1) by linarith
  then show ?thesis
    by (auto simp: url_resolve_relative_def Let_def split: option.split)
qed

end
