(* ===== verification/Html.thy ===== *)
theory Html
  imports Utf8
begin

text \<open>
  HTML entities from \<^verbatim>\<open>src/src/misc/str.c\<close>: the entity table, \<open>html_entity_lookup\<close>, the in-place
  decoder \<open>html_entities_decode\<close> and the encoder \<open>html_enteties_escape\<close>. The decoder overwrites its
  own input; its comment says that this relies on no entity being shorter than its UTF-8 form. The
  model makes an overlapping store visible as \<open>None\<close>, and the theory proves the comment.
\<close>

section \<open>Definitions\<close>

definition html_entities :: "(string \<times> int) list" where
  "html_entities =
    [(''quot'', 34), (''amp'', 38), (''apos'', 39), (''lt'', 60),
     (''gt'', 62), (''nbsp'', 160), (''iexcl'', 161), (''cent'', 162),
     (''pound'', 163), (''curren'', 164), (''yen'', 165), (''brvbar'', 166),
     (''sect'', 167), (''uml'', 168), (''copy'', 169), (''ordf'', 170),
     (''laquo'', 171), (''not'', 172), (''shy'', 173), (''reg'', 174),
     (''macr'', 175), (''deg'', 176), (''plusmn'', 177), (''sup2'', 178),
     (''sup3'', 179), (''acute'', 180), (''micro'', 181), (''para'', 182),
     (''middot'', 183), (''cedil'', 184), (''sup1'', 185), (''ordm'', 186),
     (''raquo'', 187), (''frac14'', 188), (''frac12'', 189), (''frac34'', 190),
     (''iquest'', 191), (''Agrave'', 192), (''Aacute'', 193), (''Acirc'', 194),
     (''Atilde'', 195), (''Auml'', 196), (''Aring'', 197), (''AElig'', 198),
     (''Ccedil'', 199), (''Egrave'', 200), (''Eacute'', 201), (''Ecirc'', 202),
     (''Euml'', 203), (''Igrave'', 204), (''Iacute'', 205), (''Icirc'', 206),
     (''Iuml'', 207), (''ETH'', 208), (''Ntilde'', 209), (''Ograve'', 210),
     (''Oacute'', 211), (''Ocirc'', 212), (''Otilde'', 213), (''Ouml'', 214),
     (''times'', 215), (''Oslash'', 216), (''Ugrave'', 217), (''Uacute'', 218),
     (''Ucirc'', 219), (''Uuml'', 220), (''Yacute'', 221), (''THORN'', 222),
     (''szlig'', 223), (''agrave'', 224), (''aacute'', 225), (''acirc'', 226),
     (''atilde'', 227), (''auml'', 228), (''aring'', 229), (''aelig'', 230),
     (''ccedil'', 231), (''egrave'', 232), (''eacute'', 233), (''ecirc'', 234),
     (''euml'', 235), (''igrave'', 236), (''iacute'', 237), (''icirc'', 238),
     (''iuml'', 239), (''eth'', 240), (''ntilde'', 241), (''ograve'', 242),
     (''oacute'', 243), (''ocirc'', 244), (''otilde'', 245), (''ouml'', 246),
     (''divide'', 247), (''oslash'', 248), (''ugrave'', 249), (''uacute'', 250),
     (''ucirc'', 251), (''uuml'', 252), (''yacute'', 253), (''thorn'', 254),
     (''yuml'', 255), (''fnof'', 402), (''Alpha'', 913), (''Beta'', 914),
     (''Gamma'', 915), (''Delta'', 916), (''Epsilon'', 917), (''Zeta'', 918),
     (''Eta'', 919), (''Theta'', 920), (''Iota'', 921), (''Kappa'', 922),
     (''Lambda'', 923), (''Mu'', 924), (''Nu'', 925), (''Xi'', 926),
     (''Omicron'', 927), (''Pi'', 928), (''Rho'', 929), (''Sigma'', 931),
     (''Tau'', 932), (''Upsilon'', 933), (''Phi'', 934), (''Chi'', 935),
     (''Psi'', 936), (''Omega'', 937), (''alpha'', 945), (''beta'', 946),
     (''gamma'', 947), (''delta'', 948), (''epsilon'', 949), (''zeta'', 950),
     (''eta'', 951), (''theta'', 952), (''iota'', 953), (''kappa'', 954),
     (''lambda'', 955), (''mu'', 956), (''nu'', 957), (''xi'', 958),
     (''omicron'', 959), (''pi'', 960), (''rho'', 961), (''sigmaf'', 962),
     (''sigma'', 963), (''tau'', 964), (''upsilon'', 965), (''phi'', 966),
     (''chi'', 967), (''psi'', 968), (''omega'', 969), (''thetasym'', 977),
     (''upsih'', 978), (''piv'', 982), (''bull'', 8226), (''hellip'', 8230),
     (''prime'', 8242), (''Prime'', 8243), (''oline'', 8254), (''frasl'', 8260),
     (''weierp'', 8472), (''image'', 8465), (''real'', 8476), (''trade'', 8482),
     (''alefsym'', 8501), (''larr'', 8592), (''uarr'', 8593), (''rarr'', 8594),
     (''darr'', 8595), (''harr'', 8596), (''crarr'', 8629), (''lArr'', 8656),
     (''uArr'', 8657), (''rArr'', 8658), (''dArr'', 8659), (''hArr'', 8660),
     (''forall'', 8704), (''part'', 8706), (''exist'', 8707), (''empty'', 8709),
     (''nabla'', 8711), (''isin'', 8712), (''notin'', 8713), (''ni'', 8715),
     (''prod'', 8719), (''sum'', 8721), (''minus'', 8722), (''lowast'', 8727),
     (''radic'', 8730), (''prop'', 8733), (''infin'', 8734), (''ang'', 8736),
     (''and'', 8743), (''or'', 8744), (''cap'', 8745), (''cup'', 8746),
     (''int'', 8747), (''there4'', 8756), (''sim'', 8764), (''cong'', 8773),
     (''asymp'', 8776), (''ne'', 8800), (''equiv'', 8801), (''le'', 8804),
     (''ge'', 8805), (''sub'', 8834), (''sup'', 8835), (''nsub'', 8836),
     (''sube'', 8838), (''supe'', 8839), (''oplus'', 8853), (''otimes'', 8855),
     (''perp'', 8869), (''sdot'', 8901), (''lceil'', 8968), (''rceil'', 8969),
     (''lfloor'', 8970), (''rfloor'', 8971), (''lang'', 9001), (''rang'', 9002),
     (''loz'', 9674), (''spades'', 9824), (''clubs'', 9827), (''hearts'', 9829),
     (''diams'', 9830), (''OElig'', 338), (''oelig'', 339), (''Scaron'', 352),
     (''scaron'', 353), (''Yuml'', 376), (''circ'', 710), (''tilde'', 732),
     (''ensp'', 8194), (''emsp'', 8195), (''thinsp'', 8201), (''zwnj'', 8204),
     (''zwj'', 8205), (''lrm'', 8206), (''rlm'', 8207), (''ndash'', 8211),
     (''mdash'', 8212), (''lsquo'', 8216), (''rsquo'', 8217), (''sbquo'', 8218),
     (''ldquo'', 8220), (''rdquo'', 8221), (''bdquo'', 8222), (''dagger'', 8224),
     (''Dagger'', 8225), (''permil'', 8240), (''lsaquo'', 8249), (''rsaquo'', 8250),
     (''euro'', 8364)]"

text \<open>The result of \<^verbatim>\<open>strtol\<close> is cut to the \<^verbatim>\<open>int\<close> the function returns.\<close>

definition to_c_int :: "int \<Rightarrow> int" where
  "to_c_int v = sint (word_of_int v :: u32)"

fun html_entity_find :: "(string \<times> int) list \<Rightarrow> bytes \<Rightarrow> int" where
  "html_entity_find [] name = -1"
| "html_entity_find ((n, code) # es) name =
     (if cstr n = name then code else html_entity_find es name)"

definition html_entity_lookup :: "bytes \<Rightarrow> int" where
  "html_entity_lookup name =
     (if deref name = chr CHR ''#'' then
        (if deref (tl name) = chr CHR ''x'' then to_c_int (fst (strtol 16 (tl (tl name))))
         else to_c_int (fst (strtol 10 (tl name))))
      else html_entity_find html_entities name)"

text \<open>The loop of \<open>html_entities_decode\<close> on the bytes from \<^verbatim>\<open>s\<close> to the terminator; the result is
  what these bytes are when it ends. \<^verbatim>\<open>snprintf\<close> into \<^verbatim>\<open>name[10]\<close> keeps nine bytes of the name.\<close>

function html_entities_decode :: "bytes \<Rightarrow> bytes option" where
  "html_entities_decode s =
     (if deref s = 0 then Some []
      else if deref s \<noteq> chr CHR ''&'' \<or> chr CHR '';'' \<notin> set (c_str s) then
        map_option (Cons (deref s)) (html_entities_decode (tl s))
      else
        let ent = takeWhile (\<lambda>c. c \<noteq> chr CHR '';'') (tl s);
            after = drop (length ent + 2) s;
            code = html_entity_lookup (take 9 ent)
        in if code = -1 then map_option (Cons (deref s)) (html_entities_decode (tl s))
           else if length ent + 2 < length (utf8_put code) then None
           else map_option (append (utf8_put code)) (html_entities_decode after))"
  by pat_completeness auto
termination
  by (relation "measure length") (auto simp: deref_def split: list.splits)

declare html_entities_decode.simps [simp del]

text \<open>\<open>html_enteties_escape\<close> as the bytes it stores; it returns their number.\<close>

fun html_enteties_escape :: "bytes \<Rightarrow> bytes" where
  "html_enteties_escape [] = [0]"
| "html_enteties_escape (c # src) =
     (if c = 0 then [0]
      else (if c = 38 then cstr ''&amp;'' else if c = 60 then cstr ''&lt;''
            else if c = 62 then cstr ''&gt;'' else [c]) @ html_enteties_escape src)"

section \<open>Every entity is at least as long as its UTF-8 form\<close>

lemma html_entities_named: "list_all (\<lambda>(n, c). n \<noteq> [] \<and> 0 \<le> c \<and> c < 0x10000) html_entities"
  by code_simp

lemma html_entity_find_cases:
  "html_entity_find es name = -1 \<or> (\<exists>(n, c) \<in> set es. cstr n = name \<and> html_entity_find es name = c)"
  by (induction es name rule: html_entity_find.induct) auto

lemma to_c_int_small: "\<bar>v\<bar> < 2 ^ 31 \<Longrightarrow> to_c_int v = v"
  unfolding to_c_int_def by (subst sint_sbintrunc') (simp add: signed_take_bit_int_eq_self)

lemma to_c_int_strtol:
  assumes "base = 10 \<or> base = 16" and "length s \<le> 4"
  shows "to_c_int (fst (strtol base s)) < 0x10000"
proof -
  have "\<bar>fst (strtol base s)\<bar> < int base ^ length s"
    using assms(1) by (intro strtol_bound) auto
  also have "\<dots> \<le> 16 ^ length s"
    using assms(1) by (intro power_mono) auto
  also have "\<dots> \<le> (16 :: int) ^ 4"
    using assms(2) by (intro power_increasing) auto
  finally show ?thesis
    using to_c_int_small [of "fst (strtol base s)"] by simp
qed

lemma entity_fits:
  assumes "html_entity_lookup name \<noteq> -1"
  shows "length (utf8_put (html_entity_lookup name)) \<le> length name + 2"
proof (cases "html_entity_lookup name < 0x10000 \<and> name \<noteq> []")
  case True
  then have "length (utf8_put (html_entity_lookup name)) \<le> 3" "1 \<le> length name"
    using utf8_put_length [of "html_entity_lookup name"] by (auto simp: Suc_le_eq)
  then show ?thesis by simp
next
  case False
  have "\<not> (name = [] \<and> html_entity_find html_entities [] \<noteq> -1)"
    using html_entity_find_cases [of html_entities "[]"] html_entities_named
    by (auto simp: list_all_iff cstr_def)
  with False assms have num: "deref name = chr CHR ''#''"
    using html_entity_find_cases [of html_entities name] html_entities_named
    by (auto simp: html_entity_lookup_def list_all_iff split: if_splits)
  then have ne: "name \<noteq> []" by auto
  have "\<not> length name \<le> 5"
  proof
    assume "length name \<le> 5"
    then have "html_entity_lookup name < 0x10000"
      using num to_c_int_strtol [of 16 "tl (tl name)"] to_c_int_strtol [of 10 "tl name"]
      by (simp add: html_entity_lookup_def)
    with False ne show False by simp
  qed
  moreover have "length (utf8_put (html_entity_lookup name)) \<le> 6"
    using utf8_put_length [of "html_entity_lookup name"] by (auto split: if_splits)
  ultimately show ?thesis by simp
qed

lemma html_entities_decode_total:
  "\<exists>t. html_entities_decode s = Some t \<and> length t \<le> length s"
proof (induction s rule: html_entities_decode.induct)
  case (1 s)
  define ent where "ent = takeWhile (\<lambda>c. c \<noteq> chr CHR '';'') (tl s)"
  define code where "code = html_entity_lookup (take 9 ent)"
  consider "deref s = 0" | "deref s \<noteq> 0" "deref s \<noteq> chr CHR ''&'' \<or> chr CHR '';'' \<notin> set (c_str s) \<or> code = -1"
    | "deref s \<noteq> 0" "deref s = chr CHR ''&''" "chr CHR '';'' \<in> set (c_str s)" "code \<noteq> -1"
    by blast
  then show ?case
  proof cases
    case 1
    then show ?thesis by (simp add: html_entities_decode.simps [of s])
  next
    case 2
    then have "html_entities_decode s = map_option (Cons (deref s)) (html_entities_decode (tl s))"
      by (subst html_entities_decode.simps) (auto simp: Let_def ent_def code_def)
    moreover obtain t where "html_entities_decode (tl s) = Some t" "length t \<le> length (tl s)"
      using "1.IH"(1,2) 2 by (fastforce simp: ent_def code_def)
    moreover have "length (tl s) < length s"
      using 2(1) by (rule deref_nonzero_length)
    ultimately show ?thesis by simp
  next
    case 3
    have fits: "length (utf8_put code) \<le> length ent + 2"
      using entity_fits [of "take 9 ent"] 3(4) by (simp add: code_def)
    obtain t where t: "html_entities_decode (drop (length ent + 2) s) = Some t"
      "length t \<le> length (drop (length ent + 2) s)"
      using "1.IH"(3) 3 fits by (fastforce simp: ent_def code_def)
    have "chr CHR '';'' \<in> set (tl s)"
      using 3 by (cases s) (auto simp: c_str_def dest: set_takeWhileD)
    then have "length ent < length (tl s)"
      unfolding ent_def by (rule length_takeWhile_less)
    then show ?thesis
      using 3 fits t by (subst html_entities_decode.simps) (auto simp: Let_def ent_def code_def)
  qed
qed

section \<open>Decoding what was escaped\<close>

lemma html_lookup_escapes:
  "html_entity_lookup (cstr ''amp'') = 38" "html_entity_lookup (cstr ''lt'') = 60"
  "html_entity_lookup (cstr ''gt'') = 62"
  by code_simp+

lemma html_decode_entity:
  assumes "html_entity_lookup (cstr n) = code" "code \<noteq> -1" "utf8_put code = [c]"
    "chr CHR '';'' \<notin> set (cstr n)" "nul_free (cstr n)" "length n \<le> 9"
  shows "html_entities_decode (cstr ''&'' @ cstr n @ cstr '';'' @ t) =
     map_option (Cons c) (html_entities_decode t)"
proof -
  have "takeWhile (\<lambda>c. c \<noteq> chr CHR '';'') (cstr n @ cstr '';'' @ t) = cstr n"
    using assms(4) by (subst takeWhile_append2) auto
  moreover have "chr CHR '';'' \<in> set (c_str (cstr ''&'' @ cstr n @ cstr '';'' @ t))"
    using assms(5) by simp
  moreover have "take 9 (cstr n) = cstr n" "length (cstr n) = length n"
    using assms(6) by (simp_all add: cstr_def)
  moreover have "(@) [c] = Cons c"
    by (simp add: fun_eq_iff)
  ultimately show ?thesis
    using assms by (subst html_entities_decode.simps) (simp add: Let_def)
qed

lemma html_decode_escape: "html_entities_decode (html_enteties_escape s) = Some (c_str s)"
proof (induction s)
  case Nil
  then show ?case by (simp add: html_entities_decode.simps)
next
  case (Cons c s)
  have p: "utf8_put 38 = [38]" "utf8_put 60 = [60]" "utf8_put 62 = [62]"
    by (simp_all add: utf8_put_def)
  consider "c = 0" | "c = 38" | "c = 60" | "c = 62" | "c \<noteq> 0" "c \<noteq> 38" "c \<noteq> 60" "c \<noteq> 62"
    by blast
  then show ?case
  proof cases
    case 1
    then show ?thesis by (simp add: html_entities_decode.simps)
  next
    case 2
    then show ?thesis
      using Cons.IH html_decode_entity [OF html_lookup_escapes(1) _ p(1), of "html_enteties_escape s"] by simp
  next
    case 3
    then show ?thesis
      using Cons.IH html_decode_entity [OF html_lookup_escapes(2) _ p(2), of "html_enteties_escape s"] by simp
  next
    case 4
    then show ?thesis
      using Cons.IH html_decode_entity [OF html_lookup_escapes(3) _ p(3), of "html_enteties_escape s"] by simp
  next
    case 5
    then show ?thesis
      using Cons.IH by (simp add: html_entities_decode.simps [of "c # html_enteties_escape s"])
  qed
qed

section \<open>Properties\<close>

text \<open>
  The in-place decoder is safe on every string: no decoded character is longer than
  the entity it replaces, so nothing unread is overwritten, and the string never grows.
\<close>

theorem html_entities_decode_in_place:
  "\<exists>t. html_entities_decode s = Some t \<and> length t \<le> length s"
  by (rule html_entities_decode_total)

text \<open>
  Decoding what \<open>html_enteties_escape\<close> wrote gives the source string back.
\<close>

theorem html_escape_roundtrip: "html_entities_decode (html_enteties_escape s) = Some (c_str s)"
  by (rule html_decode_escape)

end
