(* ===== verification/Str_Util.thy ===== *)
theory Str_Util
  imports Prelude
begin

text \<open>
  The string helpers of \<^verbatim>\<open>src/src/misc/str.c\<close>: hexadecimal conversion, vectors of strings, line
  iteration, substring search, case and escape handling. A function that fills a caller's buffer is
  the list of bytes it stores from the buffer's start on.
\<close>

section \<open>Hexadecimal\<close>

definition hexnibble :: "u8 \<Rightarrow> int" where
  "hexnibble c =
     (if chr CHR ''0'' \<le> c \<and> c \<le> chr CHR ''9'' then uint c - 48
      else if chr CHR ''a'' \<le> c \<and> c \<le> chr CHR ''f'' then uint c - 97 + 10
      else if chr CHR ''A'' \<le> c \<and> c \<le> chr CHR ''F'' then uint c - 65 + 10
      else -1)"

text \<open>\<open>None\<close> is the return value -1; otherwise the bytes stored, whose number is returned.\<close>

function hex2binl :: "nat \<Rightarrow> bytes \<Rightarrow> int \<Rightarrow> bytes option" where
  "hex2binl buflen str maxlen =
     (if deref str = 0 then Some []
      else if maxlen < 2 then Some []
      else if buflen = 0 then None
      else if hexnibble (deref str) = -1 then None
      else if hexnibble (deref (tl str)) = -1 then None
      else map_option
             (Cons (word_of_int (push_bit 4 (hexnibble (deref str)) OR hexnibble (deref (tl str)))))
             (hex2binl (buflen - 1) (tl (tl str)) (maxlen - 2)))"
  by pat_completeness auto
termination
  by (relation "measure (\<lambda>(b, s, m). length s)") (auto simp: deref_def split: list.splits)

declare hex2binl.simps [simp del]

definition hexdigits :: bytes where
  "hexdigits = cstr ''0123456789abcdef''"

fun bin2hex :: "nat \<Rightarrow> bytes \<Rightarrow> bytes" where
  "bin2hex dstlen [] = [0]"
| "bin2hex dstlen (c # src) =
     (if 2 < dstlen then
        hexdigits ! unat (drop_bit 4 c) # hexdigits ! unat (c AND 0xf) # bin2hex (dstlen - 2) src
      else [0])"

definition html_makecolor :: "bytes \<Rightarrow> u32" where
  "html_makecolor str =
     (let s = (if deref str = chr CHR ''#'' then tl str else str);
          h = (\<lambda>i. hexnibble (s ! i));
          pair = (\<lambda>i. word_of_int (push_bit 4 (h i) OR h (i + 1)) :: u8);
          color = (\<lambda>r g b :: u8. push_bit 16 (ucast b) OR push_bit 8 (ucast g) OR ucast r)
      in if strlen s = 3 then
           color (word_of_int (h 0 * 0x11)) (word_of_int (h 1 * 0x11)) (word_of_int (h 2 * 0x11))
         else if strlen s = 6 then color (pair 0) (pair 2) (pair 4)
         else 0)"

section \<open>Vectors of strings\<close>

text \<open>The second loop of \<open>strvec_split\<close>, over the number of pieces the first loop counted. \<open>None\<close>
  is a failed assertion.\<close>

fun strvec_split_loop :: "nat \<Rightarrow> bytes \<Rightarrow> u8 \<Rightarrow> bytes list option" where
  "strvec_split_loop 0 str ch = Some []"
| "strvec_split_loop (Suc n) str ch =
     (if ch \<in> set str then
        map_option (Cons (takeWhile (\<lambda>c. c \<noteq> ch) str))
          (strvec_split_loop n (tl (dropWhile (\<lambda>c. c \<noteq> ch) str)) ch)
      else if n = 0 then map_option (Cons str) (strvec_split_loop n str ch)
      else None)"

definition strvec_split :: "bytes \<Rightarrow> u8 \<Rightarrow> bytes list option" where
  "strvec_split str ch =
     (let s = c_str str in strvec_split_loop (1 + count_list s ch) s ch)"

text \<open>A vector is \<open>None\<close> while it is \<^verbatim>\<open>NULL\<close>.\<close>

definition strvec_addpn :: "bytes list option \<Rightarrow> bytes \<Rightarrow> nat \<Rightarrow> bytes list option" where
  "strvec_addpn strv v len = Some ((case strv of None \<Rightarrow> [] | Some vs \<Rightarrow> vs) @ [take len v])"

definition strvec_addp :: "bytes list option \<Rightarrow> bytes \<Rightarrow> bytes list option" where
  "strvec_addp strv v = strvec_addpn strv v (strlen v)"

definition strappend :: "bytes option \<Rightarrow> bytes \<Rightarrow> bytes option" where
  "strappend strp src = (case strp of None \<Rightarrow> Some (c_str src) | Some s \<Rightarrow> Some (c_str s @ c_str src))"

section \<open>Lines, search, case\<close>

definition is_nl :: "u8 \<Rightarrow> bool" where
  "is_nl c \<longleftrightarrow> c = 13 \<or> c = 10"

text \<open>\<open>lp_get\<close> takes and gives the line pointer \<^verbatim>\<open>*lp\<close>; its first result is the line, \<open>None\<close> for
  \<^verbatim>\<open>NULL\<close>. A pointer that is not \<^verbatim>\<open>NULL\<close> is a string without NUL.\<close>

function lp_get :: "bytes option \<Rightarrow> bytes option \<times> bytes option" where
  "lp_get lp =
     (case lp of
        None \<Rightarrow> (None, None)
      | Some r \<Rightarrow>
          (let line = takeWhile (\<lambda>c. \<not> is_nl c) r;
               rest = dropWhile (\<lambda>c. \<not> is_nl c) r;
               lp' = (if rest = [] then None else Some (dropWhile is_nl (tl rest)))
           in if line = [] then lp_get lp' else (Some line, lp')))"
  by pat_completeness auto
termination
proof (relation "measure (\<lambda>lp. case lp of None \<Rightarrow> 0 | Some r \<Rightarrow> Suc (length r))", goal_cases)
  case (2 lp r line rest lp')
  have "length (dropWhile is_nl (tl rest)) \<le> length (tl rest)" "length rest \<le> length r"
    by (rule length_dropWhile_le) (simp add: 2(3) length_dropWhile_le)
  then have "rest \<noteq> [] \<Longrightarrow> length (dropWhile is_nl (tl rest)) < length r"
    by (cases rest) auto
  then show ?case
    using 2(1,4) by auto
qed simp

declare lp_get.simps [simp del]

text \<open>\<open>find_str s len needle\<close> as the offset of the pointer it returns.\<close>

fun find_str_loop :: "bytes \<Rightarrow> nat \<Rightarrow> nat \<Rightarrow> bytes \<Rightarrow> nat option" where
  "find_str_loop s i 0 needle = None"
| "find_str_loop s i (Suc n) needle =
     (if take (length needle) (drop i s) = needle then Some i
      else find_str_loop s (Suc i) n needle)"

definition find_str :: "bytes \<Rightarrow> nat \<Rightarrow> bytes \<Rightarrow> nat option" where
  "find_str s len needle =
     (if len < strlen needle then None
      else find_str_loop (take len s) 0 (len - strlen needle + 1) (c_str needle))"

fun mystrlower :: "bytes \<Rightarrow> bytes" where
  "mystrlower [] = []"
| "mystrlower (c # s) =
     (if c = 0 then []
      else (if chr CHR ''A'' \<le> c \<and> c \<le> chr CHR ''Z'' then c + 32 else c) # mystrlower s)"

function deescape_cstyle :: "bytes \<Rightarrow> bytes" where
  "deescape_cstyle src =
     (if deref src = 0 then []
      else if deref src = 0x5c then
        (if deref (tl src) = 0 then []
         else (if deref (tl src) = chr CHR ''n'' then [10] else []) @
              (if deref (tl src) = 0x5c then [0x5c] else []) @ deescape_cstyle (tl (tl src)))
      else deref src # deescape_cstyle (tl src))"
  by pat_completeness auto
termination
  by (relation "measure length") (auto simp: deref_def split: list.splits)

declare deescape_cstyle.simps [simp del]

section \<open>Lemmas\<close>

lemma hexdigit_facts:
  assumes "n < 16"
  shows "hexnibble (hexdigits ! n) = int n" and "hexdigits ! n \<noteq> 0"
proof -
  have "list_all (\<lambda>n. hexnibble (hexdigits ! n) = int n \<and> hexdigits ! n \<noteq> 0) [0..<16]"
    by code_simp
  then show "hexnibble (hexdigits ! n) = int n" "hexdigits ! n \<noteq> 0"
    using assms by (simp_all add: list_all_iff)
qed

lemma u8_nibbles:
  fixes c :: u8
  shows "unat (drop_bit 4 c) < 16" "unat (c AND 0xf) < 16"
    "word_of_int (push_bit 4 (int (unat (drop_bit 4 c))) OR int (unat (c AND 0xf))) = c"
proof -
  have and_eq: "c AND 0xf = take_bit 4 c"
    by (simp add: take_bit_eq_mask mask_eq_exp_minus_1)
  have hi: "unat (drop_bit 4 c) = unat c div 16"
    by (subst unat_drop_bit_eq) (simp add: drop_bit_eq_div)
  have lo: "unat (c AND 0xf) = unat c mod 16"
    unfolding and_eq by (subst unsigned_take_bit_eq) (simp_all add: take_bit_eq_mod)
  have c: "unat c < 256"
    using unsigned_less [of c, where 'a = nat] by simp
  then show "unat (drop_bit 4 c) < 16" "unat (c AND 0xf) < 16"
    by (simp_all add: hi lo)
  have nat_div_mod: "int (unat c div 16) * 16 + int (unat c mod 16) = int (unat c)"
    using div_mult_mod_eq [of "unat c" 16] by linarith
  have "push_bit 4 (int (unat c div 16)) OR int (unat c mod 16) = int (unat c)"
    using push_or_int [of "int (unat c mod 16)" 4 "int (unat c div 16)"] nat_div_mod
    by (simp add: mult.commute)
  then show "word_of_int (push_bit 4 (int (unat (drop_bit 4 c))) OR int (unat (c AND 0xf))) = c"
    by (simp add: hi lo)
qed

lemma hex2binl_bin2hex:
  "2 * length src < dstlen \<Longrightarrow> length src \<le> n \<Longrightarrow> 2 * int (length src) \<le> m \<Longrightarrow>
     hex2binl n (bin2hex dstlen src) m = Some src"
proof (induction src arbitrary: dstlen n m)
  case Nil
  then show ?case by (simp add: hex2binl.simps)
next
  case (Cons c src)
  then have "hex2binl (n - 1) (bin2hex (dstlen - 2) src) (m - 2) = Some src"
    by (intro Cons.IH) auto
  moreover have "uint x \<noteq> -1" for x :: u8
    using uint_u8_bound(1) [of x] by linarith
  ultimately show ?case
    using Cons.prems u8_nibbles [of c] hexdigit_facts [of "unat (drop_bit 4 c)"]
    hexdigit_facts [of "unat (c AND 0xf)"]
    by (subst hex2binl.simps) simp
qed

lemma bin2hex_length: "0 < dstlen \<Longrightarrow> length (bin2hex dstlen src) \<le> dstlen"
  by (induction dstlen src rule: bin2hex.induct) auto

lemma hex2binl_length: "hex2binl n s m = Some b \<Longrightarrow> length b \<le> n"
proof (induction n s m arbitrary: b rule: hex2binl.induct)
  case (1 n s m)
  from "1.prems" show ?case
    using "1.IH" by (subst (asm) hex2binl.simps) (fastforce split: if_splits)
qed

text \<open>Joining the pieces again.\<close>

fun strvec_join :: "u8 \<Rightarrow> bytes list \<Rightarrow> bytes" where
  "strvec_join ch [] = []"
| "strvec_join ch [v] = v"
| "strvec_join ch (v # vs) = v @ ch # strvec_join ch vs"

lemma strvec_split_loop_correct:
  "n = Suc (count_list s ch) \<Longrightarrow>
     \<exists>vs. strvec_split_loop n s ch = Some vs \<and> length vs = n \<and> strvec_join ch vs = s \<and>
       (\<forall>v\<in>set vs. ch \<notin> set v)"
proof (induction n arbitrary: s)
  case (Suc n)
  show ?case
  proof (cases "ch \<in> set s")
    case True
    define p where "p = takeWhile (\<lambda>c. c \<noteq> ch) s"
    define q where "q = tl (dropWhile (\<lambda>c. c \<noteq> ch) s)"
    have "dropWhile (\<lambda>c. c \<noteq> ch) s = ch # q"
      using True hd_dropWhile [of "\<lambda>c. c \<noteq> ch" s] by (cases "dropWhile (\<lambda>c. c \<noteq> ch) s") (auto simp: q_def)
    then have s: "s = p @ ch # q"
      using takeWhile_dropWhile_id [of "\<lambda>c. c \<noteq> ch" s] by (simp add: p_def)
    have p: "ch \<notin> set p"
      by (auto simp: p_def dest: set_takeWhileD)
    then have "count_list p ch = 0"
      by (simp add: count_list_0_iff)
    then have "n = Suc (count_list q ch)"
      using Suc.prems s by simp
    then obtain vs where vs: "strvec_split_loop n q ch = Some vs" "length vs = n"
      "strvec_join ch vs = q" "\<forall>v\<in>set vs. ch \<notin> set v" "vs \<noteq> []"
      using Suc.IH [of q] by fastforce
    then have "strvec_join ch (p # vs) = s"
      using s by (cases vs) simp_all
    with vs True p show ?thesis
      by (simp flip: p_def q_def)
  next
    case False
    then have "n = 0"
      using Suc.prems by (simp add: count_list_0_iff)
    with False show ?thesis by simp
  qed
qed simp

lemma find_str_loop_correct:
  "find_str_loop s i n needle =
     (if \<exists>j<n. take (length needle) (drop (i + j) s) = needle
      then Some (i + (LEAST j. take (length needle) (drop (i + j) s) = needle)) else None)"
proof (induction n arbitrary: i)
  case (Suc n)
  let ?m = "\<lambda>j. take (length needle) (drop (i + j) s) = needle"
  show ?case
  proof (cases "?m 0")
    case True
    then have "(LEAST j. ?m j) = 0" by (intro Least_equality) auto
    with True show ?thesis by auto
  next
    case False
    have ex: "(\<exists>j<Suc n. ?m j) \<longleftrightarrow> (\<exists>j<n. ?m (Suc j))"
      using False less_Suc_eq_0_disj by auto
    have "(LEAST j. ?m j) = Suc (LEAST j. ?m (Suc j))" if "?m j" for j
      using that False by (rule Least_Suc)
    with False ex Suc.IH [of "Suc i"] show ?thesis
      by (auto split: if_splits)
  qed
qed simp

lemma lp_get_line:
  assumes "lp_get lp = (Some line, lp')"
  shows "line \<noteq> [] \<and> (\<forall>c\<in>set line. \<not> is_nl c) \<and>
     (\<exists>r pre post. lp = Some r \<and> r = pre @ line @ post \<and> (\<forall>c\<in>set pre. is_nl c) \<and>
        (post = [] \<and> lp' = None \<or>
         (\<exists>nl rest. post = nl @ rest \<and> nl \<noteq> [] \<and> (\<forall>c\<in>set nl. is_nl c) \<and> lp' = Some rest)))"
  using assms
proof (induction lp rule: lp_get.induct)
  case (1 lp)
  obtain r where lp: "lp = Some r"
    using "1.prems" by (cases lp) (simp_all add: lp_get.simps)
  define p where "p = takeWhile (\<lambda>c. \<not> is_nl c) r"
  define q where "q = dropWhile (\<lambda>c. \<not> is_nl c) r"
  define n where "n = (if q = [] then None else Some (dropWhile is_nl (tl q)))"
  have r: "r = p @ q" and p: "\<forall>c\<in>set p. \<not> is_nl c"
    by (auto simp: p_def q_def dest: set_takeWhileD)
  have eq: "lp_get lp = (if p = [] then lp_get n else (Some p, n))"
    by (subst lp_get.simps) (simp only: lp option.case Let_def flip: p_def q_def n_def)
  have q: "q = [] \<or> (\<exists>nl. nl \<noteq> [] \<and> (\<forall>c\<in>set nl. is_nl c) \<and> q = nl @ dropWhile is_nl (tl q))"
  proof (cases q)
    case (Cons c cs)
    then have "is_nl c"
      using hd_dropWhile [of "\<lambda>c. \<not> is_nl c" r] by (auto simp: q_def)
    then have "\<forall>x\<in>set (c # takeWhile is_nl cs). is_nl x"
      by (auto dest: set_takeWhileD)
    with Cons show ?thesis
      by (intro disjI2 exI [of _ "c # takeWhile is_nl cs"]) simp
  qed simp
  show ?case
  proof (cases "p = []")
    case False
    then have "line = p" "lp' = n"
      using eq "1.prems" by auto
    moreover have "q = [] \<and> n = None \<or>
        (\<exists>nl rest. q = nl @ rest \<and> nl \<noteq> [] \<and> (\<forall>c\<in>set nl. is_nl c) \<and> n = Some rest)"
      using q by (auto simp: n_def)
    ultimately show ?thesis
      using False p r lp by (intro conjI exI [of _ r] exI [of _ "[]"] exI [of _ q]) auto
  next
    case True
    then have get: "lp_get n = (Some line, lp')"
      using eq "1.prems" by simp
    then have "n \<noteq> None"
      using lp_get.simps [of None] by (cases n) simp_all
    then obtain nl where nl: "nl \<noteq> []" "\<forall>c\<in>set nl. is_nl c" "q = nl @ dropWhile is_nl (tl q)"
      and n: "n = Some (dropWhile is_nl (tl q))"
      using q by (auto simp: n_def split: if_splits)
    have IH: "lp_get n = (Some line, lp') \<Longrightarrow>
      line \<noteq> [] \<and> (\<forall>c\<in>set line. \<not> is_nl c) \<and>
      (\<exists>r pre post. n = Some r \<and> r = pre @ line @ post \<and> (\<forall>c\<in>set pre. is_nl c) \<and>
        (post = [] \<and> lp' = None \<or>
         (\<exists>nl rest. post = nl @ rest \<and> nl \<noteq> [] \<and> (\<forall>c\<in>set nl. is_nl c) \<and> lp' = Some rest)))"
      using "1.IH" [OF lp p_def q_def n_def True] .
    obtain pre post where pp: "dropWhile is_nl (tl q) = pre @ line @ post" "\<forall>c\<in>set pre. is_nl c"
      and rest: "line \<noteq> []" "\<forall>c\<in>set line. \<not> is_nl c" "post = [] \<and> lp' = None \<or>
         (\<exists>nl rest. post = nl @ rest \<and> nl \<noteq> [] \<and> (\<forall>c\<in>set nl. is_nl c) \<and> lp' = Some rest)"
      using IH [OF get] n by auto
    have "r = (nl @ pre) @ line @ post"
      using r True nl(3) pp(1) by simp
    then show ?thesis
      using lp rest pp(2) nl(2) by (intro conjI exI [of _ r] exI [of _ "nl @ pre"] exI [of _ post]) auto
  qed
qed

lemma deescape_cstyle_plain:
  "c \<noteq> 0 \<Longrightarrow> c \<noteq> 0x5c \<Longrightarrow> deescape_cstyle (c # s) = c # deescape_cstyle s"
  by (subst deescape_cstyle.simps) simp

section \<open>Properties\<close>

text \<open>
  \<open>bin2hex\<close> into a large enough buffer and \<open>hex2bin\<close> of the result give the bytes back,
  and \<open>bin2hex\<close> never stores more than its buffer holds.
\<close>

theorem hex_roundtrip:
  assumes "2 * length src < dstlen" and "length src \<le> buflen" and "2 * int (length src) \<le> maxlen"
  shows "hex2binl buflen (bin2hex dstlen src) maxlen = Some src \<and> length (bin2hex dstlen src) \<le> dstlen"
  using assms by (auto intro: hex2binl_bin2hex bin2hex_length)

text \<open>
  \<open>strvec_split\<close> never fails its assertion: it gives one piece more than there are
  separators, no piece holds the separator, and joined by it the pieces are the string again.
\<close>

theorem strvec_split_correct:
  "\<exists>vs. strvec_split str ch = Some vs \<and> length vs = Suc (count_list (c_str str) ch) \<and>
     strvec_join ch vs = c_str str \<and> list_all (\<lambda>v. ch \<notin> set v) vs"
  using strvec_split_loop_correct [OF refl, of "c_str str" ch]
  unfolding strvec_split_def Let_def list_all_iff by (simp only: plus_1_eq_Suc)

text \<open>
  \<open>lp_get\<close> returns a nonempty line without line breaks; only line breaks are skipped
  in front of it, and the new line pointer is \<^verbatim>\<open>NULL\<close> at the end of the text or points behind the
  breaks that follow the line.
\<close>

theorem lp_get_lines:
  assumes "lp_get lp = (Some line, lp')"
  shows "line \<noteq> [] \<and> (\<forall>c\<in>set line. \<not> is_nl c) \<and>
     (\<exists>r pre post. lp = Some r \<and> r = pre @ line @ post \<and> (\<forall>c\<in>set pre. is_nl c) \<and>
        (post = [] \<and> lp' = None \<or>
         (\<exists>nl rest. post = nl @ rest \<and> nl \<noteq> [] \<and> (\<forall>c\<in>set nl. is_nl c) \<and> lp' = Some rest)))"
  using assms by (rule lp_get_line)

theorem lp_get_lines_witness:
  "lp_get (Some [10, 65, 66, 13, 10, 67]) = (Some [65, 66], Some [67]) \<and>
     \<not> is_nl 65 \<and> \<not> is_nl 66"
proof -
  have "lp_get (Some [10, 65, 66, 13, 10, 67]) = (Some [65, 66], Some [67])"
    by (simp add: lp_get.simps is_nl_def)
  with lp_get_lines [OF this] show ?thesis by simp
qed

text \<open>
  \<open>find_str\<close> finds the first occurrence of the needle in the first \<open>len\<close> bytes, and
  reports none exactly when there is none.
\<close>

theorem find_str_correct:
  assumes "len \<le> length s"
  shows "find_str s len needle =
     (if \<exists>j. j + strlen needle \<le> len \<and> take (strlen needle) (drop j s) = c_str needle
      then Some (LEAST j. take (strlen needle) (drop j (take len s)) = c_str needle) else None)"
proof -
  let ?n = "c_str needle" and ?k = "strlen needle"
  have k: "length ?n = ?k" by (simp add: strlen_def)
  have eq: "take ?k (drop j (take len s)) = take ?k (drop j s)" if "j + ?k \<le> len" for j
    using that by (simp add: drop_take)
  show ?thesis
  proof (cases "len < ?k")
    case False
    then have bound: "j < len - ?k + 1 \<longleftrightarrow> j + ?k \<le> len" for j
      by linarith
    have "(\<exists>j < len - ?k + 1. take ?k (drop j (take len s)) = ?n) \<longleftrightarrow>
        (\<exists>j. j + ?k \<le> len \<and> take ?k (drop j s) = ?n)"
      unfolding bound by (metis eq)
    with False show ?thesis
      unfolding find_str_def find_str_loop_correct k by simp
  qed (auto simp: find_str_def)
qed

end
