(* ===== verification/Collate.thy ===== *)
theory Collate
  imports Utf8 "HOL-Library.List_Lexorder" "HOL-Library.Product_Lexorder"
begin

text \<open>
  Case folding and collation of \<^verbatim>\<open>src/src/misc/str.c\<close>: the folding table that \<open>unicode_init\<close> builds
  from \<^verbatim>\<open>src/src/misc/unicode_casefolding.h\<close>, the comparison \<open>dictcmp\<close> that sorts lists for the
  user, and the search \<open>mystrstr\<close>. The setting \<^verbatim>\<open>gconf.ignore_the_prefix\<close> is an argument.
\<close>

section \<open>Case folding\<close>

text \<open>The pairs of \<^verbatim>\<open>unicode_casefolding[]\<close>, in the order of the file.\<close>

definition unicode_casefolding_0 :: "(u16 \<times> u16) list" where
  "unicode_casefolding_0 =
    [(0x0041, 0x0061), (0x0042, 0x0062), (0x0043, 0x0063), (0x0044, 0x0064), (0x0045, 0x0065), (0x0046, 0x0066),
     (0x0047, 0x0067), (0x0048, 0x0068), (0x0049, 0x0069), (0x004A, 0x006A), (0x004B, 0x006B), (0x004C, 0x006C),
     (0x004D, 0x006D), (0x004E, 0x006E), (0x004F, 0x006F), (0x0050, 0x0070), (0x0051, 0x0071), (0x0052, 0x0072),
     (0x0053, 0x0073), (0x0054, 0x0074), (0x0055, 0x0075), (0x0056, 0x0076), (0x0057, 0x0077), (0x0058, 0x0078),
     (0x0059, 0x0079), (0x005A, 0x007A), (0x00B5, 0x03BC), (0x00C0, 0x00E0), (0x00C1, 0x00E1), (0x00C2, 0x00E2),
     (0x00C3, 0x00E3), (0x00C4, 0x00E4), (0x00C5, 0x00E5), (0x00C6, 0x00E6), (0x00C7, 0x00E7), (0x00C8, 0x00E8),
     (0x00C9, 0x00E9), (0x00CA, 0x00EA), (0x00CB, 0x00EB), (0x00CC, 0x00EC), (0x00CD, 0x00ED), (0x00CE, 0x00EE),
     (0x00CF, 0x00EF), (0x00D0, 0x00F0), (0x00D1, 0x00F1), (0x00D2, 0x00F2), (0x00D3, 0x00F3), (0x00D4, 0x00F4),
     (0x00D5, 0x00F5), (0x00D6, 0x00F6), (0x00D8, 0x00F8), (0x00D9, 0x00F9), (0x00DA, 0x00FA), (0x00DB, 0x00FB),
     (0x00DC, 0x00FC), (0x00DD, 0x00FD), (0x00DE, 0x00FE), (0x0100, 0x0101), (0x0102, 0x0103), (0x0104, 0x0105),
     (0x0106, 0x0107), (0x0108, 0x0109), (0x010A, 0x010B), (0x010C, 0x010D), (0x010E, 0x010F), (0x0110, 0x0111),
     (0x0112, 0x0113), (0x0114, 0x0115), (0x0116, 0x0117), (0x0118, 0x0119), (0x011A, 0x011B), (0x011C, 0x011D),
     (0x011E, 0x011F), (0x0120, 0x0121), (0x0122, 0x0123), (0x0124, 0x0125), (0x0126, 0x0127), (0x0128, 0x0129),
     (0x012A, 0x012B), (0x012C, 0x012D), (0x012E, 0x012F), (0x0132, 0x0133), (0x0134, 0x0135), (0x0136, 0x0137),
     (0x0139, 0x013A), (0x013B, 0x013C), (0x013D, 0x013E), (0x013F, 0x0140), (0x0141, 0x0142), (0x0143, 0x0144),
     (0x0145, 0x0146), (0x0147, 0x0148), (0x014A, 0x014B), (0x014C, 0x014D), (0x014E, 0x014F), (0x0150, 0x0151),
     (0x0152, 0x0153), (0x0154, 0x0155), (0x0156, 0x0157), (0x0158, 0x0159), (0x015A, 0x015B), (0x015C, 0x015D),
     (0x015E, 0x015F), (0x0160, 0x0161), (0x0162, 0x0163), (0x0164, 0x0165), (0x0166, 0x0167), (0x0168, 0x0169),
     (0x016A, 0x016B), (0x016C, 0x016D), (0x016E, 0x016F), (0x0170, 0x0171), (0x0172, 0x0173), (0x0174, 0x0175),
     (0x0176, 0x0177), (0x0178, 0x00FF), (0x0179, 0x017A), (0x017B, 0x017C), (0x017D, 0x017E), (0x017F, 0x0073),
     (0x0181, 0x0253), (0x0182, 0x0183), (0x0184, 0x0185), (0x0186, 0x0254), (0x0187, 0x0188), (0x0189, 0x0256),
     (0x018A, 0x0257), (0x018B, 0x018C), (0x018E, 0x01DD), (0x018F, 0x0259), (0x0190, 0x025B), (0x0191, 0x0192),
     (0x0193, 0x0260), (0x0194, 0x0263), (0x0196, 0x0269), (0x0197, 0x0268), (0x0198, 0x0199), (0x019C, 0x026F),
     (0x019D, 0x0272), (0x019F, 0x0275), (0x01A0, 0x01A1), (0x01A2, 0x01A3), (0x01A4, 0x01A5), (0x01A6, 0x0280),
     (0x01A7, 0x01A8), (0x01A9, 0x0283), (0x01AC, 0x01AD), (0x01AE, 0x0288), (0x01AF, 0x01B0), (0x01B1, 0x028A)]"

definition unicode_casefolding_1 :: "(u16 \<times> u16) list" where
  "unicode_casefolding_1 =
    [(0x01B2, 0x028B), (0x01B3, 0x01B4), (0x01B5, 0x01B6), (0x01B7, 0x0292), (0x01B8, 0x01B9), (0x01BC, 0x01BD),
     (0x01C4, 0x01C6), (0x01C5, 0x01C6), (0x01C7, 0x01C9), (0x01C8, 0x01C9), (0x01CA, 0x01CC), (0x01CB, 0x01CC),
     (0x01CD, 0x01CE), (0x01CF, 0x01D0), (0x01D1, 0x01D2), (0x01D3, 0x01D4), (0x01D5, 0x01D6), (0x01D7, 0x01D8),
     (0x01D9, 0x01DA), (0x01DB, 0x01DC), (0x01DE, 0x01DF), (0x01E0, 0x01E1), (0x01E2, 0x01E3), (0x01E4, 0x01E5),
     (0x01E6, 0x01E7), (0x01E8, 0x01E9), (0x01EA, 0x01EB), (0x01EC, 0x01ED), (0x01EE, 0x01EF), (0x01F1, 0x01F3),
     (0x01F2, 0x01F3), (0x01F4, 0x01F5), (0x01F6, 0x0195), (0x01F7, 0x01BF), (0x01F8, 0x01F9), (0x01FA, 0x01FB),
     (0x01FC, 0x01FD), (0x01FE, 0x01FF), (0x0200, 0x0201), (0x0202, 0x0203), (0x0204, 0x0205), (0x0206, 0x0207),
     (0x0208, 0x0209), (0x020A, 0x020B), (0x020C, 0x020D), (0x020E, 0x020F), (0x0210, 0x0211), (0x0212, 0x0213),
     (0x0214, 0x0215), (0x0216, 0x0217), (0x0218, 0x0219), (0x021A, 0x021B), (0x021C, 0x021D), (0x021E, 0x021F),
     (0x0220, 0x019E), (0x0222, 0x0223), (0x0224, 0x0225), (0x0226, 0x0227), (0x0228, 0x0229), (0x022A, 0x022B),
     (0x022C, 0x022D), (0x022E, 0x022F), (0x0230, 0x0231), (0x0232, 0x0233), (0x023A, 0x2C65), (0x023B, 0x023C),
     (0x023D, 0x019A), (0x023E, 0x2C66), (0x0241, 0x0242), (0x0243, 0x0180), (0x0244, 0x0289), (0x0245, 0x028C),
     (0x0246, 0x0247), (0x0248, 0x0249), (0x024A, 0x024B), (0x024C, 0x024D), (0x024E, 0x024F), (0x0345, 0x03B9),
     (0x0370, 0x0371), (0x0372, 0x0373), (0x0376, 0x0377), (0x0386, 0x03AC), (0x0388, 0x03AD), (0x0389, 0x03AE),
     (0x038A, 0x03AF), (0x038C, 0x03CC), (0x038E, 0x03CD), (0x038F, 0x03CE), (0x0391, 0x03B1), (0x0392, 0x03B2),
     (0x0393, 0x03B3), (0x0394, 0x03B4), (0x0395, 0x03B5), (0x0396, 0x03B6), (0x0397, 0x03B7), (0x0398, 0x03B8),
     (0x0399, 0x03B9), (0x039A, 0x03BA), (0x039B, 0x03BB), (0x039C, 0x03BC), (0x039D, 0x03BD), (0x039E, 0x03BE),
     (0x039F, 0x03BF), (0x03A0, 0x03C0), (0x03A1, 0x03C1), (0x03A3, 0x03C3), (0x03A4, 0x03C4), (0x03A5, 0x03C5),
     (0x03A6, 0x03C6), (0x03A7, 0x03C7), (0x03A8, 0x03C8), (0x03A9, 0x03C9), (0x03AA, 0x03CA), (0x03AB, 0x03CB),
     (0x03C2, 0x03C3), (0x03CF, 0x03D7), (0x03D0, 0x03B2), (0x03D1, 0x03B8), (0x03D5, 0x03C6), (0x03D6, 0x03C0),
     (0x03D8, 0x03D9), (0x03DA, 0x03DB), (0x03DC, 0x03DD), (0x03DE, 0x03DF), (0x03E0, 0x03E1), (0x03E2, 0x03E3),
     (0x03E4, 0x03E5), (0x03E6, 0x03E7), (0x03E8, 0x03E9), (0x03EA, 0x03EB), (0x03EC, 0x03ED), (0x03EE, 0x03EF),
     (0x03F0, 0x03BA), (0x03F1, 0x03C1), (0x03F4, 0x03B8), (0x03F5, 0x03B5), (0x03F7, 0x03F8), (0x03F9, 0x03F2),
     (0x03FA, 0x03FB), (0x03FD, 0x037B), (0x03FE, 0x037C), (0x03FF, 0x037D), (0x0400, 0x0450), (0x0401, 0x0451),
     (0x0402, 0x0452), (0x0403, 0x0453), (0x0404, 0x0454), (0x0405, 0x0455), (0x0406, 0x0456), (0x0407, 0x0457)]"

definition unicode_casefolding_2 :: "(u16 \<times> u16) list" where
  "unicode_casefolding_2 =
    [(0x0408, 0x0458), (0x0409, 0x0459), (0x040A, 0x045A), (0x040B, 0x045B), (0x040C, 0x045C), (0x040D, 0x045D),
     (0x040E, 0x045E), (0x040F, 0x045F), (0x0410, 0x0430), (0x0411, 0x0431), (0x0412, 0x0432), (0x0413, 0x0433),
     (0x0414, 0x0434), (0x0415, 0x0435), (0x0416, 0x0436), (0x0417, 0x0437), (0x0418, 0x0438), (0x0419, 0x0439),
     (0x041A, 0x043A), (0x041B, 0x043B), (0x041C, 0x043C), (0x041D, 0x043D), (0x041E, 0x043E), (0x041F, 0x043F),
     (0x0420, 0x0440), (0x0421, 0x0441), (0x0422, 0x0442), (0x0423, 0x0443), (0x0424, 0x0444), (0x0425, 0x0445),
     (0x0426, 0x0446), (0x0427, 0x0447), (0x0428, 0x0448), (0x0429, 0x0449), (0x042A, 0x044A), (0x042B, 0x044B),
     (0x042C, 0x044C), (0x042D, 0x044D), (0x042E, 0x044E), (0x042F, 0x044F), (0x0460, 0x0461), (0x0462, 0x0463),
     (0x0464, 0x0465), (0x0466, 0x0467), (0x0468, 0x0469), (0x046A, 0x046B), (0x046C, 0x046D), (0x046E, 0x046F),
     (0x0470, 0x0471), (0x0472, 0x0473), (0x0474, 0x0475), (0x0476, 0x0477), (0x0478, 0x0479), (0x047A, 0x047B),
     (0x047C, 0x047D), (0x047E, 0x047F), (0x0480, 0x0481), (0x048A, 0x048B), (0x048C, 0x048D), (0x048E, 0x048F),
     (0x0490, 0x0491), (0x0492, 0x0493), (0x0494, 0x0495), (0x0496, 0x0497), (0x0498, 0x0499), (0x049A, 0x049B),
     (0x049C, 0x049D), (0x049E, 0x049F), (0x04A0, 0x04A1), (0x04A2, 0x04A3), (0x04A4, 0x04A5), (0x04A6, 0x04A7),
     (0x04A8, 0x04A9), (0x04AA, 0x04AB), (0x04AC, 0x04AD), (0x04AE, 0x04AF), (0x04B0, 0x04B1), (0x04B2, 0x04B3),
     (0x04B4, 0x04B5), (0x04B6, 0x04B7), (0x04B8, 0x04B9), (0x04BA, 0x04BB), (0x04BC, 0x04BD), (0x04BE, 0x04BF),
     (0x04C0, 0x04CF), (0x04C1, 0x04C2), (0x04C3, 0x04C4), (0x04C5, 0x04C6), (0x04C7, 0x04C8), (0x04C9, 0x04CA),
     (0x04CB, 0x04CC), (0x04CD, 0x04CE), (0x04D0, 0x04D1), (0x04D2, 0x04D3), (0x04D4, 0x04D5), (0x04D6, 0x04D7),
     (0x04D8, 0x04D9), (0x04DA, 0x04DB), (0x04DC, 0x04DD), (0x04DE, 0x04DF), (0x04E0, 0x04E1), (0x04E2, 0x04E3),
     (0x04E4, 0x04E5), (0x04E6, 0x04E7), (0x04E8, 0x04E9), (0x04EA, 0x04EB), (0x04EC, 0x04ED), (0x04EE, 0x04EF),
     (0x04F0, 0x04F1), (0x04F2, 0x04F3), (0x04F4, 0x04F5), (0x04F6, 0x04F7), (0x04F8, 0x04F9), (0x04FA, 0x04FB),
     (0x04FC, 0x04FD), (0x04FE, 0x04FF), (0x0500, 0x0501), (0x0502, 0x0503), (0x0504, 0x0505), (0x0506, 0x0507),
     (0x0508, 0x0509), (0x050A, 0x050B), (0x050C, 0x050D), (0x050E, 0x050F), (0x0510, 0x0511), (0x0512, 0x0513),
     (0x0514, 0x0515), (0x0516, 0x0517), (0x0518, 0x0519), (0x051A, 0x051B), (0x051C, 0x051D), (0x051E, 0x051F),
     (0x0520, 0x0521), (0x0522, 0x0523), (0x0524, 0x0525), (0x0531, 0x0561), (0x0532, 0x0562), (0x0533, 0x0563),
     (0x0534, 0x0564), (0x0535, 0x0565), (0x0536, 0x0566), (0x0537, 0x0567), (0x0538, 0x0568), (0x0539, 0x0569),
     (0x053A, 0x056A), (0x053B, 0x056B), (0x053C, 0x056C), (0x053D, 0x056D), (0x053E, 0x056E), (0x053F, 0x056F)]"

definition unicode_casefolding_3 :: "(u16 \<times> u16) list" where
  "unicode_casefolding_3 =
    [(0x0540, 0x0570), (0x0541, 0x0571), (0x0542, 0x0572), (0x0543, 0x0573), (0x0544, 0x0574), (0x0545, 0x0575),
     (0x0546, 0x0576), (0x0547, 0x0577), (0x0548, 0x0578), (0x0549, 0x0579), (0x054A, 0x057A), (0x054B, 0x057B),
     (0x054C, 0x057C), (0x054D, 0x057D), (0x054E, 0x057E), (0x054F, 0x057F), (0x0550, 0x0580), (0x0551, 0x0581),
     (0x0552, 0x0582), (0x0553, 0x0583), (0x0554, 0x0584), (0x0555, 0x0585), (0x0556, 0x0586), (0x10A0, 0x2D00),
     (0x10A1, 0x2D01), (0x10A2, 0x2D02), (0x10A3, 0x2D03), (0x10A4, 0x2D04), (0x10A5, 0x2D05), (0x10A6, 0x2D06),
     (0x10A7, 0x2D07), (0x10A8, 0x2D08), (0x10A9, 0x2D09), (0x10AA, 0x2D0A), (0x10AB, 0x2D0B), (0x10AC, 0x2D0C),
     (0x10AD, 0x2D0D), (0x10AE, 0x2D0E), (0x10AF, 0x2D0F), (0x10B0, 0x2D10), (0x10B1, 0x2D11), (0x10B2, 0x2D12),
     (0x10B3, 0x2D13), (0x10B4, 0x2D14), (0x10B5, 0x2D15), (0x10B6, 0x2D16), (0x10B7, 0x2D17), (0x10B8, 0x2D18),
     (0x10B9, 0x2D19), (0x10BA, 0x2D1A), (0x10BB, 0x2D1B), (0x10BC, 0x2D1C), (0x10BD, 0x2D1D), (0x10BE, 0x2D1E),
     (0x10BF, 0x2D1F), (0x10C0, 0x2D20), (0x10C1, 0x2D21), (0x10C2, 0x2D22), (0x10C3, 0x2D23), (0x10C4, 0x2D24),
     (0x10C5, 0x2D25), (0x1E00, 0x1E01), (0x1E02, 0x1E03), (0x1E04, 0x1E05), (0x1E06, 0x1E07), (0x1E08, 0x1E09),
     (0x1E0A, 0x1E0B), (0x1E0C, 0x1E0D), (0x1E0E, 0x1E0F), (0x1E10, 0x1E11), (0x1E12, 0x1E13), (0x1E14, 0x1E15),
     (0x1E16, 0x1E17), (0x1E18, 0x1E19), (0x1E1A, 0x1E1B), (0x1E1C, 0x1E1D), (0x1E1E, 0x1E1F), (0x1E20, 0x1E21),
     (0x1E22, 0x1E23), (0x1E24, 0x1E25), (0x1E26, 0x1E27), (0x1E28, 0x1E29), (0x1E2A, 0x1E2B), (0x1E2C, 0x1E2D),
     (0x1E2E, 0x1E2F), (0x1E30, 0x1E31), (0x1E32, 0x1E33), (0x1E34, 0x1E35), (0x1E36, 0x1E37), (0x1E38, 0x1E39),
     (0x1E3A, 0x1E3B), (0x1E3C, 0x1E3D), (0x1E3E, 0x1E3F), (0x1E40, 0x1E41), (0x1E42, 0x1E43), (0x1E44, 0x1E45),
     (0x1E46, 0x1E47), (0x1E48, 0x1E49), (0x1E4A, 0x1E4B), (0x1E4C, 0x1E4D), (0x1E4E, 0x1E4F), (0x1E50, 0x1E51),
     (0x1E52, 0x1E53), (0x1E54, 0x1E55), (0x1E56, 0x1E57), (0x1E58, 0x1E59), (0x1E5A, 0x1E5B), (0x1E5C, 0x1E5D),
     (0x1E5E, 0x1E5F), (0x1E60, 0x1E61), (0x1E62, 0x1E63), (0x1E64, 0x1E65), (0x1E66, 0x1E67), (0x1E68, 0x1E69),
     (0x1E6A, 0x1E6B), (0x1E6C, 0x1E6D), (0x1E6E, 0x1E6F), (0x1E70, 0x1E71), (0x1E72, 0x1E73), (0x1E74, 0x1E75),
     (0x1E76, 0x1E77), (0x1E78, 0x1E79), (0x1E7A, 0x1E7B), (0x1E7C, 0x1E7D), (0x1E7E, 0x1E7F), (0x1E80, 0x1E81),
     (0x1E82, 0x1E83), (0x1E84, 0x1E85), (0x1E86, 0x1E87), (0x1E88, 0x1E89), (0x1E8A, 0x1E8B), (0x1E8C, 0x1E8D),
     (0x1E8E, 0x1E8F), (0x1E90, 0x1E91), (0x1E92, 0x1E93), (0x1E94, 0x1E95), (0x1E9B, 0x1E61), (0x1E9E, 0x00DF),
     (0x1EA0, 0x1EA1), (0x1EA2, 0x1EA3), (0x1EA4, 0x1EA5), (0x1EA6, 0x1EA7), (0x1EA8, 0x1EA9), (0x1EAA, 0x1EAB),
     (0x1EAC, 0x1EAD), (0x1EAE, 0x1EAF), (0x1EB0, 0x1EB1), (0x1EB2, 0x1EB3), (0x1EB4, 0x1EB5), (0x1EB6, 0x1EB7)]"

definition unicode_casefolding_4 :: "(u16 \<times> u16) list" where
  "unicode_casefolding_4 =
    [(0x1EB8, 0x1EB9), (0x1EBA, 0x1EBB), (0x1EBC, 0x1EBD), (0x1EBE, 0x1EBF), (0x1EC0, 0x1EC1), (0x1EC2, 0x1EC3),
     (0x1EC4, 0x1EC5), (0x1EC6, 0x1EC7), (0x1EC8, 0x1EC9), (0x1ECA, 0x1ECB), (0x1ECC, 0x1ECD), (0x1ECE, 0x1ECF),
     (0x1ED0, 0x1ED1), (0x1ED2, 0x1ED3), (0x1ED4, 0x1ED5), (0x1ED6, 0x1ED7), (0x1ED8, 0x1ED9), (0x1EDA, 0x1EDB),
     (0x1EDC, 0x1EDD), (0x1EDE, 0x1EDF), (0x1EE0, 0x1EE1), (0x1EE2, 0x1EE3), (0x1EE4, 0x1EE5), (0x1EE6, 0x1EE7),
     (0x1EE8, 0x1EE9), (0x1EEA, 0x1EEB), (0x1EEC, 0x1EED), (0x1EEE, 0x1EEF), (0x1EF0, 0x1EF1), (0x1EF2, 0x1EF3),
     (0x1EF4, 0x1EF5), (0x1EF6, 0x1EF7), (0x1EF8, 0x1EF9), (0x1EFA, 0x1EFB), (0x1EFC, 0x1EFD), (0x1EFE, 0x1EFF),
     (0x1F08, 0x1F00), (0x1F09, 0x1F01), (0x1F0A, 0x1F02), (0x1F0B, 0x1F03), (0x1F0C, 0x1F04), (0x1F0D, 0x1F05),
     (0x1F0E, 0x1F06), (0x1F0F, 0x1F07), (0x1F18, 0x1F10), (0x1F19, 0x1F11), (0x1F1A, 0x1F12), (0x1F1B, 0x1F13),
     (0x1F1C, 0x1F14), (0x1F1D, 0x1F15), (0x1F28, 0x1F20), (0x1F29, 0x1F21), (0x1F2A, 0x1F22), (0x1F2B, 0x1F23),
     (0x1F2C, 0x1F24), (0x1F2D, 0x1F25), (0x1F2E, 0x1F26), (0x1F2F, 0x1F27), (0x1F38, 0x1F30), (0x1F39, 0x1F31),
     (0x1F3A, 0x1F32), (0x1F3B, 0x1F33), (0x1F3C, 0x1F34), (0x1F3D, 0x1F35), (0x1F3E, 0x1F36), (0x1F3F, 0x1F37),
     (0x1F48, 0x1F40), (0x1F49, 0x1F41), (0x1F4A, 0x1F42), (0x1F4B, 0x1F43), (0x1F4C, 0x1F44), (0x1F4D, 0x1F45),
     (0x1F59, 0x1F51), (0x1F5B, 0x1F53), (0x1F5D, 0x1F55), (0x1F5F, 0x1F57), (0x1F68, 0x1F60), (0x1F69, 0x1F61),
     (0x1F6A, 0x1F62), (0x1F6B, 0x1F63), (0x1F6C, 0x1F64), (0x1F6D, 0x1F65), (0x1F6E, 0x1F66), (0x1F6F, 0x1F67),
     (0x1F88, 0x1F80), (0x1F89, 0x1F81), (0x1F8A, 0x1F82), (0x1F8B, 0x1F83), (0x1F8C, 0x1F84), (0x1F8D, 0x1F85),
     (0x1F8E, 0x1F86), (0x1F8F, 0x1F87), (0x1F98, 0x1F90), (0x1F99, 0x1F91), (0x1F9A, 0x1F92), (0x1F9B, 0x1F93),
     (0x1F9C, 0x1F94), (0x1F9D, 0x1F95), (0x1F9E, 0x1F96), (0x1F9F, 0x1F97), (0x1FA8, 0x1FA0), (0x1FA9, 0x1FA1),
     (0x1FAA, 0x1FA2), (0x1FAB, 0x1FA3), (0x1FAC, 0x1FA4), (0x1FAD, 0x1FA5), (0x1FAE, 0x1FA6), (0x1FAF, 0x1FA7),
     (0x1FB8, 0x1FB0), (0x1FB9, 0x1FB1), (0x1FBA, 0x1F70), (0x1FBB, 0x1F71), (0x1FBC, 0x1FB3), (0x1FBE, 0x03B9),
     (0x1FC8, 0x1F72), (0x1FC9, 0x1F73), (0x1FCA, 0x1F74), (0x1FCB, 0x1F75), (0x1FCC, 0x1FC3), (0x1FD8, 0x1FD0),
     (0x1FD9, 0x1FD1), (0x1FDA, 0x1F76), (0x1FDB, 0x1F77), (0x1FE8, 0x1FE0), (0x1FE9, 0x1FE1), (0x1FEA, 0x1F7A),
     (0x1FEB, 0x1F7B), (0x1FEC, 0x1FE5), (0x1FF8, 0x1F78), (0x1FF9, 0x1F79), (0x1FFA, 0x1F7C), (0x1FFB, 0x1F7D),
     (0x1FFC, 0x1FF3), (0x2126, 0x03C9), (0x212A, 0x006B), (0x212B, 0x00E5), (0x2132, 0x214E), (0x2160, 0x2170),
     (0x2161, 0x2171), (0x2162, 0x2172), (0x2163, 0x2173), (0x2164, 0x2174), (0x2165, 0x2175), (0x2166, 0x2176),
     (0x2167, 0x2177), (0x2168, 0x2178), (0x2169, 0x2179), (0x216A, 0x217A), (0x216B, 0x217B), (0x216C, 0x217C)]"

definition unicode_casefolding_5 :: "(u16 \<times> u16) list" where
  "unicode_casefolding_5 =
    [(0x216D, 0x217D), (0x216E, 0x217E), (0x216F, 0x217F), (0x2183, 0x2184), (0x24B6, 0x24D0), (0x24B7, 0x24D1),
     (0x24B8, 0x24D2), (0x24B9, 0x24D3), (0x24BA, 0x24D4), (0x24BB, 0x24D5), (0x24BC, 0x24D6), (0x24BD, 0x24D7),
     (0x24BE, 0x24D8), (0x24BF, 0x24D9), (0x24C0, 0x24DA), (0x24C1, 0x24DB), (0x24C2, 0x24DC), (0x24C3, 0x24DD),
     (0x24C4, 0x24DE), (0x24C5, 0x24DF), (0x24C6, 0x24E0), (0x24C7, 0x24E1), (0x24C8, 0x24E2), (0x24C9, 0x24E3),
     (0x24CA, 0x24E4), (0x24CB, 0x24E5), (0x24CC, 0x24E6), (0x24CD, 0x24E7), (0x24CE, 0x24E8), (0x24CF, 0x24E9),
     (0x2C00, 0x2C30), (0x2C01, 0x2C31), (0x2C02, 0x2C32), (0x2C03, 0x2C33), (0x2C04, 0x2C34), (0x2C05, 0x2C35),
     (0x2C06, 0x2C36), (0x2C07, 0x2C37), (0x2C08, 0x2C38), (0x2C09, 0x2C39), (0x2C0A, 0x2C3A), (0x2C0B, 0x2C3B),
     (0x2C0C, 0x2C3C), (0x2C0D, 0x2C3D), (0x2C0E, 0x2C3E), (0x2C0F, 0x2C3F), (0x2C10, 0x2C40), (0x2C11, 0x2C41),
     (0x2C12, 0x2C42), (0x2C13, 0x2C43), (0x2C14, 0x2C44), (0x2C15, 0x2C45), (0x2C16, 0x2C46), (0x2C17, 0x2C47),
     (0x2C18, 0x2C48), (0x2C19, 0x2C49), (0x2C1A, 0x2C4A), (0x2C1B, 0x2C4B), (0x2C1C, 0x2C4C), (0x2C1D, 0x2C4D),
     (0x2C1E, 0x2C4E), (0x2C1F, 0x2C4F), (0x2C20, 0x2C50), (0x2C21, 0x2C51), (0x2C22, 0x2C52), (0x2C23, 0x2C53),
     (0x2C24, 0x2C54), (0x2C25, 0x2C55), (0x2C26, 0x2C56), (0x2C27, 0x2C57), (0x2C28, 0x2C58), (0x2C29, 0x2C59),
     (0x2C2A, 0x2C5A), (0x2C2B, 0x2C5B), (0x2C2C, 0x2C5C), (0x2C2D, 0x2C5D), (0x2C2E, 0x2C5E), (0x2C60, 0x2C61),
     (0x2C62, 0x026B), (0x2C63, 0x1D7D), (0x2C64, 0x027D), (0x2C67, 0x2C68), (0x2C69, 0x2C6A), (0x2C6B, 0x2C6C),
     (0x2C6D, 0x0251), (0x2C6E, 0x0271), (0x2C6F, 0x0250), (0x2C70, 0x0252), (0x2C72, 0x2C73), (0x2C75, 0x2C76),
     (0x2C7E, 0x023F), (0x2C7F, 0x0240), (0x2C80, 0x2C81), (0x2C82, 0x2C83), (0x2C84, 0x2C85), (0x2C86, 0x2C87),
     (0x2C88, 0x2C89), (0x2C8A, 0x2C8B), (0x2C8C, 0x2C8D), (0x2C8E, 0x2C8F), (0x2C90, 0x2C91), (0x2C92, 0x2C93),
     (0x2C94, 0x2C95), (0x2C96, 0x2C97), (0x2C98, 0x2C99), (0x2C9A, 0x2C9B), (0x2C9C, 0x2C9D), (0x2C9E, 0x2C9F),
     (0x2CA0, 0x2CA1), (0x2CA2, 0x2CA3), (0x2CA4, 0x2CA5), (0x2CA6, 0x2CA7), (0x2CA8, 0x2CA9), (0x2CAA, 0x2CAB),
     (0x2CAC, 0x2CAD), (0x2CAE, 0x2CAF), (0x2CB0, 0x2CB1), (0x2CB2, 0x2CB3), (0x2CB4, 0x2CB5), (0x2CB6, 0x2CB7),
     (0x2CB8, 0x2CB9), (0x2CBA, 0x2CBB), (0x2CBC, 0x2CBD), (0x2CBE, 0x2CBF), (0x2CC0, 0x2CC1), (0x2CC2, 0x2CC3),
     (0x2CC4, 0x2CC5), (0x2CC6, 0x2CC7), (0x2CC8, 0x2CC9), (0x2CCA, 0x2CCB), (0x2CCC, 0x2CCD), (0x2CCE, 0x2CCF),
     (0x2CD0, 0x2CD1), (0x2CD2, 0x2CD3), (0x2CD4, 0x2CD5), (0x2CD6, 0x2CD7), (0x2CD8, 0x2CD9), (0x2CDA, 0x2CDB),
     (0x2CDC, 0x2CDD), (0x2CDE, 0x2CDF), (0x2CE0, 0x2CE1), (0x2CE2, 0x2CE3), (0x2CEB, 0x2CEC), (0x2CED, 0x2CEE)]"

definition unicode_casefolding :: "(u16 \<times> u16) list" where
  "unicode_casefolding =
     unicode_casefolding_0 @ unicode_casefolding_1 @ unicode_casefolding_2 @
     unicode_casefolding_3 @ unicode_casefolding_4 @ unicode_casefolding_5"

text \<open>The loop of \<open>unicode_init\<close> on the allocated table; \<open>None\<close> is a store outside of it.\<close>

fun unicode_init_loop :: "(u16 \<times> u16) list \<Rightarrow> u16 list \<Rightarrow> u16 list option" where
  "unicode_init_loop [] table = Some table"
| "unicode_init_loop ((from, to) # ps) table =
     (if unat from < length table then unicode_init_loop ps (table[unat from := to]) else None)"

definition unicode_init :: "(u16 \<times> u16) list \<Rightarrow> u16 list option" where
  "unicode_init ps = unicode_init_loop ps (replicate (unat (snd (last ps))) 0)"

definition casefoldtable :: "u16 list" where
  "casefoldtable = (case unicode_init unicode_casefolding of None \<Rightarrow> [] | Some t \<Rightarrow> t)"

definition unicode_casefold :: "int \<Rightarrow> int" where
  "unicode_casefold i =
     (if nat i < length casefoldtable \<and> casefoldtable ! nat i \<noteq> 0
      then uint (casefoldtable ! nat i) else i)"

lemma unicode_init_loop_Some:
  "\<forall>(f, t)\<in>set ps. unat f < length tab \<Longrightarrow> distinct (map fst ps) \<Longrightarrow>
     \<exists>tab'. unicode_init_loop ps tab = Some tab' \<and> length tab' = length tab \<and>
       (\<forall>c. unat c < length tab \<longrightarrow>
          tab' ! unat c = (case map_of ps c of None \<Rightarrow> tab ! unat c | Some t \<Rightarrow> t))"
proof (induction ps arbitrary: tab)
  case (Cons p ps)
  obtain f t where p: "p = (f, t)" by force
  have f: "unat f < length tab" and fresh: "map_of ps f = None"
    using Cons.prems p by (auto simp: map_of_eq_None_iff)
  obtain tab' where tab': "unicode_init_loop ps (tab[unat f := t]) = Some tab'"
      "length tab' = length tab"
      "\<And>c. unat c < length tab \<Longrightarrow>
        tab' ! unat c = (case map_of ps c of None \<Rightarrow> tab[unat f := t] ! unat c | Some t \<Rightarrow> t)"
    using Cons.prems Cons.IH [of "tab[unat f := t]"] by auto
  have "tab[unat f := t] ! unat c = tab ! unat c" if "c \<noteq> f" for c
    using that by (metis nth_list_update_neq word_unat_eq_iff)
  then have "tab' ! unat c = (case map_of (p # ps) c of None \<Rightarrow> tab ! unat c | Some t \<Rightarrow> t)"
    if "unat c < length tab" for c
    using that tab'(3) [of c] f fresh p by (cases "c = f") (simp_all split: option.splits)
  with f p tab'(1,2) show ?case by simp
qed simp

lemma unicode_init_Some:
  assumes "distinct (map fst ps)" and "\<forall>(f, t)\<in>set ps. unat f < unat (snd (last ps))"
  shows "\<exists>tab. unicode_init ps = Some tab \<and> length tab = unat (snd (last ps)) \<and>
    (\<forall>c. unat c < length tab \<longrightarrow> tab ! unat c = (case map_of ps c of None \<Rightarrow> 0 | Some t \<Rightarrow> t))"
  using unicode_init_loop_Some [OF _ assms(1), of "replicate (unat (snd (last ps))) 0"] assms(2)
  by (auto simp: unicode_init_def split: option.splits)

text \<open>What the pairs of the header file promise: no code point is folded twice, every one lies
  inside the table, only letters are folded and what they are folded to is not folded again.\<close>

fun ascending :: "int \<Rightarrow> (u16 \<times> u16) list \<Rightarrow> int \<Rightarrow> bool" where
  "ascending c [] d = (c < d)"
| "ascending c ((f, t) # ps) d = (c < uint f \<and> 0x60 < uint t \<and> ascending (uint f) ps d)"

lemma ascending_append:
  "ascending c ps d \<Longrightarrow> ascending (d - 1) qs e \<Longrightarrow> ascending c (ps @ qs) e"
proof (induction c ps d rule: ascending.induct)
  case (1 c d)
  then show ?case by (cases "(c, qs, e)" rule: ascending.cases) auto
qed auto

lemma ascending_less: "ascending c ps d \<Longrightarrow> c < d"
  by (induction c ps d rule: ascending.induct) auto

lemma ascendingD:
  "ascending c ps d \<Longrightarrow>
     distinct (map fst ps) \<and> (\<forall>(f, t)\<in>set ps. c < uint f \<and> uint f < d \<and> 0x60 < uint t)"
proof (induction c ps d rule: ascending.induct)
  case (2 c f t ps d)
  then have ps: "distinct (map fst ps)" "\<forall>(f', t)\<in>set ps. uint f < uint f' \<and> uint f' < d \<and> 0x60 < uint t"
    by auto
  moreover have "uint f < d"
    using "2.prems" by (auto dest: ascending_less)
  ultimately show ?case
    using "2.prems" by force
qed simp

lemma unicode_casefolding_chunks:
  "ascending 0x40 unicode_casefolding_0 0x01B2"
  "ascending 0x01B1 unicode_casefolding_1 0x0408"
  "ascending 0x0407 unicode_casefolding_2 0x0540"
  "ascending 0x053F unicode_casefolding_3 0x1EB8"
  "ascending 0x1EB7 unicode_casefolding_4 0x216D"
  "ascending 0x216C unicode_casefolding_5 0x2CEE"
  by (simp_all add: unicode_casefolding_0_def unicode_casefolding_1_def unicode_casefolding_2_def
      unicode_casefolding_3_def unicode_casefolding_4_def unicode_casefolding_5_def)

lemma unicode_casefolding_ascending: "ascending 0x40 unicode_casefolding 0x2CEE"
  unfolding unicode_casefolding_def
  by (rule ascending_append, rule unicode_casefolding_chunks, simp)+ (simp add: unicode_casefolding_chunks)

lemma unicode_casefolding_last: "snd (last unicode_casefolding) = 0x2CEE"
  by (simp add: unicode_casefolding_def unicode_casefolding_5_def)

lemma unicode_casefolding_bounds:
  "distinct (map fst unicode_casefolding)"
  "(f, t) \<in> set unicode_casefolding \<Longrightarrow> 0x40 < uint f \<and> uint f < 0x2CEE \<and> 0x60 < uint t"
  using ascendingD [OF unicode_casefolding_ascending] by auto

text \<open>The table and the fold it computes.\<close>

lemma casefoldtable_correct:
  "unicode_init unicode_casefolding = Some casefoldtable" "length casefoldtable = 0x2CEE"
  "unat c < 0x2CEE \<Longrightarrow>
     casefoldtable ! unat c = (case map_of unicode_casefolding c of None \<Rightarrow> 0 | Some t \<Rightarrow> t)"
proof -
  have n: "unat (snd (last unicode_casefolding)) = 0x2CEE"
    by (simp add: unicode_casefolding_last)
  have "\<forall>(f, t)\<in>set unicode_casefolding. unat f < 0x2CEE"
  proof clarify
    fix f t
    assume "(f, t) \<in> set unicode_casefolding"
    then have "uint f < 0x2CEE" using unicode_casefolding_bounds(2) by blast
    then have "int (unat f) < int 0x2CEE" by simp
    then show "unat f < 0x2CEE" by (simp only: of_nat_less_iff)
  qed
  then obtain tab where tab: "unicode_init unicode_casefolding = Some tab" "length tab = 0x2CEE"
    "\<And>c. unat c < 0x2CEE \<Longrightarrow>
       tab ! unat c = (case map_of unicode_casefolding c of None \<Rightarrow> 0 | Some t \<Rightarrow> t)"
    using unicode_init_Some [OF unicode_casefolding_bounds(1)] unfolding n by metis
  then have "casefoldtable = tab"
    by (simp add: casefoldtable_def)
  with tab show "unicode_init unicode_casefolding = Some casefoldtable" "length casefoldtable = 0x2CEE"
    "unat c < 0x2CEE \<Longrightarrow>
     casefoldtable ! unat c = (case map_of unicode_casefolding c of None \<Rightarrow> 0 | Some t \<Rightarrow> t)"
    by blast+
qed

lemma unicode_casefold_map:
  assumes "0 \<le> c"
  shows "unicode_casefold c =
    (if c < 0x2CEE then case map_of unicode_casefolding (word_of_int c) of None \<Rightarrow> c | Some t \<Rightarrow> uint t
     else c)"
proof (cases "c < 0x2CEE")
  case True
  then have u: "unat (word_of_int c :: u16) = nat c"
    using assms unfolding unat_eq_nat_uint by (simp add: uint_word_of_int del: nat_uint_eq)
  have "map_of unicode_casefolding f \<noteq> Some 0" for f
    using unicode_casefolding_bounds(2) [of f 0] by (auto dest: map_of_SomeD)
  then show ?thesis
    using True assms casefoldtable_correct(2) casefoldtable_correct(3) [of "word_of_int c"]
    by (auto simp: unicode_casefold_def u split: option.splits)
next
  case False
  then have "\<not> nat c < 0x2CEE" by simp
  with False show ?thesis
    by (simp add: unicode_casefold_def casefoldtable_correct(2))
qed

lemma unicode_casefold_low [simp]:
  assumes "0 \<le> c" "c \<le> 0x40"
  shows "unicode_casefold c = c"
proof -
  have "uint (word_of_int c :: u16) = c"
    using assms by (simp add: uint_word_of_int)
  then have "map_of unicode_casefolding (word_of_int c) = None"
    using assms unicode_casefolding_bounds(2) [of "word_of_int c"] by (force simp: map_of_eq_None_iff)
  with assms show ?thesis by (simp add: unicode_casefold_map)
qed

lemma unicode_casefold_high: "0x40 < c \<Longrightarrow> 0x40 < unicode_casefold c"
  using unicode_casefolding_bounds(2)
  by (fastforce simp: unicode_casefold_map dest: map_of_SomeD split: option.splits)

lemma unicode_casefold_latin:
  assumes "0 \<le> c" "c \<le> 0x1B1"
  shows "unicode_casefold c =
    (case map_of unicode_casefolding_0 (word_of_int c) of None \<Rightarrow> c | Some t \<Rightarrow> uint t)"
proof -
  define rest where "rest = unicode_casefolding_1 @ unicode_casefolding_2 @ unicode_casefolding_3 @
      unicode_casefolding_4 @ unicode_casefolding_5"
  have "ascending 0x01B1 rest 0x2CEE"
    unfolding rest_def
    by (rule ascending_append, rule unicode_casefolding_chunks, simp)+ (simp add: unicode_casefolding_chunks)
  then have "(f, t) \<in> set rest \<Longrightarrow> 0x1B1 < uint f" for f t
    using ascendingD by blast
  moreover have "uint (word_of_int c :: u16) \<le> 0x1B1"
    using assms by (simp add: uint_word_of_int)
  ultimately have "(word_of_int c, t) \<notin> set rest" for t
    by (meson not_less)
  then have "map_of rest (word_of_int c) = None"
    by (auto simp: map_of_eq_None_iff)
  then have "map_of unicode_casefolding (word_of_int c) = map_of unicode_casefolding_0 (word_of_int c)"
    unfolding unicode_casefolding_def rest_def [symmetric] map_of_append
    by (simp add: map_add_def split: option.splits)
  with assms show ?thesis by (simp add: unicode_casefold_map)
qed

lemma unicode_casefold_letters:
  "unicode_casefold 65 = 97" "unicode_casefold 66 = 98"
  "unicode_casefold 97 = 97" "unicode_casefold 98 = 98" "unicode_casefold 99 = 99"
  by (simp_all add: unicode_casefold_latin unicode_casefolding_0_def)

lemma unicode_casefold_zero: "0 \<le> c \<Longrightarrow> unicode_casefold c = 0 \<longleftrightarrow> c = 0"
  using unicode_casefold_high [of c] by (cases "c \<le> 0x40") auto

lemma unicode_casefold_nonneg: "0 \<le> c \<Longrightarrow> 0 \<le> unicode_casefold c"
  using unicode_casefold_high [of c] by (cases "c \<le> 0x40") auto

section \<open>Comparison\<close>

text \<open>The index loop of \<open>no_the\<close> skips blanks and dots.\<close>

definition no_the :: "bool \<Rightarrow> bytes \<Rightarrow> bytes" where
  "no_the ignore_the_prefix a =
     (if \<not> ignore_the_prefix then a
      else if deref a \<noteq> chr CHR ''t'' \<and> deref a \<noteq> chr CHR ''T'' then a
      else if deref (tl a) \<noteq> chr CHR ''h'' \<and> deref (tl a) \<noteq> chr CHR ''H'' then a
      else if deref (tl (tl a)) \<noteq> chr CHR ''e'' \<and> deref (tl (tl a)) \<noteq> chr CHR ''E'' then a
      else dropWhile (\<lambda>c. c = chr CHR '' '' \<or> c = chr CHR ''.'') (drop 3 a))"

abbreviation is_digit_code :: "int \<Rightarrow> bool" where
  "is_digit_code c \<equiv> 48 \<le> c \<and> c \<le> 57"

text \<open>The loops that read the digits of a number into a 64 bit \<^verbatim>\<open>long\<close>.\<close>

fun digit_run :: "u64 \<Rightarrow> bytes \<Rightarrow> u64 \<times> bytes" where
  "digit_run d [] = (d, [])"
| "digit_run d (c # s) = (if is_digit c then digit_run (d * 10 + ucast c - 48) s else (d, c # s))"

lemma digit_run_length: "length (snd (digit_run d s)) \<le> length s"
  by (induction d s rule: digit_run.induct) auto

function dictcmp_loop :: "bytes \<Rightarrow> bytes \<Rightarrow> int" where
  "dictcmp_loop a b =
     (let (ua, a') = utf8_get a; (ub, b') = utf8_get b in
      if is_digit_code ua \<and> is_digit_code ub then
        (let (da, a'') = digit_run (word_of_int (ua - 48)) a';
             (db, b'') = digit_run (word_of_int (ub - 48)) b'
         in if da \<noteq> db then sint (ucast (da - db) :: u32) else dictcmp_loop a'' b'')
      else if is_digit_code ua \<or> is_digit_code ub then ua - ub
      else
        (let fa = (if ua \<noteq> ub then unicode_casefold ua else ua);
             fb = (if ua \<noteq> ub then unicode_casefold ub else ub)
         in if fa \<noteq> fb then fa - fb
            else if fa = 0 then 0
            else dictcmp_loop a' b'))"
  by pat_completeness auto
termination
proof (relation "measure (\<lambda>(a, b). length a)", goal_cases)
  case (2 a b pa ua a' pb ub b' pc da a'' pd db b'')
  then have "ua \<noteq> 0" by auto
  with 2 have "length a' < length a"
    by (intro utf8_get_pair_less [of ua]) simp_all
  moreover have "length a'' \<le> length a'"
    using digit_run_length [of "word_of_int (ua - 48)" a'] 2 by (metis snd_conv)
  ultimately show ?case by simp
next
  case (3 a b pa ua a' pb ub b' fa fb)
  then have "ua \<noteq> 0"
    using unicode_casefold_low [of 0] by (auto split: if_splits)
  with 3 show ?case
    using utf8_get_pair_less [of ua a' a] by simp
qed simp

declare dictcmp_loop.simps [simp del]

definition dictcmp :: "bool \<Rightarrow> bytes \<Rightarrow> bytes \<Rightarrow> int" where
  "dictcmp ignore_the_prefix a b = dictcmp_loop (no_the ignore_the_prefix a) (no_the ignore_the_prefix b)"

section \<open>Search\<close>

text \<open>The inner loop of \<open>mystrstr\<close>: whether it returns, and the value it leaves in \<open>n\<close>.\<close>

function mystrstr_match :: "bytes \<Rightarrow> bytes \<Rightarrow> bool \<times> int" where
  "mystrstr_match h1 n1 =
     (let (cn, n1') = utf8_get n1; n = unicode_casefold cn in
      if n = 0 then (True, n)
      else let (ch, h1') = utf8_get h1 in
        if n \<noteq> unicode_casefold ch then (False, n) else mystrstr_match h1' n1')"
  by pat_completeness auto
termination
  by (relation "measure (\<lambda>(h, n). length n)") (auto dest: utf8_get_pair_less)

declare mystrstr_match.simps [simp del]

text \<open>The outer loop; the result is the rest of the haystack from the match on.\<close>

function mystrstr_loop :: "int \<Rightarrow> bytes \<Rightarrow> bytes \<Rightarrow> bytes option" where
  "mystrstr_loop n haystack needle =
     (let (ch, haystack') = utf8_get haystack; h = unicode_casefold ch in
      if h = 0 then None
      else if n = h then
        (let (found, n') = mystrstr_match haystack' needle in
         if found then Some haystack else mystrstr_loop n' haystack' needle)
      else mystrstr_loop n haystack' needle)"
  by pat_completeness auto
termination
  by (relation "measure (\<lambda>(n, h, m). length h)") (auto dest: utf8_get_pair_less)

declare mystrstr_loop.simps [simp del]

definition mystrstr :: "bytes \<Rightarrow> bytes \<Rightarrow> bytes option" where
  "mystrstr haystack needle =
     (let (c, needle') = utf8_get needle in mystrstr_loop (unicode_casefold c) haystack needle')"

section \<open>The order of \<open>dictcmp\<close>\<close>

text \<open>What \<open>dictcmp\<close> compares: a string is a sequence of numbers and folded code points. A number
  is placed among the code points where the digits are.\<close>

function dict_key :: "bytes \<Rightarrow> (int \<times> nat) list" where
  "dict_key s =
     (let (c, s') = utf8_get s in
      if c = 0 then []
      else if is_digit_code c then
        (48, digits_value (nat (c - 48)) (takeWhile is_digit s')) # dict_key (dropWhile is_digit s')
      else (unicode_casefold c, 0) # dict_key s')"
  by pat_completeness auto
termination
proof (relation "measure length", goal_cases)
  case (2 s p c s')
  then show ?case
    using utf8_get_pair_less [of c s' s] length_dropWhile_le [of is_digit s'] by simp
qed (auto dest: utf8_get_pair_less)

declare dict_key.simps [simp del]

definition int_numbers :: "bytes \<Rightarrow> bool" where
  "int_numbers s \<longleftrightarrow> list_all (\<lambda>(k, v). v < 2 ^ 31) (dict_key s)"

lemma digit_run_value:
  "digit_run (of_nat d) s = (of_nat (digits_value d (takeWhile is_digit s)), dropWhile is_digit s)"
proof (induction s arbitrary: d)
  case (Cons c s)
  show ?case
  proof (cases "is_digit c")
    case True
    then have "48 \<le> unat c" by (simp add: is_digit_unat)
    moreover have "ucast c = (of_nat (unat c) :: u64)"
      by simp
    ultimately have "of_nat d * 10 + ucast c - 48 = (of_nat (d * 10 + (unat c - 48)) :: u64)"
      by (simp add: of_nat_diff)
    then have "digit_run (of_nat d) (c # s) = digit_run (of_nat (d * 10 + (unat c - 48))) s"
      using True by (simp only: digit_run.simps if_True)
    with True Cons.IH [of "d * 10 + (unat c - 48)"] show ?thesis
      by (simp del: digit_run.simps)
  qed simp
qed simp

lemma long_difference:
  assumes "m < 2 ^ 31" "n < 2 ^ 31"
  shows "(of_nat m :: u64) = of_nat n \<longleftrightarrow> m = n"
    "sint (ucast (of_nat m - of_nat n :: u64) :: u32) = int m - int n"
proof -
  show "(of_nat m :: u64) = of_nat n \<longleftrightarrow> m = n"
    using assms by (simp add: word_unat_eq_iff unat_of_nat take_bit_nat_eq_self)
  have "(of_nat m - of_nat n :: u64) = word_of_int (int m - int n)"
    by simp
  moreover have "ucast (word_of_int x :: u64) = (word_of_int x :: u32)" for x
    by (simp add: word_uint_eq_iff uint_word_of_int unsigned_ucast_eq take_bit_eq_mod mod_mod_cancel)
  ultimately have "ucast (of_nat m - of_nat n :: u64) = (word_of_int (int m - int n) :: u32)"
    by metis
  then show "sint (ucast (of_nat m - of_nat n :: u64) :: u32) = int m - int n"
    using assms unfolding sint_sbintrunc' by (simp only: sint_sbintrunc') (rule signed_take_bit_int_eq_self, simp_all)
qed

lemma dictcmp_loop_order:
  "int_numbers a \<Longrightarrow> int_numbers b \<Longrightarrow>
     (dictcmp_loop a b < 0 \<longleftrightarrow> dict_key a < dict_key b) \<and>
     (dictcmp_loop a b = 0 \<longleftrightarrow> dict_key a = dict_key b)"
proof (induction a b rule: dictcmp_loop.induct)
  case (1 a b)
  obtain ua a' where ga: "utf8_get a = (ua, a')" by force
  obtain ub b' where gb: "utf8_get b = (ub, b')" by force
  have nonneg: "0 \<le> ua" "0 \<le> ub"
    using utf8_get_bounds [of a] utf8_get_bounds [of b] ga gb by auto
  have fold: "0 \<le> c \<Longrightarrow> \<not> is_digit_code c \<Longrightarrow> (unicode_casefold c < 48 \<longleftrightarrow> c < 48) \<and> unicode_casefold c \<noteq> 48" for c
    using unicode_casefold_high [of c] by (cases "c \<le> 0x40") auto
  note key = dict_key.simps [of a] dict_key.simps [of b]
  note step = dictcmp_loop.simps [of a b]
  consider (digits) "is_digit_code ua" "is_digit_code ub" | (left) "is_digit_code ua" "\<not> is_digit_code ub"
    | (right) "\<not> is_digit_code ua" "is_digit_code ub" | (codes) "\<not> is_digit_code ua" "\<not> is_digit_code ub"
    by blast
  then show ?case
  proof cases
    case digits
    define na where "na = digits_value (nat (ua - 48)) (takeWhile is_digit a')"
    define nb where "nb = digits_value (nat (ub - 48)) (takeWhile is_digit b')"
    let ?a = "dropWhile is_digit a'" and ?b = "dropWhile is_digit b'"
    have ra: "digit_run (word_of_int (ua - 48)) a' = (of_nat na, ?a)"
      using digit_run_value [of "nat (ua - 48)" a'] digits(1) by (simp add: na_def)
    have rb: "digit_run (word_of_int (ub - 48)) b' = (of_nat nb, ?b)"
      using digit_run_value [of "nat (ub - 48)" b'] digits(2) by (simp add: nb_def)
    have ka: "dict_key a = (48, na) # dict_key ?a" and kb: "dict_key b = (48, nb) # dict_key ?b"
      using digits ga gb by (auto simp: key na_def nb_def)
    then have small: "na < 2 ^ 31" "nb < 2 ^ 31" "int_numbers ?a" "int_numbers ?b"
      using "1.prems" by (simp_all add: int_numbers_def)
    have loop: "dictcmp_loop a b = (if na \<noteq> nb then int na - int nb else dictcmp_loop ?a ?b)"
      using digits small(1,2) unfolding step ga gb Let_def prod.case ra rb
      by (simp add: long_difference)
    show ?thesis
    proof (cases "na = nb")
      case True
      have "(dictcmp_loop ?a ?b < 0 \<longleftrightarrow> dict_key ?a < dict_key ?b) \<and>
          (dictcmp_loop ?a ?b = 0 \<longleftrightarrow> dict_key ?a = dict_key ?b)"
        using digits True by (intro "1.IH"(1) [OF ga [symmetric] refl gb [symmetric] refl _ ra [symmetric] refl rb [symmetric] refl]) (auto simp: small)
      with True loop show ?thesis by (simp add: ka kb)
    next
      case False
      with loop show ?thesis by (auto simp: ka kb)
    qed
  next
    case left
    then show ?thesis
      using ga gb nonneg fold [of ub] by (auto simp: key step)
  next
    case right
    then show ?thesis
      using ga gb nonneg fold [of ua] by (auto simp: key step)
  next
    case codes
    have eq: "dictcmp_loop a b =
        (if unicode_casefold ua \<noteq> unicode_casefold ub then unicode_casefold ua - unicode_casefold ub
         else if ua = 0 then 0 else dictcmp_loop a' b')"
      using codes ga gb nonneg by (auto simp: step Let_def unicode_casefold_zero)
    have k: "dict_key a = (if ua = 0 then [] else (unicode_casefold ua, 0) # dict_key a')"
      "dict_key b = (if ub = 0 then [] else (unicode_casefold ub, 0) # dict_key b')"
      using codes ga gb by (auto simp: key)
    have z: "unicode_casefold ua = 0 \<longleftrightarrow> ua = 0" "unicode_casefold ub = 0 \<longleftrightarrow> ub = 0"
      "0 \<le> unicode_casefold ua" "0 \<le> unicode_casefold ub"
      using nonneg by (simp_all add: unicode_casefold_zero unicode_casefold_nonneg)
    show ?thesis
    proof (cases "ua = 0 \<or> ub = 0")
      case True
      with z show ?thesis
        unfolding eq k by (cases "ua = 0"; cases "ub = 0") simp_all
    next
      case False
      then have small: "int_numbers a'" "int_numbers b'"
        using "1.prems" k by (simp_all add: int_numbers_def)
      have "(dictcmp_loop a' b' < 0 \<longleftrightarrow> dict_key a' < dict_key b') \<and>
          (dictcmp_loop a' b' = 0 \<longleftrightarrow> dict_key a' = dict_key b')" if "unicode_casefold ua = unicode_casefold ub"
        using "1.IH"(2) [OF ga [symmetric] refl gb [symmetric] refl _ _ refl refl] codes False that nonneg small
        by (auto simp: unicode_casefold_zero)
      with False show ?thesis by (auto simp: k eq)
    qed
  qed
qed

lemma mystrstr_match_prefix:
  "map unicode_casefold (utf8_codes h) = map unicode_casefold (utf8_codes n) @ t \<Longrightarrow>
     fst (mystrstr_match h n)"
proof (induction h n arbitrary: t rule: mystrstr_match.induct)
  case (1 h n)
  obtain cn n' where gn: "utf8_get n = (cn, n')" by force
  obtain ch h' where gh: "utf8_get h = (ch, h')" by force
  have z: "unicode_casefold cn = 0 \<longleftrightarrow> cn = 0"
    using utf8_get_bounds [of n] gn by (simp add: unicode_casefold_zero)
  show ?case
  proof (cases "cn = 0")
    case False
    then have "map unicode_casefold (utf8_codes h) =
        unicode_casefold cn # map unicode_casefold (utf8_codes n') @ t"
      using "1.prems" gn by (simp add: utf8_codes.simps [of n])
    then have "unicode_casefold ch = unicode_casefold cn"
      "map unicode_casefold (utf8_codes h') = map unicode_casefold (utf8_codes n') @ t"
      using gh by (auto simp: utf8_codes.simps [of h] split: if_splits)
    then show ?thesis
      using "1.IH" [OF gn [symmetric] refl refl _ gh [symmetric] refl] False z
      by (simp add: mystrstr_match.simps [of h n] gn gh)
  qed (simp add: mystrstr_match.simps [of h n] gn)
qed

section \<open>Properties\<close>

text \<open>
  Property C37. On strings whose numbers fit an \<^verbatim>\<open>int\<close>, \<open>dictcmp\<close> is the lexicographic order of the
  sequences of numbers and folded code points of the two strings, with a leading "the" dropped when
  it is to be ignored: the sign of its result says which sequence comes first, and it is zero exactly
  when they are equal. So it is a total preorder, as the sorting of lists needs it.
\<close>

theorem dictcmp_order:
  assumes "int_numbers (no_the i a)" and "int_numbers (no_the i b)"
  shows "(dictcmp i a b < 0 \<longleftrightarrow> dict_key (no_the i a) < dict_key (no_the i b)) \<and>
    (dictcmp i a b = 0 \<longleftrightarrow> dict_key (no_the i a) = dict_key (no_the i b)) \<and>
    (0 < dictcmp i a b \<longleftrightarrow> dict_key (no_the i b) < dict_key (no_the i a))"
proof -
  have "0 < d \<longleftrightarrow> \<not> d < 0 \<and> d \<noteq> 0" for d :: int by auto
  then show ?thesis
    using dictcmp_loop_order [OF assms] unfolding dictcmp_def by (metis less_asym' neqE)
qed

theorem dictcmp_order_witness:
  "dict_key (no_the True (cstr ''The 10'')) = [(48, 10)] \<and>
   dict_key (no_the True (cstr ''9'')) = [(48, 9)] \<and>
   0 < dictcmp True (cstr ''The 10'') (cstr ''9'')"
proof -
  have a: "dict_key (no_the True (cstr ''The 10'')) = [(48, 10)]" by code_simp
  have b: "dict_key (no_the True (cstr ''9'')) = [(48, 9)]" by code_simp
  show ?thesis
    using dictcmp_order [of True "cstr ''The 10''" "cstr ''9''"]
    unfolding int_numbers_def a b by simp
qed

text \<open>
  Beyond that range the order breaks: the difference of two 64 bit numbers is cut to
  an \<^verbatim>\<open>int\<close>, and each of "2147483648" and "0" is reported as smaller than the other.
\<close>

theorem dictcmp_not_antisymmetric:
  "dictcmp False (cstr ''2147483648'') (cstr ''0'') < 0 \<and>
   dictcmp False (cstr ''0'') (cstr ''2147483648'') < 0"
  by code_simp

text \<open>
  \<open>mystrstr\<close> finds a needle that is, up to case, at the start of the haystack.
\<close>

theorem mystrstr_finds_prefix:
  assumes "map unicode_casefold (utf8_codes haystack) = map unicode_casefold (utf8_codes needle) @ t"
    and "utf8_codes needle \<noteq> []"
  shows "mystrstr haystack needle = Some haystack"
proof -
  obtain cn n' where gn: "utf8_get needle = (cn, n')" by force
  obtain ch h' where gh: "utf8_get haystack = (ch, h')" by force
  have "cn \<noteq> 0"
    using assms(2) gn by (auto simp: utf8_codes.simps [of needle] split: if_splits)
  then have "map unicode_casefold (utf8_codes haystack) =
      unicode_casefold cn # map unicode_casefold (utf8_codes n') @ t"
    using assms(1) gn by (simp add: utf8_codes.simps [of needle])
  then have eq: "unicode_casefold ch = unicode_casefold cn" and "ch \<noteq> 0"
    and "map unicode_casefold (utf8_codes h') = map unicode_casefold (utf8_codes n') @ t"
    using gh by (auto simp: utf8_codes.simps [of haystack] split: if_splits)
  moreover have "0 \<le> ch"
    using utf8_get_bounds [of haystack] gh by simp
  ultimately have "fst (mystrstr_match h' n')" "unicode_casefold ch \<noteq> 0"
    by (auto simp: unicode_casefold_zero intro: mystrstr_match_prefix)
  then show ?thesis
    by (auto simp: mystrstr_def gn mystrstr_loop.simps [of _ haystack] gh simp flip: eq split: prod.splits)
qed

theorem mystrstr_finds_prefix_witness: "mystrstr (cstr ''Abc'') (cstr ''aB'') = Some (cstr ''Abc'')"
proof -
  have "map unicode_casefold (utf8_codes (cstr ''Abc'')) =
      map unicode_casefold (utf8_codes (cstr ''aB'')) @ [99]" and "utf8_codes (cstr ''aB'') \<noteq> []"
    by (simp_all add: utf8_codes.simps utf8_get_def unicode_casefold_letters)
  then show ?thesis by (rule mystrstr_finds_prefix)
qed

text \<open>
  A match that fails after its first character leaves another character in \<open>n\<close>: the
  needle "ab" is not found in "aab" any more, although it is there.
\<close>

theorem mystrstr_misses_match:
  "mystrstr (cstr ''aab'') (cstr ''ab'') = None \<and> mystrstr (cstr ''ab'') (cstr ''ab'') = Some (cstr ''ab'')"
  by (simp add: mystrstr_def mystrstr_loop.simps mystrstr_match.simps utf8_get_def unicode_casefold_letters)

end
