(* ===== verification/Htsbuf.thy ===== *)
theory Htsbuf
  imports Url Html
begin

text \<open>
  The byte queue of \<^verbatim>\<open>src/src/htsmsg/htsbuf.c\<close>: chunks of memory that writers fill at the end and
  readers consume at the front. The interface its users rely on, a first in first out queue of
  bytes, is the locale \<open>byte_queue\<close>; the lemmas on writers are proved there and reach the model
  through its interpretation.
\<close>

section \<open>The interface\<close>

locale byte_queue =
  fixes content :: "'q \<Rightarrow> bytes" and inv :: "'q \<Rightarrow> bool" and empty :: 'q
    and append :: "'q \<Rightarrow> bytes \<Rightarrow> 'q" and read :: "'q \<Rightarrow> nat \<Rightarrow> bytes \<times> 'q"
  assumes empty_law: "inv empty" "content empty = []"
    and append_law: "inv q \<Longrightarrow> inv (append q b)" "inv q \<Longrightarrow> content (append q b) = content q @ b"
    and read_law: "inv q \<Longrightarrow> read q n = (b, q') \<Longrightarrow> inv q'"
      "inv q \<Longrightarrow> read q n = (b, q') \<Longrightarrow> b = take n (content q) \<and> content q' = drop n (content q)"
begin

definition writes :: "('q \<Rightarrow> 'q) \<Rightarrow> bytes \<Rightarrow> bool" where
  "writes w b \<longleftrightarrow> (\<forall>q. inv q \<longrightarrow> inv (w q) \<and> content (w q) = content q @ b)"

lemma writes_append: "writes (\<lambda>q. append q b) b"
  by (simp add: writes_def append_law)

lemma writes_skip: "writes (\<lambda>q. q) []"
  by (simp add: writes_def)

lemma writes_seq: "writes f a \<Longrightarrow> writes g b \<Longrightarrow> writes (\<lambda>q. g (f q)) (a @ b)"
  by (simp add: writes_def)

lemma writes_fold: "(\<And>x. x \<in> set xs \<Longrightarrow> writes (f x) (b x)) \<Longrightarrow> writes (fold f xs) (concat (map b xs))"
proof (induction xs)
  case (Cons x xs)
  then have "writes (\<lambda>q. fold f xs (f x q)) (b x @ concat (map b xs))"
    by (intro writes_seq) auto
  then show ?case by (simp add: writes_def)
qed (simp add: writes_def)

text \<open>What was written is what is read, in order, however the reads are cut.\<close>

lemma read_all:
  assumes "inv q" "writes w b"
  shows "fst (read (w q) (length (content q) + length b)) = content q @ b"
  using assms read_law(2) [of "w q" "length (content q) + length b"]
  by (cases "read (w q) (length (content q) + length b)") (simp add: writes_def)

lemma read_twice:
  assumes "inv q" "read q m = (a, q')" "read q' n = (b, q'')"
  shows "read q (m + n) = (a @ b, snd (read q (m + n)))" "content (snd (read q (m + n))) = content q''"
proof -
  obtain c r where r: "read q (m + n) = (c, r)" by force
  have "a = take m (content q)" "content q' = drop m (content q)" "inv q'"
    using read_law assms by blast+
  moreover from this have "b = take n (content q')" "content q'' = drop n (content q')"
    using read_law assms(3) by blast+
  moreover have "c = take (m + n) (content q)" "content r = drop (m + n) (content q)"
    using read_law r assms(1) by blast+
  ultimately show "read q (m + n) = (a @ b, snd (read q (m + n)))"
    "content (snd (read q (m + n))) = content q''"
    by (simp_all add: r take_add add.commute)
qed

end

section \<open>Chunks and queues\<close>

text \<open>\<open>hd_data\<close> holds the bytes written so far, \<open>hd_data_size\<close> is the size of the allocation. A
  chunk is never larger than an \<^verbatim>\<open>int\<close>; the sum \<open>hq_size\<close> is kept at its 32 bits.\<close>

record htsbuf_data =
  hd_data :: bytes
  hd_data_size :: nat
  hd_data_len :: nat
  hd_data_off :: nat

record htsbuf_queue =
  hq_q :: "htsbuf_data list"
  hq_size :: u32
  hq_maxsize :: u32

definition htsbuf_queue_init :: "u32 \<Rightarrow> htsbuf_queue" where
  "htsbuf_queue_init maxsize =
     \<lparr>hq_q = [], hq_size = 0, hq_maxsize = (if maxsize = 0 then 0x7fffffff else maxsize)\<rparr>"

definition htsbuf_queue_flush :: "htsbuf_queue \<Rightarrow> htsbuf_queue" where
  "htsbuf_queue_flush hq = hq\<lparr>hq_q := [], hq_size := 0\<rparr>"

text \<open>The two halves of \<open>htsbuf_append\<close>: filling the last chunk, and a new chunk for the rest.\<close>

definition htsbuf_fill :: "htsbuf_data list \<Rightarrow> bytes \<Rightarrow> htsbuf_data list \<times> bytes" where
  "htsbuf_fill q buf =
     (if q = [] then (q, buf)
      else
        let hd = last q; c = min (hd_data_size hd - hd_data_len hd) (length buf)
        in (butlast q @ [hd\<lparr>hd_data := hd_data hd @ take c buf, hd_data_len := hd_data_len hd + c\<rparr>],
            drop c buf))"

definition htsbuf_append :: "htsbuf_queue \<Rightarrow> bytes \<Rightarrow> htsbuf_queue" where
  "htsbuf_append hq buf =
     (let (q, rest) = htsbuf_fill (hq_q hq) buf;
          hq1 = hq\<lparr>hq_q := q, hq_size := hq_size hq + of_nat (length buf)\<rparr>
      in if rest = [] then hq1
         else hq1\<lparr>hq_q := q @ [\<lparr>hd_data = rest, hd_data_size = max (length rest) 1000,
                               hd_data_len = length rest, hd_data_off = 0\<rparr>]\<rparr>)"

definition htsbuf_append_prealloc :: "htsbuf_queue \<Rightarrow> bytes \<Rightarrow> htsbuf_queue" where
  "htsbuf_append_prealloc hq buf =
     hq\<lparr>hq_q := hq_q hq @ [\<lparr>hd_data = buf, hd_data_size = length buf,
                           hd_data_len = length buf, hd_data_off = 0\<rparr>],
        hq_size := hq_size hq + of_nat (length buf)\<rparr>"

text \<open>The loops of \<open>htsbuf_read\<close> and \<open>htsbuf_drop\<close>. A chunk that stays at the front is one that
  covers the rest of \<open>len\<close>, so the loop ends there.\<close>

fun htsbuf_read_loop :: "htsbuf_data list \<Rightarrow> u32 \<Rightarrow> nat \<Rightarrow> bytes \<times> htsbuf_data list \<times> u32" where
  "htsbuf_read_loop [] sz len = ([], [], sz)"
| "htsbuf_read_loop (d # q) sz len =
     (if len = 0 then ([], d # q, sz)
      else
        let c = min (hd_data_len d - hd_data_off d) len;
            out = take c (drop (hd_data_off d) (hd_data d));
            d' = d\<lparr>hd_data_off := hd_data_off d + c\<rparr>;
            sz' = sz - of_nat c
        in if hd_data_off d' = hd_data_len d' then
             let (out', q', sz'') = htsbuf_read_loop q sz' (len - c) in (out @ out', q', sz'')
           else (out, d' # q, sz'))"

definition htsbuf_read :: "htsbuf_queue \<Rightarrow> nat \<Rightarrow> bytes \<times> htsbuf_queue" where
  "htsbuf_read hq len =
     (let (out, q, sz) = htsbuf_read_loop (hq_q hq) (hq_size hq) len
      in (out, hq\<lparr>hq_q := q, hq_size := sz\<rparr>))"

fun htsbuf_find_loop :: "htsbuf_data list \<Rightarrow> nat \<Rightarrow> u8 \<Rightarrow> nat option" where
  "htsbuf_find_loop [] pos v = None"
| "htsbuf_find_loop (d # q) pos v =
     (let b = drop (hd_data_off d) (take (hd_data_len d) (hd_data d)) in
      if v \<in> set b then Some (pos + length (takeWhile (\<lambda>c. c \<noteq> v) b))
      else htsbuf_find_loop q (pos + (hd_data_len d - hd_data_off d)) v)"

definition htsbuf_find :: "htsbuf_queue \<Rightarrow> u8 \<Rightarrow> nat option" where
  "htsbuf_find hq v = htsbuf_find_loop (hq_q hq) 0 v"

fun htsbuf_peek_loop :: "htsbuf_data list \<Rightarrow> nat \<Rightarrow> bytes" where
  "htsbuf_peek_loop [] len = []"
| "htsbuf_peek_loop (d # q) len =
     (if len = 0 then []
      else
        let c = min (hd_data_len d - hd_data_off d) len
        in take c (drop (hd_data_off d) (hd_data d)) @ htsbuf_peek_loop q (len - c))"

definition htsbuf_peek :: "htsbuf_queue \<Rightarrow> nat \<Rightarrow> bytes" where
  "htsbuf_peek hq len = htsbuf_peek_loop (hq_q hq) len"

fun htsbuf_drop_loop :: "htsbuf_data list \<Rightarrow> u32 \<Rightarrow> nat \<Rightarrow> nat \<times> htsbuf_data list \<times> u32" where
  "htsbuf_drop_loop [] sz len = (0, [], sz)"
| "htsbuf_drop_loop (d # q) sz len =
     (if len = 0 then (0, d # q, sz)
      else
        let c = min (hd_data_len d - hd_data_off d) len;
            d' = d\<lparr>hd_data_off := hd_data_off d + c\<rparr>;
            sz' = sz - of_nat c
        in if hd_data_off d' = hd_data_len d' then
             let (r, q', sz'') = htsbuf_drop_loop q sz' (len - c) in (c + r, q', sz'')
           else (c, d' # q, sz'))"

definition htsbuf_drop :: "htsbuf_queue \<Rightarrow> nat \<Rightarrow> nat \<times> htsbuf_queue" where
  "htsbuf_drop hq len =
     (let (r, q, sz) = htsbuf_drop_loop (hq_q hq) (hq_size hq) len
      in (r, hq\<lparr>hq_q := q, hq_size := sz\<rparr>))"

text \<open>\<open>htsbuf_vqprintf\<close> formats into \<^verbatim>\<open>char buf[10000]\<close> and appends as many bytes as \<^verbatim>\<open>vsnprintf\<close>
  reports, the length of the whole output. \<open>None\<close> is a read behind the array.\<close>

definition htsbuf_vqprintf :: "htsbuf_queue \<Rightarrow> bytes \<Rightarrow> htsbuf_queue option" where
  "htsbuf_vqprintf hq formatted =
     (if length formatted \<le> 10000
      then Some (htsbuf_append hq (take (length formatted) (take 9999 formatted @ [0])))
      else None)"

text \<open>\<open>htsbuf_appendq\<close> moves the chunks of the second queue to the first.\<close>

definition htsbuf_appendq :: "htsbuf_queue \<Rightarrow> htsbuf_queue \<Rightarrow> htsbuf_queue \<times> htsbuf_queue" where
  "htsbuf_appendq hq src =
     (hq\<lparr>hq_q := hq_q hq @ hq_q src, hq_size := hq_size hq + hq_size src\<rparr>,
      src\<lparr>hq_q := [], hq_size := 0\<rparr>)"

definition htsbuf_to_string :: "htsbuf_queue \<Rightarrow> bytes \<times> htsbuf_queue" where
  "htsbuf_to_string hq =
     (let (r, hq') = htsbuf_read hq (unat (hq_size hq)) in (r @ [0], hq'))"

definition htsbuf_to_rstr :: "htsbuf_queue \<Rightarrow> bytes option \<Rightarrow> bytes \<times> htsbuf_queue" where
  "htsbuf_to_rstr hq prefix =
     (let pfx = (case prefix of None \<Rightarrow> [] | Some p \<Rightarrow> c_str p);
          (r, hq') = htsbuf_read hq (unat (hq_size hq))
      in (pfx @ r, hq'))"

section \<open>Escaping writers\<close>

text \<open>The loops keep the run of bytes from \<^verbatim>\<open>s\<close> to \<^verbatim>\<open>c\<close> that needs no escape and append it when an
  escape or the end comes.\<close>

definition xml_escape :: "u8 \<Rightarrow> bytes option" where
  "xml_escape c =
     (if c = chr CHR ''<'' then Some (cstr ''&lt;'')
      else if c = chr CHR ''>'' then Some (cstr ''&gt;'')
      else if c = chr CHR ''&'' then Some (cstr ''&amp;'')
      else if c = 0x27 then Some (cstr ''&apos;'')
      else if c = 0x22 then Some (cstr ''&quot;'')
      else None)"

definition url_safe :: "u8 \<Rightarrow> bool" where
  "url_safe c \<longleftrightarrow>
     chr CHR ''0'' \<le> c \<and> c \<le> chr CHR ''9'' \<or> chr CHR ''a'' \<le> c \<and> c \<le> chr CHR ''z'' \<or>
     chr CHR ''A'' \<le> c \<and> c \<le> chr CHR ''Z'' \<or>
     c = chr CHR ''_'' \<or> c = chr CHR ''~'' \<or> c = chr CHR ''.'' \<or> c = chr CHR ''-''"

definition url0_escape :: "u8 \<Rightarrow> bytes option" where
  "url0_escape c =
     (if url_safe c then None
      else Some [chr CHR ''%'', hexchars ! unat (drop_bit 4 c AND 0xf), hexchars ! unat (c AND 0xf)])"

fun escape_loop :: "(u8 \<Rightarrow> bytes option) \<Rightarrow> htsbuf_queue \<Rightarrow> bytes \<Rightarrow> bytes \<Rightarrow> htsbuf_queue" where
  "escape_loop esc hq run [] = hq"
| "escape_loop esc hq run (c # s) =
     (let (hq', run') =
        (case esc c of
           Some e \<Rightarrow> (htsbuf_append (htsbuf_append hq run) e, [])
         | None \<Rightarrow> (hq, run @ [c]))
      in if s = [] then htsbuf_append hq' run' else escape_loop esc hq' run' s)"

definition htsbuf_append_and_escape_xml :: "htsbuf_queue \<Rightarrow> bytes \<Rightarrow> htsbuf_queue" where
  "htsbuf_append_and_escape_xml hq s = escape_loop xml_escape hq [] (c_str s)"

definition htsbuf_append_and_escape_url0 :: "htsbuf_queue \<Rightarrow> bytes \<Rightarrow> htsbuf_queue" where
  "htsbuf_append_and_escape_url0 hq s = escape_loop url0_escape hq [] s"

definition htsbuf_append_and_escape_url :: "htsbuf_queue \<Rightarrow> bytes \<Rightarrow> htsbuf_queue" where
  "htsbuf_append_and_escape_url hq s = htsbuf_append_and_escape_url0 hq (take (strlen s) s)"

definition htsbuf_append_and_escape_url_len :: "htsbuf_queue \<Rightarrow> bytes \<Rightarrow> nat \<Rightarrow> htsbuf_queue" where
  "htsbuf_append_and_escape_url_len hq s len = htsbuf_append_and_escape_url0 hq (take len s)"

definition json_escape :: "u8 \<Rightarrow> bytes option" where
  "json_escape c =
     (if c = 0x22 \<or> c = 0x5c \<or> c = 10 \<or> c = 13 \<or> c = 9 then
        Some (if c = 0x22 then [0x5c, 0x22] else if c = 10 then [0x5c, chr CHR ''n'']
              else if c = 13 then [0x5c, chr CHR ''r''] else if c = 9 then [0x5c, chr CHR ''t'']
              else [0x5c, 0x5c])
      else None)"

fun jsonstr_loop :: "htsbuf_queue \<Rightarrow> bytes \<Rightarrow> bytes \<Rightarrow> htsbuf_queue" where
  "jsonstr_loop hq run [] = htsbuf_append hq run"
| "jsonstr_loop hq run (c # s) =
     (if c = 0 then htsbuf_append hq run
      else case json_escape c of
        Some e \<Rightarrow> jsonstr_loop (htsbuf_append (htsbuf_append hq run) e) [] s
      | None \<Rightarrow> jsonstr_loop hq (run @ [c]) s)"

definition htsbuf_append_and_escape_jsonstr :: "htsbuf_queue \<Rightarrow> bytes \<Rightarrow> htsbuf_queue" where
  "htsbuf_append_and_escape_jsonstr hq str =
     htsbuf_append (jsonstr_loop (htsbuf_append hq [0x22]) [] str) [0x22]"

section \<open>The queue is a queue of bytes\<close>

definition hd_bytes :: "htsbuf_data \<Rightarrow> bytes" where
  "hd_bytes d = drop (hd_data_off d) (hd_data d)"

definition hd_ok :: "htsbuf_data \<Rightarrow> bool" where
  "hd_ok d \<longleftrightarrow> hd_data_off d \<le> hd_data_len d \<and> hd_data_len d = length (hd_data d) \<and>
     hd_data_len d \<le> hd_data_size d"

definition htsbuf_content :: "htsbuf_queue \<Rightarrow> bytes" where
  "htsbuf_content hq = concat (map hd_bytes (hq_q hq))"

definition htsbuf_inv :: "htsbuf_queue \<Rightarrow> bool" where
  "htsbuf_inv hq \<longleftrightarrow> list_all hd_ok (hq_q hq) \<and> hq_size hq = of_nat (length (htsbuf_content hq))"

lemma hd_ok_rest:
  assumes "hd_ok d" and c: "c = min (hd_data_len d - hd_data_off d) len"
  shows "take c (drop (hd_data_off d) (hd_data d)) = take len (hd_bytes d)"
    and "length (hd_bytes d) = hd_data_len d - hd_data_off d"
    and "hd_ok (d\<lparr>hd_data_off := hd_data_off d + c\<rparr>)"
    and "hd_bytes (d\<lparr>hd_data_off := hd_data_off d + c\<rparr>) = drop len (hd_bytes d)"
  using assms by (auto simp: hd_ok_def hd_bytes_def min_def add.commute)

lemma htsbuf_fill_correct:
  assumes "list_all hd_ok q" "htsbuf_fill q buf = (q', rest)"
  shows "list_all hd_ok q' \<and> concat (map hd_bytes q') @ rest = concat (map hd_bytes q) @ buf"
proof (cases "q = []")
  case False
  then obtain p d where q: "q = p @ [d]" by (metis rev_exhaust)
  let ?c = "min (hd_data_size d - hd_data_len d) (length buf)"
  have d: "hd_ok d" "list_all hd_ok p" using assms(1) q by auto
  then have "hd_ok (d\<lparr>hd_data := hd_data d @ take ?c buf, hd_data_len := hd_data_len d + ?c\<rparr>)"
    "hd_bytes (d\<lparr>hd_data := hd_data d @ take ?c buf, hd_data_len := hd_data_len d + ?c\<rparr>) =
       hd_bytes d @ take ?c buf"
    by (auto simp: hd_ok_def hd_bytes_def)
  with assms(2) d q show ?thesis
    by (auto simp: htsbuf_fill_def Let_def simp del: take_append)
qed (use assms in \<open>auto simp: htsbuf_fill_def\<close>)

lemma htsbuf_append_correct:
  assumes "htsbuf_inv hq"
  shows "htsbuf_inv (htsbuf_append hq buf)"
    and "htsbuf_content (htsbuf_append hq buf) = htsbuf_content hq @ buf"
proof -
  obtain q rest where f: "htsbuf_fill (hq_q hq) buf = (q, rest)" by force
  have q: "list_all hd_ok q" "concat (map hd_bytes q) @ rest = htsbuf_content hq @ buf"
    using htsbuf_fill_correct [OF _ f] assms by (auto simp: htsbuf_inv_def htsbuf_content_def)
  then show c: "htsbuf_content (htsbuf_append hq buf) = htsbuf_content hq @ buf"
    by (auto simp: htsbuf_append_def f htsbuf_content_def hd_bytes_def Let_def)
  have "list_all hd_ok (hq_q (htsbuf_append hq buf))"
    using q(1) by (simp add: htsbuf_append_def f hd_ok_def Let_def)
  moreover have "hq_size (htsbuf_append hq buf) = hq_size hq + of_nat (length buf)"
    by (simp add: htsbuf_append_def f Let_def)
  ultimately show "htsbuf_inv (htsbuf_append hq buf)"
    using assms unfolding htsbuf_inv_def c by simp
qed

lemma htsbuf_append_prealloc_correct:
  assumes "htsbuf_inv hq"
  shows "htsbuf_inv (htsbuf_append_prealloc hq buf)"
    and "htsbuf_content (htsbuf_append_prealloc hq buf) = htsbuf_content hq @ buf"
  using assms by (auto simp: htsbuf_inv_def htsbuf_append_prealloc_def htsbuf_content_def hd_ok_def hd_bytes_def)

lemma htsbuf_read_loop_correct:
  "list_all hd_ok q \<Longrightarrow> htsbuf_read_loop q sz len = (out, q', sz') \<Longrightarrow>
     list_all hd_ok q' \<and> out = take len (concat (map hd_bytes q)) \<and>
     concat (map hd_bytes q') = drop len (concat (map hd_bytes q)) \<and> sz' = sz - of_nat (length out)"
proof (induction q sz len arbitrary: out q' sz' rule: htsbuf_read_loop.induct)
  case (2 d q sz len)
  define c where "c = min (hd_data_len d - hd_data_off d) len"
  have d: "hd_ok d" using "2.prems" by simp
  note r = hd_ok_rest [OF d c_def]
  consider "len = 0" | "len \<noteq> 0" "hd_data_off d + c = hd_data_len d" | "len \<noteq> 0" "hd_data_off d + c \<noteq> hd_data_len d"
    by blast
  then show ?case
  proof cases
    case 2
    obtain o' q2 s2 where rec: "htsbuf_read_loop q (sz - of_nat c) (len - c) = (o', q2, s2)"
      by (metis prod_cases3)
    have c: "c = length (hd_bytes d)" "length (hd_bytes d) \<le> len"
      using d 2 r(2) by (auto simp: hd_ok_def c_def)
    have "list_all hd_ok q2 \<and> o' = take (len - c) (concat (map hd_bytes q)) \<and>
        concat (map hd_bytes q2) = drop (len - c) (concat (map hd_bytes q)) \<and> s2 = sz - of_nat c - of_nat (length o')"
      using "2.IH" [OF _ c_def _ _ _ _ _ rec] 2 "2.prems"(1) by simp
    moreover have out: "out = hd_bytes d @ o'" "q' = q2" "sz' = s2"
      using "2.prems"(2) 2 rec r(1) c by (auto simp: Let_def simp flip: c_def)
    moreover have "sz - of_nat c - of_nat (length o') = sz - of_nat (length out)"
      using c(1) out(1) by (simp add: algebra_simps)
    ultimately show ?thesis
      using c by simp
  next
    case 3
    then have "len < length (hd_bytes d)" "c = len"
      using d r(2) by (auto simp: hd_ok_def c_def min_def split: if_splits)
    with "2.prems" 3 r show ?thesis
      by (auto simp: Let_def simp flip: c_def)
  qed (use "2.prems" in auto)
qed auto

lemma htsbuf_read_correct:
  assumes "htsbuf_inv hq" "htsbuf_read hq len = (out, hq')"
  shows "htsbuf_inv hq'" and "out = take len (htsbuf_content hq)"
    and "htsbuf_content hq' = drop len (htsbuf_content hq)"
proof -
  obtain q sz where r: "htsbuf_read_loop (hq_q hq) (hq_size hq) len = (out, q, sz)"
    and hq': "hq' = hq\<lparr>hq_q := q, hq_size := sz\<rparr>"
    using assms(2) by (auto simp: htsbuf_read_def split: prod.splits)
  note c = htsbuf_read_loop_correct [OF _ r]
  show o: "out = take len (htsbuf_content hq)"
    and d: "htsbuf_content hq' = drop len (htsbuf_content hq)"
    using c assms(1) by (simp_all add: htsbuf_inv_def htsbuf_content_def hq')
  have "length (htsbuf_content hq) = length out + length (htsbuf_content hq')"
    by (simp add: o d)
  then have "hq_size hq - of_nat (length out) = of_nat (length (htsbuf_content hq'))"
    using assms(1) by (simp add: htsbuf_inv_def)
  with c assms(1) show "htsbuf_inv hq'"
    by (simp add: htsbuf_inv_def hq')
qed

interpretation hq: byte_queue htsbuf_content htsbuf_inv "htsbuf_queue_init 0" htsbuf_append htsbuf_read
  by unfold_locales
    (auto simp: htsbuf_queue_init_def htsbuf_inv_def [of "\<lparr>hq_q = [], hq_size = 0, hq_maxsize = _\<rparr>"]
      htsbuf_content_def [of "\<lparr>hq_q = [], hq_size = 0, hq_maxsize = _\<rparr>"]
      htsbuf_append_correct htsbuf_read_correct dest: htsbuf_read_correct)

lemma htsbuf_peek_correct:
  "list_all hd_ok q \<Longrightarrow> htsbuf_peek_loop q len = take len (concat (map hd_bytes q))"
proof (induction q len rule: htsbuf_peek_loop.induct)
  case (2 d q len)
  define c where "c = min (hd_data_len d - hd_data_off d) len"
  have d: "hd_ok d" using "2.prems" by simp
  have "htsbuf_peek_loop q (len - c) = take (len - c) (concat (map hd_bytes q))" if "len \<noteq> 0"
    using "2.IH" [OF that c_def] "2.prems" by simp
  moreover have "len - c = len - length (hd_bytes d)"
    using hd_ok_rest(2) [OF d c_def] by (auto simp: c_def)
  ultimately show ?case
    using hd_ok_rest(1) [OF d c_def] by (simp add: Let_def flip: c_def)
qed simp

text \<open>\<open>htsbuf_drop\<close> is \<open>htsbuf_read\<close> without the copy.\<close>

lemma htsbuf_drop_loop_read:
  "list_all hd_ok q \<Longrightarrow>
     htsbuf_drop_loop q sz len =
       (let (out, q', sz') = htsbuf_read_loop q sz len in (length out, q', sz'))"
proof (induction q sz len rule: htsbuf_drop_loop.induct)
  case (2 d q sz len)
  define c where "c = min (hd_data_len d - hd_data_off d) len"
  have d: "hd_ok d" using "2.prems" by simp
  then have "length (take c (drop (hd_data_off d) (hd_data d))) = c"
    by (auto simp: c_def hd_ok_def)
  moreover have "htsbuf_drop_loop q (sz - of_nat c) (len - c) =
      (let (out, q', sz') = htsbuf_read_loop q (sz - of_nat c) (len - c) in (length out, q', sz'))"
    if "len \<noteq> 0" "hd_data_off d + c = hd_data_len d"
    using "2.IH" [OF that(1) c_def refl refl] that "2.prems" by simp
  ultimately show ?case
    by (simp add: Let_def split: prod.splits flip: c_def)
qed simp

lemma htsbuf_find_loop_correct:
  "list_all hd_ok q \<Longrightarrow> htsbuf_find_loop q pos v =
     (let b = concat (map hd_bytes q) in
      if v \<in> set b then Some (pos + length (takeWhile (\<lambda>c. c \<noteq> v) b)) else None)"
proof (induction q pos v rule: htsbuf_find_loop.induct)
  case (2 d q pos v)
  have d: "hd_ok d" using "2.prems" by simp
  then have b: "drop (hd_data_off d) (take (hd_data_len d) (hd_data d)) = hd_bytes d"
    "hd_data_len d - hd_data_off d = length (hd_bytes d)"
    by (auto simp: hd_ok_def hd_bytes_def)
  show ?case
  proof (cases "v \<in> set (hd_bytes d)")
    case True
    then show ?thesis by (simp add: b takeWhile_append1 [where x = v])
  next
    case False
    then have "takeWhile (\<lambda>c. c \<noteq> v) (hd_bytes d @ t) = hd_bytes d @ takeWhile (\<lambda>c. c \<noteq> v) t" for t
      by (intro takeWhile_append2) auto
    with False "2.IH" [OF refl] "2.prems" show ?thesis by (simp add: b Let_def)
  qed
qed simp

lemma htsbuf_size_unat:
  "htsbuf_inv hq \<Longrightarrow> length (htsbuf_content hq) < 2 ^ 32 \<Longrightarrow> unat (hq_size hq) = length (htsbuf_content hq)"
  by (simp add: htsbuf_inv_def unat_of_nat take_bit_nat_eq_self)

lemma htsbuf_to_string_correct:
  assumes "htsbuf_inv hq" and "length (htsbuf_content hq) < 2 ^ 32"
  shows "fst (htsbuf_to_string hq) = htsbuf_content hq @ [0]"
    and "htsbuf_content (snd (htsbuf_to_string hq)) = []"
proof -
  obtain r hq' where r: "htsbuf_read hq (length (htsbuf_content hq)) = (r, hq')" by force
  then show "fst (htsbuf_to_string hq) = htsbuf_content hq @ [0]"
    "htsbuf_content (snd (htsbuf_to_string hq)) = []"
    using hq.read_law(2) [OF assms(1) r] htsbuf_size_unat [OF assms]
    by (simp_all add: htsbuf_to_string_def)
qed

section \<open>What the escaping writers write\<close>

definition escape_all :: "(u8 \<Rightarrow> bytes option) \<Rightarrow> bytes \<Rightarrow> bytes" where
  "escape_all esc s = concat (map (\<lambda>c. case esc c of None \<Rightarrow> [c] | Some e \<Rightarrow> e) s)"

lemma escape_all_simps [simp]:
  "escape_all esc [] = []"
  "escape_all esc (c # s) = (case esc c of None \<Rightarrow> [c] | Some e \<Rightarrow> e) @ escape_all esc s"
  by (simp_all add: escape_all_def)

lemma escape_loop_writes:
  "htsbuf_inv hq \<Longrightarrow> s \<noteq> [] \<Longrightarrow>
     htsbuf_inv (escape_loop esc hq run s) \<and>
     htsbuf_content (escape_loop esc hq run s) = htsbuf_content hq @ run @ escape_all esc s"
proof (induction esc hq run s rule: escape_loop.induct)
  case (2 esc hq run c s)
  show ?case
    using "2.IH" "2.prems"
    by (cases "esc c"; cases "s = []") (simp_all add: htsbuf_append_correct)
qed simp

lemma jsonstr_loop_writes:
  "htsbuf_inv hq \<Longrightarrow>
     htsbuf_inv (jsonstr_loop hq run s) \<and>
     htsbuf_content (jsonstr_loop hq run s) = htsbuf_content hq @ run @ escape_all json_escape (c_str s)"
proof (induction hq run s rule: jsonstr_loop.induct)
  case (2 hq run c s)
  show ?case
    using "2.IH" "2.prems" by (cases "json_escape c") (simp_all add: htsbuf_append_correct)
qed (simp add: htsbuf_append_correct)

lemma xml_writes: "hq.writes (\<lambda>hq. htsbuf_append_and_escape_xml hq s) (escape_all xml_escape (c_str s))"
  unfolding hq.writes_def htsbuf_append_and_escape_xml_def
  using escape_loop_writes [of _ "c_str s" xml_escape "[]"] by (cases "c_str s = []") auto

lemma url0_writes: "hq.writes (\<lambda>hq. htsbuf_append_and_escape_url0 hq s) (escape_all url0_escape s)"
  unfolding hq.writes_def htsbuf_append_and_escape_url0_def
  using escape_loop_writes [of _ s url0_escape "[]"] by (cases "s = []") auto

lemma jsonstr_writes:
  "hq.writes (\<lambda>hq. htsbuf_append_and_escape_jsonstr hq s) ([0x22] @ escape_all json_escape (c_str s) @ [0x22])"
  unfolding hq.writes_def htsbuf_append_and_escape_jsonstr_def
  using jsonstr_loop_writes [of _ "[]" s] by (simp add: htsbuf_append_correct)

lemma url_deescape_escape_all: "url_deescape (escape_all url0_escape s) = s"
proof (induction s)
  case (Cons c s)
  show ?case
  proof (cases "url_safe c")
    case True
    then have "c \<noteq> 0" "c \<noteq> chr CHR ''+''" "c \<noteq> chr CHR ''%''"
      by (auto simp: url_safe_def)
    with True Cons.IH show ?thesis
      by (simp add: url0_escape_def [of c] url_deescape.simps [of "c # escape_all url0_escape s"])
  next
    case False
    with Cons.IH show ?thesis
      using url_nibble_hexchars [OF nibble_less, of "drop_bit 4 c"]
        url_nibble_hexchars [OF nibble_less, of c] nibbles_join [of c]
      by (simp add: url0_escape_def [of c]) (subst url_deescape.simps, simp)
  qed
qed (simp add: url_deescape.simps)

lemma xml_lookup_escapes:
  "html_entity_lookup (cstr ''apos'') = 39" "html_entity_lookup (cstr ''quot'') = 34"
  by code_simp+

lemma html_decode_xml_escape: "nul_free s \<Longrightarrow> html_entities_decode (escape_all xml_escape s) = Some s"
proof (induction s)
  case (Cons c s)
  have p: "utf8_put 38 = [38]" "utf8_put 60 = [60]" "utf8_put 62 = [62]" "utf8_put 39 = [39]" "utf8_put 34 = [34]"
    by (simp_all add: utf8_put_def)
  note dec = html_decode_entity [OF html_lookup_escapes(1) _ p(1)] html_decode_entity [OF html_lookup_escapes(2) _ p(2)]
    html_decode_entity [OF html_lookup_escapes(3) _ p(3)] html_decode_entity [OF xml_lookup_escapes(1) _ p(4)]
    html_decode_entity [OF xml_lookup_escapes(2) _ p(5)]
  show ?case
  proof (cases "xml_escape c")
    case None
    then have "c \<noteq> chr CHR ''&''" by (auto simp: xml_escape_def split: if_splits)
    with None Cons show ?thesis
      by (simp add: html_entities_decode.simps [of "c # escape_all xml_escape s"])
  next
    case (Some e)
    then consider "c = 60" "e = cstr ''&lt;''" | "c = 62" "e = cstr ''&gt;''" | "c = 38" "e = cstr ''&amp;''"
      | "c = 39" "e = cstr ''&apos;''" | "c = 34" "e = cstr ''&quot;''"
      by (auto simp: xml_escape_def split: if_splits)
    then show ?thesis
      using Cons Some dec [where t = "escape_all xml_escape s"] by cases simp_all
  qed
qed (simp add: html_entities_decode.simps)

section \<open>Properties\<close>

text \<open>
  Property C8. The chunked queue is a first in first out queue of bytes. On every well formed queue
  appending, appending a preallocated buffer, reading, dropping and peeking keep it well formed, with
  \<open>hq_size\<close> the number of bytes modulo $2^{32}$, and do to its content what they do to a list of
  bytes.
\<close>

theorem htsbuf_refines_bytes:
  assumes "htsbuf_inv hq"
  shows "htsbuf_inv (htsbuf_append hq b) \<and> htsbuf_content (htsbuf_append hq b) = htsbuf_content hq @ b \<and>
    htsbuf_inv (htsbuf_append_prealloc hq b) \<and>
    htsbuf_content (htsbuf_append_prealloc hq b) = htsbuf_content hq @ b \<and>
    (case htsbuf_read hq n of (out, hq') \<Rightarrow>
       htsbuf_inv hq' \<and> out = take n (htsbuf_content hq) \<and> htsbuf_content hq' = drop n (htsbuf_content hq)) \<and>
    htsbuf_drop hq n = (case htsbuf_read hq n of (out, hq') \<Rightarrow> (length out, hq')) \<and>
    htsbuf_peek hq n = take n (htsbuf_content hq)"
proof -
  have "list_all hd_ok (hq_q hq)"
    using assms by (simp add: htsbuf_inv_def)
  then have "htsbuf_peek hq n = take n (htsbuf_content hq)"
    "htsbuf_drop hq n = (case htsbuf_read hq n of (out, hq') \<Rightarrow> (length out, hq'))"
    by (simp_all add: htsbuf_peek_def htsbuf_peek_correct htsbuf_content_def htsbuf_drop_def
        htsbuf_read_def htsbuf_drop_loop_read split: prod.splits)
  then show ?thesis
    using assms hq.read_law [of hq n]
    by (auto simp: hq.append_law htsbuf_append_prealloc_correct split: prod.splits)
qed

theorem htsbuf_refines_bytes_witness:
  "htsbuf_inv (htsbuf_queue_init 0) \<and>
   htsbuf_content (htsbuf_append (htsbuf_queue_init 0) [1, 2, 3]) = [1, 2, 3]"
  using htsbuf_refines_bytes [OF hq.empty_law(1), of "[1, 2, 3]"] hq.empty_law by simp

text \<open>
  \<open>htsbuf_find\<close> gives the position of the first occurrence of the byte in the queue, and
  \<open>htsbuf_to_string\<close> the whole content with a terminator while the queue holds less than 4 GB, leaving
  the queue empty.
\<close>

theorem htsbuf_find_and_string:
  assumes "htsbuf_inv hq" and "length (htsbuf_content hq) < 2 ^ 32"
  shows "htsbuf_find hq v =
      (if v \<in> set (htsbuf_content hq) then Some (length (takeWhile (\<lambda>c. c \<noteq> v) (htsbuf_content hq))) else None) \<and>
    fst (htsbuf_to_string hq) = htsbuf_content hq @ [0] \<and>
    htsbuf_content (snd (htsbuf_to_string hq)) = []"
proof -
  have "list_all hd_ok (hq_q hq)"
    using assms(1) by (simp add: htsbuf_inv_def)
  then show ?thesis
    using htsbuf_to_string_correct [OF assms]
    by (simp add: htsbuf_find_def htsbuf_find_loop_correct Let_def flip: htsbuf_content_def)
qed

theorem htsbuf_find_and_string_witness:
  "htsbuf_find (htsbuf_append (htsbuf_queue_init 0) [1, 2, 3]) 3 = Some 2 \<and>
   fst (htsbuf_to_string (htsbuf_append (htsbuf_queue_init 0) [1, 2, 3])) = [1, 2, 3, 0]"
  using htsbuf_find_and_string [of "htsbuf_append (htsbuf_queue_init 0) [1, 2, 3]" 3]
  by (simp add: hq.empty_law hq.append_law)

text \<open>
  The escaping writers append exactly the escaped string, however its bytes fall on
  chunks, and what they append is undone by the decoders: \<open>html_entities_decode\<close> for XML,
  \<open>url_deescape\<close> for URLs.
\<close>

theorem htsbuf_escapes_roundtrip:
  assumes "htsbuf_inv hq"
  shows "\<exists>x u. htsbuf_content (htsbuf_append_and_escape_xml hq s) = htsbuf_content hq @ x \<and>
      html_entities_decode x = Some (c_str s) \<and>
      htsbuf_content (htsbuf_append_and_escape_url_len hq s n) = htsbuf_content hq @ u \<and>
      url_deescape u = take n s"
  using assms xml_writes [of s] url0_writes [of "take n s"]
  by (auto simp: hq.writes_def htsbuf_append_and_escape_url_len_def html_decode_xml_escape url_deescape_escape_all)

text \<open>
  \<open>htsbuf_vqprintf\<close> appends the formatted text when it fits its local array with the
  terminator, and reads behind the array when the text is longer than 10000 bytes.
\<close>

theorem htsbuf_vqprintf_limit:
  assumes "htsbuf_inv hq"
  shows "(length t < 10000 \<longrightarrow>
      (\<exists>hq'. htsbuf_vqprintf hq t = Some hq' \<and> htsbuf_inv hq' \<and> htsbuf_content hq' = htsbuf_content hq @ t)) \<and>
    (10000 < length t \<longrightarrow> htsbuf_vqprintf hq t = None)"
  using assms by (simp add: htsbuf_vqprintf_def htsbuf_append_correct)

theorem htsbuf_vqprintf_limit_witness:
  "htsbuf_vqprintf (htsbuf_queue_init 0) (replicate 10001 (65 :: u8)) = None"
  using htsbuf_vqprintf_limit [OF hq.empty_law(1), of "replicate 10001 65"] by simp

end
