(* ===== verification/Htsmsg.thy ===== *)
theory Htsmsg
  imports Prelude
begin

text \<open>
  The message tree of \<^verbatim>\<open>src/src/htsmsg/htsmsg.c\<close>: maps and lists of typed fields, the value that the
  parsers of JSON, XML, bencoding and the binary format build and the rest of the program reads.
  A message is a value here; who holds a reference to it is not part of it. A field is named by its
  position in the field list where the code passes a pointer to it. A \<^verbatim>\<open>double\<close> is the 64 bits of
  its representation, and \<open>None\<close> from an operation that returns a message is a failed assertion or a
  \<^verbatim>\<open>NULL\<close> pointer followed.
\<close>

section \<open>Messages\<close>

datatype hmf_value = HMF_MAP | HMF_S64 u64 | HMF_STR bytes | HMF_BIN bytes | HMF_LIST | HMF_DBL u64

datatype htsmsg = Htsmsg (hm_islist: bool) (hm_fields: "htsmsg_field list")
and htsmsg_field =
  Field (hmf_name: "bytes option") (hmf_u: hmf_value) (hmf_flags: u8) (hmf_childs: "htsmsg option")
    (hmf_namespace: "bytes option")

abbreviation HMF_ALLOCED :: u8 where "HMF_ALLOCED \<equiv> 1"
abbreviation HMF_NAME_ALLOCED :: u8 where "HMF_NAME_ALLOCED \<equiv> 2"
abbreviation HMF_XML_ATTRIBUTE :: u8 where "HMF_XML_ATTRIBUTE \<equiv> 4"

datatype htsmsg_err = HTSMSG_ERR_FIELD_NOT_FOUND | HTSMSG_ERR_CONVERSION_IMPOSSIBLE

text \<open>The name argument of the lookups: a string, or a position made by \<^verbatim>\<open>HTSMSG_INDEX\<close>, which are
  told apart by the pointer's value.\<close>

datatype htsmsg_key = Key bytes | HTSMSG_INDEX nat

definition htsmsg_create_map :: htsmsg where
  "htsmsg_create_map = Htsmsg False []"

definition htsmsg_create_list :: htsmsg where
  "htsmsg_create_list = Htsmsg True []"

section \<open>Fields\<close>

definition htsmsg_field_destroy :: "htsmsg \<Rightarrow> nat \<Rightarrow> htsmsg" where
  "htsmsg_field_destroy msg i =
     Htsmsg (hm_islist msg) (take i (hm_fields msg) @ drop (Suc i) (hm_fields msg))"

definition htsmsg_field_add ::
  "htsmsg \<Rightarrow> bytes option \<Rightarrow> hmf_value \<Rightarrow> u8 \<Rightarrow> htsmsg option \<Rightarrow> htsmsg option" where
  "htsmsg_field_add msg name u flags childs =
     (if hm_islist msg \<and> name \<noteq> None \<or> \<not> hm_islist msg \<and> name = None then None
      else Some (Htsmsg (hm_islist msg)
             (hm_fields msg @ [Field (map_option c_str name) u flags childs None])))"

fun find_field :: "(htsmsg_field \<Rightarrow> bool) \<Rightarrow> htsmsg_field list \<Rightarrow> nat option" where
  "find_field p [] = None"
| "find_field p (f # fs) = (if p f then Some 0 else map_option Suc (find_field p fs))"

definition htsmsg_field_find :: "htsmsg \<Rightarrow> htsmsg_key \<Rightarrow> nat option" where
  "htsmsg_field_find msg name =
     (case name of
        HTSMSG_INDEX num \<Rightarrow> (if num < length (hm_fields msg) then Some num else None)
      | Key n \<Rightarrow> find_field (\<lambda>f. hmf_name f = Some (c_str n)) (hm_fields msg))"

text \<open>The field a lookup points to, and storing through that pointer.\<close>

abbreviation field_at :: "htsmsg \<Rightarrow> nat \<Rightarrow> htsmsg_field" where
  "field_at msg i \<equiv> hm_fields msg ! i"

definition field_set :: "htsmsg \<Rightarrow> nat \<Rightarrow> hmf_value \<Rightarrow> htsmsg" where
  "field_set msg i u =
     (let f = field_at msg i in
      Htsmsg (hm_islist msg)
        ((hm_fields msg)[i := Field (hmf_name f) u (hmf_flags f) (hmf_childs f) (hmf_namespace f)]))"

definition htsmsg_delete_field :: "htsmsg \<Rightarrow> htsmsg_key \<Rightarrow> htsmsg_err option \<times> htsmsg" where
  "htsmsg_delete_field msg name =
     (case htsmsg_field_find msg name of
        None \<Rightarrow> (Some HTSMSG_ERR_FIELD_NOT_FOUND, msg)
      | Some f \<Rightarrow> (None, htsmsg_field_destroy msg f))"

section \<open>Adding\<close>

definition htsmsg_add_u32 :: "htsmsg \<Rightarrow> bytes option \<Rightarrow> u32 \<Rightarrow> htsmsg option" where
  "htsmsg_add_u32 msg name u32 = htsmsg_field_add msg name (HMF_S64 (ucast u32)) HMF_NAME_ALLOCED None"

definition htsmsg_add_s64 :: "htsmsg \<Rightarrow> bytes option \<Rightarrow> u64 \<Rightarrow> htsmsg option" where
  "htsmsg_add_s64 msg name s64 = htsmsg_field_add msg name (HMF_S64 s64) HMF_NAME_ALLOCED None"

definition htsmsg_add_s32 :: "htsmsg \<Rightarrow> bytes option \<Rightarrow> u32 \<Rightarrow> htsmsg option" where
  "htsmsg_add_s32 msg name s32 = htsmsg_field_add msg name (HMF_S64 (scast s32)) HMF_NAME_ALLOCED None"

definition htsmsg_s32_inc :: "htsmsg \<Rightarrow> bytes \<Rightarrow> u32 \<Rightarrow> htsmsg option" where
  "htsmsg_s32_inc msg name s32 =
     (case htsmsg_field_find msg (Key name) of
        None \<Rightarrow> htsmsg_add_s32 msg (Some name) s32
      | Some f \<Rightarrow>
          (case hmf_u (field_at msg f) of
             HMF_S64 v \<Rightarrow> Some (field_set msg f (HMF_S64 (v + scast s32)))
           | _ \<Rightarrow> htsmsg_add_s32 (htsmsg_field_destroy msg f) (Some name) s32))"

definition htsmsg_add_dbl :: "htsmsg \<Rightarrow> bytes option \<Rightarrow> u64 \<Rightarrow> htsmsg option" where
  "htsmsg_add_dbl msg name dbl = htsmsg_field_add msg name (HMF_DBL dbl) HMF_NAME_ALLOCED None"

definition htsmsg_add_str :: "htsmsg \<Rightarrow> bytes option \<Rightarrow> bytes \<Rightarrow> htsmsg option" where
  "htsmsg_add_str msg name str =
     htsmsg_field_add msg name (HMF_STR (c_str str)) (HMF_ALLOCED OR HMF_NAME_ALLOCED) None"

definition htsmsg_add_bin :: "htsmsg \<Rightarrow> bytes option \<Rightarrow> bytes \<Rightarrow> htsmsg option" where
  "htsmsg_add_bin msg name bin =
     htsmsg_field_add msg name (HMF_BIN bin) (HMF_ALLOCED OR HMF_NAME_ALLOCED) None"

definition htsmsg_add_binptr :: "htsmsg \<Rightarrow> bytes option \<Rightarrow> bytes \<Rightarrow> htsmsg option" where
  "htsmsg_add_binptr msg name bin = htsmsg_field_add msg name (HMF_BIN bin) HMF_NAME_ALLOCED None"

definition htsmsg_add_msg :: "htsmsg \<Rightarrow> bytes option \<Rightarrow> htsmsg \<Rightarrow> htsmsg option" where
  "htsmsg_add_msg msg name sub =
     htsmsg_field_add msg name (if hm_islist sub then HMF_LIST else HMF_MAP) HMF_NAME_ALLOCED (Some sub)"

definition htsmsg_add_msg_extname :: "htsmsg \<Rightarrow> bytes option \<Rightarrow> htsmsg \<Rightarrow> htsmsg option" where
  "htsmsg_add_msg_extname msg name sub =
     htsmsg_field_add msg name (if hm_islist sub then HMF_LIST else HMF_MAP) 0 (Some sub)"

section \<open>Reading\<close>

text \<open>\<^verbatim>\<open>strtoll\<close> with base 0 takes the base from the prefix.\<close>

definition strtoll0 :: "bytes \<Rightarrow> int" where
  "strtoll0 s =
     (let s1 = dropWhile is_space s;
          s2 = (if deref s1 = chr CHR ''-'' \<or> deref s1 = chr CHR ''+'' then tl s1 else s1);
          base = (if strtol_prefix 16 s2 \<noteq> s2 then 16 else if deref s2 = chr CHR ''0'' then 8 else 10)
      in fst (strtol base s))"

definition htsmsg_get_s64 :: "htsmsg \<Rightarrow> htsmsg_key \<Rightarrow> htsmsg_err + u64" where
  "htsmsg_get_s64 msg name =
     (case htsmsg_field_find msg name of
        None \<Rightarrow> Inl HTSMSG_ERR_FIELD_NOT_FOUND
      | Some f \<Rightarrow>
          (case hmf_u (field_at msg f) of
             HMF_STR str \<Rightarrow> Inr (word_of_int (strtoll0 str))
           | HMF_S64 s64 \<Rightarrow> Inr s64
           | _ \<Rightarrow> Inl HTSMSG_ERR_CONVERSION_IMPOSSIBLE))"

definition htsmsg_get_u32 :: "htsmsg \<Rightarrow> htsmsg_key \<Rightarrow> htsmsg_err + u32" where
  "htsmsg_get_u32 msg name =
     (case htsmsg_get_s64 msg name of
        Inl r \<Rightarrow> Inl r
      | Inr s64 \<Rightarrow>
          (if sint s64 < 0 \<or> sint s64 > 0xffffffff then Inl HTSMSG_ERR_CONVERSION_IMPOSSIBLE
           else Inr (ucast s64)))"

text \<open>The default is returned through an \<^verbatim>\<open>int\<close>, so both values are read as 32 signed bits.\<close>

definition htsmsg_get_u32_or_default :: "htsmsg \<Rightarrow> htsmsg_key \<Rightarrow> u32 \<Rightarrow> u32" where
  "htsmsg_get_u32_or_default msg name def =
     (case htsmsg_get_u32 msg name of Inl _ \<Rightarrow> def | Inr u32 \<Rightarrow> u32)"

definition htsmsg_get_s32 :: "htsmsg \<Rightarrow> htsmsg_key \<Rightarrow> htsmsg_err + u32" where
  "htsmsg_get_s32 msg name =
     (case htsmsg_get_s64 msg name of
        Inl r \<Rightarrow> Inl r
      | Inr s64 \<Rightarrow>
          (if sint s64 < - 0x80000000 \<or> sint s64 > 0x7fffffff then Inl HTSMSG_ERR_CONVERSION_IMPOSSIBLE
           else Inr (ucast s64)))"

definition htsmsg_get_s32_or_default :: "htsmsg \<Rightarrow> htsmsg_key \<Rightarrow> u32 \<Rightarrow> u32" where
  "htsmsg_get_s32_or_default msg name def =
     (case htsmsg_get_s32 msg name of Inl _ \<Rightarrow> def | Inr s32 \<Rightarrow> s32)"

definition htsmsg_get_dbl :: "htsmsg \<Rightarrow> htsmsg_key \<Rightarrow> htsmsg_err + u64" where
  "htsmsg_get_dbl msg name =
     (case htsmsg_field_find msg name of
        None \<Rightarrow> Inl HTSMSG_ERR_FIELD_NOT_FOUND
      | Some f \<Rightarrow>
          (case hmf_u (field_at msg f) of
             HMF_DBL d \<Rightarrow> Inr d
           | _ \<Rightarrow> Inl HTSMSG_ERR_CONVERSION_IMPOSSIBLE))"

definition htsmsg_get_bin :: "htsmsg \<Rightarrow> htsmsg_key \<Rightarrow> htsmsg_err + bytes" where
  "htsmsg_get_bin msg name =
     (case htsmsg_field_find msg name of
        None \<Rightarrow> Inl HTSMSG_ERR_FIELD_NOT_FOUND
      | Some f \<Rightarrow>
          (case hmf_u (field_at msg f) of
             HMF_STR str \<Rightarrow> Inr str
           | HMF_BIN bin \<Rightarrow> Inr bin
           | _ \<Rightarrow> Inl HTSMSG_ERR_CONVERSION_IMPOSSIBLE))"

text \<open>Reading a number as a string turns the field into a string.\<close>

definition htsmsg_field_get_string :: "htsmsg \<Rightarrow> nat \<Rightarrow> bytes option \<times> htsmsg" where
  "htsmsg_field_get_string msg f =
     (case hmf_u (field_at msg f) of
        HMF_STR str \<Rightarrow> (Some str, msg)
      | HMF_S64 s64 \<Rightarrow>
          (let str = dec_int (sint s64) in (Some str, field_set msg f (HMF_STR str)))
      | _ \<Rightarrow> (None, msg))"

definition htsmsg_get_str :: "htsmsg \<Rightarrow> htsmsg_key \<Rightarrow> bytes option \<times> htsmsg" where
  "htsmsg_get_str msg name =
     (case htsmsg_field_find msg name of
        None \<Rightarrow> (None, msg)
      | Some f \<Rightarrow> htsmsg_field_get_string msg f)"

definition htsmsg_get_map :: "htsmsg \<Rightarrow> htsmsg_key \<Rightarrow> htsmsg option" where
  "htsmsg_get_map msg name =
     (case htsmsg_field_find msg name of
        None \<Rightarrow> None
      | Some f \<Rightarrow> (if hmf_u (field_at msg f) \<noteq> HMF_MAP then None else hmf_childs (field_at msg f)))"

fun htsmsg_get_map_multi :: "htsmsg option \<Rightarrow> htsmsg_key list \<Rightarrow> htsmsg option" where
  "htsmsg_get_map_multi None ns = None"
| "htsmsg_get_map_multi (Some msg) [] = Some msg"
| "htsmsg_get_map_multi (Some msg) (n # ns) = htsmsg_get_map_multi (htsmsg_get_map msg n) ns"

fun htsmsg_get_str_multi :: "htsmsg \<Rightarrow> htsmsg_key list \<Rightarrow> bytes option" where
  "htsmsg_get_str_multi msg [] = None"
| "htsmsg_get_str_multi msg (n # ns) =
     (case htsmsg_field_find msg n of
        None \<Rightarrow> None
      | Some f \<Rightarrow>
          (case hmf_u (field_at msg f) of
             HMF_STR str \<Rightarrow> Some str
           | _ \<Rightarrow>
              (case hmf_childs (field_at msg f) of
                 None \<Rightarrow> None
               | Some sub \<Rightarrow> htsmsg_get_str_multi sub ns)))"

definition htsmsg_get_list :: "htsmsg \<Rightarrow> htsmsg_key \<Rightarrow> htsmsg option" where
  "htsmsg_get_list msg name =
     (case htsmsg_field_find msg name of
        None \<Rightarrow> None
      | Some f \<Rightarrow> (if hmf_u (field_at msg f) \<noteq> HMF_LIST then None else hmf_childs (field_at msg f)))"

text \<open>\<open>num\<close> counts from 1; the decrement of the loop reaches zero at that field.\<close>

fun map_in_list_loop :: "htsmsg_field list \<Rightarrow> int \<Rightarrow> htsmsg option" where
  "map_in_list_loop [] num = None"
| "map_in_list_loop (f # fs) num = (if num - 1 = 0 then hmf_childs f else map_in_list_loop fs (num - 1))"

definition htsmsg_get_map_in_list :: "htsmsg \<Rightarrow> int \<Rightarrow> htsmsg option" where
  "htsmsg_get_map_in_list m num = map_in_list_loop (hm_fields m) num"

definition htsmsg_get_map_by_field_if_name :: "htsmsg_field \<Rightarrow> bytes \<Rightarrow> htsmsg option" where
  "htsmsg_get_map_by_field_if_name f name =
     (if hmf_name f \<noteq> Some (c_str name) then None else hmf_childs f)"

definition htsmsg_get_children :: "htsmsg \<Rightarrow> nat" where
  "htsmsg_get_children msg = length (hm_fields msg)"

section \<open>Copying\<close>

text \<open>One turn of the loop of \<open>htsmsg_copy_i\<close> and the loop over the fields; \<open>sub\<close> is the copy of the
  children.\<close>

definition htsmsg_copy_field :: "htsmsg_field \<Rightarrow> htsmsg option \<Rightarrow> htsmsg \<Rightarrow> htsmsg option" where
  "htsmsg_copy_field f sub dst =
     (case hmf_u f of
        HMF_STR str \<Rightarrow> htsmsg_add_str dst (hmf_name f) str
      | HMF_S64 s64 \<Rightarrow> htsmsg_add_s64 dst (hmf_name f) s64
      | HMF_BIN bin \<Rightarrow> htsmsg_add_bin dst (hmf_name f) bin
      | HMF_DBL dbl \<Rightarrow> htsmsg_add_dbl dst (hmf_name f) dbl
      | _ \<Rightarrow> (case sub of None \<Rightarrow> None | Some m \<Rightarrow> htsmsg_add_msg dst (hmf_name f) m))"

function htsmsg_copy_i :: "htsmsg_field list \<Rightarrow> htsmsg \<Rightarrow> htsmsg option" where
  "htsmsg_copy_i [] dst = Some dst"
| "htsmsg_copy_i (f # fs) dst =
     (let sub = (if hmf_u f = HMF_MAP \<or> hmf_u f = HMF_LIST then
                   case hmf_childs f of
                     None \<Rightarrow> None
                   | Some c \<Rightarrow> htsmsg_copy_i (hm_fields c) (Htsmsg (hmf_u f = HMF_LIST) [])
                 else None)
      in case htsmsg_copy_field f sub dst of
           None \<Rightarrow> None
         | Some dst' \<Rightarrow> htsmsg_copy_i fs dst')"
  by pat_completeness auto
termination
proof (relation "measure (\<lambda>(fs, dst). size_list size fs)", goal_cases)
  case (2 f fs dst c)
  then show ?case by (cases f; cases c) auto
qed auto

definition htsmsg_copy :: "htsmsg \<Rightarrow> htsmsg option" where
  "htsmsg_copy src = htsmsg_copy_i (hm_fields src) (Htsmsg (hm_islist src) [])"

section \<open>Well formed messages\<close>

text \<open>Fields of a map have a name and fields of a list have none; a field of type map or list has a
  child message of that kind. Names and strings are C strings.\<close>

fun htsmsg_wf :: "htsmsg \<Rightarrow> bool" and field_wf :: "bool \<Rightarrow> htsmsg_field \<Rightarrow> bool" where
  "htsmsg_wf (Htsmsg islist fs) = list_all (\<lambda>f. field_wf islist f) fs"
| "field_wf islist (Field name u flags childs ns) =
     ((case name of None \<Rightarrow> islist | Some n \<Rightarrow> \<not> islist \<and> nul_free n) \<and>
      (case u of
         HMF_MAP \<Rightarrow> (case childs of None \<Rightarrow> False | Some c \<Rightarrow> \<not> hm_islist c)
       | HMF_LIST \<Rightarrow> (case childs of None \<Rightarrow> False | Some c \<Rightarrow> hm_islist c)
       | HMF_STR str \<Rightarrow> nul_free str
       | _ \<Rightarrow> True) \<and>
      (case childs of None \<Rightarrow> True | Some c \<Rightarrow> htsmsg_wf c))"

lemma htsmsg_wf_iff: "htsmsg_wf m \<longleftrightarrow> list_all (field_wf (hm_islist m)) (hm_fields m)"
  by (cases m) simp

lemma find_field_Some: "find_field p fs = Some i \<Longrightarrow> i < length fs \<and> p (fs ! i)"
  by (induction p fs arbitrary: i rule: find_field.induct) (auto split: if_splits)

lemma htsmsg_field_find_less: "htsmsg_field_find m k = Some i \<Longrightarrow> i < length (hm_fields m)"
  by (auto simp: htsmsg_field_find_def dest: find_field_Some split: htsmsg_key.splits if_splits)

text \<open>A value a field may have beside the children it comes with.\<close>

definition value_ok :: "hmf_value \<Rightarrow> htsmsg option \<Rightarrow> bool" where
  "value_ok u childs \<longleftrightarrow> field_wf True (Field None u 0 childs None)"

lemma field_wf_iff:
  "field_wf l f \<longleftrightarrow> (case hmf_name f of None \<Rightarrow> l | Some n \<Rightarrow> \<not> l \<and> nul_free n) \<and> value_ok (hmf_u f) (hmf_childs f)"
  by (cases f) (auto simp: value_ok_def)

lemma value_ok_simps [simp]:
  "value_ok (HMF_S64 v) None" "value_ok (HMF_DBL v) None" "value_ok (HMF_BIN b) None"
  "value_ok (HMF_STR s) None \<longleftrightarrow> nul_free s"
  "value_ok (if hm_islist c then HMF_LIST else HMF_MAP) (Some c) \<longleftrightarrow> htsmsg_wf c"
  by (auto simp: value_ok_def)

lemma field_add_wf:
  assumes "htsmsg_wf m" "value_ok u c"
  shows "(case htsmsg_field_add m name u flags c of None \<Rightarrow> hm_islist m \<longleftrightarrow> name \<noteq> None | Some m' \<Rightarrow> htsmsg_wf m')"
  using assms by (auto simp: htsmsg_field_add_def htsmsg_wf_iff field_wf_iff split: option.splits)

lemma field_destroy_wf: "htsmsg_wf m \<Longrightarrow> htsmsg_wf (htsmsg_field_destroy m i)"
  by (auto simp: htsmsg_field_destroy_def htsmsg_wf_iff list_all_iff dest: in_set_takeD in_set_dropD)

lemma field_set_wf:
  assumes "htsmsg_wf m" "i < length (hm_fields m)" "value_ok u (hmf_childs (field_at m i))"
  shows "htsmsg_wf (field_set m i u)"
proof -
  have "field_wf (hm_islist m) (field_at m i)"
    using assms(1,2) by (auto simp: htsmsg_wf_iff list_all_iff)
  with assms show ?thesis
    by (auto simp: htsmsg_wf_iff field_set_def Let_def list_all_iff field_wf_iff dest!: subsetD [OF set_update_subset_insert])
qed

section \<open>Copies\<close>

text \<open>The message a copy is: the same names, types, values and children with the flags of a field
  whose memory is its own; name spaces and the attributes of XML text nodes are left out.\<close>

fun plain :: "htsmsg \<Rightarrow> htsmsg" and plain_field :: "htsmsg_field \<Rightarrow> htsmsg_field" where
  "plain (Htsmsg islist fs) = Htsmsg islist (map plain_field fs)"
| "plain_field (Field name u flags childs ns) =
     Field name u
       (case u of HMF_STR _ \<Rightarrow> HMF_ALLOCED OR HMF_NAME_ALLOCED
                | HMF_BIN _ \<Rightarrow> HMF_ALLOCED OR HMF_NAME_ALLOCED
                | _ \<Rightarrow> HMF_NAME_ALLOCED)
       (if u = HMF_MAP \<or> u = HMF_LIST then (case childs of None \<Rightarrow> None | Some c \<Rightarrow> Some (plain c)) else None)
       None"

lemma plain_simps [simp]:
  "hm_islist (plain m) = hm_islist m" "hm_fields (plain m) = map plain_field (hm_fields m)"
  "hmf_name (plain_field f) = hmf_name f" "hmf_u (plain_field f) = hmf_u f"
  by (cases m; cases f; simp)+

lemma htsmsg_copy_i_plain:
  "list_all (field_wf (hm_islist dst)) fs \<Longrightarrow>
     htsmsg_copy_i fs dst = Some (Htsmsg (hm_islist dst) (hm_fields dst @ map plain_field fs))"
proof (induction fs dst rule: htsmsg_copy_i.induct)
  case (1 dst)
  then show ?case by (cases dst) simp
next
  case (2 f fs dst)
  obtain n u fl c ns where f: "f = Field n u fl c ns" by (cases f)
  define sub where "sub = (if hmf_u f = HMF_MAP \<or> hmf_u f = HMF_LIST then
      case hmf_childs f of None \<Rightarrow> None
      | Some c \<Rightarrow> htsmsg_copy_i (hm_fields c) (Htsmsg (hmf_u f = HMF_LIST) []) else None)"
  have wf: "field_wf (hm_islist dst) f" "list_all (field_wf (hm_islist dst)) fs"
    using "2.prems" by auto
  have sub: "sub = Some (plain (the c))" "hm_islist (the c) \<longleftrightarrow> u = HMF_LIST" "c \<noteq> None"
    if ml: "u = HMF_MAP \<or> u = HMF_LIST"
  proof -
    obtain m where m: "c = Some m" "hm_islist m \<longleftrightarrow> u = HMF_LIST" "htsmsg_wf m"
      using wf(1) f ml by (cases u) (auto split: option.splits)
    then have "list_all (field_wf (hm_islist (Htsmsg (u = HMF_LIST) []))) (hm_fields m)"
      by (simp add: htsmsg_wf_iff)
    then have "htsmsg_copy_i (hm_fields m) (Htsmsg (u = HMF_LIST) []) =
        Some (Htsmsg (u = HMF_LIST) (map plain_field (hm_fields m)))"
      using "2.IH"(1) [of m] f ml m(1) by simp
    with m show "sub = Some (plain (the c))" "hm_islist (the c) \<longleftrightarrow> u = HMF_LIST" "c \<noteq> None"
      using ml f by (cases m; auto simp: sub_def)+
  qed
  have step: "htsmsg_copy_field f sub dst = Some (Htsmsg (hm_islist dst) (hm_fields dst @ [plain_field f]))"
    using wf(1) sub f
    by (cases u) (auto simp: htsmsg_copy_field_def htsmsg_add_str_def htsmsg_add_s64_def
      htsmsg_add_bin_def htsmsg_add_dbl_def htsmsg_add_msg_def htsmsg_field_add_def split: option.splits)
  have "htsmsg_copy_i fs (Htsmsg (hm_islist dst) (hm_fields dst @ [plain_field f])) =
      Some (Htsmsg (hm_islist dst) ((hm_fields dst @ [plain_field f]) @ map plain_field fs))"
    using "2.IH"(2) [OF sub_def step] wf(2) by simp
  then show ?case
    unfolding htsmsg_copy_i.simps sub_def [symmetric] Let_def step by simp
qed

section \<open>Named fields\<close>

text \<open>What the users of a map rely on: it is a sequence of named values, a lookup finds the first
  one of its name, a new one goes to the end and a deletion takes the first one away.\<close>

fun del_first :: "bytes \<Rightarrow> (bytes \<times> 'v) list \<Rightarrow> (bytes \<times> 'v) list" where
  "del_first k [] = []"
| "del_first k ((j, v) # xs) = (if j = k then xs else (j, v) # del_first k xs)"

lemma del_first_distinct:
  "distinct (map fst xs) \<Longrightarrow>
     distinct (map fst (del_first k xs)) \<and> fst ` set (del_first k xs) = fst ` set xs - {k} \<and>
     map_of (del_first k xs) = (map_of xs)(k := None)"
proof (induction k xs rule: del_first.induct)
  case (2 k j v xs)
  have "map_of xs j = None" if "j \<notin> fst ` set xs" using that by (simp add: map_of_eq_None_iff)
  with 2 show ?case by (auto simp: fun_eq_iff)
qed simp

locale named_fields =
  fixes content :: "'m \<Rightarrow> (bytes \<times> 'v) list" and inv :: "'m \<Rightarrow> bool"
    and find :: "'m \<Rightarrow> bytes \<Rightarrow> 'v option" and add :: "'m \<Rightarrow> bytes \<Rightarrow> 'v \<Rightarrow> 'm"
    and del :: "'m \<Rightarrow> bytes \<Rightarrow> 'm"
  assumes find_law: "inv m \<Longrightarrow> nul_free k \<Longrightarrow> find m k = map_of (content m) k"
    and add_law: "inv m \<Longrightarrow> nul_free k \<Longrightarrow> inv (add m k v) \<and> content (add m k v) = content m @ [(k, v)]"
    and del_law: "inv m \<Longrightarrow> nul_free k \<Longrightarrow> inv (del m k) \<and> content (del m k) = del_first k (content m)"
begin

text \<open>Deleting a name and adding it again is an update of a finite map, and keeps the names
  distinct.\<close>

lemma replace_updates:
  assumes "inv m" "nul_free k" "nul_free j" "distinct (map fst (content m))"
  shows "find (add (del m k) k v) j = (if j = k then Some v else find m j)"
    and "distinct (map fst (content (add (del m k) k v)))"
proof -
  have i: "inv (del m k)" "content (del m k) = del_first k (content m)"
    using del_law assms(1,2) by blast+
  then have a: "inv (add (del m k) k v)" "content (add (del m k) k v) = del_first k (content m) @ [(k, v)]"
    using add_law [OF i(1) assms(2), of v] by simp_all
  note d = del_first_distinct [OF assms(4), of k]
  show "find (add (del m k) k v) j = (if j = k then Some v else find m j)"
    using find_law [OF a(1) assms(3)] find_law [OF assms(1,3)] d a(2)
    by (auto simp: map_add_def split: option.splits)
  show "distinct (map fst (content (add (del m k) k v)))"
    using d a(2) by auto
qed

lemma find_add:
  assumes "inv m" "nul_free k" "nul_free j"
  shows "find (add m k v) j = (case find m j of Some w \<Rightarrow> Some w | None \<Rightarrow> if j = k then Some v else None)"
  using add_law [OF assms(1,2)] find_law assms
  by (auto simp: map_add_def split: option.splits)

end

text \<open>The model's maps: the content is the named fields, a value the type with its payload and the
  child message.\<close>

type_synonym field_value = "hmf_value \<times> htsmsg option"

definition map_content :: "htsmsg \<Rightarrow> (bytes \<times> field_value) list" where
  "map_content m = map (\<lambda>f. (case hmf_name f of None \<Rightarrow> [] | Some n \<Rightarrow> n, hmf_u f, hmf_childs f)) (hm_fields m)"

definition is_map :: "htsmsg \<Rightarrow> bool" where
  "is_map m \<longleftrightarrow> \<not> hm_islist m \<and> list_all (\<lambda>f. hmf_name f \<noteq> None) (hm_fields m)"

definition map_find :: "htsmsg \<Rightarrow> bytes \<Rightarrow> field_value option" where
  "map_find m k =
     (case htsmsg_field_find m (Key k) of
        None \<Rightarrow> None | Some i \<Rightarrow> Some (hmf_u (field_at m i), hmf_childs (field_at m i)))"

definition map_add_field :: "u8 \<Rightarrow> htsmsg \<Rightarrow> bytes \<Rightarrow> field_value \<Rightarrow> htsmsg" where
  "map_add_field flags m k v =
     (case htsmsg_field_add m (Some k) (fst v) flags (snd v) of None \<Rightarrow> m | Some m' \<Rightarrow> m')"

definition map_del :: "htsmsg \<Rightarrow> bytes \<Rightarrow> htsmsg" where
  "map_del m k = snd (htsmsg_delete_field m (Key k))"

lemma map_find_content:
  "list_all (\<lambda>f. hmf_name f \<noteq> None) fs \<Longrightarrow>
     (case find_field (\<lambda>f. hmf_name f = Some k) fs of
        None \<Rightarrow> None | Some i \<Rightarrow> Some (hmf_u (fs ! i), hmf_childs (fs ! i))) =
     map_of (map (\<lambda>f. (case hmf_name f of None \<Rightarrow> [] | Some n \<Rightarrow> n, hmf_u f, hmf_childs f)) fs) k"
  by (induction fs) (auto split: option.splits)

lemma map_del_content:
  "list_all (\<lambda>f. hmf_name f \<noteq> None) fs \<Longrightarrow>
     map (\<lambda>f. (case hmf_name f of None \<Rightarrow> [] | Some n \<Rightarrow> n, hmf_u f, hmf_childs f))
       (case find_field (\<lambda>f. hmf_name f = Some k) fs of
          None \<Rightarrow> fs | Some i \<Rightarrow> take i fs @ drop (Suc i) fs) =
     del_first k (map (\<lambda>f. (case hmf_name f of None \<Rightarrow> [] | Some n \<Rightarrow> n, hmf_u f, hmf_childs f)) fs)"
  by (induction fs) (auto split: option.splits)

interpretation msg: named_fields map_content is_map map_find "map_add_field flags" map_del for flags
proof (unfold_locales, goal_cases)
  case (1 m k)
  then show ?case
    using map_find_content [of "hm_fields m" k]
    by (simp add: map_find_def htsmsg_field_find_def map_content_def is_map_def)
next
  case (2 m k v)
  then show ?case
    by (auto simp: map_add_field_def htsmsg_field_add_def is_map_def map_content_def)
next
  case (3 m k)
  then have "is_map (map_del m k)"
    by (auto simp: map_del_def htsmsg_delete_field_def is_map_def htsmsg_field_destroy_def list_all_iff
        dest: in_set_takeD in_set_dropD split: option.splits)
  with 3 show ?case
    using map_del_content [of "hm_fields m" k]
    by (auto simp: map_del_def htsmsg_delete_field_def htsmsg_field_find_def map_content_def is_map_def
        htsmsg_field_destroy_def split: option.splits)
qed

section \<open>Numbers as strings\<close>

lemma strtol_digits_dec:
  "list_all is_digit ds \<Longrightarrow> strtol_digits 10 acc ds = (digits_value acc ds, [])"
  by (induction ds arbitrary: acc) (auto simp: digit_value_def is_digit_def word_le_nat_alt)

lemma dec_nat_first: "deref (dec_nat n) = 48 \<longleftrightarrow> n = 0"
proof (induction n rule: dec_nat_induct)
  case (small n)
  then have "unat (48 + of_nat n :: u8) = 48 + n" by simp
  then have "(48 + of_nat n :: u8) = 48 \<longleftrightarrow> n = 0"
    by (auto simp: word_unat_eq_iff)
  with small show ?case by (simp add: dec_nat_rec)
next
  case (large n)
  then show ?case by (simp add: dec_nat_rec)
qed

lemma dec_nat_prefix: "is_digit (deref (dec_nat n))" "tl (dec_nat n) = [] \<or> is_digit (deref (tl (dec_nat n)))"
  using dec_nat_digits [of n] by (cases "dec_nat n"; cases "tl (dec_nat n)"; simp)+

lemma strtol_dec_int:
  assumes "- (2 ^ 63) \<le> v" "v < 2 ^ 63" "base = 10 \<or> base = 8 \<and> v = 0"
  shows "fst (strtol base (dec_int v)) = v"
proof -
  define n where "n = nat \<bar>v\<bar>"
  have dig: "is_digit (deref (dec_nat n))" by (rule dec_nat_prefix)
  then have ns: "deref (dec_nat n) \<noteq> chr CHR ''-''" "deref (dec_nat n) \<noteq> chr CHR ''+''"
    "\<not> is_space (deref (dec_nat n))"
    by (auto simp: is_digit_def is_space_def word_le_nat_alt word_unat_eq_iff)
  have "dropWhile is_space (dec_nat n) = dec_nat n"
    using ns(3) by (cases "dec_nat n") auto
  moreover have "strtol_digits base 0 (dec_nat n) = (n, [])"
    using assms(3) strtol_digits_dec [OF dec_nat_digits [of n], of 0]
    by (auto simp: digits_value_dec_nat n_def dec_nat_rec digit_value_def)
  moreover have "strtol_prefix base s = s" for s
    using assms(3) by (auto simp: strtol_prefix_def)
  moreover have "\<not> is_space (chr CHR ''-'')"
    by (simp add: is_space_def)
  ultimately show ?thesis
    using assms(1,2) ns dec_nat_nonempty [of n]
    by (cases "v < 0") (auto simp: strtol_def dec_int_def n_def Let_def)
qed

lemma strtoll0_dec_int:
  assumes "- (2 ^ 63) \<le> v" "v < 2 ^ 63"
  shows "strtoll0 (dec_int v) = v"
proof -
  define n where "n = nat \<bar>v\<bar>"
  have ns: "deref (dec_nat n) \<noteq> chr CHR ''-''" "deref (dec_nat n) \<noteq> chr CHR ''+''"
    "\<not> is_space (deref (dec_nat n))"
    using dec_nat_prefix(1) [of n] by (auto simp: is_digit_def is_space_def word_le_nat_alt word_unat_eq_iff)
  have "dropWhile is_space (dec_nat n) = dec_nat n"
    using ns(3) by (cases "dec_nat n") auto
  moreover have "strtol_prefix 16 (dec_nat n) = dec_nat n"
    using dec_nat_prefix(2) [of n] by (auto simp: strtol_prefix_def is_digit_def word_le_nat_alt)
  moreover have "\<not> is_space (chr CHR ''-'')"
    by (simp add: is_space_def)
  ultimately have "strtoll0 (dec_int v) =
      fst (strtol (if deref (dec_nat n) = 48 then 8 else 10) (dec_int v))"
    using ns by (cases "v < 0") (auto simp: strtoll0_def dec_int_def n_def Let_def)
  then show ?thesis
    using assms dec_nat_first [of n] by (simp add: strtol_dec_int n_def)
qed

lemma sint_u64_bounds: "- (2 ^ 63) \<le> sint (v :: u64)" "sint (v :: u64) < 2 ^ 63"
  using sint_ge [of v] sint_lt [of v] by simp_all

lemma find_field_append:
  "find_field p (fs @ [f]) =
     (case find_field p fs of Some i \<Rightarrow> Some i | None \<Rightarrow> if p f then Some (length fs) else None)"
  by (induction fs) (auto split: option.splits)

lemma find_field_update:
  "i < length fs \<Longrightarrow> p (fs ! i) = p g \<Longrightarrow> find_field p (fs[i := g]) = find_field p fs"
  by (induction fs arbitrary: i) (auto split: nat.splits)

text \<open>A field that is added under a new name is the one its name finds.\<close>

lemma find_added:
  assumes "htsmsg_field_find m (Key k) = None" "htsmsg_field_add m (Some k) u flags c = Some m'"
  shows "htsmsg_field_find m' (Key k) = Some (length (hm_fields m)) \<and> hmf_u (field_at m' (length (hm_fields m))) = u"
  using assms by (auto simp: htsmsg_field_add_def htsmsg_field_find_def find_field_append split: if_splits)

lemma find_field_set:
  assumes "i < length (hm_fields m)"
  shows "htsmsg_field_find (field_set m i u) k = htsmsg_field_find m k" "hmf_u (field_at (field_set m i u) i) = u"
  using assms by (auto simp: htsmsg_field_find_def field_set_def Let_def find_field_update split: htsmsg_key.splits)

lemma find_field_map: "find_field p (map h fs) = find_field (\<lambda>f. p (h f)) fs"
  by (induction fs) auto

lemma plain_find: "htsmsg_field_find (plain m) k = htsmsg_field_find m k"
  by (simp add: htsmsg_field_find_def find_field_map split: htsmsg_key.splits)

lemma plain_wf_idem:
  "htsmsg_wf m \<Longrightarrow> htsmsg_wf (plain m) \<and> plain (plain m) = plain m"
  "field_wf l f \<Longrightarrow> field_wf l (plain_field f) \<and> plain_field (plain_field f) = plain_field f"
proof (induction m and l f rule: htsmsg_wf_field_wf.induct)
  case (2 l name u flags childs ns)
  then show ?case
    by (cases u) (auto split: option.splits)
qed (auto simp: list_all_iff)

lemma htsmsg_copy_plain: "htsmsg_wf m \<Longrightarrow> htsmsg_copy m = Some (plain m)"
  unfolding htsmsg_copy_def by (cases m) (simp add: htsmsg_copy_i_plain)

lemma plain_get:
  "htsmsg_get_s64 (plain m) k = htsmsg_get_s64 m k" "htsmsg_get_bin (plain m) k = htsmsg_get_bin m k"
  "htsmsg_get_dbl (plain m) k = htsmsg_get_dbl m k"
  by (auto simp: htsmsg_get_s64_def htsmsg_get_bin_def htsmsg_get_dbl_def plain_find
      dest: htsmsg_field_find_less split: option.splits)

lemma sint_u64_small:
  "sint (ucast (v :: u32) :: u64) = uint v" "sint (scast (v :: u32) :: u64) = sint v"
  "ucast (ucast v :: u64) = v" "ucast (scast v :: u64) = v"
proof -
  have v: "uint v < 2 ^ 32" using uint_lt2p [of v] by simp
  have "uint (ucast v :: u64) = uint v"
    unfolding unsigned_ucast_eq using v by (intro take_bit_int_eq_self) simp_all
  then show "sint (ucast v :: u64) = uint v"
    unfolding sint_uint using v by simp (intro signed_take_bit_int_eq_self, simp_all add: order_trans [of _ 0])
  have "- (2 ^ 31) \<le> sint v" "sint v < 2 ^ 31"
    using sint_ge [of v] sint_lt [of v] by simp_all
  then show "sint (scast v :: u64) = sint v"
    by (simp add: signed_scast_eq signed_take_bit_int_eq_self)
  show "ucast (ucast v :: u64) = v" "ucast (scast v :: u64) = v"
    by (rule bit_word_eqI, simp add: bit_simps)+
qed

lemma value_ok_scalar:
  "value_ok u c \<Longrightarrow> value_ok (HMF_S64 v) c" "value_ok u c \<Longrightarrow> nul_free str \<Longrightarrow> value_ok (HMF_STR str) c"
  by (auto simp: value_ok_def)

lemma found_wf:
  assumes "htsmsg_wf m" "htsmsg_field_find m k = Some i"
  shows "value_ok (hmf_u (field_at m i)) (hmf_childs (field_at m i))"
  using assms(1) htsmsg_field_find_less [OF assms(2)] by (auto simp: htsmsg_wf_iff list_all_iff field_wf_iff)

lemma s32_inc_wf:
  assumes "htsmsg_wf m"
  shows "case htsmsg_s32_inc m n s32 of None \<Rightarrow> hm_islist m | Some m' \<Rightarrow> htsmsg_wf m'"
proof -
  have add: "case htsmsg_add_s32 m' (Some n) s32 of None \<Rightarrow> hm_islist m | Some m'' \<Rightarrow> htsmsg_wf m''"
    if "htsmsg_wf m'" "hm_islist m' = hm_islist m" for m'
    using field_add_wf [OF that(1), of "HMF_S64 (scast s32)" None "Some n" HMF_NAME_ALLOCED] that(2)
    by (auto simp: htsmsg_add_s32_def split: option.splits)
  show ?thesis
  proof (cases "htsmsg_field_find m (Key n)")
    case None
    then show ?thesis using add [of m] assms by (simp add: htsmsg_s32_inc_def)
  next
    case (Some i)
    have set: "htsmsg_wf (field_set m i (HMF_S64 v))" for v
      using htsmsg_field_find_less [OF Some] found_wf [OF assms Some]
      by (intro field_set_wf assms value_ok_scalar)
    have "htsmsg_wf (htsmsg_field_destroy m i)" "hm_islist (htsmsg_field_destroy m i) = hm_islist m"
      using assms by (simp_all add: field_destroy_wf) (simp add: htsmsg_field_destroy_def)
    then show ?thesis
      using Some add set by (cases "hmf_u (field_at m i)") (simp_all add: htsmsg_s32_inc_def)
  qed
qed

lemma get_str_wf:
  assumes "htsmsg_wf m"
  shows "htsmsg_wf (snd (htsmsg_get_str m k))"
proof (cases "htsmsg_field_find m k")
  case (Some i)
  have "htsmsg_wf (field_set m i (HMF_STR (dec_int v)))" for v
    using htsmsg_field_find_less [OF Some] found_wf [OF assms Some]
    by (intro field_set_wf assms value_ok_scalar) (simp_all add: dec_int_def)
  then show ?thesis
    using Some assms
    by (cases "hmf_u (field_at m i)") (simp_all add: htsmsg_get_str_def htsmsg_field_get_string_def Let_def)
qed (simp add: htsmsg_get_str_def assms)

section \<open>Properties\<close>





text \<open>
  Property C34. Deleting a name of a map and adding it again is an update: the name finds the new
  value, every other name what it found before, and names that were distinct stay distinct.
\<close>

theorem htsmsg_replace_field:
  assumes "is_map m" and "nul_free k" and "nul_free j" and "distinct (map fst (map_content m))"
  shows "map_find (map_add_field flags (map_del m k) k v) j = (if j = k then Some v else map_find m j) \<and>
    distinct (map fst (map_content (map_add_field flags (map_del m k) k v)))"
  using msg.replace_updates [OF assms] by simp

theorem htsmsg_replace_field_witness:
  "map_find (map_add_field 2 (map_del (Htsmsg False [Field (Some [97]) (HMF_S64 1) 2 None None]) [97]) [97] (HMF_S64 2, None)) [97]
     = Some (HMF_S64 2, None)"
  using htsmsg_replace_field [of "Htsmsg False [Field (Some [97]) (HMF_S64 1) 2 None None]" "[97]" "[97]" 2 "(HMF_S64 2, None)"]
  by (simp add: is_map_def map_content_def)

text \<open>
  Numbers survive: what is added as 32 unsigned or signed bits under a new name is read
  back by the getter of that type, and reading a field as a string first, which turns it into one,
  does not change the number it is read as.
\<close>

theorem htsmsg_numbers_roundtrip:
  assumes "htsmsg_field_find m (Key k) = None" and "\<not> hm_islist m"
  shows "(\<exists>m'. htsmsg_add_u32 m (Some k) u = Some m' \<and> htsmsg_get_u32 m' (Key k) = Inr u) \<and>
    (\<exists>m'. htsmsg_add_s32 m (Some k) u = Some m' \<and> htsmsg_get_s32 m' (Key k) = Inr u) \<and>
    (\<exists>m'. htsmsg_add_s64 m (Some k) w = Some m' \<and> htsmsg_get_s64 m' (Key k) = Inr w \<and>
       htsmsg_get_s64 (snd (htsmsg_get_str m' (Key k))) (Key k) = Inr w)"
proof -
  have ok: "\<exists>m'. htsmsg_field_add m (Some k) x flags None = Some m' \<and>
      htsmsg_field_find m' (Key k) = Some (length (hm_fields m)) \<and>
      hmf_u (field_at m' (length (hm_fields m))) = x \<and> length (hm_fields m) < length (hm_fields m')" for x flags
    using assms find_added [OF assms(1), of x flags None] by (auto simp: htsmsg_field_add_def)
  have "sint u < 2 ^ 31" "- (2 ^ 31) \<le> sint u" "uint u < 2 ^ 32"
    using sint_lt [of u] sint_ge [of u] uint_lt2p [of u] by simp_all
  then show ?thesis
    using ok [of "HMF_S64 (ucast u)" HMF_NAME_ALLOCED] ok [of "HMF_S64 (scast u)" HMF_NAME_ALLOCED]
      ok [of "HMF_S64 w" HMF_NAME_ALLOCED] strtoll0_dec_int [OF sint_u64_bounds, of w]
    by (auto simp: htsmsg_add_u32_def htsmsg_get_u32_def htsmsg_get_s64_def sint_u64_small
        htsmsg_add_s32_def htsmsg_get_s32_def htsmsg_add_s64_def htsmsg_get_str_def
        htsmsg_field_get_string_def find_field_set Let_def)
qed

end
