(* ===== verification/Htsmsg_Binary.thy ===== *)
theory Htsmsg_Binary
  imports Htsmsg
begin

text \<open>
  The binary form of messages, \<^verbatim>\<open>src/src/htsmsg/htsmsg_binary.c\<close>. The reader is given the memory from
  its pointer on and the length the code believes in, a 64 bit \<^verbatim>\<open>size_t\<close>; the two are different
  things, and \<open>Des_Oob\<close> is a read outside that memory or a field that points there.
\<close>

section \<open>Reader\<close>

datatype des_result = Des_Ok "htsmsg_field list" | Des_Fail | Des_Oob

definition rd_be32 :: "u8 \<Rightarrow> u8 \<Rightarrow> u8 \<Rightarrow> u8 \<Rightarrow> u32" where
  "rd_be32 a b c d =
     push_bit 24 (ucast a) OR push_bit 16 (ucast b) OR push_bit 8 (ucast c) OR ucast d"

text \<open>The bytes of a number, the most significant last.\<close>

definition rd_s64 :: "bytes \<Rightarrow> u64" where
  "rd_s64 bs = foldr (\<lambda>b u. push_bit 8 u OR ucast b) bs 0"

definition des_cons :: "htsmsg_field \<Rightarrow> des_result \<Rightarrow> des_result" where
  "des_cons f r = (case r of Des_Ok fs \<Rightarrow> Des_Ok (f # fs) | e \<Rightarrow> e)"

text \<open>The fields that the loop of \<open>htsmsg_binary_des0\<close> appends. The sum of the two lengths is taken in
  32 bits, and the counter of the number loop is an \<^verbatim>\<open>int\<close>.\<close>

function htsmsg_binary_des0 :: "bytes \<Rightarrow> u64 \<Rightarrow> des_result" where
  "htsmsg_binary_des0 buf len =
     (if len \<le> 5 then Des_Ok []
      else if length buf < 6 then Des_Oob
      else
        let type = buf ! 0;
            namelen = buf ! 1;
            datalen = rd_be32 (buf ! 2) (buf ! 3) (buf ! 4) (buf ! 5);
            buf1 = drop 6 buf;
            len1 = len - 6
        in if len1 < ucast (ucast namelen + datalen) then Des_Fail
           else if length buf1 < unat namelen then Des_Oob
           else
             let name = (if 0 < namelen then Some (c_str (take (unat namelen) buf1)) else None);
                 flags = (if 0 < namelen then HMF_NAME_ALLOCED else 0);
                 buf2 = drop (unat namelen) buf1;
                 len2 = len1 - ucast namelen;
                 payload = take (unat datalen) buf2;
                 buf3 = drop (unat datalen) buf2;
                 len3 = len2 - ucast datalen
             in if type = 3 then
                  (if length buf2 < unat datalen then Des_Oob
                   else des_cons (Field name (HMF_STR (c_str payload)) (flags OR HMF_ALLOCED) None None)
                          (htsmsg_binary_des0 buf3 len3))
                else if type = 4 then
                  (if length buf2 < unat datalen then Des_Oob
                   else des_cons (Field name (HMF_BIN payload) flags None None)
                          (htsmsg_binary_des0 buf3 len3))
                else if type = 2 then
                  (if 0 \<le> sint (datalen - 1) \<and> length buf2 < unat datalen then Des_Oob
                   else des_cons
                          (Field name (HMF_S64 (if 0 \<le> sint (datalen - 1) then rd_s64 payload else 0))
                             flags None None)
                          (htsmsg_binary_des0 buf3 len3))
                else if type = 1 \<or> type = 5 then
                  (case htsmsg_binary_des0 buf2 (ucast datalen) of
                     Des_Ok fs \<Rightarrow>
                       des_cons (Field name (if type = 5 then HMF_LIST else HMF_MAP) flags
                                   (Some (Htsmsg (type = 5) fs)) None)
                         (htsmsg_binary_des0 buf3 len3)
                   | e \<Rightarrow> e)
                else Des_Fail)"
  by pat_completeness auto
termination
  by (relation "measure (\<lambda>(buf, len). length buf)") auto

declare htsmsg_binary_des0.simps [simp del]

text \<open>\<open>htsmsg_binary_deserialize\<close> of a buffer; \<open>Des_Fail\<close> is the result \<^verbatim>\<open>NULL\<close>.\<close>

datatype des_msg = Msg_Ok htsmsg | Msg_Null | Msg_Oob

definition htsmsg_binary_deserialize :: "bytes \<Rightarrow> des_msg" where
  "htsmsg_binary_deserialize buf =
     (case htsmsg_binary_des0 buf (of_nat (length buf)) of
        Des_Ok fs \<Rightarrow> Msg_Ok (Htsmsg False fs)
      | Des_Fail \<Rightarrow> Msg_Null
      | Des_Oob \<Rightarrow> Msg_Oob)"

section \<open>Writer\<close>

text \<open>The loop that shifts a number out, as the bytes it takes: their number is what the length
  loops count.\<close>

function s64_bytes :: "u64 \<Rightarrow> bytes" where
  "s64_bytes u = (if u = 0 then [] else ucast u # s64_bytes (drop_bit 8 u))"
  by pat_completeness auto
termination
proof (relation "measure unat", goal_cases)
  case (2 u)
  then have "unat u div 2 ^ 8 < unat u"
    by (intro div_less_dividend) (auto simp: word_unat_eq_iff)
  then show ?case
    unfolding in_measure by (subst unat_drop_bit_eq) (simp add: drop_bit_eq_div)
qed simp

declare s64_bytes.simps [simp del]

definition name_bytes :: "bytes option \<Rightarrow> bytes" where
  "name_bytes name = (case name of None \<Rightarrow> [] | Some n \<Rightarrow> c_str n)"

text \<open>\<open>None\<close> is the crash on a map or list without its child message, and in the writer also the
  call of \<^verbatim>\<open>abort\<close> for a type that has no binary form.\<close>

fun htsmsg_binary_count :: "htsmsg \<Rightarrow> nat option" and binary_count_field :: "htsmsg_field \<Rightarrow> nat option" where
  "htsmsg_binary_count (Htsmsg islist fs) = map_option sum_list (those (map binary_count_field fs))"
| "binary_count_field (Field name u flags childs ns) =
     map_option (\<lambda>l. 6 + length (name_bytes name) + l)
       (case u of
          HMF_STR str \<Rightarrow> Some (strlen str)
        | HMF_BIN bin \<Rightarrow> Some (length bin)
        | HMF_S64 s64 \<Rightarrow> Some (length (s64_bytes s64))
        | HMF_DBL _ \<Rightarrow> Some 0
        | _ \<Rightarrow> (case childs of None \<Rightarrow> None | Some c \<Rightarrow> htsmsg_binary_count c))"

definition hmf_type :: "hmf_value \<Rightarrow> u8" where
  "hmf_type u =
     (case u of HMF_MAP \<Rightarrow> 1 | HMF_S64 _ \<Rightarrow> 2 | HMF_STR _ \<Rightarrow> 3 | HMF_BIN _ \<Rightarrow> 4 | HMF_LIST \<Rightarrow> 5 | HMF_DBL _ \<Rightarrow> 6)"

definition be32 :: "nat \<Rightarrow> bytes" where
  "be32 l = (let w = of_nat l :: u32 in
     [ucast (drop_bit 24 w), ucast (drop_bit 16 w), ucast (drop_bit 8 w), ucast w])"

text \<open>The header of a field, with the length \<open>l\<close> of what follows it. The name's length is stored in
  one byte, the whole name is copied.\<close>

definition binary_header :: "hmf_value \<Rightarrow> bytes option \<Rightarrow> nat \<Rightarrow> bytes" where
  "binary_header u name l =
     [hmf_type u, of_nat (length (name_bytes name))] @ be32 l @ name_bytes name"

fun htsmsg_binary_write :: "htsmsg \<Rightarrow> bytes option" and binary_write_field :: "htsmsg_field \<Rightarrow> bytes option" where
  "htsmsg_binary_write (Htsmsg islist fs) = map_option concat (those (map binary_write_field fs))"
| "binary_write_field (Field name u flags childs ns) =
     (case u of
        HMF_STR str \<Rightarrow> Some (binary_header u name (strlen str) @ c_str str)
      | HMF_BIN bin \<Rightarrow> Some (binary_header u name (length bin) @ bin)
      | HMF_S64 s64 \<Rightarrow> Some (binary_header u name (length (s64_bytes s64)) @ s64_bytes s64)
      | HMF_DBL _ \<Rightarrow> None
      | _ \<Rightarrow>
          (case childs of
             None \<Rightarrow> None
           | Some c \<Rightarrow>
               (case htsmsg_binary_count c of
                  None \<Rightarrow> None
                | Some l \<Rightarrow> map_option (\<lambda>b. binary_header u name l @ b) (htsmsg_binary_write c))))"

datatype ser_result = Ser_Ok bytes | Ser_Error | Ser_Crash

definition htsmsg_binary_serialize :: "htsmsg \<Rightarrow> nat \<Rightarrow> ser_result" where
  "htsmsg_binary_serialize msg maxlen =
     (case htsmsg_binary_count msg of
        None \<Rightarrow> Ser_Crash
      | Some len \<Rightarrow>
          (if maxlen < len + 4 then Ser_Error
           else case htsmsg_binary_write msg of
             None \<Rightarrow> Ser_Crash
           | Some b \<Rightarrow> Ser_Ok (be32 len @ b)))"

section \<open>Numbers\<close>

lemma rd_be32_be32:
  "rd_be32 (be32 l ! 0) (be32 l ! 1) (be32 l ! 2) (be32 l ! 3) = of_nat l"
proof -
  define w where "w = (of_nat l :: u32)"
  have "push_bit 24 (ucast (ucast (drop_bit 24 w) :: u8)) OR push_bit 16 (ucast (ucast (drop_bit 16 w) :: u8)) OR
      push_bit 8 (ucast (ucast (drop_bit 8 w) :: u8)) OR ucast (ucast w :: u8) = w" (is "?v = w")
  proof (rule bit_word_eqI)
    fix n
    assume "n < LENGTH(32)"
    then consider "n < 8" | "8 \<le> n" "n < 16" | "16 \<le> n" "n < 24" | "24 \<le> n" "n < 32"
      by force
    then show "bit ?v n \<longleftrightarrow> bit w n"
      by cases (auto simp: bit_simps)
  qed
  then show ?thesis
    by (simp add: rd_be32_def be32_def Let_def w_def)
qed

lemma length_be32 [simp]: "length (be32 l) = 4"
  by (simp add: be32_def Let_def)

lemma rd_s64_bytes: "rd_s64 (s64_bytes u) = u"
proof (induction u rule: s64_bytes.induct)
  case (1 u)
  have "push_bit 8 (drop_bit 8 u) OR ucast (ucast u :: u8) = u"
    by (rule bit_word_eqI) (auto simp: bit_simps not_le)
  with 1 show ?case
    by (cases "u = 0") (simp_all add: s64_bytes.simps [of u] s64_bytes.simps [of 0] rd_s64_def)
qed

section \<open>The reader undoes the writer\<close>

text \<open>The messages that have a binary form: names of 1 to 255 bytes, no number of type
  \<^verbatim>\<open>double\<close>.\<close>

fun binary_ok :: "htsmsg \<Rightarrow> bool" and binary_field_ok :: "htsmsg_field \<Rightarrow> bool" where
  "binary_ok (Htsmsg islist fs) = list_all binary_field_ok fs"
| "binary_field_ok (Field name u flags childs ns) =
     ((case name of None \<Rightarrow> True | Some n \<Rightarrow> n \<noteq> [] \<and> nul_free n \<and> length n \<le> 255) \<and>
      (case u of
         HMF_MAP \<Rightarrow> (case childs of None \<Rightarrow> False | Some c \<Rightarrow> \<not> hm_islist c \<and> binary_ok c)
       | HMF_LIST \<Rightarrow> (case childs of None \<Rightarrow> False | Some c \<Rightarrow> hm_islist c \<and> binary_ok c)
       | HMF_STR str \<Rightarrow> nul_free str
       | HMF_DBL _ \<Rightarrow> False
       | _ \<Rightarrow> True))"

text \<open>What comes back: flags as the reader sets them, no name spaces, children of maps and lists
  only.\<close>

fun binary_form :: "htsmsg \<Rightarrow> htsmsg" and binary_form_field :: "htsmsg_field \<Rightarrow> htsmsg_field" where
  "binary_form (Htsmsg islist fs) = Htsmsg islist (map binary_form_field fs)"
| "binary_form_field (Field name u flags childs ns) =
     Field name u
       ((if name = None then 0 else HMF_NAME_ALLOCED) OR (case u of HMF_STR _ \<Rightarrow> HMF_ALLOCED | _ \<Rightarrow> 0))
       (case u of
          HMF_MAP \<Rightarrow> (case childs of None \<Rightarrow> None | Some c \<Rightarrow> Some (binary_form c))
        | HMF_LIST \<Rightarrow> (case childs of None \<Rightarrow> None | Some c \<Rightarrow> Some (binary_form c))
        | _ \<Rightarrow> None)
       None"

lemma binary_form_simps [simp]:
  "hm_islist (binary_form m) = hm_islist m" "hm_fields (binary_form m) = map binary_form_field (hm_fields m)"
  by (cases m; simp)+

lemma those_map_Some: "(\<And>x. x \<in> set xs \<Longrightarrow> f x = Some (g x)) \<Longrightarrow> those (map f xs) = Some (map g xs)"
  by (induction xs) auto

text \<open>Count and writer agree.\<close>

lemma binary_write_total:
  "binary_ok m \<Longrightarrow> \<exists>b. htsmsg_binary_write m = Some b \<and> htsmsg_binary_count m = Some (length b)"
  "binary_field_ok f \<Longrightarrow> \<exists>b. binary_write_field f = Some b \<and> binary_count_field f = Some (length b)"
proof (induction m and f rule: binary_ok_binary_field_ok.induct)
  case (1 islist fs)
  define b where "b f = the (binary_write_field f)" for f
  have "binary_write_field f = Some (b f) \<and> binary_count_field f = Some (length (b f))" if "f \<in> set fs" for f
    using 1 that by (force simp: b_def list_all_iff)
  then show ?case
    by (auto simp: those_map_Some [of fs binary_write_field b] those_map_Some [of fs binary_count_field "\<lambda>f. length (b f)"]
        length_concat comp_def)
next
  case (2 name u flags childs ns)
  then show ?case
    by (cases u) (auto simp: binary_header_def strlen_def split: option.splits)
qed

lemma u64_of_nat:
  assumes "n < 2 ^ 32" "m < 2 ^ 32"
  shows "(of_nat n :: u64) < of_nat m \<longleftrightarrow> n < m" "(of_nat n :: u64) \<le> of_nat m \<longleftrightarrow> n \<le> m"
  using assms by (simp_all add: word_less_nat_alt word_le_nat_alt unat_of_nat take_bit_nat_eq_self)

lemma u32_of_nat: "n < 2 ^ 32 \<Longrightarrow> unat (of_nat n :: u32) = n" "n < 2 ^ 32 \<Longrightarrow> ucast (of_nat n :: u32) = (of_nat n :: u64)"
proof -
  show u: "n < 2 ^ 32 \<Longrightarrow> unat (of_nat n :: u32) = n"
    by (simp add: unat_of_nat take_bit_nat_eq_self)
  show "n < 2 ^ 32 \<Longrightarrow> ucast (of_nat n :: u32) = (of_nat n :: u64)"
    using u by (metis of_nat_unat)
qed

lemma u8_of_nat:
  "n < 256 \<Longrightarrow> unat (of_nat n :: u8) = n" "n < 256 \<Longrightarrow> ucast (of_nat n :: u8) = (of_nat n :: u32)"
  "n < 256 \<Longrightarrow> ucast (of_nat n :: u8) = (of_nat n :: u64)" "n < 256 \<Longrightarrow> 0 < (of_nat n :: u8) \<longleftrightarrow> 0 < n"
proof -
  show u: "n < 256 \<Longrightarrow> unat (of_nat n :: u8) = n"
    by (simp add: unat_of_nat take_bit_nat_eq_self)
  show "n < 256 \<Longrightarrow> ucast (of_nat n :: u8) = (of_nat n :: u32)" "n < 256 \<Longrightarrow> ucast (of_nat n :: u8) = (of_nat n :: u64)"
    using u by (metis of_nat_unat)+
  show "n < 256 \<Longrightarrow> 0 < (of_nat n :: u8) \<longleftrightarrow> 0 < n"
    using u by (simp add: word_less_nat_alt)
qed

lemma sint_pred: "n < 2 ^ 31 \<Longrightarrow> 0 \<le> sint (of_nat n - 1 :: u32) \<longleftrightarrow> 0 < n"
proof -
  assume n: "n < 2 ^ 31"
  have "of_nat n - 1 = (word_of_int (int n - 1) :: u32)" by simp
  then have "sint (of_nat n - 1 :: u32) = int n - 1"
    using n by (simp only: sint_sbintrunc') (rule signed_take_bit_int_eq_self, simp_all)
  then show ?thesis by simp
qed

text \<open>Reading one field, whatever follows it.\<close>

lemma des0_field:
  assumes name: "case name of None \<Rightarrow> True | Some n \<Rightarrow> n \<noteq> [] \<and> nul_free n \<and> length n \<le> 255"
    and len: "6 + length (name_bytes name) + length p + k < 2 ^ 31"
    and fl: "fl = (if name = None then 0 else HMF_NAME_ALLOCED)"
  shows "htsmsg_binary_des0 (binary_header u name (length p) @ p @ t)
      (of_nat (6 + length (name_bytes name) + length p + k)) =
    (let rest = htsmsg_binary_des0 t (of_nat k) in
     if hmf_type u = 3 then des_cons (Field name (HMF_STR (c_str p)) (fl OR HMF_ALLOCED) None None) rest
     else if hmf_type u = 4 then des_cons (Field name (HMF_BIN p) fl None None) rest
     else if hmf_type u = 2 then des_cons (Field name (HMF_S64 (if p = [] then 0 else rd_s64 p)) fl None None) rest
     else if hmf_type u = 1 \<or> hmf_type u = 5 then
       (case htsmsg_binary_des0 (p @ t) (of_nat (length p)) of
          Des_Ok fs \<Rightarrow> des_cons (Field name (if hmf_type u = 5 then HMF_LIST else HMF_MAP) fl
                         (Some (Htsmsg (hmf_type u = 5) fs)) None) rest
        | e \<Rightarrow> e)
     else Des_Fail)"
proof -
  define N L where "N = length (name_bytes name)" and "L = length p"
  define buf where "buf = binary_header u name L @ p @ t"
  have N: "N < 256" "0 < N \<longleftrightarrow> name \<noteq> None" "name \<noteq> None \<Longrightarrow> Some (c_str (name_bytes name)) = name"
    using name by (auto simp: N_def name_bytes_def split: option.splits)
  have sz: "6 + N + L + k < 2 ^ 31" "L < 2 ^ 31" "L < 2 ^ 32"
    using len by (auto simp: N_def L_def)
  have b: "buf ! 0 = hmf_type u" "buf ! 1 = of_nat N" "drop 6 buf = name_bytes name @ p @ t" "6 \<le> length buf"
    "rd_be32 (buf ! 2) (buf ! 3) (buf ! 4) (buf ! 5) = of_nat L"
    using rd_be32_be32 [of L]
    by (simp_all add: buf_def binary_header_def N_def be32_def Let_def eval_nat_numeral)
  have l1: "(of_nat (6 + N + L + k) :: u64) - 6 = of_nat (N + L + k)"
    "(of_nat (N + L + k) :: u64) - of_nat N = of_nat (L + k)" "(of_nat (L + k) :: u64) - of_nat L = of_nat k"
    by simp_all
  have l2: "\<not> (of_nat (6 + N + L + k) :: u64) \<le> 5"
    using u64_of_nat(2) [of "6 + N + L + k" 5] sz by simp
  have "(of_nat N + of_nat L :: u32) = of_nat (N + L)" by simp
  then have l3: "\<not> (of_nat (N + L + k) :: u64) < ucast (of_nat N + of_nat L :: u32)"
    using u64_of_nat(1) [of "N + L + k" "N + L"] u32_of_nat(2) [of "N + L"] sz by simp
  have nm: "(if 0 < N then Some (c_str (take N (name_bytes name @ p @ t))) else None) = name"
    "(if 0 < N then HMF_NAME_ALLOCED else 0) = fl"
    using N(2,3) fl by (simp_all add: N_def)
  have bf: "\<not> length (name_bytes name @ p @ t) < N" "drop N (name_bytes name @ p @ t) = p @ t"
    "take L (p @ t) = p" "drop L (p @ t) = t" "\<not> length (p @ t) < L" "\<not> length buf < 6" "0 < L \<longleftrightarrow> p \<noteq> []"
    using b(4) by (simp_all add: N_def L_def)
  have "htsmsg_binary_des0 buf (of_nat (6 + N + L + k)) =
    (if hmf_type u = 3 then des_cons (Field name (HMF_STR (c_str p)) (fl OR HMF_ALLOCED) None None) (htsmsg_binary_des0 t (of_nat k))
     else if hmf_type u = 4 then des_cons (Field name (HMF_BIN p) fl None None) (htsmsg_binary_des0 t (of_nat k))
     else if hmf_type u = 2 then des_cons (Field name (HMF_S64 (if p \<noteq> [] then rd_s64 p else 0)) fl None None) (htsmsg_binary_des0 t (of_nat k))
     else if hmf_type u = 1 \<or> hmf_type u = 5 then
       (case htsmsg_binary_des0 (p @ t) (of_nat L) of
          Des_Ok fs \<Rightarrow> des_cons (Field name (if hmf_type u = 5 then HMF_LIST else HMF_MAP) fl
                         (Some (Htsmsg (hmf_type u = 5) fs)) None) (htsmsg_binary_des0 t (of_nat k))
        | Des_Fail \<Rightarrow> Des_Fail | Des_Oob \<Rightarrow> Des_Oob)
     else Des_Fail)"
    by (subst htsmsg_binary_des0.simps)
      (simp only: l2 b u8_of_nat [OF N(1)] u32_of_nat [OF sz(3)] l1 l3 sint_pred [OF sz(2)] Let_def
        nm bf if_False simp_thms)
  then show ?thesis
    unfolding N_def [symmetric] L_def [symmetric] buf_def [symmetric] Let_def by simp
qed

lemma des0_zero [simp]: "htsmsg_binary_des0 t 0 = Des_Ok []"
  by (simp add: htsmsg_binary_des0.simps)

lemma des0_fields:
  assumes "\<And>f t k. f \<in> set fs \<Longrightarrow> length (b f) + k < 2 ^ 31 \<Longrightarrow>
      htsmsg_binary_des0 (b f @ t) (of_nat (length (b f) + k)) = des_cons (g f) (htsmsg_binary_des0 t (of_nat k))"
    and "length (concat (map b fs)) < 2 ^ 31"
  shows "htsmsg_binary_des0 (concat (map b fs) @ t) (of_nat (length (concat (map b fs)))) = Des_Ok (map g fs)"
  using assms
proof (induction fs)
  case (Cons f fs)
  have "htsmsg_binary_des0 (concat (map b fs) @ t) (of_nat (length (concat (map b fs)))) = Des_Ok (map g fs)"
    using Cons.prems by (intro Cons.IH) auto
  then show ?case
    using Cons.prems(1) [of f "length (concat (map b fs))" "concat (map b fs) @ t"] Cons.prems(2)
    by (simp add: des_cons_def)
qed simp

lemma binary_write_field_form:
  assumes ok: "binary_field_ok (Field name u flags childs ns)"
    and w: "binary_write_field (Field name u flags childs ns) = Some b"
  shows "\<exists>p. b = binary_header u name (length p) @ p \<and>
    (case u of
       HMF_STR str \<Rightarrow> p = str \<and> nul_free str | HMF_BIN bin \<Rightarrow> p = bin | HMF_S64 s64 \<Rightarrow> p = s64_bytes s64 | HMF_DBL _ \<Rightarrow> False
     | _ \<Rightarrow> \<exists>c. childs = Some c \<and> htsmsg_binary_write c = Some p \<and> binary_ok c \<and> (hm_islist c \<longleftrightarrow> u = HMF_LIST))"
proof (cases "u = HMF_MAP \<or> u = HMF_LIST")
  case True
  then obtain c where c: "childs = Some c" "binary_ok c" "hm_islist c \<longleftrightarrow> u = HMF_LIST"
    using ok by (auto split: option.splits)
  then obtain p where "htsmsg_binary_write c = Some p" "htsmsg_binary_count c = Some (length p)"
    using binary_write_total(1) by blast
  with c True w show ?thesis by auto
next
  case False
  with ok w show ?thesis by (cases u) (auto simp: strlen_def)
qed

lemma des0_write:
  "binary_ok m \<Longrightarrow> htsmsg_binary_write m = Some b \<Longrightarrow> length b < 2 ^ 31 \<Longrightarrow>
     htsmsg_binary_des0 (b @ t) (of_nat (length b)) = Des_Ok (map binary_form_field (hm_fields m))"
  "binary_field_ok f \<Longrightarrow> binary_write_field f = Some b \<Longrightarrow> length b + k < 2 ^ 31 \<Longrightarrow>
     htsmsg_binary_des0 (b @ t) (of_nat (length b + k)) =
       des_cons (binary_form_field f) (htsmsg_binary_des0 t (of_nat k))"
proof (induction m and f arbitrary: b t and b t k rule: binary_ok_binary_field_ok.induct)
  case (1 islist fs)
  define w where "w f = the (binary_write_field f)" for f
  have w: "binary_write_field f = Some (w f)" "binary_field_ok f" if "f \<in> set fs" for f
    using that "1.prems"(1) binary_write_total(2) [of f] by (auto simp: w_def list_all_iff)
  then have "b = concat (map w fs)"
    using "1.prems"(2) by (simp add: those_map_Some [of fs binary_write_field w])
  then show ?case
    using des0_fields [of fs w binary_form_field t] "1.IH" w "1.prems"(3) by simp
next
  case (2 name u flags childs ns)
  have name: "case name of None \<Rightarrow> True | Some n \<Rightarrow> n \<noteq> [] \<and> nul_free n \<and> length n \<le> 255"
    using "2.prems"(1) by simp
  obtain p where b: "b = binary_header u name (length p) @ p"
    and p: "case u of
       HMF_STR str \<Rightarrow> p = str \<and> nul_free str | HMF_BIN bin \<Rightarrow> p = bin | HMF_S64 s64 \<Rightarrow> p = s64_bytes s64 | HMF_DBL _ \<Rightarrow> False
     | _ \<Rightarrow> \<exists>c. childs = Some c \<and> htsmsg_binary_write c = Some p \<and> binary_ok c \<and> (hm_islist c \<longleftrightarrow> u = HMF_LIST)"
    using binary_write_field_form [OF "2.prems"(1,2)] by blast
  have len: "length b = 6 + length (name_bytes name) + length p"
    by (simp add: b binary_header_def)
  have eq: "htsmsg_binary_des0 (b @ t) (of_nat (length b + k)) =
      htsmsg_binary_des0 (binary_header u name (length p) @ p @ t) (of_nat (6 + length (name_bytes name) + length p + k))"
    unfolding len unfolding b by (simp only: append_assoc)
  have "6 + length (name_bytes name) + length p + k < 2 ^ 31"
    using "2.prems"(3) len by simp
  note step = trans [OF eq des0_field [OF name this refl, of u t]]
  have sub: "htsmsg_binary_des0 (p @ t) (of_nat (length p)) = Des_Ok (map binary_form_field (hm_fields c))"
    if "u = HMF_MAP \<or> u = HMF_LIST" "childs = Some c" for c
    using that p "2.IH" "2.prems"(3) len by auto
  have s64: "s64_bytes v = [] \<Longrightarrow> v = 0" for v
    by (cases "v = 0") (simp_all add: s64_bytes.simps [of v])
  show ?case
  proof (cases "u = HMF_MAP \<or> u = HMF_LIST")
    case True
    then obtain c where c: "childs = Some c" "hm_islist c \<longleftrightarrow> u = HMF_LIST" using p by auto
    then show ?thesis
      unfolding step using True sub [OF True c(1)] by (cases c) (auto simp: hmf_type_def)
  next
    case False
    then show ?thesis
      unfolding step using p by (cases u) (auto simp: hmf_type_def rd_s64_bytes dest: s64)
  qed
qed

section \<open>Properties\<close>

text \<open>
  Property C5. Every message with names of 1 to 255 bytes and no \<^verbatim>\<open>double\<close> is serialized when its
  size allows it, into the number of bytes the counting pass predicted, and reading the data behind
  the length word gives the message back.
\<close>

theorem binary_roundtrip:
  assumes "binary_ok m" and "\<not> hm_islist m" and "maxlen < 2 ^ 31"
    and "htsmsg_binary_count m = Some len" and "len + 4 \<le> maxlen"
  shows "\<exists>d. htsmsg_binary_serialize m maxlen = Ser_Ok d \<and> length d = len + 4 \<and>
    htsmsg_binary_deserialize (drop 4 d) = Msg_Ok (binary_form m)"
proof -
  obtain b where b: "htsmsg_binary_write m = Some b" "len = length b"
    using binary_write_total(1) [OF assms(1)] assms(4) by auto
  then have "htsmsg_binary_des0 (b @ []) (of_nat (length b)) = Des_Ok (map binary_form_field (hm_fields m))"
    using assms by (intro des0_write(1)) auto
  moreover have "binary_form m = Htsmsg False (map binary_form_field (hm_fields m))"
    using assms(2) by (cases m) simp
  ultimately show ?thesis
    using assms(4,5) b
    by (simp add: htsmsg_binary_serialize_def htsmsg_binary_deserialize_def)
qed

theorem binary_roundtrip_witness:
  "\<exists>d. htsmsg_binary_serialize
      (Htsmsg False [Field (Some [97]) HMF_LIST 2 (Some (Htsmsg True [Field None (HMF_STR [98, 99]) 3 None None])) None]) 100 = Ser_Ok d \<and>
    htsmsg_binary_deserialize (drop 4 d) = Msg_Ok
      (Htsmsg False [Field (Some [97]) HMF_LIST 2 (Some (Htsmsg True [Field None (HMF_STR [98, 99]) 1 None None])) None])"
proof -
  let ?m = "Htsmsg False [Field (Some [97]) HMF_LIST 2 (Some (Htsmsg True [Field None (HMF_STR [98, 99]) 3 None None])) None]"
  have "binary_ok ?m" "htsmsg_binary_count ?m = Some 15"
    by code_simp+
  then show ?thesis
    using binary_roundtrip [of ?m 100 15] by auto
qed

text \<open>
  The length check adds the two lengths in 32 bits, and the sum can wrap: this input of
  seven bytes passes it and the name and string are then read from outside the buffer.
\<close>

theorem binary_length_check_wraps:
  "htsmsg_binary_deserialize [3, 1, 0xff, 0xff, 0xff, 0xff, 65] = Msg_Oob \<and>
   htsmsg_binary_deserialize [3, 1, 0xff, 0xff, 0xff, 0xfe, 65] = Msg_Null"
  by (simp add: htsmsg_binary_deserialize_def htsmsg_binary_des0.simps rd_be32_def Let_def)

end
