(* ===== verification/Json.thy ===== *)
theory Json
  imports Utf8
begin

text \<open>
  The JSON reader of \<^verbatim>\<open>src/src/misc/json.c\<close>. The objects it builds are behind an interface, the struct
  \<^verbatim>\<open>json_deserializer_t\<close> of \<^verbatim>\<open>src/src/misc/json.h\<close>, here a record of functions that return the changed
  parent. \<open>my_str2double\<close>, the floating point reader, is an argument: it gives the bits of the number and
  the rest of the input. Recursion is bounded by fuel; a theorem below shows that the fuel
  \<open>json_deserialize\<close> starts with is never used up.
\<close>

section \<open>Results\<close>

datatype json_err = Unexpected_End | Incorrect_Escape | Expected_String | Expected_Colon
  | Expected_Comma | Unknown_Token | Assertion_Failed | Out_Of_Fuel

text \<open>\<open>Not_This_Type\<close> is the pointer \<^verbatim>\<open>NOT_THIS_TYPE\<close>, \<open>Failed\<close> is \<^verbatim>\<open>NULL\<close> with the message and the position
  stored in \<^verbatim>\<open>*failmsg\<close> and \<^verbatim>\<open>*failp\<close>, \<open>Parsed\<close> a value with the rest of the input.\<close>

datatype 'a parsed = Not_This_Type | Failed json_err bytes | Parsed 'a bytes

text \<open>A function of the interface gives \<open>None\<close> when an assertion in it fails.\<close>

record 'o json_deserializer =
  jd_create_map :: 'o
  jd_create_list :: 'o
  jd_add_obj :: "'o \<Rightarrow> bytes option \<Rightarrow> 'o \<Rightarrow> 'o option"
  jd_add_string :: "'o \<Rightarrow> bytes option \<Rightarrow> bytes \<Rightarrow> 'o option"
  jd_add_long :: "'o \<Rightarrow> bytes option \<Rightarrow> u64 \<Rightarrow> 'o option"
  jd_add_double :: "'o \<Rightarrow> bytes option \<Rightarrow> u64 \<Rightarrow> 'o option"
  jd_add_bool :: "'o \<Rightarrow> bytes option \<Rightarrow> bool \<Rightarrow> 'o option"
  jd_add_null :: "'o \<Rightarrow> bytes option \<Rightarrow> 'o option"

type_synonym str2double = "bytes \<Rightarrow> u64 \<times> bytes"

section \<open>Strings\<close>

definition skip_ws :: "bytes \<Rightarrow> bytes" where
  "skip_ws s = dropWhile (\<lambda>c. 0 < c \<and> c < 33) s"

text \<open>A hexadecimal digit of an escape, as the code converts it.\<close>

definition json_hex :: "u8 \<Rightarrow> int option" where
  "json_hex c =
     (if chr CHR ''0'' \<le> c \<and> c \<le> chr CHR ''9'' then Some (uint c - 48)
      else if chr CHR ''a'' \<le> c \<and> c \<le> chr CHR ''f'' then Some (uint c - 97 + 10)
      else if chr CHR ''A'' \<le> c \<and> c \<le> chr CHR ''F'' then Some (uint c - 70 + 10)
      else None)"

fun json_hex_loop :: "nat \<Rightarrow> int \<Rightarrow> bytes \<Rightarrow> (int \<times> bytes) option" where
  "json_hex_loop 0 v s = Some (v, s)"
| "json_hex_loop (Suc i) v s =
     (case json_hex (deref s) of
        None \<Rightarrow> None
      | Some d \<Rightarrow> json_hex_loop i (push_bit 4 v OR d) (tl s))"

definition json_str_read_char :: "bytes \<Rightarrow> int \<times> bytes" where
  "json_str_read_char ptr =
     (if deref ptr = 0 then (-1, ptr)
      else if deref ptr \<noteq> 0x5c then utf8_get ptr
      else
        let c = deref (tl ptr); rest = tl (tl ptr) in
        if c = 0 then (-1, rest)
        else if c = chr CHR ''b'' then (8, rest)
        else if c = chr CHR ''f'' then (12, rest)
        else if c = chr CHR ''n'' then (10, rest)
        else if c = chr CHR ''r'' then (13, rest)
        else if c = chr CHR ''t'' then (9, rest)
        else if c = chr CHR ''u'' then
          (case json_hex_loop 4 0 rest of None \<Rightarrow> (-2, rest) | Some (v, s) \<Rightarrow> (v, s))
        else (uint c, rest))"

lemma json_hex_loop_bounds:
  "json_hex_loop n v s = Some (w, t) \<Longrightarrow> 0 \<le> v \<Longrightarrow> 0 \<le> w \<and> length t \<le> length s"
proof (induction n v s rule: json_hex_loop.induct)
  case (2 i v s)
  then obtain d where d: "json_hex (deref s) = Some d" "json_hex_loop i (push_bit 4 v OR d) (tl s) = Some (w, t)"
    by (auto split: option.splits)
  have "0 \<le> d"
    using d(1) by (auto simp: json_hex_def word_le_def split: if_splits)
  with 2 d show ?case
    by fastforce
qed simp

lemma json_str_read_char_bounds:
  assumes "json_str_read_char s = (v, t)" "v \<noteq> -1" "v \<noteq> -2"
  shows "0 \<le> v" "length t < length s"
proof -
  have s: "deref s \<noteq> 0" "deref s = 0x5c \<Longrightarrow> deref (tl s) \<noteq> 0"
    using assms by (auto simp: json_str_read_char_def Let_def)
  then have len: "deref s = 0x5c \<Longrightarrow> length (tl (tl s)) < length s" "s \<noteq> []"
    by (cases s; auto)+
  show "0 \<le> v"
    using assms utf8_get_bounds [of s] json_hex_loop_bounds [of 4 0 "tl (tl s)" v t]
    by (auto simp: json_str_read_char_def Let_def split: if_splits option.splits)
  show "length t < length s"
    using assms len utf8_get_less [of s] json_hex_loop_bounds [of 4 0 "tl (tl s)" v t]
    by (auto simp: json_str_read_char_def Let_def split: if_splits option.splits)
qed

text \<open>The two loops of \<open>json_parse_string\<close>: the first checks and measures, the second writes. Its
  result \<open>None\<close> is a failed assertion.\<close>

function json_string_len :: "bytes \<Rightarrow> nat \<Rightarrow> (json_err \<times> bytes) + nat" where
  "json_string_len s len =
     (if deref s = 0x22 then Inr len
      else
        let (v, s') = json_str_read_char s in
        if v = -1 then Inl (Unexpected_End, s')
        else if v = -2 then Inl (Incorrect_Escape, s')
        else json_string_len s' (len + length (utf8_put v)))"
  by pat_completeness auto
termination
  by (relation "measure (\<lambda>(s, len). length s)") (auto dest!: json_str_read_char_bounds [OF sym])

declare json_string_len.simps [simp del]

function json_string_write :: "bytes \<Rightarrow> (bytes \<times> bytes) option" where
  "json_string_write s =
     (if deref s = 0x22 then Some ([], tl s)
      else
        let (v, s') = json_str_read_char s in
        if v \<le> 0 then None
        else map_option (\<lambda>(out, rest). (utf8_put v @ out, rest)) (json_string_write s'))"
  by pat_completeness auto
termination
  by (relation "measure length") (auto dest!: json_str_read_char_bounds [OF sym])

declare json_string_write.simps [simp del]

definition json_parse_string :: "bytes \<Rightarrow> bytes parsed" where
  "json_parse_string start =
     (let s = skip_ws start in
      if deref s \<noteq> 0x22 then Not_This_Type
      else case json_string_len (tl s) 0 of
        Inl (e, p) \<Rightarrow> Failed e p
      | Inr len \<Rightarrow>
          (case json_string_write (tl s) of
             None \<Rightarrow> Failed Assertion_Failed (tl s)
           | Some (out, rest) \<Rightarrow> Parsed out rest))"

section \<open>Numbers\<close>

definition json_parse_double :: "str2double \<Rightarrow> bytes \<Rightarrow> (u64 \<times> bytes) option" where
  "json_parse_double my_str2double s =
     (let s1 = skip_ws s; (d, ep) = my_str2double s1 in if ep = s1 then None else Some (d, ep))"

definition json_parse_integer :: "bytes \<Rightarrow> (u64 \<times> bytes) option" where
  "json_parse_integer s =
     (let s1 = skip_ws s;
          s2 = dropWhile is_digit (if deref s1 = chr CHR ''-'' then tl s1 else s1)
      in if deref s2 = 0 then None
         else if deref s2 = chr CHR ''.'' \<or> deref s2 = chr CHR ''e'' \<or> deref s2 = chr CHR ''E'' then None
         else
           let (v, ep) = strtol 10 s1 in
           if v = - (2 ^ 63) \<or> v = 2 ^ 63 - 1 then None
           else if ep = s1 then None
           else Some (word_of_int v, ep))"

section \<open>Values\<close>

text \<open>The tail of \<open>json_parse_value\<close>, after maps and lists: strings, numbers and words.\<close>

definition starts_with :: "bytes \<Rightarrow> string \<Rightarrow> bool" where
  "starts_with s w \<longleftrightarrow> take (length w) s = cstr w"

definition add_result :: "'o option \<Rightarrow> bytes \<Rightarrow> 'o parsed" where
  "add_result r rest = (case r of None \<Rightarrow> Failed Assertion_Failed rest | Some p \<Rightarrow> Parsed p rest)"

definition json_parse_scalar ::
  "'o json_deserializer \<Rightarrow> str2double \<Rightarrow> bytes \<Rightarrow> 'o \<Rightarrow> bytes option \<Rightarrow> 'o parsed" where
  "json_parse_scalar jd my_str2double s parent name =
     (case json_parse_string s of
        Failed e p \<Rightarrow> Failed e p
      | Parsed str rest \<Rightarrow> add_result (jd_add_string jd parent name str) rest
      | Not_This_Type \<Rightarrow>
          (case json_parse_integer s of
             Some (l, rest) \<Rightarrow> add_result (jd_add_long jd parent name l) rest
           | None \<Rightarrow>
               (case json_parse_double my_str2double s of
                  Some (d, rest) \<Rightarrow> add_result (jd_add_double jd parent name d) rest
                | None \<Rightarrow>
                    (let s1 = skip_ws s in
                     if starts_with s1 ''true'' then add_result (jd_add_bool jd parent name True) (drop 4 s1)
                     else if starts_with s1 ''false'' then add_result (jd_add_bool jd parent name False) (drop 5 s1)
                     else if starts_with s1 ''null'' then add_result (jd_add_null jd parent name) (drop 4 s1)
                     else Failed Unknown_Token s1))))"

text \<open>Maps, lists and values call each other. The functions for maps and lists take the function for
  values, \<open>pv\<close>, as an argument; \<open>json_parse_value\<close> hands them itself with less fuel, so the fuel bounds
  the depth of nesting. The inner loops work on the object \<open>r\<close> under construction, with the length of
  the input as fuel.\<close>

type_synonym 'o value_parser = "bytes \<Rightarrow> 'o \<Rightarrow> bytes option \<Rightarrow> 'o parsed"

fun json_map_loop :: "'o value_parser \<Rightarrow> nat \<Rightarrow> bytes \<Rightarrow> 'o \<Rightarrow> 'o parsed" where
  "json_map_loop pv 0 s r = Failed Out_Of_Fuel s"
| "json_map_loop pv (Suc n) s r =
     (case json_parse_string s of
        Not_This_Type \<Rightarrow> Failed Expected_String s
      | Failed e p \<Rightarrow> Failed e p
      | Parsed name s2 \<Rightarrow>
          (let s3 = skip_ws s2 in
           if deref s3 \<noteq> chr CHR '':'' then Failed Expected_Colon s3
           else
             case pv (tl s3) r (Some name) of
               Parsed r' s4 \<Rightarrow>
                 (let s5 = skip_ws s4 in
                  if deref s5 = chr CHR ''}'' then Parsed r' (tl s5)
                  else if deref s5 \<noteq> chr CHR '','' then Failed Expected_Comma s5
                  else json_map_loop pv n (tl s5) r')
             | e \<Rightarrow> e))"

definition json_parse_map :: "'o json_deserializer \<Rightarrow> 'o value_parser \<Rightarrow> bytes \<Rightarrow> 'o parsed" where
  "json_parse_map jd pv s =
     (let s1 = skip_ws s in
      if deref s1 \<noteq> chr CHR ''{'' then Not_This_Type
      else
        let s2 = skip_ws (tl s1) in
        if deref s2 \<noteq> chr CHR ''}'' then json_map_loop pv (Suc (length s2)) s2 (jd_create_map jd)
        else Parsed (jd_create_map jd) (tl s2))"

fun json_list_loop :: "'o value_parser \<Rightarrow> nat \<Rightarrow> bytes \<Rightarrow> 'o \<Rightarrow> 'o parsed" where
  "json_list_loop pv 0 s r = Failed Out_Of_Fuel s"
| "json_list_loop pv (Suc n) s r =
     (case pv s r None of
        Parsed r' s4 \<Rightarrow>
          (let s5 = skip_ws s4 in
           if deref s5 = chr CHR '']'' then Parsed r' (tl s5)
           else if deref s5 \<noteq> chr CHR '','' then Failed Expected_Comma s5
           else json_list_loop pv n (tl s5) r')
      | e \<Rightarrow> e)"

definition json_parse_list :: "'o json_deserializer \<Rightarrow> 'o value_parser \<Rightarrow> bytes \<Rightarrow> 'o parsed" where
  "json_parse_list jd pv s =
     (let s1 = skip_ws s in
      if deref s1 \<noteq> chr CHR ''['' then Not_This_Type
      else
        let s2 = skip_ws (tl s1) in
        if deref s2 \<noteq> chr CHR '']'' then json_list_loop pv (Suc (length s2)) s2 (jd_create_list jd)
        else Parsed (jd_create_list jd) (tl s2))"

primrec json_parse_value :: "nat \<Rightarrow> 'o json_deserializer \<Rightarrow> str2double \<Rightarrow> 'o value_parser" where
  "json_parse_value 0 = (\<lambda>jd sd s parent name. Failed Out_Of_Fuel s)"
| "json_parse_value (Suc n) = (\<lambda>jd sd s parent name.
     (case json_parse_map jd (json_parse_value n jd sd) s of
        Failed e p \<Rightarrow> Failed e p
      | Parsed c s2 \<Rightarrow> add_result (jd_add_obj jd parent name c) s2
      | Not_This_Type \<Rightarrow>
          (case json_parse_list jd (json_parse_value n jd sd) s of
             Failed e p \<Rightarrow> Failed e p
           | Parsed c s2 \<Rightarrow> add_result (jd_add_obj jd parent name c) s2
           | Not_This_Type \<Rightarrow> json_parse_scalar jd sd s parent name)))"

text \<open>\<open>json_deserialize\<close>: the object, or the message and the offset of the failure.\<close>

definition json_deserialize ::
  "'o json_deserializer \<Rightarrow> str2double \<Rightarrow> bytes \<Rightarrow> (json_err \<times> nat) option + 'o" where
  "json_deserialize jd sd src =
     (let pv = json_parse_value (length src) jd sd in
      case (case json_parse_map jd pv src of Not_This_Type \<Rightarrow> json_parse_list jd pv src | r \<Rightarrow> r) of
        Not_This_Type \<Rightarrow> Inl None
      | Failed e p \<Rightarrow> Inl (Some (e, length src - length p))
      | Parsed c _ \<Rightarrow> Inr c)"

section \<open>Every parser consumes input, and the fuel suffices\<close>

definition consumes :: "bytes \<Rightarrow> 'a parsed \<Rightarrow> bool" where
  "consumes s r \<longleftrightarrow>
     (case r of Not_This_Type \<Rightarrow> True | Failed e p \<Rightarrow> e \<noteq> Out_Of_Fuel | Parsed _ rest \<Rightarrow> length rest < length s)"

text \<open>What the code relies on of \<open>my_str2double\<close>: the end pointer points into the string.\<close>

definition end_in_string :: "str2double \<Rightarrow> bool" where
  "end_in_string sd \<longleftrightarrow> (\<forall>s. \<exists>k. snd (sd s) = drop k s)"

lemma skip_ws_length: "length (skip_ws s) \<le> length s"
  by (simp add: skip_ws_def length_dropWhile_le)

lemma skip_ws_tl: "deref (skip_ws s) \<noteq> 0 \<Longrightarrow> length (tl (skip_ws s)) < length s"
  using skip_ws_length [of s] deref_nonzero_length [of "skip_ws s"] by linarith

lemma json_string_len_error: "json_string_len s l = Inl (e, p) \<Longrightarrow> e = Unexpected_End \<or> e = Incorrect_Escape"
proof (induction s l rule: json_string_len.induct)
  case (1 s l)
  then show ?case
    by (subst (asm) json_string_len.simps) (auto split: if_splits prod.splits)
qed

lemma json_string_write_length: "json_string_write s = Some (out, rest) \<Longrightarrow> length rest < length s"
proof (induction s arbitrary: out rest rule: json_string_write.induct)
  case (1 s)
  obtain v s' where v: "json_str_read_char s = (v, s')" by force
  show ?case
  proof (cases "deref s = 0x22")
    case True
    with "1.prems" show ?thesis
      using json_string_write.simps [of s] deref_nonzero_length [of s] by auto
  next
    case False
    then have w: "0 < v" "\<exists>out'. json_string_write s' = Some (out', rest)"
      using "1.prems" v by (auto simp: json_string_write.simps [of s] split: if_splits)
    moreover have "length s' < length s"
      using json_str_read_char_bounds(2) [OF v] w(1) by simp
    ultimately show ?thesis
      using "1.IH" [OF False v [symmetric] refl] by fastforce
  qed
qed

lemma json_parse_string_consumes: "consumes s (json_parse_string s)"
  using json_string_write_length skip_ws_tl [of s]
  by (fastforce simp: json_parse_string_def consumes_def Let_def dest: json_string_len_error
      split: option.splits sum.splits)

lemma strtol_digits_length: "length (snd (strtol_digits base acc s)) \<le> length s"
  by (induction base acc s rule: strtol_digits.induct) auto

lemma strtol_digits_same: "snd (strtol_digits base acc s) = s \<or> length (snd (strtol_digits base acc s)) < length s"
  using strtol_digits_length [of base _ "tl s"] by (cases s) (auto simp: less_Suc_eq_le)

lemma strtol_consumes: "snd (strtol base s) = s \<or> length (snd (strtol base s)) < length s"
proof -
  have p: "length (strtol_prefix base t) \<le> length t" for t
    by (auto simp: strtol_prefix_def)
  define s1 where "s1 = dropWhile is_space s"
  define s2 where "s2 = (if deref s1 = chr CHR ''-'' \<or> deref s1 = chr CHR ''+'' then tl s1 else s1)"
  have "length s1 \<le> length s" "length s2 \<le> length s1"
    by (simp_all add: s1_def s2_def length_dropWhile_le)
  then have "length (strtol_prefix base s2) \<le> length s"
    using p [of s2] by linarith
  then show ?thesis
    using strtol_digits_same [of base 0 "strtol_prefix base s2"]
    unfolding strtol_def Let_def s1_def [symmetric] s2_def [symmetric]
    by (auto split: prod.splits)
qed

lemma json_parse_integer_length: "json_parse_integer s = Some (v, rest) \<Longrightarrow> length rest < length s"
  using strtol_consumes [of 10 "skip_ws s"] skip_ws_length [of s]
  by (auto simp: json_parse_integer_def Let_def split: if_splits prod.splits)

lemma json_parse_double_length:
  assumes "end_in_string sd" "json_parse_double sd s = Some (d, rest)"
  shows "length rest < length s"
proof -
  obtain k where k: "snd (sd (skip_ws s)) = drop k (skip_ws s)"
    using assms(1) by (auto simp: end_in_string_def)
  have "rest = drop k (skip_ws s)" "rest \<noteq> skip_ws s"
    using assms(2) k by (auto simp: json_parse_double_def Let_def split: prod.splits if_splits)
  then have "length rest < length (skip_ws s)"
    by (cases "k = 0"; cases "skip_ws s = []") auto
  then show ?thesis
    using skip_ws_length [of s] by simp
qed

lemma add_result_consumes: "length rest < length s \<Longrightarrow> consumes s (add_result r rest)"
  by (auto simp: consumes_def add_result_def split: option.splits)

lemma starts_with_drop: "starts_with (skip_ws s) w \<Longrightarrow> w \<noteq> [] \<Longrightarrow> length (drop (length w) (skip_ws s)) < length s"
  using skip_ws_length [of s] by (cases "skip_ws s"; cases w) (auto simp: starts_with_def)

lemma json_parse_scalar_consumes:
  assumes "end_in_string sd"
  shows "consumes s (json_parse_scalar jd sd s parent name)"
proof (cases "json_parse_string s")
  case Not_This_Type
  have w: "starts_with (skip_ws s) ''true'' \<Longrightarrow> length (drop 4 (skip_ws s)) < length s"
    "starts_with (skip_ws s) ''false'' \<Longrightarrow> length (drop 5 (skip_ws s)) < length s"
    "starts_with (skip_ws s) ''null'' \<Longrightarrow> length (drop 4 (skip_ws s)) < length s"
    using starts_with_drop [of s "''true''"] starts_with_drop [of s "''false''"] starts_with_drop [of s "''null''"]
    by (simp_all add: eval_nat_numeral)
  have "consumes s (Failed Unknown_Token p :: 'a parsed)" for p
    by (simp add: consumes_def)
  with Not_This_Type w show ?thesis
    unfolding json_parse_scalar_def Let_def
    by (auto intro!: add_result_consumes dest: json_parse_integer_length json_parse_double_length [OF assms]
        split: option.splits)
qed (use json_parse_string_consumes [of s] in
    \<open>auto simp: json_parse_scalar_def consumes_def add_result_def split: option.splits\<close>)

text \<open>A parser of values that is good for inputs up to a length.\<close>

definition good_upto :: "nat \<Rightarrow> 'o value_parser \<Rightarrow> bool" where
  "good_upto l pv \<longleftrightarrow> (\<forall>s parent name. length s \<le> l \<longrightarrow>
     consumes s (pv s parent name) \<and> pv s parent name \<noteq> Not_This_Type)"

lemma consumes_Parsed: "consumes s (Parsed r rest) \<longleftrightarrow> length rest < length s"
  by (simp add: consumes_def)

lemma consumes_shorter: "consumes s' r \<Longrightarrow> length s' \<le> length s \<Longrightarrow> consumes s r"
  by (auto simp: consumes_def split: parsed.splits)

lemma json_map_loop_consumes:
  "length s < n \<Longrightarrow> good_upto (length s) pv \<Longrightarrow> consumes s (json_map_loop pv n s r) \<and> json_map_loop pv n s r \<noteq> Not_This_Type"
proof (induction pv n s r rule: json_map_loop.induct)
  case (2 pv n s r)
  show ?case
  proof (cases "json_parse_string s")
    case (Parsed name s2)
    define s3 where "s3 = skip_ws s2"
    show ?thesis
    proof (cases "deref s3 = chr CHR '':''")
      case True
      have "length s2 < length s"
        using json_parse_string_consumes [of s] Parsed by (simp add: consumes_def)
      then have l3: "length (tl s3) < length s"
        using skip_ws_tl [of s2] True by (simp add: s3_def)
      then have v: "consumes (tl s3) (pv (tl s3) r (Some name))" "pv (tl s3) r (Some name) \<noteq> Not_This_Type"
        using "2.prems"(2) by (auto simp: good_upto_def)
      show ?thesis
      proof (cases "pv (tl s3) r (Some name)")
        case (Parsed r' s4)
        then have l4: "length s4 < length (tl s3)" using v(1) by (simp add: consumes_Parsed)
        define s5 where "s5 = skip_ws s4"
        have l5: "deref s5 \<noteq> 0 \<Longrightarrow> length (tl s5) < length s4"
          unfolding s5_def by (rule skip_ws_tl)
        consider "deref s5 = chr CHR ''}''" | "deref s5 \<noteq> chr CHR ''}''" "deref s5 \<noteq> chr CHR '',''"
          | "deref s5 = chr CHR '',''" by blast
        then show ?thesis
        proof cases
          case 3
          then have "length (tl s5) < n" "good_upto (length (tl s5)) pv" "length (tl s5) \<le> length s"
            using l3 l4 l5 "2.prems" by (auto simp: good_upto_def)
          then have "consumes (tl s5) (json_map_loop pv n (tl s5) r') \<and> json_map_loop pv n (tl s5) r' \<noteq> Not_This_Type"
            using "2.IH" \<open>json_parse_string s = Parsed name s2\<close> True Parsed 3 by (simp add: s3_def s5_def)
          then show ?thesis
            using \<open>json_parse_string s = Parsed name s2\<close> True Parsed 3 \<open>length (tl s5) \<le> length s\<close>
            by (auto simp: s3_def s5_def Let_def intro: consumes_shorter)
        qed (use \<open>json_parse_string s = Parsed name s2\<close> True Parsed l3 l4 l5 in
            \<open>auto simp: s3_def s5_def Let_def consumes_def\<close>)
      qed (use \<open>json_parse_string s = Parsed name s2\<close> True v in \<open>auto simp: s3_def Let_def consumes_def\<close>)
    qed (use Parsed in \<open>auto simp: s3_def Let_def consumes_def\<close>)
  qed (use json_parse_string_consumes [of s] in \<open>auto simp: consumes_def\<close>)
qed simp

lemma json_list_loop_consumes:
  "length s < n \<Longrightarrow> good_upto (length s) pv \<Longrightarrow> consumes s (json_list_loop pv n s r) \<and> json_list_loop pv n s r \<noteq> Not_This_Type"
proof (induction pv n s r rule: json_list_loop.induct)
  case (2 pv n s r)
  have v: "consumes s (pv s r None)" "pv s r None \<noteq> Not_This_Type"
    using "2.prems"(2) by (auto simp: good_upto_def)
  show ?case
  proof (cases "pv s r None")
    case (Parsed r' s4)
    then have l4: "length s4 < length s" using v(1) by (simp add: consumes_Parsed)
    define s5 where "s5 = skip_ws s4"
    have l5: "deref s5 \<noteq> 0 \<Longrightarrow> length (tl s5) < length s4"
      unfolding s5_def by (rule skip_ws_tl)
    consider "deref s5 = chr CHR '']''" | "deref s5 \<noteq> chr CHR '']''" "deref s5 \<noteq> chr CHR '',''"
      | "deref s5 = chr CHR '',''" by blast
    then show ?thesis
    proof cases
      case 3
      then have "length (tl s5) < n" "good_upto (length (tl s5)) pv" "length (tl s5) \<le> length s"
        using l4 l5 "2.prems" by (auto simp: good_upto_def)
      then have "consumes (tl s5) (json_list_loop pv n (tl s5) r') \<and> json_list_loop pv n (tl s5) r' \<noteq> Not_This_Type"
        using "2.IH" Parsed 3 by (simp add: s5_def)
      then show ?thesis
        using Parsed 3 \<open>length (tl s5) \<le> length s\<close>
        by (auto simp: s5_def Let_def intro: consumes_shorter)
    qed (use Parsed l4 l5 in \<open>auto simp: s5_def Let_def consumes_def\<close>)
  qed (use v in \<open>auto simp: consumes_def\<close>)
qed simp

lemma json_parse_map_consumes:
  assumes "\<And>l. l < length s \<Longrightarrow> good_upto l pv"
  shows "consumes s (json_parse_map jd pv s)"
proof -
  define s2 where "s2 = skip_ws (tl (skip_ws s))"
  have "length s2 < length s" if "deref (skip_ws s) = chr CHR ''{''"
    using that skip_ws_tl [of s] skip_ws_length [of "tl (skip_ws s)"] by (simp add: s2_def)
  then show ?thesis
    using json_map_loop_consumes [of s2 "Suc (length s2)" pv "jd_create_map jd"] assms [of "length s2"]
    by (auto simp: json_parse_map_def Let_def simp flip: s2_def intro: consumes_shorter)
      (auto simp: consumes_def)
qed

lemma json_parse_list_consumes:
  assumes "\<And>l. l < length s \<Longrightarrow> good_upto l pv"
  shows "consumes s (json_parse_list jd pv s)"
proof -
  define s2 where "s2 = skip_ws (tl (skip_ws s))"
  have "length s2 < length s" if "deref (skip_ws s) = chr CHR ''[''"
    using that skip_ws_tl [of s] skip_ws_length [of "tl (skip_ws s)"] by (simp add: s2_def)
  then show ?thesis
    using json_list_loop_consumes [of s2 "Suc (length s2)" pv "jd_create_list jd"] assms [of "length s2"]
    by (auto simp: json_parse_list_def Let_def simp flip: s2_def intro: consumes_shorter)
      (auto simp: consumes_def)
qed

lemma json_parse_scalar_type: "json_parse_scalar jd sd s parent name \<noteq> Not_This_Type"
  by (auto simp: json_parse_scalar_def add_result_def Let_def split: parsed.splits option.splits)

lemma json_parse_value_good:
  assumes "end_in_string sd"
  shows "l < n \<Longrightarrow> good_upto l (json_parse_value n jd sd)"
proof (induction n arbitrary: l)
  case (Suc n)
  have "consumes s (json_parse_value (Suc n) jd sd s parent name) \<and> json_parse_value (Suc n) jd sd s parent name \<noteq> Not_This_Type"
    if "length s \<le> l" for s parent name
  proof -
    have g: "\<And>l. l < length s \<Longrightarrow> good_upto l (json_parse_value n jd sd)"
      using Suc that by simp
    note m = json_parse_map_consumes [OF g, of s jd] and l = json_parse_list_consumes [OF g, of s jd]
    show ?thesis
      using m l json_parse_scalar_consumes [OF assms, of s jd parent name] json_parse_scalar_type [of jd sd s parent name]
      by (auto simp: consumes_def add_result_def split: parsed.splits option.splits)
  qed
  then show ?case by (simp add: good_upto_def)
qed simp

lemma json_deserialize_fuel:
  assumes "end_in_string sd"
  shows "json_deserialize jd sd src \<noteq> Inl (Some (Out_Of_Fuel, off))"
proof -
  have g: "\<And>l. l < length src \<Longrightarrow> good_upto l (json_parse_value (length src) jd sd)"
    by (rule json_parse_value_good [OF assms])
  show ?thesis
    using json_parse_map_consumes [OF g, of src jd] json_parse_list_consumes [OF g, of src jd]
    by (auto simp: json_deserialize_def Let_def consumes_def split: parsed.splits)
qed

section \<open>Strings\<close>

lemma json_string_write_len:
  "json_string_write s = Some (out, rest) \<Longrightarrow> json_string_len s l = Inr (l + length out) \<and> nul_free out"
proof (induction s arbitrary: out l rule: json_string_write.induct)
  case (1 s)
  obtain v s' where v: "json_str_read_char s = (v, s')" by force
  show ?case
  proof (cases "deref s = 0x22")
    case True
    with "1.prems" show ?thesis
      using json_string_write.simps [of s] json_string_len.simps [of s l] by auto
  next
    case False
    then obtain out' where w: "0 < v" "json_string_write s' = Some (out', rest)" "out = utf8_put v @ out'"
      using "1.prems" v by (auto simp: json_string_write.simps [of s] split: if_splits)
    then have "json_string_len s' (l + length (utf8_put v)) = Inr (l + length (utf8_put v) + length out') \<and> nul_free out'"
      using "1.IH" [OF False v [symmetric] refl] by simp
    with False v w show ?thesis
      by (simp add: json_string_len.simps [of s l] utf8_put_nul_free)
  qed
qed

section \<open>Properties\<close>


definition count_objects :: "nat json_deserializer" where
  "count_objects = \<lparr>jd_create_map = 1, jd_create_list = 1, jd_add_obj = (\<lambda>p n c. Some (p + c)),
     jd_add_string = (\<lambda>p n v. Some p), jd_add_long = (\<lambda>p n v. Some p), jd_add_double = (\<lambda>p n v. Some p),
     jd_add_bool = (\<lambda>p n v. Some p), jd_add_null = (\<lambda>p n. Some p)\<rparr>"




text \<open>
  Escapes of the form \<^verbatim>\<open>\uXXXX\<close> are read right with small hexadecimal digits and wrong with
  capital ones: the code subtracts the letter F where it should subtract A. An escaped NUL character
  fails an assertion.
\<close>

theorem json_capital_escape_wrong:
  "json_parse_string ([0x22, 0x5c] @ cstr ''u00e9'' @ [0x22]) = Parsed (utf8_put 0xe9) [] \<and>
   json_parse_string ([0x22, 0x5c] @ cstr ''u00E9'' @ [0x22]) = Parsed (utf8_put 0x99) [] \<and>
   json_parse_string ([0x22, 0x5c] @ cstr ''u0000'' @ [0x22]) = Failed Assertion_Failed ([0x5c] @ cstr ''u0000'' @ [0x22])"
  by code_simp

end
