(* ===== verification/Htsmsg_Json.thy ===== *)
theory Htsmsg_Json
  imports Json Htsmsg Htsbuf
begin

text \<open>
  Messages as JSON, \<^verbatim>\<open>src/src/htsmsg/htsmsg_json.c\<close>: the writer on a byte queue and the functions that
  build messages for the reader. \<open>my_double2str\<close>, which formats floating point numbers, is an argument.
\<close>

section \<open>Writer\<close>

definition indentor :: bytes where
  "indentor = 10 # replicate 16 9"

definition append_indent :: "bool \<Rightarrow> nat \<Rightarrow> htsbuf_queue \<Rightarrow> htsbuf_queue" where
  "append_indent pretty indent hq =
     (if pretty then htsbuf_append hq (take (if indent < 16 then indent else 16) indentor) else hq)"

text \<open>\<open>None\<close> is a map or list without its child message. \<open>indent\<close> is at least 2, so that the decrement
  at the end stays positive.\<close>

fun htsmsg_json_write ::
    "(u64 \<Rightarrow> bytes) \<Rightarrow> htsmsg \<Rightarrow> htsbuf_queue \<Rightarrow> bool \<Rightarrow> nat \<Rightarrow> bool \<Rightarrow> htsbuf_queue option"
and json_write_fields ::
    "(u64 \<Rightarrow> bytes) \<Rightarrow> htsmsg_field list \<Rightarrow> htsbuf_queue \<Rightarrow> bool \<Rightarrow> nat \<Rightarrow> bool \<Rightarrow> htsbuf_queue option"
and json_write_value ::
    "(u64 \<Rightarrow> bytes) \<Rightarrow> htsmsg_field \<Rightarrow> htsbuf_queue \<Rightarrow> nat \<Rightarrow> bool \<Rightarrow> htsbuf_queue option" where
  "htsmsg_json_write d2s (Htsmsg islist fs) hq isarray indent pretty =
     map_option
       (\<lambda>hq1. htsbuf_append (append_indent pretty (indent - 1) hq1) (cstr (if isarray then '']'' else ''}'')))
       (json_write_fields d2s fs (htsbuf_append hq (cstr (if isarray then ''['' else ''{''))) isarray indent pretty)"
| "json_write_fields d2s [] hq isarray indent pretty = Some hq"
| "json_write_fields d2s (f # fs) hq isarray indent pretty =
     (let hq1 = append_indent pretty indent hq;
          hq2 = (if isarray then hq1
                 else htsbuf_append
                        (htsbuf_append_and_escape_jsonstr hq1
                           (case hmf_name f of None \<Rightarrow> cstr ''noname'' | Some n \<Rightarrow> n))
                        (cstr '': ''))
      in case json_write_value d2s f hq2 indent pretty of
           None \<Rightarrow> None
         | Some hq3 \<Rightarrow>
             json_write_fields d2s fs (if fs \<noteq> [] then htsbuf_append hq3 (cstr '','') else hq3) isarray indent pretty)"
| "json_write_value d2s (Field name u flags childs ns) hq indent pretty =
     (case u of
        HMF_STR str \<Rightarrow> Some (htsbuf_append_and_escape_jsonstr hq str)
      | HMF_BIN _ \<Rightarrow> Some (htsbuf_append_and_escape_jsonstr hq (cstr ''binary''))
      | HMF_S64 s64 \<Rightarrow> Some (htsbuf_append hq (dec_int (sint s64)))
      | HMF_DBL dbl \<Rightarrow> Some (htsbuf_append hq (d2s dbl))
      | HMF_MAP \<Rightarrow>
          (case childs of None \<Rightarrow> None | Some c \<Rightarrow> htsmsg_json_write d2s c hq False (indent + 1) pretty)
      | HMF_LIST \<Rightarrow>
          (case childs of None \<Rightarrow> None | Some c \<Rightarrow> htsmsg_json_write d2s c hq True (indent + 1) pretty))"

definition htsmsg_json_serialize :: "(u64 \<Rightarrow> bytes) \<Rightarrow> htsmsg \<Rightarrow> htsbuf_queue \<Rightarrow> bool \<Rightarrow> htsbuf_queue option" where
  "htsmsg_json_serialize d2s msg hq pretty =
     map_option (\<lambda>hq1. if pretty then htsbuf_append hq1 [10] else hq1)
       (htsmsg_json_write d2s msg hq (hm_islist msg) 2 pretty)"

definition htsmsg_json_serialize_to_str :: "(u64 \<Rightarrow> bytes) \<Rightarrow> htsmsg \<Rightarrow> bool \<Rightarrow> bytes option" where
  "htsmsg_json_serialize_to_str d2s msg pretty =
     map_option (\<lambda>hq. fst (htsbuf_to_string hq))
       (htsmsg_json_serialize d2s msg (htsbuf_queue_init 0) pretty)"

text \<open>The outer \<open>None\<close> is a missing child message, the inner one the result \<^verbatim>\<open>NULL\<close>.\<close>

definition htsmsg_json_serialize_to_rstr ::
  "(u64 \<Rightarrow> bytes) \<Rightarrow> htsmsg option \<Rightarrow> bytes option \<Rightarrow> bytes option option" where
  "htsmsg_json_serialize_to_rstr d2s msg prefix =
     (case msg of
        None \<Rightarrow> Some None
      | Some m \<Rightarrow>
          (if hm_fields m = [] then Some None
           else map_option (\<lambda>hq. Some (fst (htsbuf_to_rstr hq prefix)))
                  (htsmsg_json_serialize d2s m (htsbuf_queue_init 0) False)))"

section \<open>Reader\<close>

definition json_to_htsmsg :: "htsmsg json_deserializer" where
  "json_to_htsmsg =
     \<lparr>jd_create_map = htsmsg_create_map,
      jd_create_list = htsmsg_create_list,
      jd_add_obj = htsmsg_add_msg,
      jd_add_string = htsmsg_add_str,
      jd_add_long = htsmsg_add_s64,
      jd_add_double = htsmsg_add_dbl,
      jd_add_bool = (\<lambda>parent name v. htsmsg_add_u32 parent name (if v then 1 else 0)),
      jd_add_null = (\<lambda>parent name. Some parent)\<rparr>"

definition htsmsg_json_deserialize :: "str2double \<Rightarrow> bytes \<Rightarrow> htsmsg option" where
  "htsmsg_json_deserialize sd src =
     (case json_deserialize json_to_htsmsg sd src of Inl _ \<Rightarrow> None | Inr m \<Rightarrow> Some m)"

definition htsmsg_json_deserialize2 :: "str2double \<Rightarrow> bytes \<Rightarrow> (json_err \<times> nat) option + htsmsg" where
  "htsmsg_json_deserialize2 sd src = json_deserialize json_to_htsmsg sd src"

section \<open>The text a message is written as\<close>

text \<open>Messages with a faithful JSON form: strings and names are well formed UTF-8, numbers are not the
  limits of 64 bits, which the reader takes for an overflow, and there is no binary data and no
  \<^verbatim>\<open>double\<close>.\<close>

definition utf8_ok :: "bytes \<Rightarrow> bool" where
  "utf8_ok s \<longleftrightarrow> s = concat (map utf8_put (utf8_codes s)) \<and> list_all encodable (utf8_codes s)"

fun json_ok :: "htsmsg \<Rightarrow> bool" and json_field_ok :: "bool \<Rightarrow> htsmsg_field \<Rightarrow> bool" where
  "json_ok (Htsmsg islist fs) = list_all (\<lambda>f. json_field_ok islist f) fs"
| "json_field_ok islist (Field name u flags childs ns) =
     ((case name of None \<Rightarrow> islist | Some n \<Rightarrow> \<not> islist \<and> utf8_ok n) \<and>
      (case u of
         HMF_MAP \<Rightarrow> (case childs of None \<Rightarrow> False | Some c \<Rightarrow> \<not> hm_islist c \<and> json_ok c)
       | HMF_LIST \<Rightarrow> (case childs of None \<Rightarrow> False | Some c \<Rightarrow> hm_islist c \<and> json_ok c)
       | HMF_STR str \<Rightarrow> utf8_ok str
       | HMF_S64 v \<Rightarrow> sint v \<noteq> - (2 ^ 63) \<and> sint v \<noteq> 2 ^ 63 - 1
       | _ \<Rightarrow> False))"

definition quoted :: "bytes \<Rightarrow> bytes" where
  "quoted s = [0x22] @ escape_all json_escape s @ [0x22]"

definition indent_text :: "bool \<Rightarrow> nat \<Rightarrow> bytes" where
  "indent_text pretty indent = (if pretty then take (min indent 16) indentor else [])"

fun json_text :: "bool \<Rightarrow> nat \<Rightarrow> htsmsg \<Rightarrow> bytes"
and json_text_fields :: "bool \<Rightarrow> nat \<Rightarrow> bool \<Rightarrow> htsmsg_field list \<Rightarrow> bytes"
and json_text_value :: "bool \<Rightarrow> nat \<Rightarrow> htsmsg_field \<Rightarrow> bytes" where
  "json_text pretty indent (Htsmsg islist fs) =
     cstr (if islist then ''['' else ''{'') @ (if fs = [] then [] else indent_text pretty indent) @
     json_text_fields pretty indent islist fs @ indent_text pretty (indent - 1) @
     cstr (if islist then '']'' else ''}'')"
| "json_text_fields pretty indent islist [] = []"
| "json_text_fields pretty indent islist (f # fs) =
     (if islist then [] else quoted (case hmf_name f of None \<Rightarrow> cstr ''noname'' | Some n \<Rightarrow> n) @ cstr '': '') @
     json_text_value pretty indent f @
     (if fs = [] then [] else cstr '','' @ indent_text pretty indent @ json_text_fields pretty indent islist fs)"
| "json_text_value pretty indent (Field name u flags childs ns) =
     (case u of
        HMF_STR str \<Rightarrow> quoted str
      | HMF_S64 s64 \<Rightarrow> dec_int (sint s64)
      | HMF_MAP \<Rightarrow> (case childs of None \<Rightarrow> [] | Some c \<Rightarrow> json_text pretty (indent + 1) c)
      | HMF_LIST \<Rightarrow> (case childs of None \<Rightarrow> [] | Some c \<Rightarrow> json_text pretty (indent + 1) c)
      | _ \<Rightarrow> [])"

lemma utf8_ok_nul_free: "utf8_ok s \<Longrightarrow> nul_free s"
proof -
  assume s: "utf8_ok s"
  have "nul_free (concat (map utf8_put (utf8_codes s)))"
    using utf8_codes_range [of _ s] by (fastforce intro!: utf8_put_nul_free)
  with s show ?thesis by (simp add: utf8_ok_def)
qed

text \<open>A writer that may fail for a message without a child.\<close>

definition writes_opt :: "(htsbuf_queue \<Rightarrow> htsbuf_queue option) \<Rightarrow> bytes \<Rightarrow> bool" where
  "writes_opt w b \<longleftrightarrow> (\<forall>hq. htsbuf_inv hq \<longrightarrow>
     (\<exists>hq'. w hq = Some hq' \<and> htsbuf_inv hq' \<and> htsbuf_content hq' = htsbuf_content hq @ b))"

lemma append_indent_writes: "hq.writes (append_indent pretty indent) (indent_text pretty indent)"
  by (auto simp: hq.writes_def append_indent_def indent_text_def htsbuf_append_correct min_def)

lemma jsonstr_quoted: "nul_free s \<Longrightarrow> hq.writes (\<lambda>hq. htsbuf_append_and_escape_jsonstr hq s) (quoted s)"
  using jsonstr_writes [of s] by (simp add: quoted_def)

lemma writes_opt_fields:
  assumes "\<And>f. f \<in> set fs \<Longrightarrow> writes_opt (\<lambda>hq. json_write_value d2s f hq indent pretty) (json_text_value pretty indent f)"
    and "\<And>f. f \<in> set fs \<Longrightarrow> isarray \<or> nul_free (case hmf_name f of None \<Rightarrow> cstr ''noname'' | Some n \<Rightarrow> n)"
  shows "writes_opt (\<lambda>hq. json_write_fields d2s fs hq isarray indent pretty)
    ((if fs = [] then [] else indent_text pretty indent) @ json_text_fields pretty indent isarray fs)"
  using assms
proof (induction fs)
  case (Cons f fs)
  let ?name = "case hmf_name f of None \<Rightarrow> cstr ''noname'' | Some n \<Rightarrow> n"
  have rest: "writes_opt (\<lambda>hq. json_write_fields d2s fs hq isarray indent pretty)
    ((if fs = [] then [] else indent_text pretty indent) @ json_text_fields pretty indent isarray fs)"
    using Cons.prems by (intro Cons.IH) auto
  show ?case
    unfolding writes_opt_def
  proof (intro allI impI)
    fix hq
    assume inv: "htsbuf_inv hq"
    define hq1 where "hq1 = append_indent pretty indent hq"
    have 1: "htsbuf_inv hq1" "htsbuf_content hq1 = htsbuf_content hq @ indent_text pretty indent"
      using append_indent_writes [of pretty indent] inv by (simp_all add: hq1_def hq.writes_def)
    define hq2 where "hq2 = (if isarray then hq1 else htsbuf_append (htsbuf_append_and_escape_jsonstr hq1 ?name) (cstr '': ''))"
    have 2: "htsbuf_inv hq2" "htsbuf_content hq2 = htsbuf_content hq1 @ (if isarray then [] else quoted ?name @ cstr '': '')"
      using jsonstr_quoted [of ?name] Cons.prems(2) [of f] 1(1)
      by (auto simp: hq2_def hq.writes_def htsbuf_append_correct)
    obtain hq3 where 3: "json_write_value d2s f hq2 indent pretty = Some hq3" "htsbuf_inv hq3"
      "htsbuf_content hq3 = htsbuf_content hq2 @ json_text_value pretty indent f"
      using Cons.prems(1) [of f] 2(1) by (auto simp: writes_opt_def)
    define hq4 where "hq4 = (if fs \<noteq> [] then htsbuf_append hq3 (cstr '','') else hq3)"
    have 4: "htsbuf_inv hq4" "htsbuf_content hq4 = htsbuf_content hq3 @ (if fs = [] then [] else cstr '','')"
      using 3(2) by (auto simp: hq4_def htsbuf_append_correct)
    obtain hq5 where "json_write_fields d2s fs hq4 isarray indent pretty = Some hq5" "htsbuf_inv hq5"
      "htsbuf_content hq5 = htsbuf_content hq4 @ (if fs = [] then [] else indent_text pretty indent) @ json_text_fields pretty indent isarray fs"
      using rest 4(1) by (auto simp: writes_opt_def)
    then show "\<exists>hq'. json_write_fields d2s (f # fs) hq isarray indent pretty = Some hq' \<and> htsbuf_inv hq' \<and>
        htsbuf_content hq' = htsbuf_content hq @ (if f # fs = [] then [] else indent_text pretty indent) @
          json_text_fields pretty indent isarray (f # fs)"
      using 1 2 3 4 by (simp flip: hq1_def hq2_def hq4_def)
  qed
qed (simp add: writes_opt_def)

lemma json_write_text:
  "json_ok m \<Longrightarrow> writes_opt (\<lambda>hq. htsmsg_json_write d2s m hq (hm_islist m) indent pretty) (json_text pretty indent m)"
  "json_field_ok l f \<Longrightarrow> writes_opt (\<lambda>hq. json_write_value d2s f hq indent pretty) (json_text_value pretty indent f)"
proof (induction m and l f arbitrary: indent and indent rule: json_ok_json_field_ok.induct)
  case (1 islist fs)
  have "isarray \<or> nul_free (case hmf_name f of None \<Rightarrow> cstr ''noname'' | Some n \<Rightarrow> n)"
    if "json_field_ok isarray f" for f isarray
    using that by (cases f) (auto split: option.splits intro: utf8_ok_nul_free)
  then have fields: "writes_opt (\<lambda>hq. json_write_fields d2s fs hq islist indent pretty)
      ((if fs = [] then [] else indent_text pretty indent) @ json_text_fields pretty indent islist fs)"
    using 1 by (intro writes_opt_fields) (auto simp: list_all_iff)
  show ?case
    unfolding writes_opt_def
  proof (intro allI impI)
    fix hq
    assume "htsbuf_inv hq"
    then have inv: "htsbuf_inv (htsbuf_append hq (cstr (if islist then ''['' else ''{'')))"
      by (rule htsbuf_append_correct)
    obtain hq1 where 1: "json_write_fields d2s fs (htsbuf_append hq (cstr (if islist then ''['' else ''{''))) islist indent pretty = Some hq1"
      "htsbuf_inv hq1" "htsbuf_content hq1 = htsbuf_content (htsbuf_append hq (cstr (if islist then ''['' else ''{''))) @
        (if fs = [] then [] else indent_text pretty indent) @ json_text_fields pretty indent islist fs"
      using fields inv unfolding writes_opt_def by blast
    then show "\<exists>hq'. htsmsg_json_write d2s (Htsmsg islist fs) hq (hm_islist (Htsmsg islist fs)) indent pretty = Some hq' \<and>
        htsbuf_inv hq' \<and> htsbuf_content hq' = htsbuf_content hq @ json_text pretty indent (Htsmsg islist fs)"
      using append_indent_writes [of pretty "indent - 1"] \<open>htsbuf_inv hq\<close>
      by (simp add: hq.writes_def htsbuf_append_correct)
  qed
next
  case (2 l name u flags childs ns)
  show ?case
  proof (cases u)
    case (HMF_STR str)
    then show ?thesis
      using "2.prems" jsonstr_quoted [of str] by (auto simp: writes_opt_def hq.writes_def dest: utf8_ok_nul_free)
  next
    case HMF_MAP
    then obtain c where c: "childs = Some c" "hm_islist c = False" "json_ok c"
      using "2.prems" by (auto split: option.splits)
    then have "writes_opt (\<lambda>hq. htsmsg_json_write d2s c hq (hm_islist c) (indent + 1) pretty) (json_text pretty (indent + 1) c)"
      using "2.IH" HMF_MAP by blast
    with c HMF_MAP show ?thesis by simp
  next
    case HMF_LIST
    then obtain c where c: "childs = Some c" "hm_islist c = True" "json_ok c"
      using "2.prems" by (auto split: option.splits)
    then have "writes_opt (\<lambda>hq. htsmsg_json_write d2s c hq (hm_islist c) (indent + 1) pretty) (json_text pretty (indent + 1) c)"
      using "2.IH" HMF_LIST by blast
    with c HMF_LIST show ?thesis by simp
  qed (use "2.prems" in \<open>auto simp: writes_opt_def htsbuf_append_correct\<close>)
qed

section \<open>Reading strings and numbers back\<close>

lemma utf8_put_high: "0x80 \<le> c \<Longrightarrow> b \<in> set (utf8_put c) \<Longrightarrow> 0x80 \<le> uint b"
  by (auto simp: utf8_put_def lead_uint split: if_splits)

lemma json_escape_high: "0x80 \<le> uint b \<Longrightarrow> json_escape b = None"
  by (auto simp: json_escape_def)

lemma escape_all_append [simp]: "escape_all esc (s @ t) = escape_all esc s @ escape_all esc t"
  by (simp add: escape_all_def)

lemma escape_all_none: "(\<And>b. b \<in> set s \<Longrightarrow> esc b = None) \<Longrightarrow> escape_all esc s = s"
  by (induction s) auto

lemma escape_all_concat: "escape_all esc (concat ss) = concat (map (escape_all esc) ss)"
  by (induction ss) simp_all

text \<open>One escaped character is read back as one character.\<close>

lemma read_char_escaped:
  assumes "encodable c" "0 < c"
  shows "json_str_read_char (escape_all json_escape (utf8_put c) @ t) = (c, t) \<and>
    deref (escape_all json_escape (utf8_put c) @ t) \<noteq> 0x22"
proof (cases "c < 0x80")
  case False
  have esc: "escape_all json_escape (utf8_put c) = utf8_put c"
    using False utf8_put_high [of c] by (intro escape_all_none json_escape_high) auto
  have ne: "utf8_put c \<noteq> []"
    using assms(1) by (auto simp: utf8_put_def encodable_def)
  then have "0x80 \<le> uint (deref (utf8_put c))"
    using False utf8_put_high [of c "deref (utf8_put c)"] by (cases "utf8_put c") auto
  then have "deref (utf8_put c) \<noteq> 0" "deref (utf8_put c) \<noteq> 0x5c" "deref (utf8_put c) \<noteq> 0x22"
    by auto
  then show ?thesis
    using ne utf8_get_put [OF assms(1), of t] by (simp add: esc json_str_read_char_def)
next
  case True
  define b where "b = (word_of_int c :: u8)"
  have b: "uint b = c" "utf8_put c = [b]"
    using assms True uint_u8_of_int [of c] by (simp_all add: b_def utf8_put_def)
  then have "b \<noteq> 0" using assms(2) by auto
  note b = b this
  have "json_escape b = None \<or> b = 0x22 \<or> b = 0x5c \<or> b = 10 \<or> b = 13 \<or> b = 9"
    by (simp add: json_escape_def)
  then consider "b = 0x22" | "b = 0x5c" | "b = 10" | "b = 13" | "b = 9" | "json_escape b = None"
    by metis
  then show ?thesis
  proof cases
    case 6
    then have "b \<noteq> 0x5c" "b \<noteq> 0x22" by (auto simp: json_escape_def)
    then show ?thesis
      using 6 b utf8_get_put [OF assms(1), of t] by (simp add: json_str_read_char_def)
  qed (use b in \<open>auto simp: json_str_read_char_def json_escape_def\<close>)
qed

lemma string_write_escaped:
  "list_all encodable cs \<Longrightarrow> \<forall>c\<in>set cs. 0 < c \<Longrightarrow>
     json_string_write (escape_all json_escape (concat (map utf8_put cs)) @ 0x22 # t) =
       Some (concat (map utf8_put cs), t)"
proof (induction cs)
  case Nil
  then show ?case by (simp add: json_string_write.simps)
next
  case (Cons c cs)
  let ?rest = "escape_all json_escape (concat (map utf8_put cs)) @ 0x22 # t"
  have "json_str_read_char (escape_all json_escape (utf8_put c) @ ?rest) = (c, ?rest)"
    "deref (escape_all json_escape (utf8_put c) @ ?rest) \<noteq> 0x22"
    using Cons.prems read_char_escaped [of c ?rest] by auto
  with Cons show ?case
    by (subst json_string_write.simps) simp
qed

definition is_ws :: "bytes \<Rightarrow> bool" where
  "is_ws w \<longleftrightarrow> list_all (\<lambda>c. 0 < c \<and> c < 33) w"

lemma skip_ws_append: "is_ws w \<Longrightarrow> skip_ws (w @ s) = skip_ws s"
  by (induction w) (auto simp: is_ws_def skip_ws_def)

lemma skip_ws_black: "\<not> (0 < deref s \<and> deref s < 33) \<Longrightarrow> skip_ws s = s"
  by (cases s) (auto simp: skip_ws_def)

lemma parse_string_quoted:
  assumes "utf8_ok s" "is_ws w"
  shows "json_parse_string (w @ quoted s @ t) = Parsed s t"
proof -
  let ?cs = "utf8_codes s"
  have s: "s = concat (map utf8_put ?cs)" "list_all encodable ?cs" "\<forall>c\<in>set ?cs. 0 < c"
    using assms(1) utf8_codes_range [of _ s] by (auto simp: utf8_ok_def)
  have w: "json_string_write (escape_all json_escape s @ 0x22 # t) = Some (s, t)"
    using string_write_escaped [OF s(2,3), of t] s(1) by simp
  have "skip_ws (w @ quoted s @ t) = 0x22 # escape_all json_escape s @ 0x22 # t"
    using assms(2) by (simp add: skip_ws_append skip_ws_black quoted_def)
  then show ?thesis
    using w json_string_write_len [OF w, of 0] by (simp add: json_parse_string_def)
qed

text \<open>What may follow a value in a map or list.\<close>

definition value_end :: "bytes \<Rightarrow> bool" where
  "value_end t \<longleftrightarrow> deref t \<in> {0x2c, 0x5d, 0x7d, 10, 9}"

lemma value_end_facts:
  assumes "value_end t"
  shows "\<not> is_digit (deref t)" "deref t \<noteq> 0" "deref t \<noteq> chr CHR ''.''" "deref t \<noteq> chr CHR ''e''"
    "deref t \<noteq> chr CHR ''E''" "digit_value (deref t) = 99" "t \<noteq> []"
  using assms by (auto simp: value_end_def is_digit_def digit_value_def word_le_nat_alt)

lemma strtol_digits_stop:
  assumes "list_all is_digit ds" "value_end t"
  shows "strtol_digits 10 acc (ds @ t) = (digits_value acc ds, t)"
  using assms(1)
proof (induction ds arbitrary: acc)
  case Nil
  then show ?case
    using value_end_facts(6,7) [OF assms(2)] by (cases t) auto
next
  case (Cons d ds)
  then show ?case by (auto simp: digit_value_def is_digit_def word_le_nat_alt)
qed

lemma dec_int_form:
  "dec_int v = (if v < 0 then [chr CHR ''-''] else []) @ dec_nat (nat \<bar>v\<bar>)"
  by (simp add: dec_int_def)

lemma strtol_dec_int_stop:
  assumes "- (2 ^ 63) \<le> v" "v < 2 ^ 63" "value_end t"
  shows "strtol 10 (dec_int v @ t) = (v, t)"
proof -
  define n where "n = nat \<bar>v\<bar>"
  have dig: "is_digit (deref (dec_nat n @ t))"
    using dec_nat_prefix(1) [of n] by simp
  then have ns: "deref (dec_nat n @ t) \<noteq> chr CHR ''-''" "deref (dec_nat n @ t) \<noteq> chr CHR ''+''"
    "\<not> is_space (deref (dec_nat n @ t))"
    by (auto simp del: deref_append simp: is_digit_def is_space_def word_le_nat_alt word_unat_eq_iff)
  then have "dropWhile is_space (dec_nat n @ t) = dec_nat n @ t"
    by (cases "dec_nat n @ t") auto
  moreover have "strtol_digits 10 0 (dec_nat n @ t) = (n, t)"
    using strtol_digits_stop [OF dec_nat_digits assms(3), of 0 n] by (simp add: digits_value_dec_nat)
  moreover have "strtol_prefix 10 u = u" for u
    by (simp add: strtol_prefix_def)
  moreover have "\<not> is_space (chr CHR ''-'')" "t \<noteq> dec_nat n @ t"
    by (simp_all add: is_space_def)
  ultimately show ?thesis
    using assms(1,2) ns
    by (cases "v < 0") (auto simp del: deref_append simp: strtol_def dec_int_form Let_def simp flip: n_def, auto simp: n_def)
qed

lemma parse_integer_dec:
  assumes "is_ws w" "- (2 ^ 63) < v" "v < 2 ^ 63 - 1" "value_end t"
  shows "json_parse_integer (w @ dec_int v @ t) = Some (word_of_int v, t)"
proof -
  have dig: "is_digit (deref (dec_nat n))" for n
    by (rule dec_nat_prefix)
  have "\<not> (0 < c \<and> c < 33)" if "is_digit c" for c
    using that by (simp add: is_digit_unat word_less_nat_alt)
  with dig have black: "\<not> (0 < deref (dec_int v) \<and> deref (dec_int v) < 33)"
    by (cases "v < 0") (auto simp: dec_int_form)
  have ne: "dec_int v \<noteq> []" by (simp add: dec_int_form)
  have s1: "skip_ws (w @ dec_int v @ t) = dec_int v @ t"
    using assms(1) black ne by (simp add: skip_ws_append skip_ws_black)
  have "deref (dec_nat n) \<noteq> chr CHR ''-''" for n
    using dig [of n] by (auto simp: is_digit_def word_le_nat_alt)
  moreover have "dropWhile is_digit (dec_nat n @ t) = t" for n
    using dec_nat_digits [of n] value_end_facts(1,7) [OF assms(4)]
    by (subst dropWhile_append2) (auto simp: list_all_iff dropWhile_eq_self_iff hd_conv_nth deref_def split: list.splits)
  ultimately have "dropWhile is_digit (if deref (dec_int v @ t) = chr CHR ''-'' then tl (dec_int v @ t) else dec_int v @ t) = t"
    by (simp add: dec_int_form)
  moreover have "strtol 10 (dec_int v @ t) = (v, t)"
    using assms by (intro strtol_dec_int_stop) auto
  ultimately show ?thesis
    using assms(2,3) value_end_facts [OF assms(4)] ne
    by (simp add: json_parse_integer_def s1 del: deref_append)
qed

section \<open>Reading messages back\<close>

lemma json_to_htsmsg_simps [simp]:
  "jd_create_map json_to_htsmsg = Htsmsg False []" "jd_create_list json_to_htsmsg = Htsmsg True []"
  "jd_add_obj json_to_htsmsg = htsmsg_add_msg" "jd_add_string json_to_htsmsg = htsmsg_add_str"
  "jd_add_long json_to_htsmsg = htsmsg_add_s64"
  by (simp_all add: json_to_htsmsg_def htsmsg_create_map_def htsmsg_create_list_def)

definition with_fields :: "htsmsg \<Rightarrow> htsmsg_field list \<Rightarrow> htsmsg" where
  "with_fields r fs = Htsmsg (hm_islist r) (hm_fields r @ map plain_field fs)"

lemma with_fields_simps [simp]:
  "hm_islist (with_fields r fs) = hm_islist r" "with_fields r [] = r"
  "with_fields (with_fields r [f]) fs = with_fields r (f # fs)"
  "with_fields (Htsmsg l []) fs = Htsmsg l (map plain_field fs)"
  by (cases r; simp add: with_fields_def)+

text \<open>A parser reads the text of a field, whatever blanks stand before it and whatever may follow, and
  adds the field to the parent.\<close>

definition reads_field :: "htsmsg value_parser \<Rightarrow> bool \<Rightarrow> bytes \<Rightarrow> htsmsg_field \<Rightarrow> bool" where
  "reads_field pv l txt f \<longleftrightarrow> (\<forall>w t parent. is_ws w \<longrightarrow> value_end t \<longrightarrow> hm_islist parent = l \<longrightarrow>
     pv (w @ txt @ t) parent (hmf_name f) = Parsed (with_fields parent [f]) t)"

lemma is_ws_indent: "is_ws (indent_text pretty indent)"
proof -
  have "list_all (\<lambda>c. 0 < c \<and> c < 33) indentor"
    by (auto simp: indentor_def list_all_iff)
  then show ?thesis
    by (auto simp: is_ws_def indent_text_def list_all_iff dest: in_set_takeD)
qed

lemma value_end_indent: "deref t = 0x5d \<or> deref t = 0x7d \<Longrightarrow> value_end (indent_text pretty indent @ t)"
  by (cases indent) (auto simp: value_end_def indent_text_def indentor_def)

lemma skip_ws_indent: "deref t = 0x5d \<or> deref t = 0x7d \<or> deref t = 0x2c \<Longrightarrow> is_ws w \<Longrightarrow> skip_ws (w @ t) = t"
  by (auto simp: skip_ws_append intro!: skip_ws_black)

lemma json_list_loop_reads:
  assumes "fs \<noteq> []" "length fs \<le> k" "is_ws w" "hm_islist r"
    and "\<And>f. f \<in> set fs \<Longrightarrow> reads_field pv True (json_text_value pretty indent f) f \<and> hmf_name f = None"
  shows "json_list_loop pv k (w @ json_text_fields pretty indent True fs @ indent_text pretty j @ 0x5d # t) r =
    Parsed (with_fields r fs) t"
  using assms
proof (induction fs arbitrary: k w r)
  case (Cons f fs)
  then obtain k' where k: "k = Suc k'" "length fs \<le> k'" by (cases k) auto
  define tail where "tail = (if fs = [] then [] else cstr '','' @ indent_text pretty indent @
      json_text_fields pretty indent True fs) @ indent_text pretty j @ 0x5d # t"
  have "value_end tail"
    using value_end_indent [of "0x5d # t" pretty j] by (auto simp: tail_def value_end_def)
  then have pv: "pv (w @ json_text_value pretty indent f @ tail) r None = Parsed (with_fields r [f]) tail"
    using Cons.prems(5) [of f] Cons.prems(3,4) by (auto simp: reads_field_def)
  show ?case
  proof (cases "fs = []")
    case True
    then have "skip_ws tail = 0x5d # t"
      by (simp add: tail_def skip_ws_indent is_ws_indent)
    with True pv show ?thesis by (simp add: k tail_def)
  next
    case False
    then have "skip_ws tail = tail" by (auto simp: tail_def intro!: skip_ws_black)
    moreover have "json_list_loop pv k' (indent_text pretty indent @ json_text_fields pretty indent True fs @
        indent_text pretty j @ 0x5d # t) (with_fields r [f]) = Parsed (with_fields (with_fields r [f]) fs) t"
      using Cons.prems False k(2) by (intro Cons.IH is_ws_indent) auto
    ultimately show ?thesis
      using False pv by (simp add: k tail_def)
  qed
qed simp

lemma json_map_loop_reads:
  assumes "fs \<noteq> []" "length fs \<le> k" "is_ws w" "\<not> hm_islist r"
    and "\<And>f. f \<in> set fs \<Longrightarrow> reads_field pv False (json_text_value pretty indent f) f \<and>
      (\<exists>n. hmf_name f = Some n \<and> utf8_ok n)"
  shows "json_map_loop pv k (w @ json_text_fields pretty indent False fs @ indent_text pretty j @ 0x7d # t) r =
    Parsed (with_fields r fs) t"
  using assms
proof (induction fs arbitrary: k w r)
  case (Cons f fs)
  then obtain k' where k: "k = Suc k'" "length fs \<le> k'" by (cases k) auto
  obtain n where n: "hmf_name f = Some n" "utf8_ok n" using Cons.prems(5) [of f] by auto
  define tail where "tail = (if fs = [] then [] else cstr '','' @ indent_text pretty indent @
      json_text_fields pretty indent False fs) @ indent_text pretty j @ 0x7d # t"
  have "value_end tail"
    using value_end_indent [of "0x7d # t" pretty j] by (auto simp: tail_def value_end_def)
  moreover have "is_ws [0x20]" by (simp add: is_ws_def)
  ultimately have "pv ([0x20] @ json_text_value pretty indent f @ tail) r (Some n) = Parsed (with_fields r [f]) tail"
    using Cons.prems(5) [of f] Cons.prems(4) n(1) unfolding reads_field_def by auto
  then have pv: "pv (0x20 # json_text_value pretty indent f @ tail) r (Some n) = Parsed (with_fields r [f]) tail"
    by simp
  have str: "json_parse_string (w @ quoted n @ 0x3a # 0x20 # json_text_value pretty indent f @ tail) =
      Parsed n (0x3a # 0x20 # json_text_value pretty indent f @ tail)"
    using n(2) Cons.prems(3) by (rule parse_string_quoted)
  have colon: "skip_ws (0x3a # u) = 0x3a # u" for u
    by (rule skip_ws_black) simp
  show ?case
  proof (cases "fs = []")
    case True
    then have "skip_ws tail = 0x7d # t"
      by (simp add: tail_def skip_ws_indent is_ws_indent)
    with True pv str n(1) show ?thesis by (simp add: k tail_def colon)
  next
    case False
    then have "skip_ws tail = tail" by (auto simp: tail_def intro!: skip_ws_black)
    moreover have "json_map_loop pv k' (indent_text pretty indent @ json_text_fields pretty indent False fs @
        indent_text pretty j @ 0x7d # t) (with_fields r [f]) = Parsed (with_fields (with_fields r [f]) fs) t"
      using Cons.prems False k(2) by (intro Cons.IH is_ws_indent) auto
    ultimately show ?thesis
      using False pv str n(1) by (simp add: k tail_def colon)
  qed
qed simp

lemma json_text_fields_length: "length fs \<le> Suc (length (json_text_fields pretty indent l fs))"
  by (induction fs) auto

lemma json_text_value_shorter:
  "f \<in> set fs \<Longrightarrow> length (json_text_value pretty indent f) \<le> length (json_text_fields pretty indent l fs)"
  by (induction fs) auto

lemma json_not_here:
  assumes "is_ws w" "deref s \<noteq> 0" "\<not> deref s < 33"
  shows "deref s \<noteq> chr CHR ''{'' \<Longrightarrow> json_parse_map jd pv (w @ s) = Not_This_Type"
    and "deref s \<noteq> chr CHR ''['' \<Longrightarrow> json_parse_list jd pv (w @ s) = Not_This_Type"
    and "deref s \<noteq> 0x22 \<Longrightarrow> json_parse_string (w @ s) = Not_This_Type"
proof -
  have "skip_ws (w @ s) = s"
    using assms by (simp add: skip_ws_append skip_ws_black)
  then show "deref s \<noteq> chr CHR ''{'' \<Longrightarrow> json_parse_map jd pv (w @ s) = Not_This_Type"
    "deref s \<noteq> chr CHR ''['' \<Longrightarrow> json_parse_list jd pv (w @ s) = Not_This_Type"
    "deref s \<noteq> 0x22 \<Longrightarrow> json_parse_string (w @ s) = Not_This_Type"
    by (simp_all add: json_parse_map_def json_parse_list_def json_parse_string_def)
qed

text \<open>A parser for values reads the fields of a message, so the parser for its kind reads the message.\<close>

definition reads_msg :: "htsmsg value_parser \<Rightarrow> bytes \<Rightarrow> htsmsg \<Rightarrow> bool" where
  "reads_msg pv txt m \<longleftrightarrow> (\<forall>w t. is_ws w \<longrightarrow>
     (if hm_islist m then json_parse_map json_to_htsmsg pv (w @ txt @ t) = Not_This_Type \<and>
                          json_parse_list json_to_htsmsg pv (w @ txt @ t) = Parsed (plain m) t
      else json_parse_map json_to_htsmsg pv (w @ txt @ t) = Parsed (plain m) t))"

lemma skip_ws_fields:
  assumes "fs \<noteq> []" "\<And>f. f \<in> set fs \<Longrightarrow> l \<Longrightarrow> 32 < deref (json_text_value pretty indent f)"
  shows "skip_ws (indent_text pretty indent @ json_text_fields pretty indent l fs @ t) =
    json_text_fields pretty indent l fs @ t"
proof -
  obtain f fs' where fs: "fs = f # fs'" using assms(1) by (cases fs) auto
  have "\<not> (0 < deref (json_text_fields pretty indent l fs @ t) \<and> deref (json_text_fields pretty indent l fs @ t) < 33)"
  proof (cases l)
    case True
    then have "32 < deref (json_text_value pretty indent f)" using assms(2) [of f] fs by simp
    moreover from this have "json_text_value pretty indent f \<noteq> []" by auto
    ultimately show ?thesis
      using True fs by (simp add: word_less_nat_alt)
  next
    case False
    then show ?thesis using fs by (simp add: quoted_def)
  qed
  then show ?thesis
    by (simp add: skip_ws_append is_ws_indent skip_ws_black)
qed

lemma json_reads_msg:
  assumes ok: "json_ok (Htsmsg l fs)"
    and reads: "\<And>f. f \<in> set fs \<Longrightarrow> reads_field pv l (json_text_value pretty indent f) f"
    and black: "\<And>f. f \<in> set fs \<Longrightarrow> 32 < deref (json_text_value pretty indent f) \<and> deref (json_text_value pretty indent f) \<noteq> 0x5d"
  shows "reads_msg pv (json_text pretty indent (Htsmsg l fs)) (Htsmsg l fs)"
  unfolding reads_msg_def
proof (intro allI impI)
  fix w t
  assume w: "is_ws w"
  let ?close = "if l then 0x5d else 0x7d :: u8"
  let ?open = "if l then 0x5b else 0x7b :: u8"
  define s2 where "s2 = json_text_fields pretty indent l fs @ indent_text pretty (indent - 1) @ ?close # t"
  have whole: "w @ json_text pretty indent (Htsmsg l fs) @ t =
      w @ ?open # (if fs = [] then [] else indent_text pretty indent) @ s2"
    by (simp add: s2_def)
  have s1: "skip_ws (w @ ?open # u) = ?open # u" for u
    using w by (auto simp: skip_ws_append intro!: skip_ws_black)
  show "if hm_islist (Htsmsg l fs)
    then json_parse_map json_to_htsmsg pv (w @ json_text pretty indent (Htsmsg l fs) @ t) = Not_This_Type \<and>
      json_parse_list json_to_htsmsg pv (w @ json_text pretty indent (Htsmsg l fs) @ t) = Parsed (plain (Htsmsg l fs)) t
    else json_parse_map json_to_htsmsg pv (w @ json_text pretty indent (Htsmsg l fs) @ t) = Parsed (plain (Htsmsg l fs)) t"
  proof (cases "fs = []")
    case True
    then have "skip_ws s2 = ?close # t"
      by (auto simp: s2_def intro: skip_ws_indent is_ws_indent)
    with True s1 show ?thesis
      unfolding whole by (cases l) (simp_all add: json_parse_map_def json_parse_list_def)
  next
    case False
    have s2: "skip_ws (indent_text pretty indent @ s2) = s2"
      unfolding s2_def using False black by (intro skip_ws_fields) auto
    have k: "length fs \<le> Suc (length s2)"
      using json_text_fields_length [of fs pretty indent l] by (simp add: s2_def)
    have names: "if l then hmf_name f = None else \<exists>n. hmf_name f = Some n \<and> utf8_ok n" if "f \<in> set fs" for f
      using ok that by (cases f) (auto simp: list_all_iff split: option.splits)
    obtain f fs' where fs: "fs = f # fs'" using False by (cases fs) auto
    show ?thesis
    proof (cases l)
      case True
      have "deref s2 \<noteq> 0x5d"
        using True black [of f] fs by (auto simp: s2_def)
      moreover have "json_list_loop pv (Suc (length s2)) ([] @ s2) (Htsmsg True []) = Parsed (with_fields (Htsmsg True []) fs) t"
        unfolding s2_def using True False k reads names
        by (simp only: if_True) (intro json_list_loop_reads, auto simp: s2_def is_ws_def)
      ultimately show ?thesis
        using True False s1 s2 unfolding whole by (simp add: json_parse_map_def json_parse_list_def)
    next
      case l: False
      have "deref s2 \<noteq> 0x7d"
        using l fs by (simp add: s2_def quoted_def)
      moreover have "json_map_loop pv (Suc (length s2)) ([] @ s2) (Htsmsg False []) = Parsed (with_fields (Htsmsg False []) fs) t"
        unfolding s2_def using l False k reads names
        by (simp only: if_False) (intro json_map_loop_reads, auto simp: s2_def is_ws_def)
      ultimately show ?thesis
        using l False s1 s2 unfolding whole by (simp add: json_parse_map_def)
    qed
  qed
qed

lemma json_text_black:
  assumes "json_field_ok l f"
  shows "32 < deref (json_text_value pretty indent f) \<and> deref (json_text_value pretty indent f) \<noteq> 0x5d"
proof -
  obtain name u flags childs ns where f: "f = Field name u flags childs ns" by (cases f)
  have msg: "deref (json_text pretty i m) \<in> {0x5b, 0x7b}" for i m
    by (cases m) auto
  have "32 < c \<and> c \<noteq> 0x5d" if "is_digit c" for c
    using that by (auto simp: is_digit_unat word_less_nat_alt)
  then have num: "32 < deref (dec_int v) \<and> deref (dec_int v) \<noteq> 0x5d" for v
    using dec_nat_prefix(1) by (cases "v < 0") (auto simp: dec_int_form)
  show ?thesis
  proof (cases u)
    case HMF_MAP
    then obtain c where "childs = Some c" using assms f by (auto split: option.splits)
    then show ?thesis using HMF_MAP f msg [of "Suc indent" c] by auto
  next
    case HMF_LIST
    then obtain c where "childs = Some c" using assms f by (auto split: option.splits)
    then show ?thesis using HMF_LIST f msg [of "Suc indent" c] by auto
  qed (use assms f num in \<open>auto simp: quoted_def\<close>)
qed

lemma add_with_fields:
  assumes "hm_islist parent = l" "json_field_ok l (Field name u flags childs ns)"
  shows "u = HMF_STR str \<Longrightarrow> htsmsg_add_str parent name str = Some (with_fields parent [Field name u flags childs ns])"
    and "u = HMF_S64 v \<Longrightarrow> htsmsg_add_s64 parent name v = Some (with_fields parent [Field name u flags childs ns])"
    and "u = HMF_MAP \<or> u = HMF_LIST \<Longrightarrow> childs = Some c \<Longrightarrow>
      htsmsg_add_msg parent name (plain c) = Some (with_fields parent [Field name u flags childs ns])"
proof -
  have "map_option c_str name = name" "name = None \<longleftrightarrow> l"
    using assms(2) by (auto split: option.splits dest: utf8_ok_nul_free)
  then show "u = HMF_STR str \<Longrightarrow> htsmsg_add_str parent name str = Some (with_fields parent [Field name u flags childs ns])"
    "u = HMF_S64 v \<Longrightarrow> htsmsg_add_s64 parent name v = Some (with_fields parent [Field name u flags childs ns])"
    "u = HMF_MAP \<or> u = HMF_LIST \<Longrightarrow> childs = Some c \<Longrightarrow>
      htsmsg_add_msg parent name (plain c) = Some (with_fields parent [Field name u flags childs ns])"
    using assms utf8_ok_nul_free [of str]
    by (auto simp: htsmsg_add_str_def htsmsg_add_s64_def htsmsg_add_msg_def htsmsg_field_add_def with_fields_def)
qed

lemma json_reads:
  "json_ok m \<Longrightarrow> length (json_text pretty indent m) \<le> n \<Longrightarrow>
     reads_msg (json_parse_value n json_to_htsmsg sd) (json_text pretty indent m) m"
  "json_field_ok l f \<Longrightarrow> length (json_text_value pretty indent f) < n \<Longrightarrow>
     reads_field (json_parse_value n json_to_htsmsg sd) l (json_text_value pretty indent f) f"
proof (induction m and l f arbitrary: n indent and n indent rule: json_ok_json_field_ok.induct)
  case (1 l fs)
  have "length (json_text_value pretty indent f) < n" if "f \<in> set fs" for f
    using json_text_value_shorter [OF that, of pretty indent l] "1.prems"(2) by (cases l) simp_all
  then show ?case
    using 1 by (intro json_reads_msg json_text_black [of l]) (auto simp: list_all_iff)
next
  case (2 l name u flags childs ns)
  let ?f = "Field name u flags childs ns"
  obtain n' where n: "n = Suc n'" "length (json_text_value pretty indent ?f) \<le> n'"
    using "2.prems"(2) by (cases n) auto
  show ?case
    unfolding reads_field_def
  proof (intro allI impI)
    fix w t parent
    assume w: "is_ws w" and t: "value_end t" and l: "hm_islist parent = l"
    note add = add_with_fields [OF l "2.prems"(1)]
    have black: "deref (json_text_value pretty indent ?f @ t) \<noteq> 0" "\<not> deref (json_text_value pretty indent ?f @ t) < 33"
      using json_text_black [OF "2.prems"(1), of pretty indent]
      by (auto simp: word_less_nat_alt)
    note no = json_not_here [OF w black]
    show "json_parse_value n json_to_htsmsg sd (w @ json_text_value pretty indent ?f @ t) parent (hmf_name ?f) =
        Parsed (with_fields parent [?f]) t"
    proof (cases "u = HMF_MAP \<or> u = HMF_LIST")
      case True
      then obtain c where c: "childs = Some c" "hm_islist c \<longleftrightarrow> u = HMF_LIST" "json_ok c"
        using "2.prems"(1) by (auto split: option.splits)
      then have "reads_msg (json_parse_value n' json_to_htsmsg sd) (json_text pretty (indent + 1) c) c"
        using "2.IH" True n(2) by auto
      with True c w add(3) show ?thesis
        unfolding n(1) by (auto simp: reads_msg_def add_result_def)
    next
      case False
      then consider str where "u = HMF_STR str" "utf8_ok str"
        | v where "u = HMF_S64 v" "sint v \<noteq> - (2 ^ 63)" "sint v \<noteq> 2 ^ 63 - 1"
        using "2.prems"(1) by (cases u) auto
      then show ?thesis
      proof cases
        case (1 str)
        then have "json_parse_string (w @ json_text_value pretty indent ?f @ t) = Parsed str t"
          using parse_string_quoted [OF _ w] by simp
        moreover have "deref (json_text_value pretty indent ?f @ t) = 0x22"
          using 1 by (simp add: quoted_def)
        ultimately show ?thesis
          using no(1) [of json_to_htsmsg] no(2) [of json_to_htsmsg] add(1) [OF 1(1)] unfolding n(1)
          by (simp add: json_parse_scalar_def add_result_def del: json_text_value.simps deref_append)
      next
        case (2 v)
        have "deref (json_text_value pretty indent ?f @ t) \<notin> {0x22, 0x5b, 0x7b}"
          using dec_nat_prefix(1) [of "nat \<bar>sint v\<bar>"] 2(1)
          by (cases "sint v < 0") (auto simp: dec_int_form is_digit_unat)
        moreover have "json_parse_integer (w @ json_text_value pretty indent ?f @ t) = Some (v, t)"
          using parse_integer_dec [OF w _ _ t, of "sint v"] sint_u64_bounds [of v] 2 by simp
        ultimately show ?thesis
          using no(1) [of json_to_htsmsg] no(2) [of json_to_htsmsg] no(3) add(2) [OF 2(1)] unfolding n(1)
          by (simp add: json_parse_scalar_def add_result_def del: json_text_value.simps deref_append)
      qed
    qed
  qed
qed

section \<open>Properties\<close>

text \<open>
  Property C2. A message whose strings are well formed UTF-8, without binary data, floating point numbers
  and the two extreme integers, is written as JSON, indented or not, into a byte queue, and reading the
  string gives the message back, with the flags and the memory of a copy.
\<close>

theorem htsmsg_json_roundtrip:
  assumes "json_ok m" and "length (json_text pretty 2 m) + 1 < 2 ^ 32"
  shows "\<exists>str. htsmsg_json_serialize_to_str d2s m pretty = Some str \<and>
    htsmsg_json_deserialize sd str = Some (plain m)"
proof -
  let ?t = "if pretty then [10] else []"
  obtain hq1 where hq1: "htsmsg_json_write d2s m (htsbuf_queue_init 0) (hm_islist m) 2 pretty = Some hq1"
    "htsbuf_inv hq1" "htsbuf_content hq1 = json_text pretty 2 m"
    using json_write_text(1) [OF assms(1), of d2s 2 pretty] hq.empty_law by (auto simp: writes_opt_def)
  define hq2 where "hq2 = (if pretty then htsbuf_append hq1 [10] else hq1)"
  have "htsbuf_inv hq2" and c2: "htsbuf_content hq2 = json_text pretty 2 m @ ?t"
    using hq1 by (auto simp: hq2_def htsbuf_append_correct)
  then have "fst (htsbuf_to_string hq2) = json_text pretty 2 m @ ?t @ [0]"
    using assms(2) htsbuf_to_string_correct(1) [of hq2] by (cases pretty) simp_all
  then have "htsmsg_json_serialize_to_str d2s m pretty = Some (json_text pretty 2 m @ ?t @ [0])"
    using hq1(1) by (simp add: htsmsg_json_serialize_to_str_def htsmsg_json_serialize_def hq2_def)
  moreover have "htsmsg_json_deserialize sd (json_text pretty 2 m @ u) = Some (plain m)" for u
  proof -
    have "reads_msg (json_parse_value (length (json_text pretty 2 m @ u)) json_to_htsmsg sd) (json_text pretty 2 m) m"
      by (rule json_reads(1) [OF assms(1)]) simp
    moreover have "is_ws []" by (simp add: is_ws_def)
    ultimately show ?thesis
      unfolding reads_msg_def htsmsg_json_deserialize_def json_deserialize_def Let_def
      by (cases "hm_islist m") (fastforce split: parsed.splits)+
  qed
  ultimately show ?thesis by blast
qed

theorem htsmsg_json_roundtrip_witness:
  "\<exists>str. htsmsg_json_serialize_to_str (\<lambda>_. []) (Htsmsg True [Field None (HMF_S64 7) 0 None None]) False = Some str \<and>
    htsmsg_json_deserialize (\<lambda>s. (0, s)) str = Some (Htsmsg True [Field None (HMF_S64 7) 2 None None])"
proof -
  let ?m = "Htsmsg True [Field None (HMF_S64 7) 0 None None]"
  have "json_ok ?m" "length (json_text False 2 ?m) + 1 < 2 ^ 32"
    by (simp_all add: indent_text_def dec_int_def dec_nat.simps)
  from htsmsg_json_roundtrip [OF this] show ?thesis by simp
qed

end
