(* ===== verification/Extents.thy ===== *)
theory Extents
  imports Prelude
begin

text \<open>
  The allocator of \<^verbatim>\<open>src/src/misc/extents.c\<close>: a pool of free segments, kept in two trees. One holds the
  segments by position, the other holds, for every size that occurs, the list of the segments of
  that size. The trees are lists in the order of their keys; a segment is named by its position.
  Positions and sizes are \<^verbatim>\<open>int\<close>s of a range in which sums do not overflow.

  What the users of the allocator rely on is the locale \<open>region_allocator\<close>; that blocks handed out never
  overlap is proved there, for every sequence of allocations and releases.
\<close>

section \<open>The interface\<close>

abbreviation block :: "int \<Rightarrow> int \<Rightarrow> int set" where
  "block pos len \<equiv> {pos..<pos + len}"

locale region_allocator =
  fixes inv :: "'p \<Rightarrow> bool" and free :: "'p \<Rightarrow> int set"
    and alloc :: "'p \<Rightarrow> int \<Rightarrow> (int \<times> 'p) option" and release :: "'p \<Rightarrow> int \<Rightarrow> int \<Rightarrow> 'p option"
  assumes alloc_law: "inv p \<Longrightarrow> 0 < n \<Longrightarrow> alloc p n = Some (pos, p') \<Longrightarrow>
      inv p' \<and> block pos n \<subseteq> free p \<and> free p' = free p - block pos n"
    and release_law: "inv p \<Longrightarrow> 0 < n \<Longrightarrow> block pos n \<inter> free p = {} \<Longrightarrow>
      \<exists>p'. release p pos n = Some p' \<and> inv p' \<and> free p' = free p \<union> block pos n"
begin

text \<open>A client holds blocks; it takes new ones and gives back what it holds, in any order.\<close>

inductive client :: "'p \<Rightarrow> 'p \<Rightarrow> (int \<times> int) list \<Rightarrow> bool" for p0 where
  start: "client p0 p0 []"
| take: "client p0 p bs \<Longrightarrow> 0 < n \<Longrightarrow> alloc p n = Some (pos, p') \<Longrightarrow> client p0 p' ((pos, n) # bs)"
| give: "client p0 p (as @ (pos, n) # bs) \<Longrightarrow> release p pos n = Some p' \<Longrightarrow> client p0 p' (as @ bs)"

inductive_cases client_takeE: "client p0 p (b # bs)"

definition held :: "(int \<times> int) list \<Rightarrow> int set" where
  "held bs = (\<Union>(pos, n)\<in>set bs. block pos n)"

definition apart :: "(int \<times> int) list \<Rightarrow> bool" where
  "apart bs \<longleftrightarrow> sorted_wrt (\<lambda>(p, m) (q, n). block p m \<inter> block q n = {}) bs \<and> list_all (\<lambda>(p, m). 0 < m) bs"

lemma held_append [simp]: "held (as @ bs) = held as \<union> held bs" "held ((pos, n) # bs) = block pos n \<union> held bs"
  by (auto simp: held_def)

lemma apart_remove:
  "apart (as @ (pos, n) # bs) \<Longrightarrow> apart (as @ bs) \<and> block pos n \<inter> held (as @ bs) = {} \<and> 0 < n"
  by (fastforce simp: apart_def held_def sorted_wrt_append list_all_iff)

text \<open>The blocks a client holds are disjoint, and with the free space they are the whole arena.\<close>

lemma client_blocks:
  assumes "client p0 p bs" "inv p0"
  shows "inv p \<and> apart bs \<and> held bs \<inter> free p = {} \<and> held bs \<union> free p = free p0"
  using assms(1)
proof (induction rule: client.induct)
  case start
  then show ?case using assms(2) by (simp add: apart_def held_def)
next
  case (take p bs n pos p')
  then have a: "inv p'" "block pos n \<subseteq> free p" "free p' = free p - block pos n"
    using alloc_law [of p n pos p'] by auto
  have "block pos n \<inter> block q m = {}" if "(q, m) \<in> set bs" for q m
    using that take.IH a(2) by (fastforce simp: held_def)
  then have "apart ((pos, n) # bs)"
    using take by (auto simp: apart_def)
  with take a show ?case by auto
next
  case (give p as pos n bs p')
  have r: "apart (as @ bs)" "block pos n \<inter> held (as @ bs) = {}" "0 < n"
    using give.IH apart_remove by blast+
  have "block pos n \<inter> free p = {}" using give.IH by auto
  then have "inv p'" "free p' = free p \<union> block pos n"
    using release_law [of p n pos] give r(3) by auto
  with r give.IH show ?case by auto
qed

text \<open>What a client holds it can give back.\<close>

lemma client_can_release:
  assumes "client p0 p (as @ (pos, n) # bs)" "inv p0"
  shows "\<exists>p'. release p pos n = Some p' \<and> client p0 p' (as @ bs)"
proof -
  have "inv p" "0 < n" "block pos n \<inter> free p = {}"
    using client_blocks [OF assms] apart_remove [of as pos n bs] by auto
  then show ?thesis
    using release_law [of p n pos] client.give [OF assms(1)] by blast
qed

end

section \<open>The pool\<close>

record extent_pool =
  ep_freesegs :: "(int \<times> int) list"
  ep_sizes :: "(int \<times> int list) list"
  ep_stale :: "int option"
  ep_total :: int

text \<open>\<open>ep_stale\<close> is the position of a skeleton segment without a size, which a failed \<open>extent_free\<close> leaves
  in the tree of positions.\<close>

text \<open>\<open>RB_INSERT_SORTED\<close>, \<open>RB_REMOVE\<close>, \<open>RB_NEXT\<close> and \<open>RB_PREV\<close> on the segments.\<close>

fun seg_put :: "int \<Rightarrow> int \<Rightarrow> (int \<times> int) list \<Rightarrow> (int \<times> int) list" where
  "seg_put p s [] = [(p, s)]"
| "seg_put p s ((q, t) # xs) = (if p < q then (p, s) # (q, t) # xs else (q, t) # seg_put p s xs)"

definition seg_del :: "int \<Rightarrow> (int \<times> int) list \<Rightarrow> (int \<times> int) list" where
  "seg_del p xs = filter (\<lambda>(q, t). q \<noteq> p) xs"

definition seg_next :: "int \<Rightarrow> (int \<times> int) list \<Rightarrow> (int \<times> int) option" where
  "seg_next p xs = find (\<lambda>(q, t). p < q) xs"

definition seg_prev :: "int \<Rightarrow> (int \<times> int) list \<Rightarrow> (int \<times> int) option" where
  "seg_prev p xs = find (\<lambda>(q, t). q < p) (rev xs)"

text \<open>\<open>ef_insert\<close> and \<open>ef_unlink\<close> on the tree of sizes.\<close>

fun ef_insert :: "int \<Rightarrow> int \<Rightarrow> (int \<times> int list) list \<Rightarrow> (int \<times> int list) list" where
  "ef_insert sz ef [] = [(sz, [ef])]"
| "ef_insert sz ef ((s, l) # xs) =
     (if sz < s then (sz, [ef]) # (s, l) # xs
      else if sz = s then (s, ef # l) # xs
      else (s, l) # ef_insert sz ef xs)"

fun ef_unlink :: "int \<Rightarrow> int \<Rightarrow> (int \<times> int list) list \<Rightarrow> (int \<times> int list) list" where
  "ef_unlink sz ef [] = []"
| "ef_unlink sz ef ((s, l) # xs) =
     (if s = sz then (let l' = remove1 ef l in if l' = [] then xs else (s, l') # xs)
      else (s, l) # ef_unlink sz ef xs)"

definition ef_destroy :: "extent_pool \<Rightarrow> int \<Rightarrow> int \<Rightarrow> extent_pool" where
  "ef_destroy ep ef sz =
     ep\<lparr>ep_freesegs := seg_del ef (ep_freesegs ep), ep_sizes := ef_unlink sz ef (ep_sizes ep)\<rparr>"

definition es_find :: "extent_pool \<Rightarrow> int \<Rightarrow> (int \<times> int list) option" where
  "es_find ep sz = find (\<lambda>(s, l). sz \<le> s) (ep_sizes ep)"

section \<open>Operations\<close>

text \<open>A segment whose position and size change in place: \<open>ef_pos\<close> is stored, then the segment is unlinked
  from its size and inserted under the new one.\<close>

definition ef_move :: "extent_pool \<Rightarrow> int \<Rightarrow> int \<Rightarrow> int \<Rightarrow> int \<Rightarrow> extent_pool" where
  "ef_move ep ef sz pos' sz' =
     ep\<lparr>ep_freesegs := map (\<lambda>(q, t). if q = ef then (pos', sz') else (q, t)) (ep_freesegs ep),
        ep_sizes := ef_insert sz' pos' (ef_unlink sz ef (ep_sizes ep))\<rparr>"

definition extent_alloc :: "extent_pool \<Rightarrow> int \<Rightarrow> int \<times> extent_pool" where
  "extent_alloc ep sz =
     (case es_find ep sz of
        None \<Rightarrow> (-1, ep)
      | Some (es_size, segs) \<Rightarrow>
          (let pos = hd segs in
           if es_size = sz then (pos, ef_destroy ep pos es_size)
           else (pos, ef_move ep pos es_size (pos + sz) (es_size - sz))))"

text \<open>The two joins of \<open>extent_free\<close>. Where the code keeps the node of the segment before and unlinks it
  from its size only, the model takes the segment out and puts it back at the same position.\<close>

definition free_merge_prev :: "extent_pool \<Rightarrow> int \<Rightarrow> int \<Rightarrow> (int \<times> int) option \<Rightarrow> int \<times> int \<times> extent_pool" where
  "free_merge_prev ep pos sz p =
     (case p of
        Some (pp, ps) \<Rightarrow>
          (if pp + ps = pos then (pp, sz + ps, ef_destroy ep pp ps) else (pos, sz, ep))
      | None \<Rightarrow> (pos, sz, ep))"

definition free_merge_next :: "extent_pool \<Rightarrow> int \<Rightarrow> int \<Rightarrow> (int \<times> int) option \<Rightarrow> int \<times> extent_pool" where
  "free_merge_next ep sz end_pos n =
     (case n of
        Some (np, ns) \<Rightarrow> (if np = end_pos then (sz + ns, ef_destroy ep np ns) else (sz, ep))
      | None \<Rightarrow> (sz, ep))"

text \<open>\<open>None\<close> stands for the use of a stale skeleton: it is inserted into the tree a second time, or its
  missing size is read.\<close>

definition extent_free :: "extent_pool \<Rightarrow> int \<Rightarrow> int \<Rightarrow> (int \<times> extent_pool) option" where
  "extent_free ep pos sz =
     (if sz = 0 then Some (0, ep)
      else if ep_stale ep \<noteq> None then None
      else if pos \<in> fst ` set (ep_freesegs ep) then Some (-1, ep)
      else
        let p = seg_prev pos (ep_freesegs ep); n = seg_next pos (ep_freesegs ep) in
        if (case p of None \<Rightarrow> False | Some (pp, ps) \<Rightarrow> pp + ps > pos) then
          Some (-2, ep\<lparr>ep_stale := Some pos\<rparr>)
        else if (case n of None \<Rightarrow> False | Some (np, ns) \<Rightarrow> pos + sz > np) then
          Some (-3, ep\<lparr>ep_stale := Some pos\<rparr>)
        else
          let (ef, size1, ep1) = free_merge_prev ep pos sz p;
              (size2, ep2) = free_merge_next ep1 size1 (pos + sz) n
          in Some (0, ep2\<lparr>ep_freesegs := seg_put ef size2 (ep_freesegs ep2),
                          ep_sizes := ef_insert size2 ef (ep_sizes ep2)\<rparr>))"

definition extent_alloc_aligned :: "extent_pool \<Rightarrow> int \<Rightarrow> int \<Rightarrow> (int \<times> extent_pool) option" where
  "extent_alloc_aligned ep sz alignment =
     (if alignment < 2 then Some (extent_alloc ep sz)
      else
        let al = alignment - 1 in
        case es_find ep (sz + al) of
          None \<Rightarrow> Some (-1, ep)
        | Some (es_size, segs) \<Rightarrow>
            (let pos = hd segs;
                 rval = (pos + al) AND NOT al;
                 size2 = pos + es_size - (rval + sz)
             in case extent_free (ef_move ep pos es_size (rval + sz) size2) pos (rval - pos) of
                  None \<Rightarrow> None
                | Some (_, ep') \<Rightarrow> Some (rval, ep')))"

definition extent_create :: "int \<Rightarrow> int \<Rightarrow> extent_pool" where
  "extent_create start sz =
     (let ep = \<lparr>ep_freesegs = [], ep_sizes = [], ep_stale = None, ep_total = sz\<rparr> in
      case extent_free ep start sz of None \<Rightarrow> ep | Some (_, ep') \<Rightarrow> ep')"

lemma seg_del_shorter: "(p, s) \<in> set xs \<Longrightarrow> length (seg_del p xs) < length xs"
  unfolding seg_del_def by (rule length_filter_less) auto

text \<open>The loop of \<open>extent_destroy\<close>. Which segment is at the root of the tree depends on the balancing of
  the tree, so the choice is a parameter.\<close>

function extent_destroy :: "((int \<times> int) list \<Rightarrow> nat) \<Rightarrow> extent_pool \<Rightarrow> extent_pool" where
  "extent_destroy root ep =
     (let xs = ep_freesegs ep in
      if xs = [] then ep
      else let (ef, sz) = xs ! (root xs mod length xs) in extent_destroy root (ef_destroy ep ef sz))"
  by pat_completeness auto

termination
proof (relation "measure (\<lambda>(root, ep). length (ep_freesegs ep))")
  fix root :: "(int \<times> int) list \<Rightarrow> nat" and ep :: extent_pool and xs x ef sz
  assume "xs = ep_freesegs ep" "xs \<noteq> []" "x = xs ! (root xs mod length xs)" "(ef, sz) = x"
  then have "(ef, sz) \<in> set (ep_freesegs ep)" by (metis length_greater_0_conv mod_less_divisor nth_mem)
  then show "((root, ef_destroy ep ef sz), root, ep) \<in> measure (\<lambda>(root, ep). length (ep_freesegs ep))"
    by (simp add: ef_destroy_def seg_del_shorter)
qed simp

declare extent_destroy.simps [simp del]

definition extent_stats :: "extent_pool \<Rightarrow> int \<times> int \<times> nat" where
  "extent_stats ep =
     (ep_total ep, sum_list (map snd (ep_freesegs ep)), length (ep_freesegs ep))"

section \<open>The invariant\<close>

definition seg_before :: "int \<times> int \<Rightarrow> int \<times> int \<Rightarrow> bool" where
  "seg_before x y \<longleftrightarrow> fst x + snd x < fst y"

definition segs_ok :: "(int \<times> int) list \<Rightarrow> bool" where
  "segs_ok xs \<longleftrightarrow> sorted_wrt seg_before xs \<and> list_all (\<lambda>x. 0 < snd x) xs"

definition sizes_ok :: "(int \<times> int list) list \<Rightarrow> bool" where
  "sizes_ok xs \<longleftrightarrow> sorted_wrt (\<lambda>x y. fst x < fst y) xs \<and> list_all (\<lambda>x. snd x \<noteq> [] \<and> distinct (snd x)) xs"

definition sizes_entries :: "(int \<times> int list) list \<Rightarrow> (int \<times> int) set" where
  "sizes_entries xs = (\<Union>(s, l)\<in>set xs. (\<lambda>p. (p, s)) ` set l)"

text \<open>The segments are sorted, not empty and maximal (no two touch), the index by size holds exactly
  the segments, and no skeleton is left behind.\<close>

definition pool_inv :: "extent_pool \<Rightarrow> bool" where
  "pool_inv ep \<longleftrightarrow> segs_ok (ep_freesegs ep) \<and> sizes_ok (ep_sizes ep) \<and>
     sizes_entries (ep_sizes ep) = set (ep_freesegs ep) \<and> ep_stale ep = None"

definition segs_space :: "(int \<times> int) set \<Rightarrow> int set" where
  "segs_space S = (\<Union>(p, s)\<in>S. block p s)"

abbreviation free_space :: "extent_pool \<Rightarrow> int set" where
  "free_space ep \<equiv> segs_space (set (ep_freesegs ep))"

section \<open>The two trees\<close>

lemma sizes_entries_simps [simp]:
  "sizes_entries [] = {}"
  "sizes_entries ((s, l) # xs) = (\<lambda>p. (p, s)) ` set l \<union> sizes_entries xs"
  by (auto simp: sizes_entries_def)

lemma sizes_ok_simps [simp]:
  "sizes_ok []"
  "sizes_ok ((s, l) # xs) \<longleftrightarrow> (\<forall>k\<in>fst ` set xs. s < k) \<and> l \<noteq> [] \<and> distinct l \<and> sizes_ok xs"
  by (auto simp: sizes_ok_def)

lemma segs_ok_simps [simp]:
  "segs_ok []"
  "segs_ok ((p, s) # xs) \<longleftrightarrow> (\<forall>(q, t)\<in>set xs. p + s < q) \<and> 0 < s \<and> segs_ok xs"
  by (auto simp: segs_ok_def seg_before_def)

lemma segs_space_simps [simp]:
  "segs_space {} = {}"
  "segs_space (insert (p, s) S) = block p s \<union> segs_space S"
  by (auto simp: segs_space_def)

lemma sizes_entries_size: "(p, s) \<in> sizes_entries xs \<Longrightarrow> \<exists>x\<in>set xs. fst x = s"
  by (force simp: sizes_entries_def)

lemma ef_insert_keys: "fst ` set (ef_insert sz ef xs) = insert sz (fst ` set xs)"
  by (induction sz ef xs rule: ef_insert.induct) (auto split: if_splits)

lemma ef_insert_entries: "sizes_entries (ef_insert sz ef xs) = insert (ef, sz) (sizes_entries xs)"
  by (induction sz ef xs rule: ef_insert.induct) auto

lemma ef_insert_ok:
  assumes "sizes_ok xs" "(ef, sz) \<notin> sizes_entries xs"
  shows "sizes_ok (ef_insert sz ef xs)"
  using assms
proof (induction xs)
  case (Cons x xs)
  obtain s l where [simp]: "x = (s, l)" by force
  have "\<forall>k\<in>fst ` set xs. s < k" using Cons.prems by simp
  moreover have "(ef, s) \<notin> sizes_entries ((s, l) # xs)" if "sz = s" using that Cons.prems by simp
  ultimately show ?case
    using Cons by (auto simp: ef_insert_keys simp del: image_iff dest: order_less_trans)
qed simp

lemma ef_unlink_keys: "fst ` set (ef_unlink sz ef xs) \<subseteq> fst ` set xs"
proof (induction xs)
  case (Cons x xs)
  then show ?case by (cases x) (simp add: Let_def, blast)
qed simp

lemma ef_unlink_ok: "sizes_ok xs \<Longrightarrow> sizes_ok (ef_unlink sz ef xs)"
proof (induction xs)
  case (Cons x xs)
  obtain s l where [simp]: "x = (s, l)" by force
  have "\<forall>k\<in>fst ` set (ef_unlink sz ef xs). s < k"
    using ef_unlink_keys [of sz ef xs] Cons.prems by (simp only: \<open>x = (s, l)\<close> sizes_ok_simps) blast
  with Cons show ?case by (auto simp: Let_def distinct_remove1)
qed simp

lemma ef_unlink_entries:
  "sizes_ok xs \<Longrightarrow> sizes_entries (ef_unlink sz ef xs) = sizes_entries xs - {(ef, sz)}"
proof (induction xs)
  case (Cons x xs)
  obtain s l where x: "x = (s, l)" by force
  have "(ef, s) \<notin> sizes_entries xs"
    using Cons.prems by (auto simp: x dest: sizes_entries_size)
  moreover have "sizes_entries ((s, remove1 ef l) # xs) = sizes_entries ((s, l) # xs) - {(ef, s)}"
    if "distinct l" using that \<open>(ef, s) \<notin> sizes_entries xs\<close> by auto
  moreover have "set l - {ef} = {}" if "remove1 ef l = []" "distinct l"
    using that by (metis set_remove1_eq empty_set)
  ultimately show ?case
    using Cons by (auto simp: x Let_def)
qed simp

lemma segs_ok_filter: "segs_ok xs \<Longrightarrow> segs_ok (filter P xs)"
  by (auto simp: segs_ok_def list_all_iff intro: sorted_wrt_filter)

lemma segs_ok_cases:
  assumes "segs_ok xs" "(p, s) \<in> set xs" "(q, t) \<in> set xs"
  shows "p + s < q \<or> q + t < p \<or> (p, s) = (q, t)"
  using assms by (induction xs) auto

lemma segs_ok_pos: "segs_ok xs \<Longrightarrow> (p, s) \<in> set xs \<Longrightarrow> 0 < s"
  by (auto simp: segs_ok_def list_all_iff)

lemma seg_del_set:
  assumes "segs_ok xs" "(p, s) \<in> set xs"
  shows "set (seg_del p xs) = set xs - {(p, s)}"
  using segs_ok_cases [OF assms] segs_ok_pos [OF assms(1)] assms by (force simp: seg_del_def)

lemma seg_put_set [simp]: "set (seg_put p s xs) = insert (p, s) (set xs)"
  by (induction p s xs rule: seg_put.induct) auto

lemma seg_put_ok:
  assumes "segs_ok xs" "0 < s" "\<And>q t. (q, t) \<in> set xs \<Longrightarrow> p + s < q \<or> q + t < p"
  shows "segs_ok (seg_put p s xs)"
  using assms by (induction xs) fastforce+

lemma segs_space_disjoint:
  assumes "segs_ok xs" "(p, s) \<in> set xs"
  shows "segs_space (set xs - {(p, s)}) = segs_space (set xs) - block p s"
  using segs_ok_cases [OF assms(1) assms(2)] by (fastforce simp: segs_space_def)

lemma find_Some_first:
  assumes "find P xs = Some x"
  shows "\<exists>as bs. xs = as @ x # bs \<and> P x \<and> (\<forall>y\<in>set as. \<not> P y)"
  using assms
proof (induction xs)
  case (Cons y ys)
  show ?case
  proof (cases "P y")
    case True
    with Cons.prems show ?thesis by (intro exI [of _ "[]"] exI [of _ ys]) auto
  next
    case False
    with Cons obtain as bs where "ys = as @ x # bs \<and> P x \<and> (\<forall>y\<in>set as. \<not> P y)" by auto
    with False show ?thesis by (intro exI [of _ "y # as"] exI [of _ bs]) simp
  qed
qed simp

lemma seg_next_cases:
  assumes "segs_ok xs"
  shows "case seg_next p xs of None \<Rightarrow> \<forall>(q, t)\<in>set xs. q \<le> p
    | Some (q, t) \<Rightarrow> (q, t) \<in> set xs \<and> p < q \<and> (\<forall>(q', t')\<in>set xs. p < q' \<longrightarrow> q \<le> q')"
proof (cases "seg_next p xs")
  case None
  then have "\<forall>x\<in>set xs. \<not> p < fst x" by (auto simp: seg_next_def find_None_iff)
  with None show ?thesis by fastforce
next
  case (Some x)
  then obtain as bs where xs: "xs = as @ x # bs" "p < fst x" "\<forall>y\<in>set as. \<not> p < fst y"
    unfolding seg_next_def by (auto dest!: find_Some_first simp: case_prod_unfold)
  have "fst x \<le> fst y" if "y \<in> set bs" for y
    using that assms xs(1) by (cases x) (fastforce simp: segs_ok_def sorted_wrt_append seg_before_def)
  with Some xs show ?thesis by (force split: prod.splits)
qed

lemma seg_prev_cases:
  assumes "segs_ok xs"
  shows "case seg_prev p xs of None \<Rightarrow> \<forall>(q, t)\<in>set xs. p \<le> q
    | Some (q, t) \<Rightarrow> (q, t) \<in> set xs \<and> q < p \<and> (\<forall>(q', t')\<in>set xs. q' < p \<longrightarrow> q' \<le> q)"
proof (cases "seg_prev p xs")
  case None
  then have "\<forall>x\<in>set xs. \<not> fst x < p" by (auto simp: seg_prev_def find_None_iff)
  with None show ?thesis by fastforce
next
  case (Some x)
  then obtain as bs where "rev xs = as @ x # bs" and x: "fst x < p" "\<forall>y\<in>set as. \<not> fst y < p"
    unfolding seg_prev_def by (auto dest!: find_Some_first simp: case_prod_unfold)
  then have xs: "xs = rev bs @ x # rev as"
    by (metis append.assoc append_Cons append_Nil rev.simps(2) rev_append rev_rev_ident)
  have "fst y \<le> fst x" if y: "y \<in> set bs" for y
  proof -
    have "seg_before y x" "0 < snd y"
      using y assms by (simp_all add: xs segs_ok_def sorted_wrt_append list_all_iff)
    then show ?thesis by (simp add: seg_before_def)
  qed
  with Some x xs show ?thesis by (force split: prod.splits)
qed

section \<open>Operations on pools\<close>

lemma ef_destroy_inv:
  assumes "pool_inv ep" "(p, s) \<in> set (ep_freesegs ep)"
  shows "pool_inv (ef_destroy ep p s)"
    and "set (ep_freesegs (ef_destroy ep p s)) = set (ep_freesegs ep) - {(p, s)}"
  using assms seg_del_set [of "ep_freesegs ep" p s]
  by (auto simp: pool_inv_def ef_destroy_def seg_del_def segs_ok_filter ef_unlink_ok ef_unlink_entries)

lemma ef_destroy_total [simp]: "ep_total (ef_destroy ep p s) = ep_total ep"
  by (simp add: ef_destroy_def)

lemma pool_put_inv:
  assumes "pool_inv ep" "0 < s" "\<And>q t. (q, t) \<in> set (ep_freesegs ep) \<Longrightarrow> p + s < q \<or> q + t < p"
  shows "pool_inv (ep\<lparr>ep_freesegs := seg_put p s (ep_freesegs ep), ep_sizes := ef_insert s p (ep_sizes ep)\<rparr>)"
proof -
  have "(p, s) \<notin> set (ep_freesegs ep)" using assms(3) [of p s] assms(2) by auto
  then show ?thesis
    using assms by (auto simp: pool_inv_def ef_insert_ok ef_insert_entries seg_put_ok)
qed

lemma ef_move_inv:
  assumes "pool_inv ep" "(p, s) \<in> set (ep_freesegs ep)" "p \<le> p'" "0 < s'" "p' + s' = p + s"
  shows "pool_inv (ef_move ep p s p' s')"
    and "set (ep_freesegs (ef_move ep p s p' s')) = insert (p', s') (set (ep_freesegs ep) - {(p, s)})"
proof -
  let ?f = "\<lambda>(q, t). if q = p then (p', s') else (q, t)" and ?xs = "ep_freesegs ep"
  have ok: "segs_ok ?xs" using assms(1) by (simp add: pool_inv_def)
  have only: "q = p \<longleftrightarrow> t = s \<and> q = p" if "(q, t) \<in> set ?xs" for q t
    using segs_ok_cases [OF ok assms(2) that] segs_ok_pos [OF ok] that assms(2) by fastforce
  show st: "set (ep_freesegs (ef_move ep p s p' s')) = insert (p', s') (set ?xs - {(p, s)})"
    using assms(2) only by (force simp: ef_move_def image_iff split: if_splits)
  have "sorted_wrt seg_before (map ?f ?xs)"
    unfolding sorted_wrt_map
    by (rule sorted_wrt_mono_rel [OF _ conjunct1 [OF ok [unfolded segs_ok_def]]])
      (use only segs_ok_pos [OF ok] assms(3-5) in \<open>fastforce simp: seg_before_def split: if_splits\<close>)
  then have "segs_ok (map ?f ?xs)"
    using ok assms(4) by (auto simp: segs_ok_def list_all_iff)
  moreover have "(p', s') \<notin> set ?xs - {(p, s)}"
    using segs_ok_cases [OF ok assms(2), of p' s'] assms(3-5) by auto
  ultimately show "pool_inv (ef_move ep p s p' s')"
    using assms(1) st
    by (auto simp: pool_inv_def ef_move_def ef_insert_ok ef_unlink_ok ef_insert_entries ef_unlink_entries)
qed

lemma es_find_Some:
  assumes "pool_inv ep" "es_find ep sz = Some (t, l)"
  shows "l \<noteq> []" "sz \<le> t" "(hd l, t) \<in> set (ep_freesegs ep)"
    "\<And>p s. (p, s) \<in> set (ep_freesegs ep) \<Longrightarrow> sz \<le> s \<Longrightarrow> t \<le> s"
proof -
  obtain as bs where xs: "ep_sizes ep = as @ (t, l) # bs" "sz \<le> t" "\<forall>y\<in>set as. \<not> sz \<le> fst y"
    using assms(2) unfolding es_find_def by (auto dest!: find_Some_first simp: case_prod_unfold)
  have ok: "sizes_ok (ep_sizes ep)" and en: "set (ep_freesegs ep) = sizes_entries (ep_sizes ep)"
    using assms(1) by (simp_all add: pool_inv_def)
  show "sz \<le> t" by (fact xs(2))
  show ne: "l \<noteq> []" using ok by (simp add: xs(1) sizes_ok_def)
  show "(hd l, t) \<in> set (ep_freesegs ep)" using ne by (auto simp: en xs(1) sizes_entries_def)
  fix p s assume s: "(p, s) \<in> set (ep_freesegs ep)" "sz \<le> s"
  then obtain k where "k \<in> set (ep_sizes ep)" "fst k = s"
    unfolding en by (blast dest: sizes_entries_size)
  then show "t \<le> s"
    using ok xs(3) s(2) by (auto simp: xs(1) sizes_ok_def sorted_wrt_append)
qed

lemma es_find_None:
  assumes "pool_inv ep" "es_find ep sz = None"
  shows "\<And>p s. (p, s) \<in> set (ep_freesegs ep) \<Longrightarrow> s < sz"
proof -
  fix p s assume "(p, s) \<in> set (ep_freesegs ep)"
  then have "(p, s) \<in> sizes_entries (ep_sizes ep)" using assms(1) by (simp add: pool_inv_def)
  then obtain l where "(s, l) \<in> set (ep_sizes ep)" by (auto simp: sizes_entries_def)
  then show "s < sz" using assms(2) by (fastforce simp: es_find_def find_None_iff)
qed

text \<open>A successful allocation takes the front of a smallest segment that is large enough.\<close>

lemma extent_alloc_Some:
  assumes "pool_inv ep" "0 < sz" "es_find ep sz = Some (t, l)"
  shows "\<exists>ep'. extent_alloc ep sz = (hd l, ep') \<and> pool_inv ep' \<and> ep_total ep' = ep_total ep \<and>
      set (ep_freesegs ep') = set (ep_freesegs ep) - {(hd l, t)} \<union> (if t = sz then {} else {(hd l + sz, t - sz)})"
proof -
  note f = es_find_Some [OF assms(1,3)]
  have tot: "ep_total (ef_destroy ep (hd l) t) = ep_total ep"
    "ep_total (ef_move ep (hd l) t (hd l + sz) (t - sz)) = ep_total ep"
    by (simp_all add: ef_destroy_def ef_move_def)
  show ?thesis
  proof (cases "t = sz")
    case True
    then show ?thesis
      using ef_destroy_inv [OF assms(1) f(3)] assms(3) tot by (simp add: extent_alloc_def Let_def)
  next
    case False
    then show ?thesis
      using ef_move_inv [OF assms(1) f(3), of "hd l + sz" "t - sz"] assms(2,3) f(2) tot
      by (simp add: extent_alloc_def Let_def)
  qed
qed

lemma segs_space_union [simp]: "segs_space (A \<union> B) = segs_space A \<union> segs_space B"
  by (auto simp: segs_space_def)

lemma block_in_space: "(p, s) \<in> S \<Longrightarrow> block p s \<subseteq> segs_space S"
  by (auto simp: segs_space_def)

lemma extent_alloc_space:
  assumes "pool_inv ep" "0 < sz" "es_find ep sz = Some (t, l)" "extent_alloc ep sz = (pos, ep')"
  shows "block pos sz \<subseteq> free_space ep \<and> free_space ep' = free_space ep - block pos sz"
proof -
  note f = es_find_Some [OF assms(1,3)]
  have pos: "pos = hd l" and
    st: "set (ep_freesegs ep') = set (ep_freesegs ep) - {(pos, t)} \<union> (if t = sz then {} else {(pos + sz, t - sz)})"
    using extent_alloc_Some [OF assms(1-3)] assms(4) by auto
  have sub: "block pos t \<subseteq> free_space ep"
    using f(3) block_in_space pos by blast
  have "free_space ep' = free_space ep - block pos t \<union> block (pos + sz) (t - sz)"
    unfolding st using f(3) assms(1) pos by (auto simp: segs_space_disjoint pool_inv_def)
  then show ?thesis using sub f(2) assms(2) by auto
qed

text \<open>What the two joins take out: the segment that ends where the block starts, and the one that
  starts where it ends.\<close>

lemma free_merge_prev_inv:
  assumes "pool_inv ep" "free_merge_prev ep pos sz (seg_prev pos (ep_freesegs ep)) = (ef, size1, ep1)"
  shows "pool_inv ep1" "ef + size1 = pos + sz" "ep_total ep1 = ep_total ep"
    "set (ep_freesegs ep1) = set (ep_freesegs ep) - (if ef = pos then {} else {(ef, pos - ef)})"
    "ef = pos \<or> ef < pos \<and> (ef, pos - ef) \<in> set (ep_freesegs ep)"
    "ef = pos \<Longrightarrow> \<forall>(q, t)\<in>set (ep_freesegs ep). q < pos \<longrightarrow> q + t \<noteq> pos"
proof -
  have ok: "segs_ok (ep_freesegs ep)" using assms(1) by (simp add: pool_inv_def)
  note prev = seg_prev_cases [OF ok, of pos]
  have "pool_inv ep1 \<and> ef + size1 = pos + sz \<and> ep_total ep1 = ep_total ep \<and>
    set (ep_freesegs ep1) = set (ep_freesegs ep) - (if ef = pos then {} else {(ef, pos - ef)}) \<and>
    (ef = pos \<or> ef < pos \<and> (ef, pos - ef) \<in> set (ep_freesegs ep)) \<and>
    (ef = pos \<longrightarrow> (\<forall>(q, t)\<in>set (ep_freesegs ep). q < pos \<longrightarrow> q + t \<noteq> pos))"
  proof (cases "\<exists>pp ps. seg_prev pos (ep_freesegs ep) = Some (pp, ps) \<and> pp + ps = pos")
    case True
    then obtain pp ps where p: "seg_prev pos (ep_freesegs ep) = Some (pp, ps)" "pp + ps = pos" by blast
    then have "(pp, ps) \<in> set (ep_freesegs ep)" "pp < pos" using prev by auto
    moreover have "ef = pp" "size1 = sz + ps" "ep1 = ef_destroy ep pp ps" "pos = pp + ps"
      using p assms(2) by (auto simp: free_merge_prev_def)
    ultimately show ?thesis
      using ef_destroy_inv [OF assms(1), of pp ps] by simp
  next
    case False
    then have e: "ef = pos" "size1 = sz" "ep1 = ep"
      using assms(2) by (auto simp: free_merge_prev_def split: option.splits prod.splits if_splits)
    have "q + t \<noteq> pos" if q: "(q, t) \<in> set (ep_freesegs ep)" "q < pos" for q t
    proof (cases "seg_prev pos (ep_freesegs ep)")
      case None
      then show ?thesis using prev q by auto
    next
      case (Some x)
      then obtain pp ps where x: "x = (pp, ps)" "(pp, ps) \<in> set (ep_freesegs ep)" "pp < pos" "q \<le> pp"
        using prev q by (cases x) auto
      then show ?thesis
        using segs_ok_cases [OF ok q(1) x(2)] segs_ok_pos [OF ok x(2)] False Some by auto
    qed
    with e assms(1) show ?thesis by auto
  qed
  then show "pool_inv ep1" "ef + size1 = pos + sz" "ep_total ep1 = ep_total ep"
    "set (ep_freesegs ep1) = set (ep_freesegs ep) - (if ef = pos then {} else {(ef, pos - ef)})"
    "ef = pos \<or> ef < pos \<and> (ef, pos - ef) \<in> set (ep_freesegs ep)"
    "ef = pos \<Longrightarrow> \<forall>(q, t)\<in>set (ep_freesegs ep). q < pos \<longrightarrow> q + t \<noteq> pos"
    by blast+
qed

lemma free_merge_next_inv:
  assumes "pool_inv ep1" "case n of None \<Rightarrow> True | Some x \<Rightarrow> x \<in> set (ep_freesegs ep1)"
    "free_merge_next ep1 size1 e n = (size2, ep2)"
  shows "pool_inv ep2 \<and> ep_total ep2 = ep_total ep1 \<and>
    set (ep_freesegs ep2) = set (ep_freesegs ep1) - (if size2 = size1 then {} else {(e, size2 - size1)}) \<and>
    (size2 = size1 \<or> size1 < size2 \<and> n = Some (e, size2 - size1)) \<and>
    (size2 = size1 \<longrightarrow> (\<forall>t. n \<noteq> Some (e, t)))"
proof -
  have ok: "segs_ok (ep_freesegs ep1)" using assms(1) by (simp add: pool_inv_def)
  show ?thesis
  proof (cases "\<exists>t. n = Some (e, t)")
    case True
    then obtain t where n: "n = Some (e, t)" by blast
    then have t: "(e, t) \<in> set (ep_freesegs ep1)" "0 < t" using assms(2) segs_ok_pos [OF ok] by auto
    moreover have "size2 = size1 + t" "ep2 = ef_destroy ep1 e t"
      using assms(3) n by (simp_all add: free_merge_next_def)
    ultimately show ?thesis using ef_destroy_inv [OF assms(1) t(1)] n by simp
  next
    case False
    then have "size2 = size1" "ep2 = ep1"
      using assms(3) by (auto simp: free_merge_next_def split: option.splits prod.splits if_splits)
    with False assms(1) show ?thesis by simp
  qed
qed

lemma disjoint_segments:
  assumes "segs_ok xs" "0 < sz" "block pos sz \<inter> segs_space (set xs) = {}" "(q, t) \<in> set xs"
  shows "q + t \<le> pos \<or> pos + sz \<le> q"
proof (rule ccontr)
  assume "\<not> ?thesis"
  moreover have "0 < t" using segs_ok_pos [OF assms(1,4)] .
  ultimately have "max q pos \<in> block q t \<inter> block pos sz" using assms(2) by auto
  then show False using assms(3) block_in_space [OF assms(4)] by blast
qed

text \<open>\<open>free_joins\<close> collects what the two joins establish for a block that is not free: the joined block
  is apart from all remaining segments and covers the block and what was joined.\<close>

lemma free_joins:
  assumes inv: "pool_inv ep" and sz: "0 < sz" and disj: "block pos sz \<inter> free_space ep = {}"
    and m1: "free_merge_prev ep pos sz (seg_prev pos (ep_freesegs ep)) = (ef, size1, ep1)"
    and m2: "free_merge_next ep1 size1 (pos + sz) (seg_next pos (ep_freesegs ep)) = (size2, ep2)"
  shows "pool_inv ep2 \<and> ep_total ep2 = ep_total ep" and "0 < size2"
    and "\<And>q t. (q, t) \<in> set (ep_freesegs ep2) \<Longrightarrow> ef + size2 < q \<or> q + t < ef"
    and "block ef size2 \<union> free_space ep2 = free_space ep \<union> block pos sz"
proof -
  let ?xs = "ep_freesegs ep" and ?n = "seg_next pos (ep_freesegs ep)"
  let ?p = "if ef = pos then {} else {(ef, pos - ef)}" and ?q = "if size2 = size1 then {} else {(pos + sz, size2 - size1)}"
  have ok: "segs_ok ?xs" using inv by (simp add: pool_inv_def)
  note apart = disjoint_segments [OF ok sz disj] and next_seg = seg_next_cases [OF ok, of pos]
  note f1 = free_merge_prev_inv [OF inv m1]
  have "case ?n of None \<Rightarrow> True | Some x \<Rightarrow> x \<in> set (ep_freesegs ep1)"
    using next_seg f1(4,5) by (auto split: option.splits)
  note f2 = free_merge_next_inv [OF f1(1) this m2]
  have sub: "set (ep_freesegs ep2) = set ?xs - ?p - ?q" using f1(4) f2 by simp
  have nxt: "size2 = size1 \<or> (pos + sz, size2 - size1) \<in> set ?xs \<and> size1 < size2" using f2 next_seg by auto
  show "pool_inv ep2 \<and> ep_total ep2 = ep_total ep" using f1(3) f2 by simp
  show "0 < size2" using f1(2,5) nxt sz by auto
  have no_next: "q \<noteq> pos + sz" if no: "size2 = size1" and s: "(q, t) \<in> set ?xs" for q t
  proof
    assume q: "q = pos + sz"
    then obtain np ns where n: "?n = Some (np, ns)" "(np, ns) \<in> set ?xs" "pos < np" "np \<le> q"
      using next_seg s sz by (auto split: option.splits)
    then have "np = q" using apart [of np ns] segs_ok_pos [OF ok, of np ns] q by auto
    with n(1) q f2 no show False by simp
  qed
  show "ef + size2 < q \<or> q + t < ef" if mem: "(q, t) \<in> set (ep_freesegs ep2)" for q t
  proof -
    from mem sub have q: "(q, t) \<in> set ?xs" and no: "(q, t) \<notin> ?p" "(q, t) \<notin> ?q" by auto
    note c = segs_ok_cases [OF ok q] and pos = segs_ok_pos [OF ok q]
    from apart [OF q] show ?thesis
      using f1(2,5,6) nxt no_next [OF _ q] no pos q c [of ef "pos - ef"] c [of "pos + sz" "size2 - size1"]
      by (fastforce split: if_splits)
  qed
  have "block ef size2 = segs_space ?p \<union> block pos sz \<union> segs_space ?q" using f1(2,5) nxt sz by auto
  moreover have "set ?xs = set (ep_freesegs ep2) \<union> ?p \<union> ?q" using sub f1(5) nxt by auto
  ultimately show "block ef size2 \<union> free_space ep2 = free_space ep \<union> block pos sz" by auto
qed

lemma extent_free_ok:
  assumes inv: "pool_inv ep" and sz: "0 < sz" and disj: "block pos sz \<inter> free_space ep = {}"
  shows "\<exists>ep'. extent_free ep pos sz = Some (0, ep') \<and> pool_inv ep' \<and> ep_total ep' = ep_total ep \<and>
    free_space ep' = free_space ep \<union> block pos sz"
proof -
  let ?xs = "ep_freesegs ep"
  have ok: "segs_ok ?xs" and st: "ep_stale ep = None" using inv by (simp_all add: pool_inv_def)
  note apart = disjoint_segments [OF ok sz disj]
  obtain ef size1 ep1 where m1: "free_merge_prev ep pos sz (seg_prev pos ?xs) = (ef, size1, ep1)"
    using prod_cases3 by blast
  obtain size2 ep2 where m2: "free_merge_next ep1 size1 (pos + sz) (seg_next pos ?xs) = (size2, ep2)" by force
  note j = free_joins [OF inv sz disj m1 m2]
  let ?ep = "ep2\<lparr>ep_freesegs := seg_put ef size2 (ep_freesegs ep2), ep_sizes := ef_insert size2 ef (ep_sizes ep2)\<rparr>"
  have "pool_inv ?ep" using j by (intro pool_put_inv) auto
  moreover have "pos \<notin> fst ` set ?xs" using apart segs_ok_pos [OF ok] sz by fastforce
  moreover have "\<not> (case seg_prev pos ?xs of None \<Rightarrow> False | Some (pp, ps) \<Rightarrow> pp + ps > pos)"
    using seg_prev_cases [OF ok, of pos] apart sz by (fastforce split: option.splits)
  moreover have "\<not> (case seg_next pos ?xs of None \<Rightarrow> False | Some (np, ns) \<Rightarrow> pos + sz > np)"
    using seg_next_cases [OF ok, of pos] apart segs_ok_pos [OF ok] by (fastforce split: option.splits)
  ultimately have "extent_free ep pos sz = Some (0, ?ep)" "pool_inv ?ep"
    using sz st m1 m2 by (simp_all add: extent_free_def Let_def)
  then show ?thesis using j by auto
qed

lemma extent_free_zero: "extent_free ep pos 0 = Some (0, ep)"
  by (simp add: extent_free_def)

lemma extent_free_codes:
  assumes inv: "pool_inv ep" and sz: "0 < sz" and overlap: "block pos sz \<inter> free_space ep \<noteq> {}"
  shows "extent_free ep pos sz = Some (-1, ep) \<or> extent_free ep pos sz = Some (-2, ep\<lparr>ep_stale := Some pos\<rparr>) \<or>
    extent_free ep pos sz = Some (-3, ep\<lparr>ep_stale := Some pos\<rparr>)"
proof (rule ccontr)
  let ?xs = "ep_freesegs ep"
  have ok: "segs_ok ?xs" and st: "ep_stale ep = None" using inv by (simp_all add: pool_inv_def)
  assume "\<not> ?thesis"
  then have no: "pos \<notin> fst ` set ?xs" "case seg_prev pos ?xs of None \<Rightarrow> True | Some (pp, ps) \<Rightarrow> pp + ps \<le> pos"
    "case seg_next pos ?xs of None \<Rightarrow> True | Some (np, ns) \<Rightarrow> pos + sz \<le> np"
    using sz st by (auto simp: extent_free_def Let_def split: if_splits option.splits)
  obtain q t x where q: "(q, t) \<in> set ?xs" and x: "x \<in> block q t" "x \<in> block pos sz"
    using overlap unfolding segs_space_def by blast
  have "q \<noteq> pos" using no(1) q by force
  then consider "q < pos" | "pos < q" by linarith
  then show False
  proof cases
    case 1
    then obtain pp ps where p: "seg_prev pos ?xs = Some (pp, ps)" "(pp, ps) \<in> set ?xs" "pp < pos" "q \<le> pp"
      using seg_prev_cases [OF ok, of pos] q by (auto split: option.splits)
    then show False
      using no(2) segs_ok_cases [OF ok q p(2)] segs_ok_pos [OF ok p(2)] x by auto
  next
    case 2
    then obtain np ns where "seg_next pos ?xs = Some (np, ns)" "np \<le> q"
      using seg_next_cases [OF ok, of pos] q by (auto split: option.splits)
    then show False using no(3) x by auto
  qed
qed

section \<open>Clients\<close>

text \<open>The allocator as its users see it: \<open>-1\<close> is the failure of an allocation, a code other than 0 the
  failure of a release.\<close>

definition alloc_block :: "extent_pool \<Rightarrow> int \<Rightarrow> (int \<times> extent_pool) option" where
  "alloc_block ep n = (case extent_alloc ep n of (pos, ep') \<Rightarrow> if pos = -1 then None else Some (pos, ep'))"

definition free_block :: "extent_pool \<Rightarrow> int \<Rightarrow> int \<Rightarrow> extent_pool option" where
  "free_block ep pos n =
     (case extent_free ep pos n of Some (r, ep') \<Rightarrow> if r = 0 then Some ep' else None | None \<Rightarrow> None)"

interpretation pool: region_allocator pool_inv free_space alloc_block free_block
proof unfold_locales
  fix ep n pos ep'
  assume a: "pool_inv ep" "0 < n" "alloc_block ep n = Some (pos, ep')"
  then have al: "extent_alloc ep n = (pos, ep')" "pos \<noteq> -1"
    by (auto simp: alloc_block_def split: prod.splits if_splits)
  then obtain t l where "es_find ep n = Some (t, l)"
    by (cases "es_find ep n") (auto simp: extent_alloc_def)
  then show "pool_inv ep' \<and> block pos n \<subseteq> free_space ep \<and> free_space ep' = free_space ep - block pos n"
    using extent_alloc_space [OF a(1,2) _ al(1)] extent_alloc_Some [OF a(1,2)] al(1) by auto
next
  fix ep n pos
  assume "pool_inv ep" "0 < n" "block pos n \<inter> free_space ep = {}"
  then show "\<exists>ep'. free_block ep pos n = Some ep' \<and> pool_inv ep' \<and> free_space ep' = free_space ep \<union> block pos n"
    using extent_free_ok [of ep n pos] by (auto simp: free_block_def)
qed

lemma extent_create_inv:
  assumes "0 < n"
  shows "pool_inv (extent_create start n)" "free_space (extent_create start n) = block start n"
    "ep_total (extent_create start n) = n"
proof -
  let ?ep = "\<lparr>ep_freesegs = [], ep_sizes = [], ep_stale = None, ep_total = n\<rparr>"
  have "pool_inv ?ep" "free_space ?ep = {}" by (simp_all add: pool_inv_def)
  then obtain ep' where "extent_free ?ep start n = Some (0, ep')" "pool_inv ep'" "ep_total ep' = n"
    "free_space ep' = block start n"
    using extent_free_ok [of ?ep n start] assms by auto
  then show "pool_inv (extent_create start n)" "free_space (extent_create start n) = block start n"
    "ep_total (extent_create start n) = n"
    by (simp_all add: extent_create_def)
qed

lemma segs_space_card:
  assumes "segs_ok xs"
  shows "finite (segs_space (set xs)) \<and> int (card (segs_space (set xs))) = sum_list (map snd xs)"
  using assms
proof (induction xs)
  case (Cons x xs)
  obtain p s where x: "x = (p, s)" by force
  have "block p s \<inter> segs_space (set xs) = {}"
    using Cons.prems by (fastforce simp: x segs_space_def)
  then show ?case
    using Cons by (simp add: x card_Un_disjoint)
qed simp

section \<open>Properties\<close>

text \<open>Property C28. \<open>extent_alloc\<close> fails, with -1 and the pool as it was, exactly when no free segment is
  large enough. Otherwise it takes the front of a free segment of the smallest sufficient size: the
  block was free, just the block leaves the free space, and the pool stays well formed.\<close>

theorem extent_alloc_best_fit:
  assumes "pool_inv ep" "0 < n"
  shows "if \<forall>(p, s)\<in>set (ep_freesegs ep). s < n then extent_alloc ep n = (-1, ep)
    else \<exists>pos t ep'. extent_alloc ep n = (pos, ep') \<and> (pos, t) \<in> set (ep_freesegs ep) \<and> n \<le> t \<and>
      (\<forall>(p, s)\<in>set (ep_freesegs ep). n \<le> s \<longrightarrow> t \<le> s) \<and>
      pool_inv ep' \<and> block pos n \<subseteq> free_space ep \<and> free_space ep' = free_space ep - block pos n"
proof (cases "es_find ep n")
  case None
  then show ?thesis using es_find_None [OF assms(1)] by (auto simp: extent_alloc_def)
next
  case (Some x)
  then obtain t l where x: "es_find ep n = Some (t, l)" by (cases x) auto
  note f = es_find_Some [OF assms(1) x]
  obtain ep' where a: "extent_alloc ep n = (hd l, ep')" "pool_inv ep'"
    using extent_alloc_Some [OF assms x] by blast
  have "\<not> (\<forall>(p, s)\<in>set (ep_freesegs ep). s < n)" using f(2,3) by force
  moreover have "\<forall>(p, s)\<in>set (ep_freesegs ep). n \<le> s \<longrightarrow> t \<le> s" using f(4) by blast
  ultimately show ?thesis
    using a f extent_alloc_space [OF assms x a(1)] by auto
qed

lemmas extent_eval = extent_alloc_def extent_free_def extent_create_def es_find_def ef_destroy_def ef_move_def
  free_merge_prev_def free_merge_next_def seg_prev_def seg_next_def seg_del_def Let_def

lemma extent_create_16:
  "extent_create 8 16 = \<lparr>ep_freesegs = [(8, 16)], ep_sizes = [(16, [8])], ep_stale = None, ep_total = 16\<rparr>"
  by (simp add: extent_eval)

theorem extent_alloc_best_fit_witness:
  "pool_inv (snd (extent_alloc (extent_create 8 16) 6)) \<and> fst (extent_alloc (extent_create 8 16) 6) = 8 \<and>
   free_space (snd (extent_alloc (extent_create 8 16) 6)) = block 8 16 - block 8 6"
proof -
  have "pool_inv (extent_create 8 16)" "free_space (extent_create 8 16) = block 8 16"
    using extent_create_inv [of 16 8] by simp_all
  moreover have x: "ep_freesegs (extent_create 8 16) = [(8, 16)]" by (simp add: extent_create_16)
  ultimately obtain pos t ep' where "extent_alloc (extent_create 8 16) 6 = (pos, ep')"
    "(pos, t) \<in> set (ep_freesegs (extent_create 8 16))"
    "pool_inv ep'" "free_space ep' = block 8 16 - block pos 6"
    using extent_alloc_best_fit [of "extent_create 8 16" 6] by (simp split: if_splits) blast
  then show ?thesis by (simp add: x)
qed



text \<open>Property C7. Whatever blocks a client takes from a new pool and gives back, in any order, the blocks
  it holds do not overlap, together with the free segments they make up the whole arena, and each of
  them can be given back.\<close>

theorem extent_pool_clients:
  assumes "0 < n" "region_allocator.client alloc_block free_block (extent_create start n) ep bs"
  shows "(\<forall>i<length bs. \<forall>j<i. block (fst (bs ! i)) (snd (bs ! i)) \<inter> block (fst (bs ! j)) (snd (bs ! j)) = {}) \<and>
    (\<Union>(pos, m)\<in>set bs. block pos m) \<inter> free_space ep = {} \<and>
    (\<Union>(pos, m)\<in>set bs. block pos m) \<union> free_space ep = block start n \<and>
    (\<forall>(pos, m)\<in>set bs. \<exists>ep'. extent_free ep pos m = Some (0, ep'))"
proof -
  note c = pool.client_blocks [OF assms(2) extent_create_inv(1) [OF assms(1)]]
  have "\<exists>ep'. extent_free ep pos m = Some (0, ep')" if "(pos, m) \<in> set bs" for pos m
    using split_list [OF that] pool.client_can_release [of "extent_create start n" ep _ pos m] assms extent_create_inv
    by (fastforce simp: free_block_def split: option.splits prod.splits if_splits)
  moreover have "block (fst (bs ! i)) (snd (bs ! i)) \<inter> block (fst (bs ! j)) (snd (bs ! j)) = {}"
    if "i < length bs" "j < i" for i j
    using c that by (auto simp: pool.apart_def sorted_wrt_iff_nth_less case_prod_unfold)
  ultimately show ?thesis
    using c by (auto simp: pool.held_def extent_create_inv [OF assms(1)])
qed

theorem extent_pool_clients_witness:
  "\<exists>ep. region_allocator.client alloc_block free_block (extent_create 8 16) ep [(14, 4)] \<and>
     block 14 4 \<inter> free_space ep = {} \<and> block 14 4 \<union> free_space ep = block 8 (16 :: int)"
proof -
  let ?ep1 = "snd (extent_alloc (extent_create 8 16) 6)"
  let ?ep2 = "snd (extent_alloc ?ep1 4)"
  let ?ep3 = "snd (the (extent_free ?ep2 8 6))"
  have "pool.client (extent_create 8 16) ?ep1 [(8, 6)]"
    by (rule pool.client.take [OF pool.client.start]) (simp_all add: alloc_block_def extent_create_16 extent_eval)
  then have "pool.client (extent_create 8 16) ?ep2 ([(14, 4)] @ (8, 6) # [])"
    unfolding append_Cons append_Nil
    by (rule pool.client.take) (simp_all add: alloc_block_def extent_create_16 extent_eval)
  then have "pool.client (extent_create 8 16) ?ep3 ([(14, 4)] @ [])"
    by (rule pool.client.give) (simp add: free_block_def extent_create_16 extent_eval)
  then have c: "pool.client (extent_create 8 16) ?ep3 [(14, 4)]" by simp
  show ?thesis
    by (rule exI [of _ ?ep3], rule conjI [OF c])
      (use extent_pool_clients [OF _ c] in \<open>simp del: split_paired_All\<close>)
qed

text \<open>\<open>extent_stats\<close> reports the size of the free space.\<close>

theorem extent_stats_space:
  assumes "pool_inv ep"
  shows "extent_stats ep = (ep_total ep, int (card (free_space ep)), length (ep_freesegs ep))"
  using assms by (simp add: extent_stats_def segs_space_card pool_inv_def)

theorem extent_stats_space_witness:
  "extent_stats (extent_create 8 16) = (16, int (card (block 8 (16 :: int))), 1)"
  using extent_stats_space [OF extent_create_inv(1) [of 16 8]]
  by (simp only: extent_create_inv [of 16 8]) (simp add: extent_create_16)

lemma round_up_bits:
  fixes x :: int
  assumes "al = 2 ^ k - 1"
  shows "2 ^ k dvd (x + al) AND NOT al" "x \<le> (x + al) AND NOT al" "(x + al) AND NOT al \<le> x + al"
proof -
  let ?y = "x + al"
  have "(?y AND NOT al) + (?y AND al) = (?y AND NOT al) OR (?y AND al)"
    by (rule disjunctive_add_eq_or) (simp add: bit_eq_iff bit_simps)
  also have "\<dots> = ?y" by (auto simp: bit_eq_iff bit_simps)
  also have "?y AND al = ?y mod 2 ^ k"
    by (simp add: assms mask_eq_exp_minus_1 [symmetric] take_bit_eq_mask [symmetric] take_bit_eq_mod)
  finally have "?y AND NOT al = ?y - ?y mod 2 ^ k" by simp
  moreover have "(x + al) mod 2 ^ k \<le> al" "0 \<le> (x + al) mod 2 ^ k"
    unfolding assms by simp_all
  ultimately show "2 ^ k dvd (x + al) AND NOT al" "x \<le> (x + al) AND NOT al" "(x + al) AND NOT al \<le> x + al"
    by (simp add: minus_mod_eq_mult_div, linarith, linarith)
qed

lemma extent_free_total: "ep_stale ep = None \<Longrightarrow> \<exists>r ep'. extent_free ep pos n = Some (r, ep')"
  by (simp add: extent_free_def Let_def split: prod.splits)

text \<open>The segment is cut behind the aligned block, and what lies before the block is released again.\<close>

lemma aligned_split:
  assumes inv: "pool_inv ep" and n: "0 < n" and seg: "(pos, t) \<in> set (ep_freesegs ep)"
    and fr: "extent_free (ef_move ep pos t (rval + n) (pos + t - (rval + n))) pos (rval - pos) = Some (r, ep')"
    and rv: "pos \<le> rval" "rval + n \<le> pos + t" and rest: "rval + n \<in> free_space ep"
  shows "pool_inv ep' \<and> free_space ep' = free_space ep - block rval n"
proof -
  let ?sz = "pos + t - (rval + n)" and ?mv = "ef_move ep pos t (rval + n) (pos + t - (rval + n))"
  have ok: "segs_ok (ep_freesegs ep)" using inv by (simp add: pool_inv_def)
  obtain q s where q: "(q, s) \<in> set (ep_freesegs ep)" "q \<le> rval + n" "rval + n < q + s"
    using rest by (auto simp: segs_space_def)
  then have sz: "0 < ?sz" using segs_ok_cases [OF ok seg q(1)] rv n by auto
  have mv: "pool_inv ?mv" "set (ep_freesegs ?mv) = insert (rval + n, ?sz) (set (ep_freesegs ep) - {(pos, t)})"
    by (rule ef_move_inv [OF inv seg]; use rv n sz in simp)+
  then have sp: "free_space ?mv = block (rval + n) ?sz \<union> (free_space ep - block pos t)"
    using segs_space_disjoint [OF ok seg] by simp
  have "pool_inv ep' \<and> free_space ep' = free_space ?mv \<union> block pos (rval - pos)"
  proof (cases "rval = pos")
    case True
    then show ?thesis using fr mv(1) extent_free_zero by auto
  next
    case False
    then have "block pos (rval - pos) \<inter> free_space ?mv = {}" using sp rv n by auto
    then show ?thesis using extent_free_ok [OF mv(1), of "rval - pos" pos] fr False rv(1) by auto
  qed
  then show ?thesis using sp block_in_space [OF seg] rv n sz by auto
qed

text \<open>An aligned allocation whose alignment is a power of two returns a multiple of it and a
  block that was free. When free space follows the block in its segment the pool stays well
  formed and just the block leaves the free space.\<close>

theorem extent_alloc_aligned_ok:
  assumes "pool_inv ep" "0 < n" "0 < k"
  shows "if \<forall>(p, s)\<in>set (ep_freesegs ep). s < n + 2 ^ k - 1 then extent_alloc_aligned ep n (2 ^ k) = Some (-1, ep)
    else \<exists>rval ep'. extent_alloc_aligned ep n (2 ^ k) = Some (rval, ep') \<and> 2 ^ k dvd rval \<and>
      block rval n \<subseteq> free_space ep \<and>
      (rval + n \<in> free_space ep \<longrightarrow> pool_inv ep' \<and> free_space ep' = free_space ep - block rval n)"
proof -
  let ?al = "2 ^ k - 1 :: int"
  have al: "\<not> (2 :: int) ^ k < 2" using assms(3) by (simp add: self_le_power not_less)
  show ?thesis
  proof (cases "es_find ep (n + ?al)")
    case None
    then show ?thesis
      using es_find_None [OF assms(1) None] al
      by (auto simp: extent_alloc_aligned_def Let_def algebra_simps)
  next
    case (Some x)
    then obtain t l where x: "es_find ep (n + ?al) = Some (t, l)" by (cases x) auto
    define pos where "pos = hd l"
    define rval where "rval = (pos + ?al) AND NOT ?al"
    define sz where "sz = pos + t - (rval + n)"
    note f = es_find_Some [OF assms(1) x, folded pos_def]
    have rv: "2 ^ k dvd rval" "pos \<le> rval" "rval \<le> pos + ?al"
      unfolding rval_def by (rule round_up_bits [OF refl])+
    have ok: "segs_ok (ep_freesegs ep)" "ep_stale ep = None" using assms(1) by (simp_all add: pool_inv_def)
    let ?mv = "ef_move ep pos t (rval + n) sz"
    obtain r ep' where fr: "extent_free ?mv pos (rval - pos) = Some (r, ep')"
      using extent_free_total [of ?mv pos "rval - pos"] ok(2) by (auto simp: ef_move_def)
    have res: "extent_alloc_aligned ep n (2 ^ k) = Some (rval, ep')"
      using x fr al by (simp add: extent_alloc_aligned_def Let_def pos_def [symmetric] rval_def [symmetric] sz_def)
    have seg: "block pos t \<subseteq> free_space ep" by (rule block_in_space [OF f(3)])
    have "pool_inv ep' \<and> free_space ep' = free_space ep - block rval n" if "rval + n \<in> free_space ep"
      using aligned_split [OF assms(1,2) f(3) _ rv(2) _ that, of r ep'] fr rv(3) f(2) by (simp add: sz_def)
    moreover have "block rval n \<subseteq> free_space ep" using seg rv f(2) by auto
    moreover have "\<not> (\<forall>(p, s)\<in>set (ep_freesegs ep). s < n + 2 ^ k - 1)" using f(2,3) by force
    ultimately show ?thesis using res rv(1) by auto
  qed
qed

text \<open>Where the aligned block ends with its segment, an empty segment is left in the pool at
  the end of the block. Here it makes the release of a block that the pool handed out fail: the
  second block of 5 starts where the empty segment lies, and \<open>extent_free\<close> answers -1.\<close>

theorem extent_alloc_aligned_loses_block:
  "case extent_alloc (extent_create 1 10) 5 of (x, ep1) \<Rightarrow>
   case extent_alloc ep1 5 of (y, ep2) \<Rightarrow>
   case extent_free ep2 x 5 of Some (r, ep3) \<Rightarrow>
   case extent_alloc_aligned ep3 4 2 of Some (z, ep4) \<Rightarrow>
     (x, y, r, z) = (1, 6, 0, 2) \<and> ep_freesegs ep4 = [(1, 1), (6, 0)] \<and> \<not> pool_inv ep4 \<and>
     extent_free ep4 y 5 = Some (-1, ep4)"
  by (simp add: extent_alloc_aligned_def extent_eval pool_inv_def)

text \<open>\<open>extent_destroy\<close> removes every segment, whatever the shape of the tree, and the tree of
  sizes is empty at the end, as the function asserts.\<close>

theorem extent_destroy_assertion:
  assumes "pool_inv ep"
  shows "ep_freesegs (extent_destroy root ep) = [] \<and> ep_sizes (extent_destroy root ep) = []"
  using assms
proof (induction root ep rule: extent_destroy.induct)
  case (1 root ep)
  show ?case
  proof (cases "ep_freesegs ep = []")
    case True
    then have "sizes_entries (ep_sizes ep) = {}" "sizes_ok (ep_sizes ep)" using 1(2) by (simp_all add: pool_inv_def)
    then have "ep_sizes ep = []" by (cases "ep_sizes ep") auto
    with True show ?thesis by (simp add: extent_destroy.simps)
  next
    case False
    obtain ef sz where x: "ep_freesegs ep ! (root (ep_freesegs ep) mod length (ep_freesegs ep)) = (ef, sz)" by force
    then have "(ef, sz) \<in> set (ep_freesegs ep)" by (metis False length_greater_0_conv mod_less_divisor nth_mem)
    then have "pool_inv (ef_destroy ep ef sz)" by (rule ef_destroy_inv(1) [OF 1(2)])
    with 1(1) [OF refl False refl] x False show ?thesis
      by (subst (1 2) extent_destroy.simps) (simp add: Let_def)
  qed
qed

theorem extent_destroy_assertion_witness:
  "ep_sizes (extent_destroy (\<lambda>_. 0) (extent_create 8 16)) = []"
  using extent_destroy_assertion [OF extent_create_inv(1) [of 16 8]] by simp

end
