(* ===== verification/Prop.thy ===== *)
theory Prop
  imports Prelude "HOL-Library.Monad_Syntax"
begin

text \<open>
  The property tree of \<^verbatim>\<open>src/src/prop/prop_core.c\<close>, through which the parts of the program share their
  state: a store of nodes with values or children, and subscriptions that are told of every change.
  All of it is guarded by one mutex, so that an operation is one step from a state to a state.

  A node and a subscription are numbers, their memory is never reused. The flags of a node are fields
  of its record. What a subscription is sent is appended to its log, whether the code calls the
  subscriber at once or queues the notification for a courier. \<open>None\<close> is a failed assertion, a call of
  \<^verbatim>\<open>abort\<close>, or a corrupted list. Links between nodes (\<^verbatim>\<open>prop_link0\<close>, \<^verbatim>\<open>prop_unlink0\<close>) are not modelled: an
  operation that would have to follow one gives \<open>None\<close>. The parameter \<open>f2i\<close> is the conversion of a \<^verbatim>\<open>float\<close>
  to an \<^verbatim>\<open>int\<close>.

  Recursion over the tree takes fuel; the operations start it with the number of nodes, and
  the theory \<open>Prop_Tree\<close> shows that this is enough.
\<close>

section \<open>State\<close>

type_synonym pid = nat
type_synonym sid = nat

datatype payload =
    PROP_VOID
  | PROP_DIR (hp_childs: "pid list") (hp_selected: "pid option")
  | PROP_RSTRING bytes nat
  | PROP_CSTRING bytes
  | PROP_FLOAT u32 u32 u32
  | PROP_INT u32 u32 u32
  | PROP_URI "bytes option" "bytes option"
  | PROP_PROP pid
  | PROP_ZOMBIE

datatype prop_event =
    SET_VOID
  | SET_DIR
  | SET_RSTRING bytes nat
  | SET_CSTRING bytes
  | SET_FLOAT u32
  | SET_INT u32
  | SET_URI "bytes option" "bytes option"
  | SET_PROP pid
  | ADD_CHILD pid bool
  | ADD_CHILD_BEFORE pid "pid option"
  | ADD_CHILD_VECTOR "pid list"
  | ADD_CHILD_VECTOR_BEFORE "pid list" pid
  | ADD_CHILD_VECTOR_DIRECT "pid list"
  | DEL_CHILD pid
  | MOVE_CHILD pid "pid option"
  | REQ_MOVE_CHILD pid "pid option"
  | SELECT_CHILD "pid option" "pid option"
  | SUGGEST_FOCUS pid
  | SUBSCRIPTION_MONITOR_ACTIVE
  | DESTROYED

record prop_t =
  hp_name :: "bytes option"
  hp_parent :: "pid option"
  hp_originator :: "pid option"
  hp_targets :: "pid list"
  hp_value_subscriptions :: "sid list"
  hp_canonical_subscriptions :: "sid list"
  hp_payload :: payload
  hp_xref :: u8
  hp_clipped :: bool
  hp_monitored :: bool
  hp_multi_sub :: bool
  hp_multi_notify :: bool
  hp_marked :: bool

record prop_sub =
  hps_value_prop :: "pid option"
  hps_canonical_prop :: "pid option"
  hps_ignore_void :: bool
  hps_multi :: bool
  hps_monitor :: bool
  hps_track_destroy :: bool
  hps_no_initial_update :: bool
  hps_internal :: bool
  hps_zombie :: bool
  hps_log :: "prop_event list"

record pstate =
  ps_props :: "pid \<Rightarrow> prop_t"
  ps_subs :: "sid \<Rightarrow> prop_sub"
  ps_next :: pid
  ps_next_sub :: sid

abbreviation hp :: "pstate \<Rightarrow> pid \<Rightarrow> prop_t" where
  "hp S p \<equiv> ps_props S p"

abbreviation sub :: "pstate \<Rightarrow> sid \<Rightarrow> prop_sub" where
  "sub S s \<equiv> ps_subs S s"

definition upd_prop :: "pid \<Rightarrow> (prop_t \<Rightarrow> prop_t) \<Rightarrow> pstate \<Rightarrow> pstate" where
  "upd_prop p f S = S\<lparr>ps_props := (ps_props S)(p := f (hp S p))\<rparr>"

definition upd_sub :: "sid \<Rightarrow> (prop_sub \<Rightarrow> prop_sub) \<Rightarrow> pstate \<Rightarrow> pstate" where
  "upd_sub s f S = S\<lparr>ps_subs := (ps_subs S)(s := f (sub S s))\<rparr>"

definition childs :: "pstate \<Rightarrow> pid \<Rightarrow> pid list" where
  "childs S p = (case hp_payload (hp S p) of PROP_DIR cs _ \<Rightarrow> cs | _ \<Rightarrow> [])"

definition is_dir :: "payload \<Rightarrow> bool" where
  "is_dir v = (case v of PROP_DIR _ _ \<Rightarrow> True | _ \<Rightarrow> False)"

abbreviation set_payload :: "pid \<Rightarrow> payload \<Rightarrow> pstate \<Rightarrow> pstate" where
  "set_payload p v \<equiv> upd_prop p (hp_payload_update (\<lambda>_. v))"

text \<open>A change of the list of children; the other kinds of nodes have none.\<close>

definition map_childs :: "(pid list \<Rightarrow> pid list) \<Rightarrow> payload \<Rightarrow> payload" where
  "map_childs f v = (case v of PROP_DIR cs sel \<Rightarrow> PROP_DIR (f cs) sel | _ \<Rightarrow> v)"

definition unselect :: "pid \<Rightarrow> payload \<Rightarrow> payload" where
  "unselect c v =
     (case v of PROP_DIR cs sel \<Rightarrow> PROP_DIR cs (if sel = Some c then None else sel) | _ \<Rightarrow> v)"

abbreviation upd_childs :: "pid \<Rightarrow> (pid list \<Rightarrow> pid list) \<Rightarrow> pstate \<Rightarrow> pstate" where
  "upd_childs p f \<equiv> upd_prop p (hp_payload_update (map_childs f))"

abbreviation set_parent :: "pid \<Rightarrow> pid option \<Rightarrow> pstate \<Rightarrow> pstate" where
  "set_parent p q \<equiv> upd_prop p (hp_parent_update (\<lambda>_. q))"

text \<open>The macros \<^verbatim>\<open>TAILQ_INSERT_BEFORE\<close>, \<^verbatim>\<open>TAILQ_INSERT_AFTER\<close>, \<^verbatim>\<open>TAILQ_NEXT\<close>, and a loop that may stop the
  program.\<close>

fun insert_before :: "pid \<Rightarrow> pid \<Rightarrow> pid list \<Rightarrow> pid list" where
  "insert_before b c [] = [c]"
| "insert_before b c (x # xs) = (if x = b then c # x # xs else x # insert_before b c xs)"

fun insert_after :: "pid \<Rightarrow> pid \<Rightarrow> pid list \<Rightarrow> pid list" where
  "insert_after a c [] = [c]"
| "insert_after a c (x # xs) = (if x = a then x # c # xs else x # insert_after a c xs)"

definition insert_at :: "pid option \<Rightarrow> pid \<Rightarrow> pid list \<Rightarrow> pid list" where
  "insert_at before c xs = (case before of None \<Rightarrow> xs @ [c] | Some b \<Rightarrow> insert_before b c xs)"

fun next_in :: "pid \<Rightarrow> pid list \<Rightarrow> pid option" where
  "next_in c [] = None"
| "next_in c (x # xs) = (if x = c then (case xs of [] \<Rightarrow> None | y # _ \<Rightarrow> Some y) else next_in c xs)"

definition prev_in :: "pid \<Rightarrow> pid list \<Rightarrow> pid option" where
  "prev_in c xs = next_in c (rev xs)"

fun forM :: "('a \<Rightarrow> 's \<Rightarrow> 's option) \<Rightarrow> 'a list \<Rightarrow> 's \<Rightarrow> 's option" where
  "forM f [] S = Some S"
| "forM f (x # xs) S = f x S \<bind> forM f xs"

section \<open>Notifications\<close>

definition log_event :: "sid \<Rightarrow> prop_event \<Rightarrow> pstate \<Rightarrow> pstate" where
  "log_event s e = upd_sub s (hps_log_update (\<lambda>l. l @ [e]))"

definition value_event :: "payload \<Rightarrow> prop_event option" where
  "value_event v =
     (case v of
        PROP_VOID \<Rightarrow> Some SET_VOID
      | PROP_DIR _ _ \<Rightarrow> Some SET_DIR
      | PROP_RSTRING str type \<Rightarrow> Some (SET_RSTRING str type)
      | PROP_CSTRING str \<Rightarrow> Some (SET_CSTRING str)
      | PROP_FLOAT f _ _ \<Rightarrow> Some (SET_FLOAT f)
      | PROP_INT i _ _ \<Rightarrow> Some (SET_INT i)
      | PROP_URI title uri \<Rightarrow> Some (SET_URI title uri)
      | PROP_PROP q \<Rightarrow> Some (SET_PROP q)
      | PROP_ZOMBIE \<Rightarrow> None)"

text \<open>What a subscriber is told that is called at once. A reference to a node is announced as a directory
  there.\<close>

definition direct_event :: "payload \<Rightarrow> prop_event option" where
  "direct_event v = (case v of PROP_PROP q \<Rightarrow> Some SET_DIR | _ \<Rightarrow> value_event v)"

definition prop_build_notify_value :: "sid \<Rightarrow> bool \<Rightarrow> pid \<Rightarrow> pstate \<Rightarrow> pstate option" where
  "prop_build_notify_value s direct p S =
     (if hps_ignore_void (sub S s) \<and> hp_payload (hp S p) = PROP_VOID then Some S
      else case (if direct \<or> hps_internal (sub S s) then direct_event else value_event) (hp_payload (hp S p)) of
             None \<Rightarrow> None
           | Some e \<Rightarrow> Some (log_event s e S))"

definition prop_notify_void :: "sid \<Rightarrow> pstate \<Rightarrow> pstate" where
  "prop_notify_void s S = (if hps_ignore_void (sub S s) then S else log_event s SET_VOID S)"

definition prop_notify_destroyed :: "sid \<Rightarrow> pstate \<Rightarrow> pstate" where
  "prop_notify_destroyed s = log_event s DESTROYED"

text \<open>The nodes above a node, nearest first.\<close>

fun prop_ancestors :: "nat \<Rightarrow> pstate \<Rightarrow> pid \<Rightarrow> pid list" where
  "prop_ancestors 0 S p = []"
| "prop_ancestors (Suc n) S p =
     (case hp_parent (hp S p) of None \<Rightarrow> [] | Some q \<Rightarrow> q # prop_ancestors n S q)"

definition prop_notify_value :: "pid \<Rightarrow> sid option \<Rightarrow> pstate \<Rightarrow> pstate option" where
  "prop_notify_value p skipme S =
     do {
       S1 \<leftarrow> forM (\<lambda>s S. if Some s = skipme then Some S
                        else case hps_value_prop (sub S s) of
                               None \<Rightarrow> None
                             | Some v \<Rightarrow> prop_build_notify_value s False v S)
              (hp_value_subscriptions (hp S p)) S;
       if hp_multi_notify (hp S1 p) then
         forM (\<lambda>q S. if hp_multi_sub (hp S q) then
                        forM (\<lambda>s S. if hps_multi (sub S s) then prop_build_notify_value s False q S else Some S)
                          (hp_value_subscriptions (hp S q)) S
                      else Some S)
           (prop_ancestors (ps_next S1) S1 p) S1
       else Some S1
     }"

text \<open>\<^verbatim>\<open>prop_notify_child\<close>, \<^verbatim>\<open>prop_notify_child2\<close> and \<^verbatim>\<open>prop_notify_childv\<close> differ in the payload of the event.\<close>

definition prop_notify_child :: "pid \<Rightarrow> prop_event \<Rightarrow> sid option \<Rightarrow> pstate \<Rightarrow> pstate" where
  "prop_notify_child parent e skipme S =
     fold (\<lambda>s S. if Some s = skipme then S else log_event s e S) (hp_value_subscriptions (hp S parent)) S"

definition prop_send_subscription_monitor_active :: "pid \<Rightarrow> pstate \<Rightarrow> pstate" where
  "prop_send_subscription_monitor_active p S =
     fold (\<lambda>s S. if hps_monitor (sub S s) then log_event s SUBSCRIPTION_MONITOR_ACTIVE S else S)
       (hp_value_subscriptions (hp S p)) S"

section \<open>Destruction\<close>

text \<open>The loops over the subscriptions of a node at its end.\<close>

definition drop_canonical_sub :: "pid \<Rightarrow> sid \<Rightarrow> pstate \<Rightarrow> pstate" where
  "drop_canonical_sub p s S =
     (let S1 = upd_sub s (hps_canonical_prop_update (\<lambda>_. None))
                 (upd_prop p (hp_canonical_subscriptions_update (remove1 s)) S)
      in if hps_track_destroy (sub S1 s) then prop_notify_destroyed s S1 else S1)"

definition drop_value_sub :: "pid \<Rightarrow> sid \<Rightarrow> pstate \<Rightarrow> pstate" where
  "drop_value_sub p s S =
     upd_sub s (hps_value_prop_update (\<lambda>_. None))
       (upd_prop p (hp_value_subscriptions_update (remove1 s)) (prop_notify_void s S))"

definition become_zombie :: "pid \<Rightarrow> pstate \<Rightarrow> pstate" where
  "become_zombie p S =
     (let S1 = set_payload p PROP_ZOMBIE S;
          S2 = fold (drop_canonical_sub p) (hp_canonical_subscriptions (hp S1 p)) S1
      in fold (drop_value_sub p) (hp_value_subscriptions (hp S2 p)) S2)"

text \<open>The end of \<open>prop_destroy0\<close>: the node leaves its parent.\<close>

definition leave_parent :: "pid \<Rightarrow> pstate \<Rightarrow> pstate" where
  "leave_parent p S =
     (case hp_parent (hp S p) of
        None \<Rightarrow> S
      | Some parent \<Rightarrow>
          upd_prop parent (hp_payload_update (unselect p))
            (set_parent p None
              (upd_childs parent (remove1 p)
                (prop_notify_child parent (DEL_CHILD p) None S))))"

fun prop_destroy0 :: "nat \<Rightarrow> pid \<Rightarrow> pstate \<Rightarrow> (bool \<times> pstate) option"
and destroy_childs_loop :: "nat \<Rightarrow> pid \<Rightarrow> pid list \<Rightarrow> pstate \<Rightarrow> pstate option" where
  "prop_destroy0 0 p S = None"
| "prop_destroy0 (Suc n) p S =
     (if hp_payload (hp S p) = PROP_ZOMBIE then Some (False, S)
      else
        let S1 = upd_prop p (hp_xref_update (\<lambda>x. x - 1)) S in
        if hp_xref (hp S1 p) \<noteq> 0 then Some (False, S1)
        else if hp_targets (hp S1 p) \<noteq> [] then None
        else do {
          S2 \<leftarrow> destroy_childs_loop n p (childs S1 p) S1;
          let S3 = become_zombie p S2;
          if hp_originator (hp S3 p) \<noteq> None then None
          else Some (True, upd_prop p (hp_name_update (\<lambda>_. None)) (leave_parent p S3))
        })"
| "destroy_childs_loop n p [] S = Some S"
| "destroy_childs_loop n p (c # cs) S =
     do {
       (r, S1) \<leftarrow> prop_destroy0 n c S;
       destroy_childs_loop n p cs
         (if r then S1
          else set_parent c None
                 (upd_childs p (remove1 c) (prop_notify_child p (DEL_CHILD c) None S1)))
     }"

definition prop_destroy_child :: "pid \<Rightarrow> pid \<Rightarrow> pstate \<Rightarrow> pstate option" where
  "prop_destroy_child p c S = destroy_childs_loop (Suc (ps_next S)) p [c] S"

definition prop_destroy :: "pid option \<Rightarrow> pstate \<Rightarrow> pstate option" where
  "prop_destroy p S =
     (case p of None \<Rightarrow> Some S | Some q \<Rightarrow> map_option snd (prop_destroy0 (Suc (ps_next S)) q S))"

definition prop_destroy_childs0 :: "pid \<Rightarrow> pstate \<Rightarrow> pstate option" where
  "prop_destroy_childs0 p S =
     do {
       S1 \<leftarrow> prop_notify_value p None (set_payload p PROP_VOID S);
       forM (\<lambda>c S. map_option snd (prop_destroy0 (Suc (ps_next S)) c (set_parent c None S))) (childs S p) S1
     }"

definition prop_destroy_childs :: "pid option \<Rightarrow> pstate \<Rightarrow> pstate option" where
  "prop_destroy_childs p S =
     (case p of
        None \<Rightarrow> Some S
      | Some q \<Rightarrow> if is_dir (hp_payload (hp S q)) then prop_destroy_childs0 q S else Some S)"

definition prop_destroy_by_name :: "pid \<Rightarrow> bytes option \<Rightarrow> pstate \<Rightarrow> pstate option" where
  "prop_destroy_by_name p name S =
     (if is_dir (hp_payload (hp S p)) then
        (case name of
           None \<Rightarrow>
             forM (\<lambda>c S. if hp_name (hp S c) = None then prop_destroy_child p c S else Some S) (childs S p) S
         | Some n \<Rightarrow>
             (case find (\<lambda>c. hp_name (hp S c) = Some n) (childs S p) of
                None \<Rightarrow> Some S
              | Some c \<Rightarrow> prop_destroy_child p c S))
      else Some S)"

definition prop_destroy_first :: "pid \<Rightarrow> pstate \<Rightarrow> pstate option" where
  "prop_destroy_first p S =
     (case childs S p of [] \<Rightarrow> Some S | c # _ \<Rightarrow> prop_destroy_child p c S)"

definition prop_mark_childs :: "pid \<Rightarrow> pstate \<Rightarrow> pstate" where
  "prop_mark_childs p S = fold (\<lambda>c. upd_prop c (hp_marked_update (\<lambda>_. True))) (childs S p) S"

definition prop_unmark :: "pid option \<Rightarrow> pstate \<Rightarrow> pstate" where
  "prop_unmark p S = (case p of None \<Rightarrow> S | Some q \<Rightarrow> upd_prop q (hp_marked_update (\<lambda>_. False)) S)"

definition prop_is_marked :: "pid \<Rightarrow> pstate \<Rightarrow> bool" where
  "prop_is_marked p S = hp_marked (hp S p)"

definition prop_destroy_marked_childs :: "pid \<Rightarrow> pstate \<Rightarrow> pstate option" where
  "prop_destroy_marked_childs p S =
     forM (\<lambda>c S. if hp_marked (hp S c) then map_option snd (prop_destroy0 (Suc (ps_next S)) c S) else Some S)
       (childs S p) S"

text \<open>\<open>prop_clean\<close> frees the value of a node that gets a new one; the result tells whether it refuses.\<close>

fun prop_check_canonical_subs_descending :: "nat \<Rightarrow> pstate \<Rightarrow> pid \<Rightarrow> bool" where
  "prop_check_canonical_subs_descending 0 S p = False"
| "prop_check_canonical_subs_descending (Suc n) S p =
     list_ex (\<lambda>c. hp_canonical_subscriptions (hp S c) \<noteq> [] \<or> prop_check_canonical_subs_descending n S c)
       (childs S p)"

definition prop_clean :: "pid \<Rightarrow> pstate \<Rightarrow> (bool \<times> pstate) option" where
  "prop_clean p S =
     (if hp_clipped (hp S p) then Some (True, S)
      else
        case hp_payload (hp S p) of
          PROP_DIR _ _ \<Rightarrow>
            (if prop_check_canonical_subs_descending (ps_next S) S p then Some (True, S)
             else map_option (Pair False) (prop_destroy_childs0 p S))
        | PROP_ZOMBIE \<Rightarrow> Some (True, S)
        | _ \<Rightarrow> Some (False, S))"

section \<open>Creation\<close>

definition prop_make_dir :: "pid \<Rightarrow> sid option \<Rightarrow> pstate \<Rightarrow> pstate option" where
  "prop_make_dir p skipme S =
     (if is_dir (hp_payload (hp S p)) then Some S
      else do {
        (refused, S1) \<leftarrow> prop_clean p S;
        if refused then None
        else prop_notify_value p skipme (set_payload p (PROP_DIR [] None) S1)
      })"

definition prop_insert :: "pid \<Rightarrow> pid \<Rightarrow> pid option \<Rightarrow> sid option \<Rightarrow> pstate \<Rightarrow> pstate option" where
  "prop_insert p parent before skipme S =
     (case before of
        Some b \<Rightarrow>
          (if hp_parent (hp S b) \<noteq> Some parent then None
           else Some (prop_notify_child parent (ADD_CHILD_BEFORE p (Some b)) skipme
                        (upd_childs parent (insert_before b p) S)))
      | None \<Rightarrow>
          Some (prop_notify_child parent (ADD_CHILD p False) skipme (upd_childs parent (\<lambda>cs. cs @ [p]) S)))"

text \<open>Whether the name is allocated or a constant of the program is not part of the state.\<close>

definition new_prop :: "bytes option \<Rightarrow> pid option \<Rightarrow> prop_t" where
  "new_prop name parent =
     \<lparr>hp_name = name, hp_parent = parent, hp_originator = None, hp_targets = [],
      hp_value_subscriptions = [], hp_canonical_subscriptions = [], hp_payload = PROP_VOID, hp_xref = 1,
      hp_clipped = False, hp_monitored = False, hp_multi_sub = False, hp_multi_notify = False,
      hp_marked = False\<rparr>"

definition prop_make :: "bytes option \<Rightarrow> pid option \<Rightarrow> pstate \<Rightarrow> pid \<times> pstate" where
  "prop_make name parent S =
     (ps_next S, S\<lparr>ps_props := (ps_props S)(ps_next S := new_prop name parent), ps_next := ps_next S + 1\<rparr>)"

fun prop_flood_flag :: "nat \<Rightarrow> bool \<Rightarrow> pid \<Rightarrow> pstate \<Rightarrow> pstate"
and prop_flood_flag_on_childs :: "nat \<Rightarrow> bool \<Rightarrow> pid list \<Rightarrow> pstate \<Rightarrow> pstate" where
  "prop_flood_flag 0 v p S = S"
| "prop_flood_flag (Suc n) v p S =
     prop_flood_flag_on_childs n v (childs S p) (upd_prop p (hp_multi_notify_update (\<lambda>_. v)) S)"
| "prop_flood_flag_on_childs n v [] S = S"
| "prop_flood_flag_on_childs n v (c # cs) S = prop_flood_flag_on_childs n v cs (prop_flood_flag n v c S)"

definition flood_below :: "pid \<Rightarrow> pid \<Rightarrow> pstate \<Rightarrow> pstate" where
  "flood_below parent p S =
     (if hp_multi_sub (hp S parent) \<or> hp_multi_notify (hp S parent)
      then prop_flood_flag (ps_next S) True p S else S)"

definition child_named :: "pstate \<Rightarrow> pid \<Rightarrow> bytes \<Rightarrow> pid option" where
  "child_named S parent name = find (\<lambda>c. hp_name (hp S c) = Some name) (childs S parent)"

definition prop_create0 ::
  "pid \<Rightarrow> bytes option \<Rightarrow> sid option \<Rightarrow> pstate \<Rightarrow> (pid \<times> pstate) option" where
  "prop_create0 parent name skipme S =
     (if hp_payload (hp S parent) = PROP_ZOMBIE then None
      else do {
        S1 \<leftarrow> prop_make_dir parent skipme S;
        case (case name of None \<Rightarrow> None | Some n \<Rightarrow> child_named S1 parent n) of
          Some p \<Rightarrow> Some (p, S1)
        | None \<Rightarrow>
            (let (p, S2) = prop_make name (Some parent) S1;
                 S3 = flood_below parent p S2
             in map_option (Pair p) (prop_insert p parent None skipme S3))
      })"

definition prop_create_ex ::
  "pid option \<Rightarrow> bytes option \<Rightarrow> sid option \<Rightarrow> pstate \<Rightarrow> (pid option \<times> pstate) option" where
  "prop_create_ex parent name skipme S =
     (case parent of
        None \<Rightarrow> Some (None, S)
      | Some q \<Rightarrow>
          (if hp_payload (hp S q) = PROP_ZOMBIE then Some (None, S)
           else map_option (apfst Some) (prop_create0 q name skipme S)))"

definition prop_create_root_ex :: "bytes option \<Rightarrow> pstate \<Rightarrow> pid \<times> pstate" where
  "prop_create_root_ex name S = prop_make name None S"

fun prop_create_path :: "pid \<Rightarrow> bytes list \<Rightarrow> pstate \<Rightarrow> (pid \<times> pstate) option" where
  "prop_create_path p [] S = Some (p, S)"
| "prop_create_path p (name # names) S =
     do { (q, S1) \<leftarrow> prop_create0 p (Some name) None S; prop_create_path q names S1 }"

definition prop_create_multi ::
  "pid option \<Rightarrow> bytes list \<Rightarrow> pstate \<Rightarrow> (pid option \<times> pstate) option" where
  "prop_create_multi p names S =
     (case p of
        None \<Rightarrow> Some (None, S)
      | Some q \<Rightarrow>
          (if hp_payload (hp S q) \<noteq> PROP_ZOMBIE then Some (Some q, S)
           else map_option (apfst Some) (prop_create_path q names S)))"

definition insert_behind :: "pid option \<Rightarrow> pid \<Rightarrow> pid list \<Rightarrow> pid list option" where
  "insert_behind after p cs =
     (case after of
        None \<Rightarrow> Some (p # cs)
      | Some a \<Rightarrow> if a \<in> set cs then Some (insert_after a p cs) else None)"

definition prop_create_after ::
  "pid option \<Rightarrow> bytes \<Rightarrow> pid option \<Rightarrow> sid option \<Rightarrow> pstate \<Rightarrow> (pid option \<times> pstate) option" where
  "prop_create_after parent name after skipme S =
     (case parent of
        None \<Rightarrow> Some (None, S)
      | Some q \<Rightarrow>
          (if hp_payload (hp S q) = PROP_ZOMBIE then Some (None, S)
           else do {
             S1 \<leftarrow> prop_make_dir q skipme S;
             case child_named S1 q name of
               None \<Rightarrow>
                 (let (p, S2) = prop_make (Some name) (Some q) S1 in
                  do {
                    cs \<leftarrow> insert_behind after p (childs S2 q);
                    let S3 = upd_childs q (\<lambda>_. cs) S2;
                    Some (Some p,
                          case next_in p cs of
                            None \<Rightarrow> prop_notify_child q (ADD_CHILD_BEFORE p None) skipme S3
                          | Some _ \<Rightarrow> prop_notify_child q (ADD_CHILD p False) skipme S3)
                  })
             | Some p \<Rightarrow>
                 (if prev_in p (childs S1 q) = after then Some (Some p, S1)
                  else do {
                    cs \<leftarrow> insert_behind after p (remove1 p (childs S1 q));
                    Some (Some p,
                          prop_notify_child q (MOVE_CHILD p (next_in p cs)) skipme (upd_childs q (\<lambda>_. cs) S1))
                  })
           }))"

section \<open>Hierarchy\<close>

definition prop_unparent0 :: "pid \<Rightarrow> sid option \<Rightarrow> pstate \<Rightarrow> pstate option" where
  "prop_unparent0 p skipme S =
     (if hp_parent (hp S p) = None then Some S
      else if hp_multi_notify (hp S p) then None
      else Some (leave_parent p S))"

text \<open>The loop of \<open>prop_unparent_childs\<close>, which passes \<open>p\<close> where a child is meant.\<close>

definition prop_unparent_childs :: "pid \<Rightarrow> pstate \<Rightarrow> pstate option" where
  "prop_unparent_childs p S = forM (\<lambda>c. prop_unparent0 p None) (childs S p) S"

definition prop_move0 :: "pid \<Rightarrow> pid option \<Rightarrow> sid option \<Rightarrow> pstate \<Rightarrow> pstate option" where
  "prop_move0 p before skipme S =
     (if before = Some p then None
      else if (case before of None \<Rightarrow> False | Some b \<Rightarrow> hp_parent (hp S p) \<noteq> hp_parent (hp S b)) then Some S
      else
        case hp_parent (hp S p) of
          None \<Rightarrow> Some S
        | Some parent \<Rightarrow>
            (if next_in p (childs S parent) = before then Some S
             else Some (prop_notify_child parent (MOVE_CHILD p before) skipme
                          (upd_childs parent (\<lambda>cs. insert_at before p (remove1 p cs)) S))))"

definition prop_req_move0 :: "pid \<Rightarrow> pid option \<Rightarrow> sid option \<Rightarrow> pstate \<Rightarrow> pstate option" where
  "prop_req_move0 p before skipme S =
     (if before = Some p then Some S
      else
        case hp_parent (hp S p) of
          None \<Rightarrow> None
        | Some parent \<Rightarrow>
            (if next_in p (childs S parent) = before then Some S
             else Some (prop_notify_child parent (REQ_MOVE_CHILD p before) skipme S)))"

definition prop_set_parent0 ::
  "pid \<Rightarrow> pid \<Rightarrow> pid option \<Rightarrow> sid option \<Rightarrow> pstate \<Rightarrow> (int \<times> pstate) option" where
  "prop_set_parent0 p parent before skipme S =
     (if hp_payload (hp S parent) = PROP_ZOMBIE then Some (-1, S)
      else do {
        S1 \<leftarrow> prop_make_dir parent skipme S;
        S2 \<leftarrow> (if hp_parent (hp S1 p) \<noteq> Some parent then
                do {
                  S2 \<leftarrow> prop_unparent0 p skipme S1;
                  prop_insert p parent before skipme (flood_below parent p (set_parent p (Some parent) S2))
                }
              else prop_move0 p before skipme S1);
        Some (0, S2)
      })"

definition prop_set_parent_ex ::
  "pid \<Rightarrow> pid option \<Rightarrow> pid option \<Rightarrow> sid option \<Rightarrow> pstate \<Rightarrow> (int \<times> pstate) option" where
  "prop_set_parent_ex p parent before skipme S =
     (case parent of None \<Rightarrow> Some (-1, S) | Some q \<Rightarrow> prop_set_parent0 p q before skipme S)"

text \<open>A node of the vector that already has a parent would be in two lists, and a sibling from elsewhere
  would put the nodes into a list that is not the parent's: both give \<open>None\<close>.\<close>

definition prop_set_parent_vector ::
  "pid list \<Rightarrow> pid option \<Rightarrow> pid option \<Rightarrow> sid option \<Rightarrow> pstate \<Rightarrow> pstate option" where
  "prop_set_parent_vector pv parent before skipme S =
     (case parent of
        Some q \<Rightarrow>
          (if hp_payload (hp S q) \<noteq> PROP_ZOMBIE then
             do {
               S1 \<leftarrow> prop_make_dir q None S;
               S2 \<leftarrow> forM (\<lambda>p S. if hp_parent (hp S p) \<noteq> None then None
                               else if (case before of None \<Rightarrow> False | Some b \<Rightarrow> hp_parent (hp S b) \<noteq> Some q) then None
                               else Some (upd_childs q (insert_at before p)
                                            (flood_below q p (set_parent p (Some q) S)))) pv S1;
               Some (prop_notify_child q
                       (case before of None \<Rightarrow> ADD_CHILD_VECTOR pv | Some b \<Rightarrow> ADD_CHILD_VECTOR_BEFORE pv b)
                       skipme S2)
             }
           else forM (\<lambda>p S. map_option snd (prop_destroy0 (Suc (ps_next S)) p S)) pv S)
      | None \<Rightarrow> forM (\<lambda>p S. map_option snd (prop_destroy0 (Suc (ps_next S)) p S)) pv S)"

section \<open>Selection\<close>

definition set_selected :: "pid option \<Rightarrow> payload \<Rightarrow> payload" where
  "set_selected sel v = (case v of PROP_DIR cs _ \<Rightarrow> PROP_DIR cs sel | _ \<Rightarrow> v)"

definition prop_select_ex :: "pid \<Rightarrow> pid option \<Rightarrow> sid option \<Rightarrow> pstate \<Rightarrow> pstate option" where
  "prop_select_ex p extra skipme S =
     (if hp_payload (hp S p) = PROP_ZOMBIE then Some S
      else
        case hp_parent (hp S p) of
          None \<Rightarrow> Some S
        | Some parent \<Rightarrow>
            (if \<not> is_dir (hp_payload (hp S parent)) then None
             else Some (upd_prop parent (hp_payload_update (set_selected (Some p)))
                          (prop_notify_child parent (SELECT_CHILD (Some p) extra) skipme S))))"

definition prop_unselect_ex :: "pid \<Rightarrow> sid option \<Rightarrow> pstate \<Rightarrow> pstate" where
  "prop_unselect_ex parent skipme S =
     (if is_dir (hp_payload (hp S parent)) then
        upd_prop parent (hp_payload_update (set_selected None))
          (prop_notify_child parent (SELECT_CHILD None None) skipme S)
      else S)"

definition prop_select_by_value_ex :: "pid \<Rightarrow> bytes \<Rightarrow> sid option \<Rightarrow> pstate \<Rightarrow> pstate" where
  "prop_select_by_value_ex p name skipme S =
     (if is_dir (hp_payload (hp S p)) then
        (let c = child_named S p name in
         upd_prop p (hp_payload_update (set_selected c)) (prop_notify_child p (SELECT_CHILD c None) skipme S))
      else S)"

definition prop_suggest_focus0 :: "pid \<Rightarrow> pstate \<Rightarrow> pstate option" where
  "prop_suggest_focus0 p S =
     (if hp_payload (hp S p) = PROP_ZOMBIE then Some S
      else
        case hp_parent (hp S p) of
          None \<Rightarrow> Some S
        | Some parent \<Rightarrow>
            (if is_dir (hp_payload (hp S parent))
             then Some (prop_notify_child parent (SUGGEST_FOCUS p) None S) else None))"

definition prop_xref_addref :: "pid option \<Rightarrow> pstate \<Rightarrow> pstate option" where
  "prop_xref_addref p S =
     (case p of
        None \<Rightarrow> Some S
      | Some q \<Rightarrow>
          (if hp_xref (hp S q) < 255 then Some (upd_prop q (hp_xref_update (\<lambda>x. x + 1)) S) else None))"

section \<open>Values\<close>

text \<open>Storing a value and telling the subscribers.\<close>

definition store_value :: "pid \<Rightarrow> sid option \<Rightarrow> payload \<Rightarrow> pstate \<Rightarrow> pstate option" where
  "store_value p skipme v S = prop_notify_value p skipme (set_payload p v S)"

definition clean_and_store :: "pid \<Rightarrow> sid option \<Rightarrow> payload \<Rightarrow> pstate \<Rightarrow> pstate option" where
  "clean_and_store p skipme v S =
     do { (refused, S1) \<leftarrow> prop_clean p S; if refused then Some S1 else store_value p skipme v S1 }"

definition prop_set_void_exl :: "pid \<Rightarrow> sid option \<Rightarrow> pstate \<Rightarrow> pstate option" where
  "prop_set_void_exl p skipme S =
     (case hp_payload (hp S p) of
        PROP_ZOMBIE \<Rightarrow> Some S
      | PROP_VOID \<Rightarrow> Some S
      | _ \<Rightarrow> clean_and_store p skipme PROP_VOID S)"

definition prop_set_void_ex :: "pid option \<Rightarrow> sid option \<Rightarrow> pstate \<Rightarrow> pstate option" where
  "prop_set_void_ex p skipme S = (case p of None \<Rightarrow> Some S | Some q \<Rightarrow> prop_set_void_exl q skipme S)"

definition prop_set_string_exl :: "pid \<Rightarrow> sid option \<Rightarrow> bytes \<Rightarrow> nat \<Rightarrow> pstate \<Rightarrow> pstate option" where
  "prop_set_string_exl p skipme str type S =
     (case hp_payload (hp S p) of
        PROP_ZOMBIE \<Rightarrow> Some S
      | PROP_RSTRING r _ \<Rightarrow>
          (if c_str r = c_str str then Some S else store_value p skipme (PROP_RSTRING (c_str str) type) S)
      | _ \<Rightarrow> clean_and_store p skipme (PROP_RSTRING (c_str str) type) S)"

definition prop_set_string_ex ::
  "pid option \<Rightarrow> sid option \<Rightarrow> bytes option \<Rightarrow> nat \<Rightarrow> pstate \<Rightarrow> pstate option" where
  "prop_set_string_ex p skipme str type S =
     (case p of
        None \<Rightarrow> Some S
      | Some q \<Rightarrow>
          (case str of
             None \<Rightarrow> prop_set_void_ex p skipme S
           | Some t \<Rightarrow> prop_set_string_exl q skipme t type S))"

definition prop_set_rstring_exl :: "pid \<Rightarrow> sid option \<Rightarrow> bytes \<Rightarrow> pstate \<Rightarrow> pstate option" where
  "prop_set_rstring_exl p skipme rstr S =
     (case hp_payload (hp S p) of
        PROP_ZOMBIE \<Rightarrow> Some S
      | PROP_RSTRING r _ \<Rightarrow>
          (if c_str r = c_str rstr then Some S else store_value p skipme (PROP_RSTRING rstr 0) S)
      | _ \<Rightarrow> clean_and_store p skipme (PROP_RSTRING rstr 0) S)"

definition prop_set_rstring_ex :: "pid option \<Rightarrow> sid option \<Rightarrow> bytes option \<Rightarrow> pstate \<Rightarrow> pstate option" where
  "prop_set_rstring_ex p skipme rstr S =
     (case p of
        None \<Rightarrow> Some S
      | Some q \<Rightarrow>
          (case rstr of
             None \<Rightarrow> prop_set_void_ex p skipme S
           | Some t \<Rightarrow> prop_set_rstring_exl q skipme t S))"

definition prop_set_cstring_exl :: "pid \<Rightarrow> sid option \<Rightarrow> bytes \<Rightarrow> pstate \<Rightarrow> pstate option" where
  "prop_set_cstring_exl p skipme str S =
     (case hp_payload (hp S p) of
        PROP_ZOMBIE \<Rightarrow> Some S
      | PROP_CSTRING r \<Rightarrow>
          (if c_str r = c_str str then Some S else store_value p skipme (PROP_CSTRING str) S)
      | _ \<Rightarrow> clean_and_store p skipme (PROP_CSTRING str) S)"

definition prop_set_cstring_ex :: "pid option \<Rightarrow> sid option \<Rightarrow> bytes option \<Rightarrow> pstate \<Rightarrow> pstate option" where
  "prop_set_cstring_ex p skipme str S =
     (case p of
        None \<Rightarrow> Some S
      | Some q \<Rightarrow>
          (case str of
             None \<Rightarrow> prop_set_void_ex p skipme S
           | Some t \<Rightarrow> prop_set_cstring_exl q skipme t S))"

definition str_or_empty :: "bytes option \<Rightarrow> bytes" where
  "str_or_empty s = (case s of None \<Rightarrow> [] | Some t \<Rightarrow> c_str t)"

definition prop_set_uri_ex ::
  "pid option \<Rightarrow> sid option \<Rightarrow> bytes option \<Rightarrow> bytes option \<Rightarrow> pstate \<Rightarrow> pstate option" where
  "prop_set_uri_ex p skipme title url S =
     (case p of
        None \<Rightarrow> Some S
      | Some q \<Rightarrow>
          (if title = None \<and> url = None then prop_set_void_ex p skipme S
           else
             let v = PROP_URI (map_option c_str title) (map_option c_str url) in
             case hp_payload (hp S q) of
               PROP_ZOMBIE \<Rightarrow> Some S
             | PROP_URI t u \<Rightarrow>
                 (if str_or_empty t = str_or_empty title \<and> str_or_empty u = str_or_empty url then Some S
                  else store_value q skipme v S)
             | _ \<Rightarrow> clean_and_store q skipme v S))"

definition clip :: "u32 \<Rightarrow> u32 \<Rightarrow> u32 \<Rightarrow> u32" where
  "clip mn mx v =
     (let v1 = (if sint mx < sint v then mx else v) in if sint v1 < sint mn then mn else v1)"

text \<open>The limits of a number mean something only in a node with the flag \<^verbatim>\<open>PROP_CLIPPED_VALUE\<close>. Elsewhere
  they are memory that was not written, which is 0 here.\<close>

definition prop_set_int_exl :: "(u32 \<Rightarrow> u32) \<Rightarrow> pid \<Rightarrow> sid option \<Rightarrow> u32 \<Rightarrow> pstate \<Rightarrow> pstate option" where
  "prop_set_int_exl f2i p skipme v S =
     (case hp_payload (hp S p) of
        PROP_ZOMBIE \<Rightarrow> Some S
      | PROP_INT i mn mx \<Rightarrow>
          (if i = v then Some S
           else store_value p skipme (PROP_INT (if hp_clipped (hp S p) then clip mn mx v else v) mn mx) S)
      | PROP_FLOAT f mn mx \<Rightarrow> store_value p skipme (PROP_INT v (f2i mn) (f2i mx)) S
      | _ \<Rightarrow> clean_and_store p skipme (PROP_INT v 0 0) S)"

definition prop_set_int_ex ::
  "(u32 \<Rightarrow> u32) \<Rightarrow> pid option \<Rightarrow> sid option \<Rightarrow> u32 \<Rightarrow> pstate \<Rightarrow> pstate option" where
  "prop_set_int_ex f2i p skipme v S =
     (case p of None \<Rightarrow> Some S | Some q \<Rightarrow> prop_set_int_exl f2i q skipme v S)"

text \<open>The conversion to a number that the next three functions begin with; \<open>None\<close> in the result is the
  early return.\<close>

definition int_of_prop :: "(u32 \<Rightarrow> u32) \<Rightarrow> pid \<Rightarrow> pstate \<Rightarrow> ((u32 \<times> u32 \<times> u32) option \<times> pstate) option" where
  "int_of_prop f2i p S =
     (case hp_payload (hp S p) of
        PROP_ZOMBIE \<Rightarrow> Some (None, S)
      | PROP_INT i mn mx \<Rightarrow> Some (Some (i, mn, mx), S)
      | PROP_FLOAT f mn mx \<Rightarrow>
          Some (Some (f2i f, f2i mn, f2i mx), set_payload p (PROP_INT (f2i f) (f2i mn) (f2i mx)) S)
      | _ \<Rightarrow>
          do {
            (refused, S1) \<leftarrow> prop_clean p S;
            if refused then Some (None, S1)
            else Some (Some (0, 0, 0), set_payload p (PROP_INT 0 0 0) S1)
          })"

definition prop_add_int_ex ::
  "(u32 \<Rightarrow> u32) \<Rightarrow> pid option \<Rightarrow> sid option \<Rightarrow> u32 \<Rightarrow> pstate \<Rightarrow> pstate option" where
  "prop_add_int_ex f2i p skipme v S =
     (case p of
        None \<Rightarrow> Some S
      | Some q \<Rightarrow>
          do {
            (r, S1) \<leftarrow> int_of_prop f2i q S;
            case r of
              None \<Rightarrow> Some S1
            | Some (i, mn, mx) \<Rightarrow>
                (let n = (if hp_clipped (hp S1 q) then clip mn mx (i + v) else i + v) in
                 if n \<noteq> i then store_value q skipme (PROP_INT n mn mx) S1 else Some S1)
          })"

definition prop_toggle_int_ex ::
  "(u32 \<Rightarrow> u32) \<Rightarrow> pid option \<Rightarrow> sid option \<Rightarrow> pstate \<Rightarrow> pstate option" where
  "prop_toggle_int_ex f2i p skipme S =
     (case p of
        None \<Rightarrow> Some S
      | Some q \<Rightarrow>
          do {
            (r, S1) \<leftarrow> int_of_prop f2i q S;
            case r of
              None \<Rightarrow> Some S1
            | Some (i, mn, mx) \<Rightarrow> store_value q skipme (PROP_INT (if i = 0 then 1 else 0) mn mx) S1
          })"

definition prop_set_int_clipping_range ::
  "(u32 \<Rightarrow> u32) \<Rightarrow> pid option \<Rightarrow> u32 \<Rightarrow> u32 \<Rightarrow> pstate \<Rightarrow> pstate option" where
  "prop_set_int_clipping_range f2i p mn mx S =
     (case p of
        None \<Rightarrow> Some S
      | Some q \<Rightarrow>
          do {
            (r, S1) \<leftarrow> int_of_prop f2i q S;
            case r of
              None \<Rightarrow> Some S1
            | Some (i, _, _) \<Rightarrow>
                (let S2 = set_payload q (PROP_INT i mn mx) (upd_prop q (hp_clipped_update (\<lambda>_. True)) S1);
                     n = clip mn mx i
                 in if n \<noteq> i then store_value q None (PROP_INT n mn mx) S2 else Some S2)
          })"

definition prop_set_prop_exl :: "pid \<Rightarrow> sid option \<Rightarrow> pid \<Rightarrow> pstate \<Rightarrow> pstate option" where
  "prop_set_prop_exl p skipme target S =
     (case hp_payload (hp S p) of
        PROP_ZOMBIE \<Rightarrow> Some S
      | PROP_PROP q \<Rightarrow> (if q = target then Some S else store_value p skipme (PROP_PROP target) S)
      | _ \<Rightarrow> clean_and_store p skipme (PROP_PROP target) S)"

fun prop_void_childs0 :: "nat \<Rightarrow> pid \<Rightarrow> pstate \<Rightarrow> pstate option" where
  "prop_void_childs0 0 p S = None"
| "prop_void_childs0 (Suc n) p S =
     (case hp_payload (hp S p) of
        PROP_ZOMBIE \<Rightarrow> Some S
      | PROP_DIR cs _ \<Rightarrow> forM (prop_void_childs0 n) cs S
      | _ \<Rightarrow> clean_and_store p None PROP_VOID S)"

definition prop_void_childs :: "pid option \<Rightarrow> pstate \<Rightarrow> pstate option" where
  "prop_void_childs p S = (case p of None \<Rightarrow> Some S | Some q \<Rightarrow> prop_void_childs0 (Suc (ps_next S)) q S)"

section \<open>Subscriptions\<close>

definition prop_set_multi :: "pid \<Rightarrow> pstate \<Rightarrow> pstate" where
  "prop_set_multi p S =
     (if hp_multi_sub (hp S p) then S
      else prop_flood_flag_on_childs (ps_next S) True (childs S p)
             (upd_prop p (hp_multi_sub_update (\<lambda>_. True)) S))"

definition prop_clr_multi :: "pid \<Rightarrow> pstate \<Rightarrow> pstate" where
  "prop_clr_multi p S =
     (let S1 = upd_prop p (hp_multi_sub_update (\<lambda>_. False)) S in
      if hp_multi_notify (hp S1 p) then S1
      else prop_flood_flag_on_childs (ps_next S1) False (childs S1 p) S1)"

record sub_flags =
  sf_ignore_void :: bool
  sf_multi :: bool
  sf_monitor :: bool
  sf_track_destroy :: bool
  sf_direct :: bool
  sf_no_initial_update :: bool
  sf_internal :: bool

text \<open>\<open>prop_subscribe\<close> to a given node, from the point where the node is known: the arguments that name the
  node by a path are not modelled, nor is the test for a second subscription with the same
  callback.\<close>

definition new_sub :: "sub_flags \<Rightarrow> pid option \<Rightarrow> prop_sub" where
  "new_sub fl p =
     \<lparr>hps_value_prop = p, hps_canonical_prop = p, hps_ignore_void = sf_ignore_void fl,
      hps_multi = sf_multi fl, hps_monitor = sf_monitor fl, hps_track_destroy = sf_track_destroy fl,
      hps_no_initial_update = sf_no_initial_update fl, hps_internal = sf_internal fl, hps_zombie = False, hps_log = []\<rparr>"

definition subscribe_canonical :: "sid \<Rightarrow> pid \<Rightarrow> pstate \<Rightarrow> bool \<times> pstate" where
  "subscribe_canonical s p S =
     (let S1 = upd_prop p (hp_canonical_subscriptions_update (Cons s)) S;
          mon = hps_monitor (sub S1 s) \<and> \<not> hp_monitored (hp S1 p);
          act = mon \<and> list_ex (\<lambda>t. \<not> hps_monitor (sub S1 t)) (hp_value_subscriptions (hp S1 p));
          S2 = (if mon then upd_prop p (hp_monitored_update (\<lambda>_. True)) S1 else S1)
      in (act, if hps_multi (sub S2 s) then prop_set_multi p S2 else S2))"

definition initial_update :: "sid \<Rightarrow> pid \<Rightarrow> bool \<Rightarrow> pstate \<Rightarrow> pstate option" where
  "initial_update s p direct S =
     do {
       S1 \<leftarrow> prop_build_notify_value s direct p S;
       case hp_payload (hp S1 p) of
         PROP_DIR cs sel \<Rightarrow>
           (if hps_multi (sub S1 s) then Some S1
            else if sel = None \<and> direct then Some (log_event s (ADD_CHILD_VECTOR_DIRECT cs) S1)
            else Some (fold (\<lambda>c. log_event s (ADD_CHILD c (sel = Some c))) cs S1))
       | _ \<Rightarrow> Some S1
     }"

definition prop_subscribe :: "sub_flags \<Rightarrow> pid option \<Rightarrow> pstate \<Rightarrow> (sid option \<times> pstate) option" where
  "prop_subscribe fl root S =
     (let direct = (sf_direct fl \<or> sf_internal fl);
          p = (case root of
                 None \<Rightarrow> None
               | Some q \<Rightarrow> if hp_payload (hp S q) = PROP_ZOMBIE then None else Some q);
          s = ps_next_sub S;
          S0 = S\<lparr>ps_subs := (ps_subs S)(s := new_sub fl p), ps_next_sub := s + 1\<rparr>
      in case p of
           None \<Rightarrow>
             (if sf_track_destroy fl
              then Some (if direct then None else Some s, prop_notify_destroyed s S0) else Some (Some s, S0))
         | Some q \<Rightarrow>
             (let (act, S1) = subscribe_canonical s q S0;
                  S2 = upd_prop q (hp_value_subscriptions_update (Cons s)) S1
              in do {
                S3 \<leftarrow> (if sf_no_initial_update fl then Some S2 else initial_update s q direct S2);
                let S4 = (if \<not> sf_monitor fl \<and> hp_monitored (hp S3 q)
                          then prop_send_subscription_monitor_active q S3 else S3);
                Some (Some s, if act then prop_send_subscription_monitor_active q S4 else S4)
              }))"

definition prop_unsubscribe0 :: "sid \<Rightarrow> pstate \<Rightarrow> pstate option" where
  "prop_unsubscribe0 s S =
     (if hps_zombie (sub S s) then None
      else
        let S1 = upd_sub s (hps_zombie_update (\<lambda>_. True)) S;
            S2 = (case hps_value_prop (sub S1 s) of
                    None \<Rightarrow> S1
                  | Some p \<Rightarrow> upd_sub s (hps_value_prop_update (\<lambda>_. None))
                                (upd_prop p (hp_value_subscriptions_update (remove1 s)) S1))
        in case hps_canonical_prop (sub S2 s) of
             None \<Rightarrow> Some S2
           | Some p \<Rightarrow>
               (let S3 = upd_prop p (hp_canonical_subscriptions_update (remove1 s)) S2;
                    rest = map (sub S3) (hp_canonical_subscriptions (hp S3 p))
                in if hps_monitor (sub S3 s) \<or> hps_multi (sub S3 s) then
                     if \<not> hp_monitored (hp S3 p) \<and> \<not> hp_multi_sub (hp S3 p) then None
                     else
                       let S4 = (if list_ex hps_monitor rest then S3
                                 else upd_prop p (hp_monitored_update (\<lambda>_. False)) S3);
                           S5 = (if list_ex hps_multi rest then S4 else prop_clr_multi p S4)
                       in Some (upd_sub s (hps_canonical_prop_update (\<lambda>_. None)) S5)
                   else Some (upd_sub s (hps_canonical_prop_update (\<lambda>_. None)) S3)))"

definition prop_unsubscribe :: "sid option \<Rightarrow> pstate \<Rightarrow> pstate option" where
  "prop_unsubscribe s S = (case s of None \<Rightarrow> Some S | Some t \<Rightarrow> prop_unsubscribe0 t S)"

end
