(* ===== verification/Prop_Tree.thy ===== *)
theory Prop_Tree
  imports Prop
begin

text \<open>
  The invariant of the property tree and what subscribers see. \<open>tree_ok\<close> says that the lists of children
  and the links to parents agree and have no cycle, \<open>subs_ok\<close> the same of subscriptions, and \<open>in_sync\<close>
  that a subscriber who applies the events it was sent, in order, has the value or the list of
  children of its node.
\<close>

section \<open>What a subscriber sees\<close>

datatype view = V_None | V_Value prop_event | V_Dir "pid list"

fun apply_event :: "view \<Rightarrow> prop_event \<Rightarrow> view" where
  "apply_event v SET_DIR = V_Dir []"
| "apply_event v SET_VOID = V_Value SET_VOID"
| "apply_event v (SET_RSTRING a b) = V_Value (SET_RSTRING a b)"
| "apply_event v (SET_CSTRING a) = V_Value (SET_CSTRING a)"
| "apply_event v (SET_FLOAT f) = V_Value (SET_FLOAT f)"
| "apply_event v (SET_INT i) = V_Value (SET_INT i)"
| "apply_event v (SET_URI a b) = V_Value (SET_URI a b)"
| "apply_event v (SET_PROP q) = V_Value (SET_PROP q)"
| "apply_event (V_Dir cs) (ADD_CHILD c sel) = V_Dir (cs @ [c])"
| "apply_event (V_Dir cs) (ADD_CHILD_BEFORE c before) = V_Dir (insert_at before c cs)"
| "apply_event (V_Dir cs) (ADD_CHILD_VECTOR pv) = V_Dir (cs @ pv)"
| "apply_event (V_Dir cs) (ADD_CHILD_VECTOR_BEFORE pv b) = V_Dir (fold (insert_before b) pv cs)"
| "apply_event (V_Dir cs) (ADD_CHILD_VECTOR_DIRECT pv) = V_Dir (cs @ pv)"
| "apply_event (V_Dir cs) (DEL_CHILD c) = V_Dir (remove1 c cs)"
| "apply_event (V_Dir cs) (MOVE_CHILD c before) = V_Dir (insert_at before c (remove1 c cs))"
| "apply_event v _ = v"

definition view_of :: "prop_event list \<Rightarrow> view" where
  "view_of l = foldl apply_event V_None l"

definition payload_view :: "payload \<Rightarrow> view" where
  "payload_view v =
     (case v of
        PROP_DIR cs _ \<Rightarrow> V_Dir cs
      | _ \<Rightarrow> (case value_event v of None \<Rightarrow> V_None | Some e \<Rightarrow> V_Value e))"

text \<open>Subscriptions that ask for every value of their node, from the start on, and for nothing else.\<close>

definition plain_sub :: "prop_sub \<Rightarrow> bool" where
  "plain_sub s \<longleftrightarrow> \<not> hps_ignore_void s \<and> \<not> hps_multi s \<and> \<not> hps_no_initial_update s \<and> \<not> hps_internal s"

definition in_sync :: "sid set \<Rightarrow> pstate \<Rightarrow> bool" where
  "in_sync K S \<longleftrightarrow> (\<forall>s p. hps_value_prop (sub S s) = Some p \<longrightarrow> plain_sub (sub S s) \<longrightarrow> s \<notin> K \<longrightarrow>
     view_of (hps_log (sub S s)) = payload_view (hp_payload (hp S p)))"

lemma view_of_snoc [simp]: "view_of (l @ [e]) = apply_event (view_of l) e" "view_of [] = V_None"
  by (simp_all add: view_of_def)

section \<open>The invariant\<close>

definition parent_rel :: "pstate \<Rightarrow> (pid \<times> pid) set" where
  "parent_rel S = {(c, p). hp_parent (hp S c) = Some p}"

definition tree_ok :: "pstate \<Rightarrow> bool" where
  "tree_ok S \<longleftrightarrow>
     (\<forall>p c. c \<in> set (childs S p) \<longleftrightarrow> hp_parent (hp S c) = Some p) \<and>
     (\<forall>p. distinct (childs S p)) \<and>
     (\<forall>p. hp_payload (hp S p) = PROP_ZOMBIE \<longrightarrow> hp_parent (hp S p) = None) \<and>
     (\<forall>p\<ge>ps_next S. hp_payload (hp S p) = PROP_ZOMBIE) \<and>
     (\<forall>p. hp_originator (hp S p) = None \<and> hp_targets (hp S p) = []) \<and>
     acyclic (parent_rel S)"

definition subs_ok :: "pstate \<Rightarrow> bool" where
  "subs_ok S \<longleftrightarrow>
     (\<forall>s p. s \<in> set (hp_value_subscriptions (hp S p)) \<longleftrightarrow> hps_value_prop (sub S s) = Some p) \<and>
     (\<forall>s p. s \<in> set (hp_canonical_subscriptions (hp S p)) \<longleftrightarrow> hps_canonical_prop (sub S s) = Some p) \<and>
     (\<forall>p. distinct (hp_value_subscriptions (hp S p)) \<and> distinct (hp_canonical_subscriptions (hp S p))) \<and>
     (\<forall>p. hp_payload (hp S p) = PROP_ZOMBIE \<longrightarrow>
        hp_value_subscriptions (hp S p) = [] \<and> hp_canonical_subscriptions (hp S p) = []) \<and>
     (\<forall>s\<ge>ps_next_sub S. hps_value_prop (sub S s) = None \<and> hps_canonical_prop (sub S s) = None)"

definition parents_alive :: "pstate \<Rightarrow> bool" where
  "parents_alive S \<longleftrightarrow> (\<forall>c p. hp_parent (hp S c) = Some p \<longrightarrow> hp_payload (hp S p) \<noteq> PROP_ZOMBIE)"

lemma tree_okD:
  assumes "tree_ok S"
  shows "\<And>p c. c \<in> set (childs S p) \<longleftrightarrow> hp_parent (hp S c) = Some p" "\<And>p. distinct (childs S p)"
    "\<And>p. hp_payload (hp S p) = PROP_ZOMBIE \<Longrightarrow> hp_parent (hp S p) = None"
    "\<And>p. ps_next S \<le> p \<Longrightarrow> hp_payload (hp S p) = PROP_ZOMBIE"
    "\<And>p. hp_originator (hp S p) = None" "\<And>p. hp_targets (hp S p) = []" "acyclic (parent_rel S)"
  using assms unfolding tree_ok_def by blast+

lemma subs_okD:
  assumes "subs_ok S"
  shows "\<And>s p. s \<in> set (hp_value_subscriptions (hp S p)) \<longleftrightarrow> hps_value_prop (sub S s) = Some p"
    "\<And>s p. s \<in> set (hp_canonical_subscriptions (hp S p)) \<longleftrightarrow> hps_canonical_prop (sub S s) = Some p"
    "\<And>p. distinct (hp_value_subscriptions (hp S p))" "\<And>p. distinct (hp_canonical_subscriptions (hp S p))"
    "\<And>p. hp_payload (hp S p) = PROP_ZOMBIE \<Longrightarrow> hp_value_subscriptions (hp S p) = []"
    "\<And>p. hp_payload (hp S p) = PROP_ZOMBIE \<Longrightarrow> hp_canonical_subscriptions (hp S p) = []"
    "\<And>s. ps_next_sub S \<le> s \<Longrightarrow> hps_value_prop (sub S s) = None"
    "\<And>s. ps_next_sub S \<le> s \<Longrightarrow> hps_canonical_prop (sub S s) = None"
  using assms unfolding subs_ok_def by blast+

lemma childs_parent_alive: "c \<in> set (childs S p) \<Longrightarrow> hp_payload (hp S p) \<noteq> PROP_ZOMBIE"
  by (auto simp: childs_def)

lemma tree_ok_parents_alive: "tree_ok S \<Longrightarrow> parents_alive S"
  by (metis parents_alive_def tree_okD(1) childs_parent_alive)

section \<open>Notifications change nothing but logs\<close>

text \<open>\<open>told f S S'\<close>: every subscription \<open>s\<close> was sent something, the plain ones exactly \<open>f s\<close>.\<close>

definition told :: "(sid \<Rightarrow> prop_event list) \<Rightarrow> pstate \<Rightarrow> pstate \<Rightarrow> bool" where
  "told f S S' \<longleftrightarrow> ps_props S' = ps_props S \<and> ps_next S' = ps_next S \<and> ps_next_sub S' = ps_next_sub S \<and>
     (\<forall>s. \<exists>l. sub S' s = (sub S s)\<lparr>hps_log := l\<rparr> \<and> (plain_sub (sub S s) \<longrightarrow> l = hps_log (sub S s) @ f s))"

lemma plain_sub_log [simp]: "plain_sub (s\<lparr>hps_log := l\<rparr>) = plain_sub s"
  by (simp add: plain_sub_def)

lemma told_refl: "told (\<lambda>_. []) S S"
proof -
  have "sub S s = (sub S s)\<lparr>hps_log := hps_log (sub S s)\<rparr>" for s by simp
  then show ?thesis unfolding told_def by (metis append_Nil2)
qed

lemma told_trans:
  assumes "told f S S1" "told g S1 S2"
  shows "told (\<lambda>s. f s @ g s) S S2"
proof -
  have "\<exists>l. sub S2 s = (sub S s)\<lparr>hps_log := l\<rparr> \<and> (plain_sub (sub S s) \<longrightarrow> l = hps_log (sub S s) @ f s @ g s)" for s
  proof -
    obtain l1 where l1: "sub S1 s = (sub S s)\<lparr>hps_log := l1\<rparr>" "plain_sub (sub S s) \<longrightarrow> l1 = hps_log (sub S s) @ f s"
      using assms(1) by (auto simp: told_def)
    obtain l2 where l2: "sub S2 s = (sub S1 s)\<lparr>hps_log := l2\<rparr>" "plain_sub (sub S1 s) \<longrightarrow> l2 = hps_log (sub S1 s) @ g s"
      using assms(2) by (auto simp: told_def)
    show ?thesis using l1 l2 by (intro exI [of _ l2]) simp
  qed
  then show ?thesis using assms by (simp add: told_def)
qed

lemma told_cong: "told f S S' \<Longrightarrow> (\<And>s. plain_sub (sub S s) \<Longrightarrow> f s = g s) \<Longrightarrow> told g S S'"
  by (fastforce simp: told_def)

lemma told_log: "told (\<lambda>t. if t = s then [e] else []) S (log_event s e S)"
proof -
  have "\<exists>l. sub (log_event s e S) t = (sub S t)\<lparr>hps_log := l\<rparr> \<and> l = hps_log (sub S t) @ (if t = s then [e] else [])" for t
    by (cases "t = s"; cases "sub S t") (simp_all add: log_event_def upd_sub_def)
  moreover have "ps_props (log_event s e S) = ps_props S" "ps_next (log_event s e S) = ps_next S"
    "ps_next_sub (log_event s e S) = ps_next_sub S"
    by (simp_all add: log_event_def upd_sub_def)
  ultimately show ?thesis unfolding told_def by blast
qed

lemma told_log_special: "\<not> plain_sub (sub S s) \<Longrightarrow> told (\<lambda>_. []) S (log_event s e S)"
  by (rule told_cong [OF told_log [of s e S]]) auto

lemma told_fold:
  assumes "\<And>s S. s \<in> set ss \<Longrightarrow> told (f s) S (g s S)"
  shows "told (\<lambda>t. concat (map (\<lambda>s. f s t) ss)) S (fold g ss S)"
  using assms
proof (induction ss arbitrary: S)
  case (Cons s ss)
  then show ?case
    using told_trans [of "f s" S "g s S" _ "fold g ss (g s S)"] by simp
qed (simp add: told_refl)

lemma concat_one: "distinct ss \<Longrightarrow> concat (map (\<lambda>s. if t = s \<and> P s then x else []) ss) = (if t \<in> set ss \<and> P t then x else [])"
  by (induction ss) auto

lemma concat_map_nil: "concat (map (\<lambda>s. []) ss) = []"
  by (induction ss) simp_all

text \<open>What a change of the children tells.\<close>

lemma told_notify_child:
  assumes "subs_ok S"
  shows "told (\<lambda>s. if hps_value_prop (sub S s) = Some q \<and> Some s \<noteq> skip then [e] else []) S (prop_notify_child q e skip S)"
proof -
  let ?ss = "hp_value_subscriptions (hp S q)"
  have "told (\<lambda>t. if t = s \<and> Some s \<noteq> skip then [e] else []) S' (if Some s = skip then S' else log_event s e S')" for s S'
    using told_log [of s e S'] told_refl [of S'] by (auto intro: told_cong)
  then have "told (\<lambda>t. concat (map (\<lambda>s. if t = s \<and> Some s \<noteq> skip then [e] else []) ?ss)) S (prop_notify_child q e skip S)"
    unfolding prop_notify_child_def by (rule told_fold)
  then show ?thesis
    by (rule told_cong) (simp add: concat_one subs_okD [OF assms])
qed

lemma told_forM:
  assumes "\<And>s S'. s \<in> set ss \<Longrightarrow> P S' \<Longrightarrow> \<exists>S''. g s S' = Some S'' \<and> told (f s) S' S''"
    and "\<And>S' S'' f. P S' \<Longrightarrow> told f S' S'' \<Longrightarrow> P S''" and "P S"
  shows "\<exists>S'. forM g ss S = Some S' \<and> told (\<lambda>t. concat (map (\<lambda>s. f s t) ss)) S S'"
  using assms(1,3)
proof (induction ss arbitrary: S)
  case (Cons s ss)
  obtain S1 where S1: "g s S = Some S1" "told (f s) S S1" using Cons.prems by force
  moreover have "P S1" using assms(2) Cons.prems(2) S1(2) by blast
  ultimately obtain S2 where "forM g ss S1 = Some S2" "told (\<lambda>t. concat (map (\<lambda>s. f s t) ss)) S1 S2"
    using Cons by force
  then show ?case using S1 told_trans [OF S1(2)] by auto
qed (simp add: told_refl)

lemma told_props: "told f S S' \<Longrightarrow> ps_props S' = ps_props S" "told f S S' \<Longrightarrow> ps_next S' = ps_next S"
    "told f S S' \<Longrightarrow> ps_next_sub S' = ps_next_sub S"
    "told f S S' \<Longrightarrow> \<exists>l. sub S' s = (sub S s)\<lparr>hps_log := l\<rparr>"
  unfolding told_def by blast+

lemma told_fields:
  assumes "told f S S'"
  shows "hps_value_prop (sub S' s) = hps_value_prop (sub S s)" "hps_canonical_prop (sub S' s) = hps_canonical_prop (sub S s)"
    "hps_multi (sub S' s) = hps_multi (sub S s)" "plain_sub (sub S' s) = plain_sub (sub S s)"
    "hps_ignore_void (sub S' s) = hps_ignore_void (sub S s)"
  using told_props(4) [OF assms, of s] by (auto simp del: plain_sub_def)

lemma told_childs: "told f S S' \<Longrightarrow> childs S' p = childs S p"
  by (simp add: childs_def told_props)

lemma told_tree_ok: "told f S S' \<Longrightarrow> tree_ok S' \<longleftrightarrow> tree_ok S"
  by (simp add: tree_ok_def told_props told_childs parent_rel_def)

lemma told_subs_ok: "told f S S' \<Longrightarrow> subs_ok S' \<longleftrightarrow> subs_ok S"
  by (simp add: subs_ok_def told_props told_fields)

lemma told_parents_alive: "told f S S' \<Longrightarrow> parents_alive S' \<longleftrightarrow> parents_alive S"
  by (simp add: parents_alive_def told_props)

lemma told_view:
  assumes "told f S S'" "plain_sub (sub S s)"
  shows "view_of (hps_log (sub S' s)) = foldl apply_event (view_of (hps_log (sub S s))) (f s)"
proof -
  obtain l where "sub S' s = (sub S s)\<lparr>hps_log := l\<rparr>" "plain_sub (sub S s) \<longrightarrow> l = hps_log (sub S s) @ f s"
    using assms(1) unfolding told_def by blast
  then show ?thesis using assms(2) by (simp add: view_of_def)
qed

lemma ancestors_parents: "q \<in> set (prop_ancestors n S p) \<Longrightarrow> \<exists>c. hp_parent (hp S c) = Some q"
  by (induction n arbitrary: p) (auto split: option.splits)

lemma told_build_value:
  assumes e: "value_event (hp_payload (hp S q)) = Some e" and d: "\<And>r. direct \<Longrightarrow> hp_payload (hp S q) \<noteq> PROP_PROP r"
  shows "\<exists>S'. prop_build_notify_value s direct q S = Some S' \<and> told (\<lambda>t. if t = s then [e] else []) S S'"
proof (cases "hps_ignore_void (sub S s) \<and> hp_payload (hp S q) = PROP_VOID")
  case True
  then have "told (\<lambda>t. if t = s then [e] else []) S S"
    by (intro told_cong [OF told_refl]) (auto simp: plain_sub_def)
  with True show ?thesis by (simp add: prop_build_notify_value_def)
next
  case False
  let ?ev = "if direct \<or> hps_internal (sub S s) then direct_event else value_event"
  obtain e' where e': "?ev (hp_payload (hp S q)) = Some e'"
    using e by (cases "direct \<or> hps_internal (sub S s)"; cases "hp_payload (hp S q)") (simp_all add: direct_event_def)
  have "e' = e" if "plain_sub (sub S s)"
    using that e e' d by (cases direct; cases "hp_payload (hp S q)") (auto simp: direct_event_def plain_sub_def)
  then have "told (\<lambda>t. if t = s then [e] else []) S (log_event s e' S)"
    by (intro told_cong [OF told_log]) auto
  with e' False show ?thesis by (auto simp: prop_build_notify_value_def)
qed

text \<open>What a new value tells, and that it can always be told.\<close>

lemma told_notify_value:
  assumes "subs_ok S" "parents_alive S" "value_event (hp_payload (hp S p)) = Some e"
  shows "\<exists>S'. prop_notify_value p skip S = Some S' \<and>
    told (\<lambda>s. if hps_value_prop (sub S s) = Some p \<and> Some s \<noteq> skip then [e] else []) S S'"
proof -
  let ?f = "\<lambda>s S. if Some s = skip then Some S else case hps_value_prop (sub S s) of None \<Rightarrow> None
      | Some v \<Rightarrow> prop_build_notify_value s False v S"
  let ?ss = "hp_value_subscriptions (hp S p)"
  let ?P = "\<lambda>S'. ps_props S' = ps_props S \<and> (\<forall>s. hps_value_prop (sub S' s) = hps_value_prop (sub S s)) \<and>
      (\<forall>s. hps_multi (sub S' s) = hps_multi (sub S s))"
  have keep: "?P S''" if "?P S'" "told g S' S''" for S' S'' g
    using that by (simp add: told_props told_fields)
  have one: "\<exists>S''. ?f s S' = Some S'' \<and> told (\<lambda>t. if t = s \<and> Some s \<noteq> skip then [e] else []) S' S''"
    if "s \<in> set ?ss" "?P S'" for s S'
  proof (cases "Some s = skip")
    case True
    then show ?thesis using told_refl [of S'] by auto
  next
    case False
    have "hps_value_prop (sub S' s) = Some p" using that subs_okD(1) [OF assms(1), of s p] by metis
    moreover have "value_event (hp_payload (hp S' p)) = Some e" using that(2) assms(3) by metis
    then obtain S'' where "prop_build_notify_value s False p S' = Some S''" "told (\<lambda>t. if t = s then [e] else []) S' S''"
      using told_build_value by blast
    ultimately show ?thesis using False by simp
  qed
  have "\<exists>S'. forM ?f ?ss S = Some S' \<and>
      told (\<lambda>t. concat (map (\<lambda>s. if t = s \<and> Some s \<noteq> skip then [e] else []) ?ss)) S S'"
  proof (rule told_forM [where P = ?P], goal_cases)
    case (1 s S')
    then show ?case by (rule one)
  next
    case (2 S' S'' f)
    then show ?case by (rule keep)
  qed simp
  then obtain S1 where S1: "forM ?f ?ss S = Some S1"
    "told (\<lambda>t. concat (map (\<lambda>s. if t = s \<and> Some s \<noteq> skip then [e] else []) ?ss)) S S1"
    by blast
  have P1: "?P S1" using keep [OF _ S1(2)] by blast
  have t1: "told (\<lambda>s. if hps_value_prop (sub S s) = Some p \<and> Some s \<noteq> skip then [e] else []) S S1"
    by (rule told_cong [OF S1(2)]) (simp add: concat_one subs_okD [OF assms(1)])
  let ?g = "\<lambda>s q S'. if hps_multi (sub S' s) then prop_build_notify_value s False q S' else Some S'"
  have inner: "\<exists>S''. forM (\<lambda>s. ?g s q) ss S' = Some S'' \<and> told (\<lambda>_. []) S' S''"
    if P': "?P S'" and q: "hp_payload (hp S q) \<noteq> PROP_ZOMBIE" for q ss S'
  proof -
    obtain e' where e': "value_event (hp_payload (hp S q)) = Some e'"
      using q by (cases "hp_payload (hp S q)") (auto simp: value_event_def)
    have "\<exists>S2. ?g s q S1 = Some S2 \<and> told (\<lambda>_. []) S1 S2" if "?P S1" for s S1
    proof (cases "hps_multi (sub S1 s)")
      case True
      have "value_event (hp_payload (hp S1 q)) = Some e'" using that e' by metis
      then obtain S2 where "prop_build_notify_value s False q S1 = Some S2" "told (\<lambda>t. if t = s then [e'] else []) S1 S2"
        using told_build_value by blast
      moreover from this True have "told (\<lambda>_. []) S1 S2" by (auto intro: told_cong simp: plain_sub_def)
      ultimately show ?thesis using True by simp
    qed (simp add: told_refl)
    then have "\<exists>S''. forM (\<lambda>s. ?g s q) ss S' = Some S'' \<and> told (\<lambda>t. concat (map (\<lambda>s. []) ss)) S' S''"
      by (intro told_forM [where P = ?P, OF _ keep P']) blast+
    then show ?thesis by (simp only: concat_map_nil)
  qed
  let ?h = "\<lambda>q S'. if hp_multi_sub (hp S' q) then forM (\<lambda>s. ?g s q) (hp_value_subscriptions (hp S' q)) S' else Some S'"
  let ?as = "prop_ancestors (ps_next S1) S1 p"
  have "\<exists>S'. forM ?h ?as S1 = Some S' \<and> told (\<lambda>t. concat (map (\<lambda>s. []) ?as)) S1 S'"
  proof (rule told_forM [where P = ?P], goal_cases)
    case (1 q S')
    have "hp_payload (hp S q) \<noteq> PROP_ZOMBIE"
      using ancestors_parents [OF 1(1)] P1 assms(2) by (auto simp: parents_alive_def)
    then show ?case using inner [OF 1(2)] told_refl [of S'] by (cases "hp_multi_sub (hp S' q)") auto
  next
    case (2 S' S'' f)
    then show ?case by (rule keep)
  qed (fact P1)
  then obtain S2 where S2: "forM ?h ?as S1 = Some S2" "told (\<lambda>_. []) S1 S2"
    by (simp only: concat_map_nil) blast
  have "told (\<lambda>s. if hps_value_prop (sub S s) = Some p \<and> Some s \<noteq> skip then [e] else []) S S2"
    using told_trans [OF t1 S2(2)] by simp
  then show ?thesis using S1(1) S2(1) t1 by (cases "hp_multi_notify (hp S1 p)") (auto simp: prop_notify_value_def)
qed

section \<open>Updates of the store\<close>

lemma upd_prop_simps [simp]:
  "ps_props (upd_prop p f S) = (ps_props S)(p := f (hp S p))" "ps_subs (upd_prop p f S) = ps_subs S"
  "ps_next (upd_prop p f S) = ps_next S" "ps_next_sub (upd_prop p f S) = ps_next_sub S"
  by (simp_all add: upd_prop_def)

lemma upd_sub_simps [simp]:
  "ps_subs (upd_sub s f S) = (ps_subs S)(s := f (sub S s))" "ps_props (upd_sub s f S) = ps_props S"
  "ps_next (upd_sub s f S) = ps_next S" "ps_next_sub (upd_sub s f S) = ps_next_sub S"
  by (simp_all add: upd_sub_def)

lemma is_dir_iff: "is_dir v \<longleftrightarrow> (\<exists>cs sel. v = PROP_DIR cs sel)"
  by (cases v) (auto simp: is_dir_def)

lemma payload_simps [simp]:
  "map_childs f (PROP_DIR cs sel) = PROP_DIR (f cs) sel" "is_dir (PROP_DIR cs sel)"
  "unselect c (PROP_DIR cs sel) = PROP_DIR cs (if sel = Some c then None else sel)"
  "set_selected x (PROP_DIR cs sel) = PROP_DIR cs x"
  "payload_view (PROP_DIR cs sel) = V_Dir cs"
  by (simp_all add: map_childs_def unselect_def set_selected_def payload_view_def is_dir_def)

lemma childs_eq: "hp_payload (hp S p) = PROP_DIR cs sel \<Longrightarrow> childs S p = cs"
  by (simp add: childs_def)

lemma childs_dir: "c \<in> set (childs S p) \<Longrightarrow> \<exists>sel. hp_payload (hp S p) = PROP_DIR (childs S p) sel"
  by (cases "hp_payload (hp S p)") (auto simp: childs_def)

definition skip_ok :: "sid set \<Rightarrow> sid option \<Rightarrow> bool" where
  "skip_ok K skip \<longleftrightarrow> (\<forall>s. skip = Some s \<longrightarrow> s \<in> K)"

lemma skip_ok_None [simp]: "skip_ok K None"
  by (simp add: skip_ok_def)

text \<open>The change of one node of which its subscribers are told.\<close>

lemma in_sync_change:
  assumes "in_sync K S0" "skip_ok K skip"
    and told: "told (\<lambda>s. if hps_value_prop (sub S s) = Some p \<and> Some s \<noteq> skip then [e] else []) S S'"
    and same: "ps_subs S = ps_subs S0" "\<And>q. q \<noteq> p \<Longrightarrow> hp_payload (hp S q) = hp_payload (hp S0 q)"
    and eff: "apply_event (payload_view (hp_payload (hp S0 p))) e = payload_view (hp_payload (hp S p))"
  shows "in_sync K S'"
  unfolding in_sync_def
proof (intro allI impI)
  fix s q assume "hps_value_prop (sub S' s) = Some q" "plain_sub (sub S' s)" "s \<notin> K"
  then have q: "hps_value_prop (sub S s) = Some q" "plain_sub (sub S s)" "s \<notin> K" "Some s \<noteq> skip"
    using told_fields [OF told] assms(2) by (auto simp: skip_ok_def)
  then have "view_of (hps_log (sub S s)) = payload_view (hp_payload (hp S0 q))"
    using assms(1) same(1) by (simp add: in_sync_def)
  then show "view_of (hps_log (sub S' s)) = payload_view (hp_payload (hp S' q))"
    using told_view [OF told q(2)] told_props(1) [OF told] q same(2) eff by (cases "q = p") auto
qed

lemma in_sync_told_nothing: "in_sync K S \<Longrightarrow> told (\<lambda>_. []) S S' \<Longrightarrow> in_sync K S'"
  by (auto simp: in_sync_def told_fields told_props told_view)

lemma parent_rel_payload [simp]: "parent_rel (upd_prop p (hp_payload_update f) S) = parent_rel S"
  by (auto simp: parent_rel_def split: if_splits)

lemma set_payload_tree_ok:
  assumes "tree_ok S" "childs S p = []" "hp_payload (hp S p) \<noteq> PROP_ZOMBIE" "v \<noteq> PROP_ZOMBIE"
    "is_dir v \<Longrightarrow> \<exists>sel. v = PROP_DIR [] sel"
  shows "tree_ok (set_payload p v S)"
proof -
  have "childs (set_payload p v S) = childs S"
    using assms(2,5) by (auto simp: fun_eq_iff childs_def is_dir_def split: payload.splits)
  moreover have "p < ps_next S" using tree_okD(4) [OF assms(1)] assms(3) by (meson not_le)
  ultimately show ?thesis
    using assms(1,3,4) by (auto simp: tree_ok_def)
qed

lemma set_payload_subs_ok:
  "subs_ok S \<Longrightarrow> v \<noteq> PROP_ZOMBIE \<Longrightarrow> subs_ok (set_payload p v S)"
  unfolding subs_ok_def by simp

lemma set_payload_parents_alive:
  "parents_alive S \<Longrightarrow> v \<noteq> PROP_ZOMBIE \<Longrightarrow> parents_alive (set_payload p v S)"
  unfolding parents_alive_def by simp

text \<open>The whole invariant.\<close>

definition prop_inv :: "sid set \<Rightarrow> pstate \<Rightarrow> bool" where
  "prop_inv K S \<longleftrightarrow> tree_ok S \<and> subs_ok S \<and> in_sync K S"

lemma prop_invD: "prop_inv K S \<Longrightarrow> tree_ok S" "prop_inv K S \<Longrightarrow> subs_ok S" "prop_inv K S \<Longrightarrow> in_sync K S"
  by (simp_all add: prop_inv_def)

lemma value_event_view:
  "value_event v = Some e \<Longrightarrow> (is_dir v \<Longrightarrow> \<exists>sel. v = PROP_DIR [] sel) \<Longrightarrow> apply_event w e = payload_view v"
  by (cases v) (auto simp: value_event_def payload_view_def is_dir_def)

lemma value_event_ex: "v \<noteq> PROP_ZOMBIE \<Longrightarrow> \<exists>e. value_event v = Some e"
  by (cases v) (auto simp: value_event_def)

lemma store_value_inv:
  assumes "prop_inv K S" "skip_ok K skip" "childs S p = []" "hp_payload (hp S p) \<noteq> PROP_ZOMBIE" "v \<noteq> PROP_ZOMBIE"
    "is_dir v \<Longrightarrow> \<exists>sel. v = PROP_DIR [] sel"
  shows "\<exists>S'. store_value p skip v S = Some S' \<and> prop_inv K S' \<and> ps_props S' = ps_props (set_payload p v S) \<and> ps_next S' = ps_next S"
proof -
  let ?S = "set_payload p v S"
  have t: "tree_ok ?S" by (rule set_payload_tree_ok) (use assms prop_invD in auto)
  have s: "subs_ok ?S" using set_payload_subs_ok prop_invD(2) [OF assms(1)] assms(5) by blast
  obtain e where e: "value_event v = Some e" using value_event_ex assms(5) by blast
  then have "value_event (hp_payload (hp ?S p)) = Some e" by simp
  from told_notify_value [OF s tree_ok_parents_alive [OF t] this, of skip]
  obtain S' where S': "prop_notify_value p skip ?S = Some S'"
    "told (\<lambda>s. if hps_value_prop (sub ?S s) = Some p \<and> Some s \<noteq> skip then [e] else []) ?S S'" by blast
  have "in_sync K S'"
    by (rule in_sync_change [OF prop_invD(3) [OF assms(1)] assms(2) S'(2)])
      (use value_event_view [OF e assms(6)] in auto)
  then show ?thesis
    using S' t s told_tree_ok [OF S'(2)] told_subs_ok [OF S'(2)] told_props [OF S'(2)]
    by (simp add: store_value_def prop_inv_def)
qed

lemma clean_scalar:
  assumes "\<not> is_dir (hp_payload (hp S p))"
  shows "\<exists>r. prop_clean p S = Some (r, S) \<and> (\<not> r \<longrightarrow> hp_payload (hp S p) \<noteq> PROP_ZOMBIE)"
  using assms by (cases "hp_payload (hp S p)") (auto simp: prop_clean_def is_dir_def)

lemma scalar_no_childs: "\<not> is_dir (hp_payload (hp S p)) \<Longrightarrow> childs S p = []"
  by (cases "hp_payload (hp S p)") (auto simp: is_dir_def childs_def)

section \<open>Changes of the hierarchy\<close>

text \<open>A node without a parent is put under a directory that is not below it.\<close>

lemma attach_tree_ok:
  assumes "tree_ok S" "hp_parent (hp S c) = None" "hp_payload (hp S c) \<noteq> PROP_ZOMBIE"
    "hp_payload (hp S q) = PROP_DIR cs sel" "(q, c) \<notin> (parent_rel S)\<^sup>*"
    "set (g cs) = insert c (set cs)" "distinct (g cs)"
  shows "tree_ok (upd_childs q g (set_parent c (Some q) S))"
proof -
  let ?S = "upd_childs q g (set_parent c (Some q) S)"
  have cq: "c \<noteq> q" using assms(5) by auto
  have ch: "childs ?S p = (if p = q then g cs else childs S p)" for p
    using assms(4) cq by (auto simp: childs_def)
  have par: "hp_parent (hp ?S x) = (if x = c then Some q else hp_parent (hp S x))" for x
    using cq by simp
  have pay: "hp_payload (hp ?S x) = PROP_ZOMBIE \<longleftrightarrow> hp_payload (hp S x) = PROP_ZOMBIE" for x
    using assms(4) cq by simp
  have "parent_rel ?S = insert (c, q) (parent_rel S)"
    using assms(2) par by (auto simp: parent_rel_def split: if_splits)
  then have ac: "acyclic (parent_rel ?S)" using tree_okD(7) [OF assms(1)] assms(5) by (simp add: acyclic_insert)
  have "x \<in> set (childs ?S p) \<longleftrightarrow> hp_parent (hp ?S x) = Some p" for p x
    unfolding ch par using tree_okD(1) [OF assms(1), of x p] assms(2,6) childs_eq [OF assms(4)] by auto
  moreover have "distinct (childs ?S p)" for p
    unfolding ch using assms(7) tree_okD(2) [OF assms(1)] by simp
  moreover have "hp_payload (hp ?S x) = PROP_ZOMBIE \<Longrightarrow> hp_parent (hp ?S x) = None" for x
    unfolding par pay using tree_okD(3) [OF assms(1)] assms(3) by auto
  moreover have "ps_next ?S \<le> x \<Longrightarrow> hp_payload (hp ?S x) = PROP_ZOMBIE" for x
    unfolding pay using tree_okD(4) [OF assms(1)] by simp
  moreover have "hp_originator (hp ?S x) = None \<and> hp_targets (hp ?S x) = []" for x
    using tree_okD(5,6) [OF assms(1)] by simp
  ultimately show ?thesis using ac unfolding tree_ok_def by blast
qed

text \<open>A node leaves its parent, if it has one, and possibly ends as a zombie.\<close>

lemma detach_tree_ok:
  assumes ok: "tree_ok S"
    and ch: "\<And>x. childs S' x = remove1 c (childs S x)"
    and par: "\<And>x. hp_parent (hp S' x) = (if x = c then None else hp_parent (hp S x))"
    and zomb: "\<And>x. x \<noteq> c \<Longrightarrow> hp_payload (hp S' x) = PROP_ZOMBIE \<longleftrightarrow> hp_payload (hp S x) = PROP_ZOMBIE"
      "hp_payload (hp S c) = PROP_ZOMBIE \<Longrightarrow> hp_payload (hp S' c) = PROP_ZOMBIE"
    and links: "\<And>x. hp_originator (hp S' x) = hp_originator (hp S x)" "\<And>x. hp_targets (hp S' x) = hp_targets (hp S x)"
    and nxt: "ps_next S' = ps_next S"
  shows "tree_ok S'"
proof -
  have sub: "parent_rel S' \<subseteq> parent_rel S" using par by (auto simp: parent_rel_def split: if_splits)
  have "x \<in> set (childs S' p) \<longleftrightarrow> hp_parent (hp S' x) = Some p" for p x
    unfolding ch par using tree_okD(1) [OF ok, of x p] tree_okD(2) [OF ok, of p] by auto
  moreover have "distinct (childs S' p)" for p
    unfolding ch using tree_okD(2) [OF ok] by (simp add: distinct_remove1)
  moreover have "hp_payload (hp S' x) = PROP_ZOMBIE \<Longrightarrow> hp_parent (hp S' x) = None" for x
    using par zomb(1) [of x] tree_okD(3) [OF ok, of x] by (cases "x = c") auto
  moreover have "ps_next S' \<le> x \<Longrightarrow> hp_payload (hp S' x) = PROP_ZOMBIE" for x
    using zomb nxt tree_okD(4) [OF ok, of x] by (cases "x = c") auto
  moreover have "hp_originator (hp S' x) = None \<and> hp_targets (hp S' x) = []" for x
    using links tree_okD(5,6) [OF ok] by simp
  ultimately show ?thesis
    unfolding tree_ok_def using acyclic_subset [OF tree_okD(7) [OF ok] sub] by blast
qed

lemma reorder_tree_ok:
  assumes "tree_ok S" "hp_payload (hp S q) = PROP_DIR cs sel" "set (g cs) = set cs" "distinct (g cs)"
  shows "tree_ok (upd_childs q g S)"
proof -
  have "childs (upd_childs q g S) p = (if p = q then g cs else childs S p)" for p
    using assms(2) by (simp add: childs_def)
  then show ?thesis
    using assms childs_eq [OF assms(2)] unfolding tree_ok_def by auto
qed

lemma subs_ok_told:
  assumes "subs_ok S" "told f S S1" "ps_subs S' = ps_subs S1" "ps_next_sub S' = ps_next_sub S"
    "\<And>x. hp_value_subscriptions (hp S' x) = hp_value_subscriptions (hp S x)"
    "\<And>x. hp_canonical_subscriptions (hp S' x) = hp_canonical_subscriptions (hp S x)"
    "\<And>x. hp_payload (hp S' x) = PROP_ZOMBIE \<Longrightarrow> hp_payload (hp S x) = PROP_ZOMBIE"
  shows "subs_ok S'"
  using assms(1) unfolding subs_ok_def assms(3-6) told_fields [OF assms(2)] using assms(7) by blast

lemma in_sync_general:
  assumes "in_sync K S" "told f S S1" "ps_subs S' = ps_subs S1"
    and "\<And>s p. hps_value_prop (sub S s) = Some p \<Longrightarrow> plain_sub (sub S s) \<Longrightarrow> s \<notin> K \<Longrightarrow>
      foldl apply_event (payload_view (hp_payload (hp S p))) (f s) = payload_view (hp_payload (hp S' p))"
  shows "in_sync K S'"
  using assms unfolding in_sync_def by (auto simp: told_fields told_view)

lemma no_self_parent: "tree_ok S \<Longrightarrow> hp_parent (hp S p) = Some q \<Longrightarrow> p \<noteq> q"
  using tree_okD(7) [of S] by (auto simp: parent_rel_def acyclic_def)

text \<open>\<open>leave_parent\<close> on a state in which the parent is a directory.\<close>

lemma leave_parent_props:
  assumes "subs_ok S" "hp_parent (hp S p) = Some q" "hp_payload (hp S q) = PROP_DIR cs sel" "p \<noteq> q"
  shows "hp (leave_parent p S) x =
      (if x = p then (hp S p)\<lparr>hp_parent := None\<rparr>
       else if x = q then (hp S q)\<lparr>hp_payload := PROP_DIR (remove1 p cs) (if sel = Some p then None else sel)\<rparr>
       else hp S x)"
    and "ps_next (leave_parent p S) = ps_next S" "ps_next_sub (leave_parent p S) = ps_next_sub S"
    and "\<exists>S1. told (\<lambda>s. if hps_value_prop (sub S s) = Some q then [DEL_CHILD p] else []) S S1 \<and>
      ps_subs (leave_parent p S) = ps_subs S1"
proof -
  let ?S1 = "prop_notify_child q (DEL_CHILD p) None S"
  have t: "told (\<lambda>s. if hps_value_prop (sub S s) = Some q then [DEL_CHILD p] else []) S ?S1"
    using told_notify_child [OF assms(1), of q None "DEL_CHILD p"] by simp
  note pr = told_props [OF t]
  show "hp (leave_parent p S) x =
      (if x = p then (hp S p)\<lparr>hp_parent := None\<rparr>
       else if x = q then (hp S q)\<lparr>hp_payload := PROP_DIR (remove1 p cs) (if sel = Some p then None else sel)\<rparr>
       else hp S x)"
    using assms(2-4) pr by (cases "hp S q") (simp add: leave_parent_def)
  show "ps_next (leave_parent p S) = ps_next S" "ps_next_sub (leave_parent p S) = ps_next_sub S"
    using assms(2) pr by (simp_all add: leave_parent_def)
  show "\<exists>S1. told (\<lambda>s. if hps_value_prop (sub S s) = Some q then [DEL_CHILD p] else []) S S1 \<and>
      ps_subs (leave_parent p S) = ps_subs S1"
    using t assms(2) by (intro exI [of _ ?S1]) (simp add: leave_parent_def)
qed

lemma leave_parent_inv:
  assumes "prop_inv K S"
  shows "prop_inv K (leave_parent p S)"
    "\<And>x. hp_parent (hp (leave_parent p S) x) = (if x = p then None else hp_parent (hp S x))"
    "\<And>x. hp_payload (hp (leave_parent p S) x) = PROP_ZOMBIE \<longleftrightarrow> hp_payload (hp S x) = PROP_ZOMBIE"
    "ps_next (leave_parent p S) = ps_next S"
    "\<And>x. childs (leave_parent p S) x = remove1 p (childs S x)"
proof -
  have "prop_inv K (leave_parent p S) \<and> ps_next (leave_parent p S) = ps_next S \<and>
    (\<forall>x. hp_parent (hp (leave_parent p S) x) = (if x = p then None else hp_parent (hp S x))) \<and>
    (\<forall>x. hp_payload (hp (leave_parent p S) x) = PROP_ZOMBIE \<longleftrightarrow> hp_payload (hp S x) = PROP_ZOMBIE) \<and>
    (\<forall>x. childs (leave_parent p S) x = remove1 p (childs S x))"
  proof (cases "hp_parent (hp S p)")
    case None
    then have "remove1 p (childs S x) = childs S x" for x
      using tree_okD(1) [OF prop_invD(1) [OF assms], of p x] by (simp add: remove1_idem)
    then show ?thesis using None assms by (simp add: leave_parent_def)
  next
    case (Some q)
    note t = prop_invD(1) [OF assms] and s = prop_invD(2) [OF assms]
    have mem: "p \<in> set (childs S q)" using tree_okD(1) [OF t] Some by blast
    then obtain sel where q: "hp_payload (hp S q) = PROP_DIR (childs S q) sel" by (blast dest: childs_dir)
    note pq = no_self_parent [OF t Some]
    note L = leave_parent_props [OF s Some q pq]
    have rem: "remove1 p (childs S x) = childs S x" if "x \<noteq> q" for x
      using tree_okD(1) [OF t, of p x] Some that by (simp add: remove1_idem)
    have ch: "childs (leave_parent p S) x = remove1 p (childs S x)" for x
      using rem [of x] rem [of p] pq q by (auto simp: childs_def L(1))
    have z: "hp_payload (hp (leave_parent p S) x) = PROP_ZOMBIE \<longleftrightarrow> hp_payload (hp S x) = PROP_ZOMBIE" for x
      using q by (simp add: L(1))
    have par: "hp_parent (hp (leave_parent p S) x) = (if x = p then None else hp_parent (hp S x))" for x
      by (simp add: L(1))
    have "tree_ok (leave_parent p S)"
      by (rule detach_tree_ok [OF t ch par]) (simp only: z, simp only: z, simp_all add: L)
    moreover obtain S1 where S1: "told (\<lambda>s. if hps_value_prop (sub S s) = Some q then [DEL_CHILD p] else []) S S1"
      "ps_subs (leave_parent p S) = ps_subs S1" using L(4) by blast
    have "subs_ok (leave_parent p S)"
      by (rule subs_ok_told [OF s S1]) (simp add: L(3), simp add: L(1), simp add: L(1), simp only: z)
    moreover have "in_sync K (leave_parent p S)"
      by (rule in_sync_general [OF prop_invD(3) [OF assms] S1]) (use q pq in \<open>auto simp: L(1)\<close>)
    ultimately show ?thesis using ch par z L(2) by (simp add: prop_inv_def)
  qed
  then show "prop_inv K (leave_parent p S)"
    "\<And>x. hp_parent (hp (leave_parent p S) x) = (if x = p then None else hp_parent (hp S x))"
    "\<And>x. hp_payload (hp (leave_parent p S) x) = PROP_ZOMBIE \<longleftrightarrow> hp_payload (hp S x) = PROP_ZOMBIE"
    "ps_next (leave_parent p S) = ps_next S"
    "\<And>x. childs (leave_parent p S) x = remove1 p (childs S x)"
    by auto
qed

text \<open>Fields that the invariant does not mention, and the selection, may change.\<close>

lemma prop_inv_cong:
  assumes inv: "prop_inv K S"
    and "ps_subs S' = ps_subs S" "ps_next S' = ps_next S" "ps_next_sub S' = ps_next_sub S"
    "\<And>x. hp_parent (hp S' x) = hp_parent (hp S x)" "\<And>x. childs S' x = childs S x"
    "\<And>x. payload_view (hp_payload (hp S' x)) = payload_view (hp_payload (hp S x))"
    "\<And>x. hp_payload (hp S' x) = PROP_ZOMBIE \<longleftrightarrow> hp_payload (hp S x) = PROP_ZOMBIE"
    "\<And>x. hp_originator (hp S' x) = hp_originator (hp S x)" "\<And>x. hp_targets (hp S' x) = hp_targets (hp S x)"
    "\<And>x. hp_value_subscriptions (hp S' x) = hp_value_subscriptions (hp S x)"
    "\<And>x. hp_canonical_subscriptions (hp S' x) = hp_canonical_subscriptions (hp S x)"
  shows "prop_inv K S'"
proof -
  have "parent_rel S' = parent_rel S" using assms by (simp add: parent_rel_def)
  then show ?thesis using inv assms unfolding prop_inv_def tree_ok_def subs_ok_def in_sync_def by simp
qed

definition inert :: "(prop_t \<Rightarrow> prop_t) \<Rightarrow> bool" where
  "inert f \<longleftrightarrow> (\<forall>x. hp_parent (f x) = hp_parent x \<and> hp_payload (f x) = hp_payload x \<and>
     hp_originator (f x) = hp_originator x \<and> hp_targets (f x) = hp_targets x \<and>
     hp_value_subscriptions (f x) = hp_value_subscriptions x \<and>
     hp_canonical_subscriptions (f x) = hp_canonical_subscriptions x)"

lemma inert_updates [simp]:
  "inert (hp_xref_update g)" "inert (hp_name_update h)" "inert (hp_clipped_update b)" "inert (hp_marked_update b)"
  "inert (hp_multi_notify_update b)" "inert (hp_multi_sub_update b)" "inert (hp_monitored_update b)"
  by (simp_all add: inert_def)

lemma inert_childs [simp]: "inert f \<Longrightarrow> childs (upd_prop p f S) = childs S"
  by (auto simp: fun_eq_iff childs_def inert_def)

lemma inert_inv: "prop_inv K S \<Longrightarrow> inert f \<Longrightarrow> prop_inv K (upd_prop p f S)"
  by (erule prop_inv_cong) (auto simp: inert_def)

lemma select_inv:
  assumes "prop_inv K S" "hp_payload (hp S q) = PROP_DIR cs sel"
  shows "prop_inv K (set_payload q (PROP_DIR cs sel') S)"
  by (rule prop_inv_cong [OF assms(1)]) (use assms(2) in \<open>auto simp: childs_def\<close>)

text \<open>A child leaves its parent without losing the selection, as in \<open>prop_destroy_child\<close>.\<close>

definition drop_child :: "pid \<Rightarrow> pid \<Rightarrow> pstate \<Rightarrow> pstate" where
  "drop_child p c S = set_parent c None (upd_childs p (remove1 c) (prop_notify_child p (DEL_CHILD c) None S))"

lemma drop_child_leave:
  assumes "prop_inv K S" "hp_parent (hp S c) = Some p"
  shows "prop_inv K (drop_child p c S)" "ps_next (drop_child p c S) = ps_next S"
    "\<exists>sel. hp (drop_child p c S) p = (hp S p)\<lparr>hp_payload := PROP_DIR (remove1 c (childs S p)) sel\<rparr>"
    "hp (drop_child p c S) c = (hp S c)\<lparr>hp_parent := None\<rparr>"
    "\<And>x. x \<noteq> p \<Longrightarrow> x \<noteq> c \<Longrightarrow> hp (drop_child p c S) x = hp S x"
proof -
  note t = prop_invD(1) [OF assms(1)] and s = prop_invD(2) [OF assms(1)]
  have "c \<in> set (childs S p)" using tree_okD(1) [OF t] assms(2) by blast
  then obtain sel where q: "hp_payload (hp S p) = PROP_DIR (childs S p) sel" by (blast dest: childs_dir)
  note cp = no_self_parent [OF t assms(2)]
  have pr: "ps_props (prop_notify_child p (DEL_CHILD c) None S) = ps_props S"
    "ps_next (prop_notify_child p (DEL_CHILD c) None S) = ps_next S"
    by (rule told_props [OF told_notify_child [OF s]])+
  show P: "\<exists>sel. hp (drop_child p c S) p = (hp S p)\<lparr>hp_payload := PROP_DIR (remove1 c (childs S p)) sel\<rparr>"
    using q cp by (cases "hp S p") (auto simp: drop_child_def pr)
  show "hp (drop_child p c S) c = (hp S c)\<lparr>hp_parent := None\<rparr>"
    "\<And>x. x \<noteq> p \<Longrightarrow> x \<noteq> c \<Longrightarrow> hp (drop_child p c S) x = hp S x" "ps_next (drop_child p c S) = ps_next S"
    using cp by (simp_all add: drop_child_def pr)
  have "leave_parent c S = upd_prop p (hp_payload_update (unselect c)) (drop_child p c S)"
    using assms(2) by (simp add: leave_parent_def drop_child_def)
  with leave_parent_inv(1) [OF assms(1), of c]
  have L: "prop_inv K (upd_prop p (hp_payload_update (unselect c)) (drop_child p c S))" by simp
  from P obtain sel' where pay: "hp_payload (hp (drop_child p c S) p) = PROP_DIR (remove1 c (childs S p)) sel'" by auto
  show "prop_inv K (drop_child p c S)"
    by (rule prop_inv_cong [OF L]) (use pay in \<open>auto simp: childs_def\<close>)
qed

section \<open>The end of a node\<close>

lemma drop_canonical_all:
  assumes "hp_canonical_subscriptions (hp S p) = ss" "distinct ss"
  shows "ps_props (fold (drop_canonical_sub p) ss S) = (ps_props S)(p := (hp S p)\<lparr>hp_canonical_subscriptions := []\<rparr>) \<and>
    ps_next (fold (drop_canonical_sub p) ss S) = ps_next S \<and> ps_next_sub (fold (drop_canonical_sub p) ss S) = ps_next_sub S \<and>
    (\<forall>s. hps_canonical_prop (sub (fold (drop_canonical_sub p) ss S) s) = (if s \<in> set ss then None else hps_canonical_prop (sub S s)) \<and>
         hps_value_prop (sub (fold (drop_canonical_sub p) ss S) s) = hps_value_prop (sub S s) \<and>
         plain_sub (sub (fold (drop_canonical_sub p) ss S) s) = plain_sub (sub S s) \<and>
         view_of (hps_log (sub (fold (drop_canonical_sub p) ss S) s)) = view_of (hps_log (sub S s)))"
  using assms
proof (induction ss arbitrary: S)
  case Nil
  then show ?case by (cases "hp S p") auto
next
  case (Cons s ss)
  let ?S = "drop_canonical_sub p s S"
  have v: "apply_event v DESTROYED = v" for v by (cases v) simp_all
  have h: "ps_props ?S = (ps_props S)(p := (hp S p)\<lparr>hp_canonical_subscriptions := ss\<rparr>)"
    "ps_next ?S = ps_next S" "ps_next_sub ?S = ps_next_sub S"
    using Cons.prems by (cases "hp S p"; simp add: drop_canonical_sub_def prop_notify_destroyed_def log_event_def Let_def)+
  have f: "hps_canonical_prop (sub ?S t) = (if t = s then None else hps_canonical_prop (sub S t)) \<and>
      hps_value_prop (sub ?S t) = hps_value_prop (sub S t) \<and> plain_sub (sub ?S t) = plain_sub (sub S t) \<and>
      view_of (hps_log (sub ?S t)) = view_of (hps_log (sub S t))" for t
    by (simp add: drop_canonical_sub_def prop_notify_destroyed_def log_event_def Let_def plain_sub_def v)
  have "hp_canonical_subscriptions (hp ?S p) = ss" "distinct ss" using h Cons.prems by simp_all
  from Cons.IH [OF this] show ?case using h f by auto
qed

lemma drop_value_all:
  assumes "hp_value_subscriptions (hp S p) = ss" "distinct ss"
  shows "ps_props (fold (drop_value_sub p) ss S) = (ps_props S)(p := (hp S p)\<lparr>hp_value_subscriptions := []\<rparr>) \<and>
    ps_next (fold (drop_value_sub p) ss S) = ps_next S \<and> ps_next_sub (fold (drop_value_sub p) ss S) = ps_next_sub S \<and>
    (\<forall>s. hps_value_prop (sub (fold (drop_value_sub p) ss S) s) = (if s \<in> set ss then None else hps_value_prop (sub S s)) \<and>
         hps_canonical_prop (sub (fold (drop_value_sub p) ss S) s) = hps_canonical_prop (sub S s)) \<and>
    (\<forall>s. s \<notin> set ss \<longrightarrow> sub (fold (drop_value_sub p) ss S) s = sub S s)"
  using assms
proof (induction ss arbitrary: S)
  case Nil
  then show ?case by (cases "hp S p") auto
next
  case (Cons s ss)
  let ?S = "drop_value_sub p s S"
  have h: "ps_props ?S = (ps_props S)(p := (hp S p)\<lparr>hp_value_subscriptions := ss\<rparr>)"
    "ps_next ?S = ps_next S" "ps_next_sub ?S = ps_next_sub S"
    using Cons.prems by (cases "hp S p"; simp add: drop_value_sub_def prop_notify_void_def log_event_def)+
  have f: "hps_value_prop (sub ?S t) = (if t = s then None else hps_value_prop (sub S t)) \<and>
      hps_canonical_prop (sub ?S t) = hps_canonical_prop (sub S t) \<and> (t \<noteq> s \<longrightarrow> sub ?S t = sub S t)" for t
    by (simp add: drop_value_sub_def prop_notify_void_def log_event_def)
  have "hp_value_subscriptions (hp ?S p) = ss" "distinct ss" using h Cons.prems by simp_all
  from Cons.IH [OF this] show ?case using h f by auto
qed

lemma become_zombie_props:
  assumes "subs_ok S"
  shows "ps_props (become_zombie p S) = (ps_props S)(p := (hp S p)\<lparr>hp_payload := PROP_ZOMBIE,
      hp_canonical_subscriptions := [], hp_value_subscriptions := []\<rparr>)"
    "ps_next (become_zombie p S) = ps_next S" "ps_next_sub (become_zombie p S) = ps_next_sub S"
    "subs_ok (become_zombie p S)" "in_sync K S \<Longrightarrow> in_sync K (become_zombie p S)"
proof -
  let ?S1 = "set_payload p PROP_ZOMBIE S"
  let ?S2 = "fold (drop_canonical_sub p) (hp_canonical_subscriptions (hp ?S1 p)) ?S1"
  let ?S3 = "fold (drop_value_sub p) (hp_value_subscriptions (hp ?S2 p)) ?S2"
  have z: "become_zombie p S = ?S3" by (simp add: become_zombie_def Let_def)
  have "distinct (hp_canonical_subscriptions (hp ?S1 p))" using subs_okD(4) [OF assms] by simp
  note c = drop_canonical_all [OF refl this]
  have vs: "hp_value_subscriptions (hp ?S2 p) = hp_value_subscriptions (hp S p)" using c by simp
  then have "distinct (hp_value_subscriptions (hp ?S2 p))" using subs_okD(3) [OF assms] by simp
  note v = drop_value_all [OF refl this]
  show P: "ps_props (become_zombie p S) = (ps_props S)(p := (hp S p)\<lparr>hp_payload := PROP_ZOMBIE,
      hp_canonical_subscriptions := [], hp_value_subscriptions := []\<rparr>)"
    unfolding z using c v by (cases "hp S p") simp
  show N: "ps_next (become_zombie p S) = ps_next S" "ps_next_sub (become_zombie p S) = ps_next_sub S"
    unfolding z using c v by simp_all
  have V: "hps_value_prop (sub (become_zombie p S) s) = (if hps_value_prop (sub S s) = Some p then None else hps_value_prop (sub S s))" for s
    unfolding z using v c vs subs_okD(1) [OF assms, of s p] by simp
  have C: "hps_canonical_prop (sub (become_zombie p S) s) = (if hps_canonical_prop (sub S s) = Some p then None else hps_canonical_prop (sub S s))" for s
    unfolding z using v c subs_okD(2) [OF assms, of s p] by simp
  show "subs_ok (become_zombie p S)"
    unfolding subs_ok_def using subs_okD [OF assms] by (simp add: P N V C)
  have W: "plain_sub (sub (become_zombie p S) s) = plain_sub (sub S s) \<and>
      view_of (hps_log (sub (become_zombie p S) s)) = view_of (hps_log (sub S s))"
    if "hps_value_prop (sub S s) \<noteq> Some p" for s
  proof -
    have "s \<notin> set (hp_value_subscriptions (hp ?S2 p))" using that vs subs_okD(1) [OF assms, of s p] by simp
    then have "sub ?S3 s = sub ?S2 s" using v by blast
    then show ?thesis unfolding z using c by simp
  qed
  show "in_sync K (become_zombie p S)" if sync: "in_sync K S"
    unfolding in_sync_def
  proof (intro allI impI)
    fix s q assume a: "hps_value_prop (sub (become_zombie p S) s) = Some q" "plain_sub (sub (become_zombie p S) s)" "s \<notin> K"
    then have q: "hps_value_prop (sub S s) = Some q" "q \<noteq> p" by (auto simp: V split: if_splits)
    then have "hps_value_prop (sub S s) \<noteq> Some p" by simp
    from W [OF this] show "view_of (hps_log (sub (become_zombie p S) s)) = payload_view (hp_payload (hp (become_zombie p S) q))"
      using sync a q by (simp add: in_sync_def P)
  qed
qed

text \<open>The last part of \<open>prop_destroy0\<close>, when the children are gone.\<close>

lemma kill_inv:
  assumes inv: "prop_inv K S" and nc: "childs S p = []" and alive: "hp_payload (hp S p) \<noteq> PROP_ZOMBIE"
    and S': "S' = upd_prop p (hp_name_update (\<lambda>_. None)) (leave_parent p (become_zombie p S))"
  shows "prop_inv K S'" "ps_next S' = ps_next S" "hp_payload (hp S' p) = PROP_ZOMBIE"
    "\<And>x. hp_parent (hp S' x) = (if x = p then None else hp_parent (hp S x))"
    "\<And>x. x \<noteq> p \<Longrightarrow> hp_parent (hp S p) \<noteq> Some x \<Longrightarrow> hp S' x = hp S x"
    "\<And>q. hp_parent (hp S p) = Some q \<Longrightarrow> \<exists>sel. hp S' q = (hp S q)\<lparr>hp_payload := PROP_DIR (remove1 p (childs S q)) sel\<rparr>"
proof -
  note t = prop_invD(1) [OF inv] and z = become_zombie_props [OF prop_invD(2) [OF inv], where p = p]
  let ?Z = "become_zombie p S" and ?L = "leave_parent p (become_zombie p S)"
  have "prop_inv K S' \<and> ps_next S' = ps_next S \<and> hp_payload (hp S' p) = PROP_ZOMBIE \<and>
    (\<forall>x. hp_parent (hp S' x) = (if x = p then None else hp_parent (hp S x))) \<and>
    (\<forall>x. x \<noteq> p \<longrightarrow> hp_parent (hp S p) \<noteq> Some x \<longrightarrow> hp S' x = hp S x) \<and>
    (\<forall>q. hp_parent (hp S p) = Some q \<longrightarrow> (\<exists>sel. hp S' q = (hp S q)\<lparr>hp_payload := PROP_DIR (remove1 p (childs S q)) sel\<rparr>))"
  proof (cases "hp_parent (hp S p)")
    case None
    then have no: "remove1 p (childs S x) = childs S x" for x
      using tree_okD(1) [OF t, of p x] by (simp add: remove1_idem)
    have L: "?L = ?Z" using None by (simp add: leave_parent_def z(1))
    have ch: "childs ?Z x = remove1 p (childs S x)" for x
      unfolding no using nc by (simp add: childs_def z(1))
    have "tree_ok ?Z"
      by (rule detach_tree_ok [OF t ch]) (use None in \<open>auto simp: z(1,2)\<close>)
    then have "prop_inv K ?Z" using z(4,5) prop_invD(3) [OF inv] by (simp add: prop_inv_def)
    then have "prop_inv K S'" unfolding S' L by (rule inert_inv) simp
    then show ?thesis using None by (simp add: S' L z(1,2))
  next
    case (Some q)
    have "p \<in> set (childs S q)" using tree_okD(1) [OF t] Some by blast
    then obtain sel where q: "hp_payload (hp S q) = PROP_DIR (childs S q) sel" by (blast dest: childs_dir)
    note pq = no_self_parent [OF t Some]
    have "hp_parent (hp ?Z p) = Some q" "hp_payload (hp ?Z q) = PROP_DIR (childs S q) sel" using Some pq q by (simp_all add: z(1))
    note L = leave_parent_props [OF z(4) this pq]
    have no: "remove1 p (childs S x) = childs S x" if "x \<noteq> q" for x
      using tree_okD(1) [OF t, of p x] Some that by (simp add: remove1_idem)
    have ch: "childs ?L x = remove1 p (childs S x)" for x
      using no [of x] nc pq q by (auto simp: childs_def L(1) z(1))
    have tok: "tree_ok ?L"
      by (rule detach_tree_ok [OF t ch]) (use q in \<open>auto simp: L(1,2) z(1,2)\<close>)
    obtain S1 where S1: "told (\<lambda>s. if hps_value_prop (sub ?Z s) = Some q then [DEL_CHILD p] else []) ?Z S1"
      "ps_subs ?L = ps_subs S1" using L(4) by blast
    have "subs_ok ?L"
      by (rule subs_ok_told [OF z(4) S1]) (use q pq in \<open>auto simp: L z(1) split: if_splits\<close>)
    moreover have "in_sync K ?L"
    proof (rule in_sync_general [OF z(5) [OF prop_invD(3) [OF inv]] S1])
      fix s x assume "hps_value_prop (sub ?Z s) = Some x"
      then show "foldl apply_event (payload_view (hp_payload (hp ?Z x))) (if hps_value_prop (sub ?Z s) = Some q then [DEL_CHILD p] else [])
          = payload_view (hp_payload (hp ?L x))"
        using q pq by (auto simp: L(1) z(1))
    qed
    ultimately have "prop_inv K ?L" using tok by (simp add: prop_inv_def)
    then have "prop_inv K S'" unfolding S' by (rule inert_inv) simp
    then show ?thesis using Some pq by (auto simp: S' L z(1,2))
  qed
  then show "prop_inv K S'" "ps_next S' = ps_next S" "hp_payload (hp S' p) = PROP_ZOMBIE"
    "\<And>x. hp_parent (hp S' x) = (if x = p then None else hp_parent (hp S x))"
    "\<And>x. x \<noteq> p \<Longrightarrow> hp_parent (hp S p) \<noteq> Some x \<Longrightarrow> hp S' x = hp S x"
    "\<And>q. hp_parent (hp S p) = Some q \<Longrightarrow> \<exists>sel. hp S' q = (hp S q)\<lparr>hp_payload := PROP_DIR (remove1 p (childs S q)) sel\<rparr>"
    by blast+
qed

section \<open>Destruction ends\<close>

text \<open>The nodes of a subtree.\<close>

definition desc :: "pstate \<Rightarrow> pid \<Rightarrow> pid set" where
  "desc S p = {x. (x, p) \<in> (parent_rel S)\<^sup>*}"

lemma desc_self [simp]: "p \<in> desc S p"
  by (simp add: desc_def)

lemma desc_mono: "parent_rel S' \<subseteq> parent_rel S \<Longrightarrow> desc S' p \<subseteq> desc S p"
  unfolding desc_def using rtrancl_mono by blast

lemma desc_alive:
  assumes "tree_ok S" "hp_payload (hp S p) \<noteq> PROP_ZOMBIE" "x \<in> desc S p"
  shows "hp_payload (hp S x) \<noteq> PROP_ZOMBIE" "x < ps_next S"
proof -
  have "(x, p) \<in> (parent_rel S)\<^sup>*" using assms(3) by (simp add: desc_def)
  then show z: "hp_payload (hp S x) \<noteq> PROP_ZOMBIE"
    by (cases rule: converse_rtranclE) (use assms(1,2) tree_okD(3) in \<open>auto simp: parent_rel_def\<close>)
  then show "x < ps_next S" using tree_okD(4) [OF assms(1)] by (meson not_le)
qed

lemma desc_finite: "tree_ok S \<Longrightarrow> hp_payload (hp S p) \<noteq> PROP_ZOMBIE \<Longrightarrow> finite (desc S p)"
  by (rule finite_subset [of _ "{..<ps_next S}"]) (use desc_alive in auto)

lemma desc_card: "tree_ok S \<Longrightarrow> hp_payload (hp S p) \<noteq> PROP_ZOMBIE \<Longrightarrow> card (desc S p) \<le> ps_next S"
  using card_mono [of "{..<ps_next S}" "desc S p"] desc_alive(2) [of S p] by auto

lemma desc_child:
  assumes "tree_ok S" "hp_parent (hp S c) = Some p"
  shows "desc S c \<subseteq> desc S p" "p \<notin> desc S c"
proof -
  have e: "(c, p) \<in> parent_rel S" using assms(2) by (simp add: parent_rel_def)
  then show "desc S c \<subseteq> desc S p" by (auto simp: desc_def intro: rtrancl_into_rtrancl)
  show "p \<notin> desc S c"
    using tree_okD(7) [OF assms(1)] e unfolding desc_def acyclic_def by (auto dest: rtrancl_into_trancl2)
qed

text \<open>What a call of \<open>prop_destroy0\<close> that returns \<open>r\<close> has done to a living node \<open>p\<close>, and what the loop over
  the children has done.\<close>

definition destroyed :: "sid set \<Rightarrow> bool \<Rightarrow> pid \<Rightarrow> pstate \<Rightarrow> pstate \<Rightarrow> bool" where
  "destroyed K r p S S' \<longleftrightarrow> prop_inv K S' \<and> ps_next S' = ps_next S \<and> parent_rel S' \<subseteq> parent_rel S \<and>
     (\<forall>x. x \<notin> desc S p \<longrightarrow> hp_parent (hp S p) \<noteq> Some x \<longrightarrow> hp S' x = hp S x) \<and>
     (if r then
        hp_payload (hp S' p) = PROP_ZOMBIE \<and> hp_parent (hp S' p) = None \<and>
        (\<forall>q. hp_parent (hp S p) = Some q \<longrightarrow>
           (\<exists>sel. hp S' q = (hp S q)\<lparr>hp_payload := PROP_DIR (remove1 p (childs S q)) sel\<rparr>))
      else hp S' = (hp S)(p := (hp S p)\<lparr>hp_xref := hp_xref (hp S p) - 1\<rparr>))"

definition childs_destroyed :: "sid set \<Rightarrow> pid \<Rightarrow> pstate \<Rightarrow> pstate \<Rightarrow> bool" where
  "childs_destroyed K p S S' \<longleftrightarrow> prop_inv K S' \<and> ps_next S' = ps_next S \<and> parent_rel S' \<subseteq> parent_rel S \<and>
     (\<forall>x. x \<notin> desc S p \<longrightarrow> hp S' x = hp S x) \<and> childs S' p = [] \<and> hp_payload (hp S' p) \<noteq> PROP_ZOMBIE \<and>
     hp_parent (hp S' p) = hp_parent (hp S p)"

lemma childs_destroyed_step:
  assumes "hp_parent (hp S c) = Some p" "tree_ok S" "parent_rel S1 \<subseteq> parent_rel S" "ps_next S1 = ps_next S"
    "\<And>x. x \<notin> desc S c \<Longrightarrow> x \<noteq> p \<Longrightarrow> hp S1 x = hp S x" "hp_parent (hp S1 p) = hp_parent (hp S p)"
    and "childs_destroyed K p S1 S2"
  shows "childs_destroyed K p S S2"
proof -
  have "hp S2 x = hp S x" if "x \<notin> desc S p" for x
  proof -
    have "x \<notin> desc S1 p" "x \<notin> desc S c" "x \<noteq> p"
      using that desc_mono [OF assms(3), of p] desc_child(1) [OF assms(2,1)] by auto
    then show ?thesis using assms(5,7) by (simp add: childs_destroyed_def)
  qed
  then show ?thesis using assms unfolding childs_destroyed_def by auto
qed

lemma destroyed_child:
  assumes inv: "prop_inv K S" and par: "hp_parent (hp S c) = Some p" and cs: "childs S p = c # cs"
    and d: "destroyed K r c S S1"
    and S2: "S2 = (if r then S1 else drop_child p c S1)"
  shows "prop_inv K S2" "parent_rel S2 \<subseteq> parent_rel S" "ps_next S2 = ps_next S" "childs S2 p = cs"
    "\<And>x. x \<notin> desc S c \<Longrightarrow> x \<noteq> p \<Longrightarrow> hp S2 x = hp S x" "hp_parent (hp S2 p) = hp_parent (hp S p)"
    "hp_payload (hp S2 p) \<noteq> PROP_ZOMBIE"
proof -
  have cp: "c \<noteq> p" using no_self_parent prop_invD(1) [OF inv] par by blast
  have "prop_inv K S2 \<and> parent_rel S2 \<subseteq> parent_rel S \<and> ps_next S2 = ps_next S \<and>
    (\<exists>sel. hp S2 p = (hp S p)\<lparr>hp_payload := PROP_DIR cs sel\<rparr>) \<and> (\<forall>x. x \<notin> desc S c \<longrightarrow> x \<noteq> p \<longrightarrow> hp S2 x = hp S x)"
  proof (cases r)
    case True
    then show ?thesis using d par cs by (auto simp: S2 destroyed_def)
  next
    case False
    then have h: "hp S1 = (hp S)(c := (hp S c)\<lparr>hp_xref := hp_xref (hp S c) - 1\<rparr>)" and i: "prop_inv K S1" "ps_next S1 = ps_next S"
      using d False unfolding destroyed_def by meson+
    then have "hp_parent (hp S1 c) = Some p" using par by simp
    note D = drop_child_leave [OF i(1) this]
    have "childs S1 p = c # cs" using h cs cp by (simp add: childs_def)
    then have "\<exists>sel. hp (drop_child p c S1) p = (hp S p)\<lparr>hp_payload := PROP_DIR cs sel\<rparr>" using D(3) h cp by simp
    moreover have "hp_parent (hp (drop_child p c S1) x) = Some q \<Longrightarrow> hp_parent (hp S x) = Some q" for x q
      using D(3,4) D(5) [of x] h by (cases "x = p"; cases "x = c") auto
    then have "parent_rel (drop_child p c S1) \<subseteq> parent_rel S" by (auto simp: parent_rel_def)
    ultimately show ?thesis
      using False D(1,2,5) h i desc_self [of c S] by (auto simp: S2 simp del: desc_self)
  qed
  then show "prop_inv K S2" "parent_rel S2 \<subseteq> parent_rel S" "ps_next S2 = ps_next S" "childs S2 p = cs"
    "\<And>x. x \<notin> desc S c \<Longrightarrow> x \<noteq> p \<Longrightarrow> hp S2 x = hp S x" "hp_parent (hp S2 p) = hp_parent (hp S p)"
    "hp_payload (hp S2 p) \<noteq> PROP_ZOMBIE"
    by (auto simp: childs_def)
qed

lemma destroy_step:
  assumes inv: "prop_inv K S" and alive: "hp_payload (hp S p) \<noteq> PROP_ZOMBIE"
    and S1: "S1 = upd_prop p (hp_xref_update (\<lambda>x. x - 1)) S" and d: "childs_destroyed K p S1 S2"
    and S': "S' = upd_prop p (hp_name_update (\<lambda>_. None)) (leave_parent p (become_zombie p S2))"
  shows "destroyed K True p S S'"
proof -
  have c: "prop_inv K S2" "childs S2 p = []" "hp_payload (hp S2 p) \<noteq> PROP_ZOMBIE"
    using d by (simp_all add: childs_destroyed_def)
  note k = kill_inv [OF c S']
  have rel: "parent_rel S1 = parent_rel S" by (auto simp: S1 parent_rel_def split: if_splits)
  then have ds: "desc S1 = desc S" by (simp add: fun_eq_iff desc_def)
  have par: "hp_parent (hp S2 p) = hp_parent (hp S p)" using d by (simp add: childs_destroyed_def S1)
  have out: "hp S2 x = hp S x" if "x \<notin> desc S p" for x
    using that d desc_self [of p S] unfolding childs_destroyed_def ds by (cases "x = p") (auto simp: S1)
  have "parent_rel S' \<subseteq> parent_rel S2" using k(4) by (auto simp: parent_rel_def split: if_splits)
  then have "parent_rel S' \<subseteq> parent_rel S" using d rel by (auto simp: childs_destroyed_def)
  moreover have "hp S' x = hp S x" if "x \<notin> desc S p" "hp_parent (hp S p) \<noteq> Some x" for x
    using k(5) [of x] out [OF that(1)] that par by (cases "x = p") auto
  moreover have "\<exists>sel. hp S' q = (hp S q)\<lparr>hp_payload := PROP_DIR (remove1 p (childs S q)) sel\<rparr>" if q: "hp_parent (hp S p) = Some q" for q
  proof -
    have "hp S2 q = hp S q" using out [of q] desc_child(2) [OF prop_invD(1) [OF inv] q] by blast
    then show ?thesis using k(6) [of q] q par by (simp add: childs_def)
  qed
  moreover have "ps_next S' = ps_next S" using k(2) d S1 by (simp add: childs_destroyed_def)
  ultimately show ?thesis using k(1,3,4) by (simp add: destroyed_def)
qed

text \<open>Destruction of a subtree does not depend on the parents that nodes outside of it believe to have.\<close>

definition pretend :: "pid set \<Rightarrow> (pid \<Rightarrow> pid option) \<Rightarrow> pstate \<Rightarrow> pstate" where
  "pretend X h S = S\<lparr>ps_props := (\<lambda>x. if x \<in> X then (hp S x)\<lparr>hp_parent := h x\<rparr> else hp S x)\<rparr>"

lemma pretend_simps [simp]:
  "hp (pretend X h S) x = (if x \<in> X then (hp S x)\<lparr>hp_parent := h x\<rparr> else hp S x)"
  "ps_subs (pretend X h S) = ps_subs S" "ps_next (pretend X h S) = ps_next S" "ps_next_sub (pretend X h S) = ps_next_sub S"
  by (simp_all add: pretend_def)

lemma pretend_childs [simp]: "childs (pretend X h S) = childs S"
  by (auto simp: fun_eq_iff childs_def)

lemma upd_prop_pretend:
  "p \<notin> X \<or> (\<forall>r v. f (r\<lparr>hp_parent := v\<rparr>) = (f r)\<lparr>hp_parent := v\<rparr>) \<Longrightarrow>
     upd_prop p f (pretend X h S) = pretend X h (upd_prop p f S)"
  by (auto simp: upd_prop_def pretend_def fun_eq_iff)

lemma log_pretend: "log_event s e (pretend X h S) = pretend X h (log_event s e S)"
  by (cases S) (simp add: log_event_def upd_sub_def pretend_def cong: if_cong)

lemma upd_sub_pretend: "upd_sub s f (pretend X h S) = pretend X h (upd_sub s f S)"
  by (cases S) (simp add: upd_sub_def pretend_def cong: if_cong)

lemma fold_commute_state: "(\<And>s S. f s (g S) = g (f s S)) \<Longrightarrow> fold f ss (g S) = g (fold f ss S)"
  by (induction ss arbitrary: S) simp_all

lemma notify_child_pretend:
  "prop_notify_child q e k (pretend X h S) = pretend X h (prop_notify_child q e k S)"
proof -
  have "hp_value_subscriptions (hp (pretend X h S) q) = hp_value_subscriptions (hp S q)" by simp
  then show ?thesis
    unfolding prop_notify_child_def by (simp only:) (rule fold_commute_state, simp add: log_pretend)
qed

lemma become_zombie_pretend: "become_zombie p (pretend X h S) = pretend X h (become_zombie p S)"
proof -
  have c: "drop_canonical_sub p s (pretend X h S') = pretend X h (drop_canonical_sub p s S')" for s S'
    by (simp add: drop_canonical_sub_def prop_notify_destroyed_def Let_def upd_sub_pretend log_pretend upd_prop_pretend)
  have d: "drop_value_sub p s (pretend X h S') = pretend X h (drop_value_sub p s S')" for s S'
    by (simp add: drop_value_sub_def prop_notify_void_def upd_sub_pretend log_pretend upd_prop_pretend)
  have z: "set_payload p PROP_ZOMBIE (pretend X h S) = pretend X h (set_payload p PROP_ZOMBIE S)"
    by (rule upd_prop_pretend) simp
  have l: "hp_canonical_subscriptions (hp (pretend X h S') p) = hp_canonical_subscriptions (hp S' p)"
    "hp_value_subscriptions (hp (pretend X h S') p) = hp_value_subscriptions (hp S' p)" for S' by simp_all
  show ?thesis
    unfolding become_zombie_def Let_def z l
    by (simp only: fold_commute_state [where f = "drop_canonical_sub p" and g = "pretend X h", OF c] l
        fold_commute_state [where f = "drop_value_sub p" and g = "pretend X h", OF d])
qed

lemma leave_parent_pretend:
  assumes "p \<notin> X"
  shows "leave_parent p (pretend X h S) = pretend X h (leave_parent p S)"
proof -
  have "hp_parent (hp (pretend X h S) p) = hp_parent (hp S p)" using assms by simp
  then show ?thesis
    using assms by (simp add: leave_parent_def notify_child_pretend upd_prop_pretend split: option.splits)
qed

lemma drop_child_pretend: "c \<notin> X \<Longrightarrow> drop_child p c (pretend X h S) = pretend X h (drop_child p c S)"
  by (simp add: drop_child_def notify_child_pretend upd_prop_pretend)

lemma destroy_total:
  "prop_inv K S \<Longrightarrow> hp_payload (hp S p) \<noteq> PROP_ZOMBIE \<Longrightarrow> card (desc S p) \<le> n \<Longrightarrow>
     \<exists>r S'. prop_destroy0 n p S = Some (r, S') \<and> destroyed K r p S S' \<and>
       (\<forall>X h. X \<inter> desc S p = {} \<longrightarrow> prop_destroy0 n p (pretend X h S) = Some (r, pretend X h S'))"
  "prop_inv K S \<Longrightarrow> hp_payload (hp S p) \<noteq> PROP_ZOMBIE \<Longrightarrow> childs S p = cs \<Longrightarrow>
     \<forall>c\<in>set cs. card (desc S c) \<le> n \<Longrightarrow>
     \<exists>S'. destroy_childs_loop n p cs S = Some S' \<and> childs_destroyed K p S S' \<and>
       (\<forall>X h. X \<inter> desc S p = {} \<longrightarrow> destroy_childs_loop n p cs (pretend X h S) = Some (pretend X h S'))"
proof (induction n p S and n p cs S rule: prop_destroy0_destroy_childs_loop.induct)
  case (1 p S)
  have "finite (desc S p)" using desc_finite prop_invD(1) 1 by blast
  then have "desc S p = {}" using 1(3) by simp
  then show ?case using desc_self [of p S] by simp
next
  case (2 n p S)
  note t = prop_invD(1) [OF 2(2)]
  let ?x = "hp_xref_update (\<lambda>x. x - 1)"
  let ?S1 = "upd_prop p ?x S"
  have i1: "prop_inv K ?S1" by (rule inert_inv [OF 2(2)]) simp
  have rel: "parent_rel ?S1 = parent_rel S" by (auto simp: parent_rel_def split: if_splits)
  then have ds: "desc ?S1 = desc S" by (simp add: fun_eq_iff desc_def)
  have com: "upd_prop p ?x (pretend X h S) = pretend X h ?S1" for X h by (rule upd_prop_pretend) simp
  show ?case
  proof (cases "hp_xref (hp ?S1 p) = 0")
    case False
    have "destroyed K False p S ?S1"
      using i1 rel False by (cases "hp S p") (auto simp: destroyed_def)
    moreover have "prop_destroy0 (Suc n) p (pretend X h S) = Some (False, pretend X h ?S1)" for X h
    proof -
      have "hp_payload (hp (pretend X h S) p) \<noteq> PROP_ZOMBIE" "hp_xref (hp (pretend X h ?S1) p) \<noteq> 0"
        using False 2(3) by auto
      then show ?thesis unfolding prop_destroy0.simps com Let_def by (simp only: simp_thms if_False if_True)
    qed
    ultimately show ?thesis using False 2(3) by (auto simp: Let_def)
  next
    case True
    have "card (desc S c) \<le> n" if "c \<in> set (childs S p)" for c
    proof -
      have "hp_parent (hp S c) = Some p" using tree_okD(1) [OF t] that by blast
      from desc_child [OF t this] have "desc S c \<subset> desc S p" using desc_self [of p S] by auto
      then have "card (desc S c) < card (desc S p)" using psubset_card_mono desc_finite [OF t 2(3)] by blast
      then show ?thesis using 2(4) by simp
    qed
    then have cc: "\<forall>c\<in>set (childs ?S1 p). card (desc ?S1 c) \<le> n" by (simp add: ds)
    have tg: "hp_targets (hp ?S1 p) = []" using tree_okD(6) [OF prop_invD(1) [OF i1]] .
    obtain S2 where S2: "destroy_childs_loop n p (childs ?S1 p) ?S1 = Some S2" "childs_destroyed K p ?S1 S2"
      and S2x: "\<And>X h. X \<inter> desc S p = {} \<Longrightarrow> destroy_childs_loop n p (childs ?S1 p) (pretend X h ?S1) = Some (pretend X h S2)"
      using 2(1) [OF 2(3) refl] True tg i1 2(3) cc unfolding ds by auto
    let ?S' = "upd_prop p (hp_name_update (\<lambda>_. None)) (leave_parent p (become_zombie p S2))"
    have "destroyed K True p S ?S'"
      by (rule destroy_step [OF 2(2,3) refl S2(2) refl])
    moreover have org: "hp_originator (hp (become_zombie p S2) p) = None"
    proof -
      have i2: "prop_inv K S2" using S2(2) by (simp add: childs_destroyed_def)
      show ?thesis using become_zombie_props(1) [OF prop_invD(2) [OF i2]] tree_okD(5) [OF prop_invD(1) [OF i2]] by simp
    qed
    moreover have "prop_destroy0 (Suc n) p (pretend X h S) = Some (True, pretend X h ?S')" if x: "X \<inter> desc S p = {}" for X h
    proof -
      have px: "p \<notin> X" using x desc_self [of p S] by blast
      have nm: "upd_prop p (hp_name_update (\<lambda>_. None)) (pretend X h S') = pretend X h (upd_prop p (hp_name_update (\<lambda>_. None)) S')" for S'
        by (rule upd_prop_pretend) simp
      have "destroy_childs_loop n p (childs (pretend X h ?S1) p) (pretend X h ?S1) = Some (pretend X h S2)"
        using S2x [OF x, of h] by (simp only: pretend_childs)
      moreover have "hp_payload (hp (pretend X h S) p) \<noteq> PROP_ZOMBIE" "hp_xref (hp (pretend X h ?S1) p) = 0"
        "hp_targets (hp (pretend X h ?S1) p) = []" "hp_originator (hp (pretend X h (become_zombie p S2)) p) = None"
        using True 2(3) px tg org by simp_all
      ultimately show ?thesis
        unfolding prop_destroy0.simps com Let_def
        by (simp only: simp_thms if_False if_True Option.bind.bind_lunit become_zombie_pretend leave_parent_pretend [OF px] nm)
    qed
    ultimately show ?thesis using S2(1) True tg 2(3) by (auto simp: Let_def)
  qed
next
  case (3 n p S)
  then show ?case by (auto simp: childs_destroyed_def)
next
  case (4 n p c cs S)
  note t = prop_invD(1) [OF 4(3)]
  have par: "hp_parent (hp S c) = Some p" using tree_okD(1) [OF t, of c p] 4(5) by simp
  have al: "hp_payload (hp S c) \<noteq> PROP_ZOMBIE" using tree_okD(3) [OF t, of c] par by auto
  obtain r S1 where d: "prop_destroy0 n c S = Some (r, S1)" "destroyed K r c S S1"
    and dx: "\<And>X h. X \<inter> desc S c = {} \<Longrightarrow> prop_destroy0 n c (pretend X h S) = Some (r, pretend X h S1)"
    using 4(1) [OF 4(3) al] 4(6) by auto
  let ?S2 = "if r then S1 else drop_child p c S1"
  note D = destroyed_child [OF 4(3) par 4(5) d(2) refl]
  have "\<forall>x\<in>set cs. card (desc ?S2 x) \<le> n"
  proof
    fix x assume x: "x \<in> set cs"
    then have "hp_parent (hp S x) = Some p" using tree_okD(1) [OF t, of x p] 4(5) by simp
    then have "finite (desc S x)" using desc_finite [OF t] tree_okD(3) [OF t, of x] by auto
    then have "card (desc ?S2 x) \<le> card (desc S x)" using card_mono desc_mono [OF D(2)] by blast
    then show "card (desc ?S2 x) \<le> n" using 4(6) x by (meson le_trans list.set_intros(2))
  qed
  then obtain S3 where S3: "destroy_childs_loop n p cs ?S2 = Some S3" "childs_destroyed K p ?S2 S3"
    and S3x: "\<And>X h. X \<inter> desc ?S2 p = {} \<Longrightarrow> destroy_childs_loop n p cs (pretend X h ?S2) = Some (pretend X h S3)"
    using 4(2) [OF d(1) refl] D(1,4,7) unfolding drop_child_def by blast
  have "childs_destroyed K p S S3"
    by (rule childs_destroyed_step [OF par t D(2,3) _ D(6) S3(2)]) (rule D(5))
  moreover have "destroy_childs_loop n p (c # cs) (pretend X h S) = Some (pretend X h S3)" if x: "X \<inter> desc S p = {}" for X h
  proof -
    have xs: "X \<inter> desc S c = {}" "X \<inter> desc ?S2 p = {}" using x desc_child(1) [OF t par] desc_mono [OF D(2), of p] by blast+
    then have cx: "c \<notin> X" using desc_self [of c S] by blast
    have "(if r then pretend X h S1 else drop_child p c (pretend X h S1)) = pretend X h ?S2"
      using drop_child_pretend [OF cx] by simp
    then have "destroy_childs_loop n p cs (if r then pretend X h S1 else drop_child p c (pretend X h S1)) = Some (pretend X h S3)"
      using S3x [OF xs(2), of h] by (simp only:)
    then show ?thesis using dx [OF xs(1), of h] by (cases r) (simp_all add: drop_child_def)
  qed
  ultimately show ?case using d(1) S3(1) by (auto simp: drop_child_def)
qed

text \<open>Enough fuel: the number of nodes.\<close>

lemma destroy0_inv:
  assumes "prop_inv K S" "hp_payload (hp S p) \<noteq> PROP_ZOMBIE"
  shows "\<exists>r S'. prop_destroy0 (Suc (ps_next S)) p S = Some (r, S') \<and> destroyed K r p S S' \<and>
    (\<forall>X h. X \<inter> desc S p = {} \<longrightarrow> prop_destroy0 (Suc (ps_next S)) p (pretend X h S) = Some (r, pretend X h S'))"
  by (rule destroy_total(1) [OF assms]) (use desc_card [OF prop_invD(1) [OF assms(1)] assms(2)] in simp)

lemma root_not_below: "hp_parent (hp S x) = None \<Longrightarrow> x \<noteq> p \<Longrightarrow> x \<notin> desc S p"
  unfolding desc_def by (auto elim: converse_rtranclE simp: parent_rel_def)

end
