(* ===== verification/Prop_Ops.thy ===== *)
theory Prop_Ops
  imports Prop_Tree
begin

text \<open>
  The operations on the property tree keep the invariant of \<open>Prop_Tree\<close>. The runs of the program are an
  inductive relation over the operations, whose states all have the invariant: subscribers see the
  value and the children of their node, whatever is created, moved, changed or destroyed.
\<close>

section \<open>Children of a node that gets a value\<close>

abbreviation destroy_orphan :: "pid \<Rightarrow> pstate \<Rightarrow> pstate option" where
  "destroy_orphan c S \<equiv> map_option snd (prop_destroy0 (Suc (ps_next S)) c (set_parent c None S))"

lemma destroy_orphans:
  assumes "prop_inv K T" "distinct cs"
    "\<forall>c\<in>set cs. hp_parent (hp T c) = None \<and> hp_payload (hp T c) \<noteq> PROP_ZOMBIE"
  shows "\<exists>T'. forM destroy_orphan cs (pretend (set cs) h T) = Some T' \<and> prop_inv K T' \<and> ps_next T' = ps_next T \<and>
    parent_rel T' \<subseteq> parent_rel T \<and> (\<forall>x. (\<forall>c\<in>set cs. x \<notin> desc T c) \<longrightarrow> hp T' x = hp T x)"
  using assms
proof (induction cs arbitrary: T)
  case Nil
  moreover have "pretend {} h T = T" by (simp add: pretend_def)
  ultimately show ?case by simp
next
  case (Cons c cs)
  have "hp_parent (hp T c) = None" using Cons.prems(3) by simp
  then have "(hp T c)\<lparr>hp_parent := None\<rparr> = hp T c" by (cases "hp T c") simp
  then have "hp (set_parent c None (pretend (set (c # cs)) h T)) x = hp (pretend (set cs) h T) x" for x
    using Cons.prems(2) by (cases "x = c") simp_all
  then have pp: "ps_props (set_parent c None (pretend (set (c # cs)) h T)) = ps_props (pretend (set cs) h T)" by (rule ext)
  have st: "set_parent c None (pretend (set (c # cs)) h T) = pretend (set cs) h T"
    by (rule pstate.equality [OF pp]) simp_all
  have al: "hp_payload (hp T c) \<noteq> PROP_ZOMBIE" using Cons.prems(3) by simp
  obtain r T1 where d: "destroyed K r c T T1"
    and x: "\<And>X h. X \<inter> desc T c = {} \<Longrightarrow> prop_destroy0 (Suc (ps_next T)) c (pretend X h T) = Some (r, pretend X h T1)"
    using destroy0_inv [OF Cons.prems(1) al] by blast
  have out: "hp T1 x = hp T x" if "x \<notin> desc T c" for x
    using d that Cons.prems(3) by (auto simp: destroyed_def)
  have off: "x \<notin> desc T c" if "x \<in> set cs" for x
    using root_not_below [of T x c] that Cons.prems(2,3) by auto
  then have "set cs \<inter> desc T c = {}" by blast
  note e = x [OF this, of h]
  have T1: "prop_inv K T1" "ps_next T1 = ps_next T" "parent_rel T1 \<subseteq> parent_rel T"
    using d by (simp_all add: destroyed_def)
  have "\<forall>x\<in>set cs. hp_parent (hp T1 x) = None \<and> hp_payload (hp T1 x) \<noteq> PROP_ZOMBIE"
    using Cons.prems(3) out off by simp
  from Cons.IH [OF T1(1) _ this] Cons.prems(2)
  obtain T' where T': "forM destroy_orphan cs (pretend (set cs) h T1) = Some T'" "prop_inv K T'" "ps_next T' = ps_next T1"
    "parent_rel T' \<subseteq> parent_rel T1" "\<forall>x. (\<forall>c\<in>set cs. x \<notin> desc T1 c) \<longrightarrow> hp T' x = hp T1 x"
    by auto
  have "hp T' x = hp T x" if "\<forall>c\<in>set (c # cs). x \<notin> desc T c" for x
  proof -
    have "x \<notin> desc T c" "\<forall>c\<in>set cs. x \<notin> desc T1 c" using that desc_mono [OF T1(3)] by auto
    then show ?thesis using T'(5) out by simp
  qed
  moreover have "forM destroy_orphan (c # cs) (pretend (set (c # cs)) h T) = Some T'"
    unfolding forM.simps st using e T'(1) by simp
  ultimately show ?case using T' T1 by (intro exI [of _ T']) auto
qed

lemma in_sync_cong:
  assumes "in_sync K S" "ps_subs S' = ps_subs S" "\<And>x. hp_payload (hp S' x) = hp_payload (hp S x)"
  shows "in_sync K S'"
  using assms unfolding in_sync_def by simp

lemma destroy_childs0_inv:
  assumes inv: "prop_inv K S" and dir: "hp_payload (hp S p) = PROP_DIR cs sel"
  shows "\<exists>S'. prop_destroy_childs0 p S = Some S' \<and> prop_inv K S' \<and> hp S' p = (hp S p)\<lparr>hp_payload := PROP_VOID\<rparr> \<and>
    ps_next S' = ps_next S \<and> parent_rel S' \<subseteq> parent_rel S \<and> (\<forall>x. x \<notin> desc S p \<longrightarrow> hp S' x = hp S x)"
proof -
  note t = prop_invD(1) [OF inv]
  have ch: "childs S p = cs" using dir by (rule childs_eq)
  let ?V = "set_payload p PROP_VOID S"
  have sv: "subs_ok ?V" by (rule set_payload_subs_ok [OF prop_invD(2) [OF inv]]) simp
  have pa: "parents_alive ?V" by (rule set_payload_parents_alive [OF tree_ok_parents_alive [OF t]]) simp
  have "value_event (hp_payload (hp ?V p)) = Some SET_VOID" by (simp add: value_event_def)
  from told_notify_value [OF sv pa this, of None] obtain V where V: "prop_notify_value p None ?V = Some V"
    "told (\<lambda>s. if hps_value_prop (sub ?V s) = Some p \<and> Some s \<noteq> None then [SET_VOID] else []) ?V V" by blast
  note hV = told_props(1) [OF V(2)]
  define T where "T = pretend (set cs) (\<lambda>_. None) V"
  have par: "hp_parent (hp S c) = Some p" if "c \<in> set cs" for c using tree_okD(1) [OF t] ch that by blast
  have "p \<notin> set cs" using par no_self_parent [OF t] by blast
  then have hT: "hp T x = (if x = p then (hp S p)\<lparr>hp_payload := PROP_VOID\<rparr>
      else if x \<in> set cs then (hp S x)\<lparr>hp_parent := None\<rparr> else hp S x)" for x
    by (auto simp: T_def hV)
  have nT: "ps_next T = ps_next S" using told_props(2) [OF V(2)] by (simp add: T_def)
  have rel: "parent_rel T \<subseteq> parent_rel S" by (auto simp: parent_rel_def hT split: if_splits)
  have cT: "childs T x = (if x = p then [] else childs S x)" for x by (simp add: childs_def hT)
  have iff: "c \<in> set (childs T x) \<longleftrightarrow> hp_parent (hp T c) = Some x" for c x
    unfolding cT hT using tree_okD(1) [OF t, of c x] ch par \<open>p \<notin> set cs\<close> by auto
  have "p < ps_next S" using tree_okD(4) [OF t, of p] dir by (cases "ps_next S \<le> p") auto
  then have "tree_ok T"
    unfolding tree_ok_def using iff tree_okD(2-6) [OF t] acyclic_subset [OF tree_okD(7) [OF t] rel]
    by (auto simp: cT hT nT)
  moreover have "subs_ok T"
    by (rule subs_ok_told [OF sv V(2)])
      (simp_all add: hT T_def [THEN arg_cong [where f = ps_subs]] T_def [THEN arg_cong [where f = ps_next_sub]] told_props(3) [OF V(2)] split: if_splits)
  moreover have "in_sync K T"
  proof (rule in_sync_cong)
    show "in_sync K V"
      by (rule in_sync_change [OF prop_invD(3) [OF inv] skip_ok_None V(2)]) (simp_all add: payload_view_def value_event_def)
  qed (auto simp: T_def)
  ultimately have iT: "prop_inv K T" by (simp add: prop_inv_def)
  have restored: "pretend (set cs) (\<lambda>_. Some p) T = V"
  proof -
    have "(hp V x)\<lparr>hp_parent := Some p\<rparr> = hp V x" if "x \<in> set cs" for x
      using par [OF that] \<open>p \<notin> set cs\<close> that by (cases "hp S x") (auto simp: hV)
    then show ?thesis by (cases V) (auto simp: T_def pretend_def fun_eq_iff)
  qed
  have roots: "\<forall>c\<in>set cs. hp_parent (hp T c) = None \<and> hp_payload (hp T c) \<noteq> PROP_ZOMBIE"
  proof
    fix c assume c: "c \<in> set cs"
    then have "hp_payload (hp S c) \<noteq> PROP_ZOMBIE" using par tree_okD(3) [OF t, of c] by auto
    with c show "hp_parent (hp T c) = None \<and> hp_payload (hp T c) \<noteq> PROP_ZOMBIE"
      using \<open>p \<notin> set cs\<close> by (auto simp: hT)
  qed
  have "distinct cs" using tree_okD(2) [OF t, of p] ch by simp
  from destroy_orphans [OF iT this roots, of "\<lambda>_. Some p"]
  obtain S' where S': "forM destroy_orphan cs V = Some S'" "prop_inv K S'" "ps_next S' = ps_next T"
    "parent_rel S' \<subseteq> parent_rel T" "\<forall>x. (\<forall>c\<in>set cs. x \<notin> desc T c) \<longrightarrow> hp S' x = hp T x"
    unfolding restored by blast
  have below: "x \<notin> desc T c" if "c \<in> set cs" "x \<notin> desc S p \<or> x = p" for x c
    using that desc_mono [OF rel, of c] desc_child [OF t par [OF that(1)]] by blast
  have kids: "set cs \<subseteq> desc S p"
    using desc_child(1) [OF t par] desc_self by blast
  have "hp S' p = hp T p" "\<And>x. x \<notin> desc S p \<Longrightarrow> hp S' x = hp T x" using S'(5) below by blast+
  then have "hp S' p = (hp S p)\<lparr>hp_payload := PROP_VOID\<rparr>" "\<And>x. x \<notin> desc S p \<Longrightarrow> hp S' x = hp S x"
    using kids desc_self [of p S] by (auto simp: hT)
  then show ?thesis using V(1) S' nT rel by (auto simp: prop_destroy_childs0_def ch)
qed

section \<open>Values\<close>

lemma clean_inv:
  assumes inv: "prop_inv K S" and al: "hp_payload (hp S p) \<noteq> PROP_ZOMBIE"
  shows "\<exists>r S'. prop_clean p S = Some (r, S') \<and> prop_inv K S' \<and> (r \<longrightarrow> S' = S) \<and>
    (\<not> r \<longrightarrow> \<not> is_dir (hp_payload (hp S' p)) \<and> hp_payload (hp S' p) \<noteq> PROP_ZOMBIE) \<and>
    hp_clipped (hp S' p) = hp_clipped (hp S p)"
proof (cases "is_dir (hp_payload (hp S p)) \<and> \<not> hp_clipped (hp S p) \<and>
    \<not> prop_check_canonical_subs_descending (ps_next S) S p")
  case True
  then obtain cs sel where dir: "hp_payload (hp S p) = PROP_DIR cs sel" by (auto simp: is_dir_iff)
  from destroy_childs0_inv [OF inv dir] True dir show ?thesis by (auto simp: prop_clean_def is_dir_def)
next
  case False
  then show ?thesis
    using inv al by (cases "hp_payload (hp S p)") (auto simp: prop_clean_def is_dir_def)
qed

lemma clean_and_store_inv:
  assumes "prop_inv K S" "skip_ok K skip" "hp_payload (hp S p) \<noteq> PROP_ZOMBIE" "\<not> is_dir v" "v \<noteq> PROP_ZOMBIE"
  shows "\<exists>S'. clean_and_store p skip v S = Some S' \<and> prop_inv K S'"
proof -
  obtain r S1 where c: "prop_clean p S = Some (r, S1)" "prop_inv K S1"
    "\<not> r \<Longrightarrow> \<not> is_dir (hp_payload (hp S1 p)) \<and> hp_payload (hp S1 p) \<noteq> PROP_ZOMBIE"
    using clean_inv [OF assms(1,3)] by blast
  show ?thesis
  proof (cases r)
    case True
    then show ?thesis using c by (simp add: clean_and_store_def)
  next
    case False
    then obtain S' where "store_value p skip v S1 = Some S'" "prop_inv K S'"
      using store_value_inv [OF c(2) assms(2), of p v] c(3) scalar_no_childs assms(4,5) by blast
    then show ?thesis using c(1) False by (simp add: clean_and_store_def)
  qed
qed

lemma store_scalar_inv:
  assumes "prop_inv K S" "skip_ok K skip" "\<not> is_dir (hp_payload (hp S p))" "hp_payload (hp S p) \<noteq> PROP_ZOMBIE"
    "\<not> is_dir v" "v \<noteq> PROP_ZOMBIE"
  shows "\<exists>S'. store_value p skip v S = Some S' \<and> prop_inv K S'"
  using store_value_inv [OF assms(1,2) scalar_no_childs [OF assms(3)] assms(4,6)] assms(5) by blast

lemmas store_invs = clean_and_store_inv store_scalar_inv

lemma set_void_inv: "prop_inv K S \<Longrightarrow> skip_ok K skip \<Longrightarrow> \<exists>S'. prop_set_void_exl p skip S = Some S' \<and> prop_inv K S'"
  by (cases "hp_payload (hp S p)") (auto simp: prop_set_void_exl_def is_dir_def intro!: clean_and_store_inv)

lemma set_void_ex_inv: "prop_inv K S \<Longrightarrow> skip_ok K skip \<Longrightarrow> \<exists>S'. prop_set_void_ex p skip S = Some S' \<and> prop_inv K S'"
  by (auto simp: prop_set_void_ex_def set_void_inv split: option.split)

lemma set_string_inv:
  "prop_inv K S \<Longrightarrow> skip_ok K skip \<Longrightarrow> \<exists>S'. prop_set_string_exl p skip str t S = Some S' \<and> prop_inv K S'"
  by (cases "hp_payload (hp S p)") (auto simp: prop_set_string_exl_def is_dir_def intro!: store_invs)

lemma set_string_ex_inv:
  "prop_inv K S \<Longrightarrow> skip_ok K skip \<Longrightarrow> \<exists>S'. prop_set_string_ex p skip str t S = Some S' \<and> prop_inv K S'"
  by (auto simp: prop_set_string_ex_def set_void_ex_inv set_string_inv split: option.splits)

lemma set_rstring_inv:
  "prop_inv K S \<Longrightarrow> skip_ok K skip \<Longrightarrow> \<exists>S'. prop_set_rstring_exl p skip str S = Some S' \<and> prop_inv K S'"
  by (cases "hp_payload (hp S p)") (auto simp: prop_set_rstring_exl_def is_dir_def intro!: store_invs)

lemma set_cstring_inv:
  "prop_inv K S \<Longrightarrow> skip_ok K skip \<Longrightarrow> \<exists>S'. prop_set_cstring_exl p skip str S = Some S' \<and> prop_inv K S'"
  by (cases "hp_payload (hp S p)") (auto simp: prop_set_cstring_exl_def is_dir_def intro!: store_invs)

lemma set_strings_ex_inv:
  assumes "prop_inv K S" "skip_ok K skip"
  shows "\<exists>S'. prop_set_rstring_ex p skip str S = Some S' \<and> prop_inv K S'" "\<exists>S'. prop_set_cstring_ex p skip str S = Some S' \<and> prop_inv K S'"
  using assms by (auto simp: prop_set_rstring_ex_def prop_set_cstring_ex_def set_void_ex_inv set_rstring_inv set_cstring_inv split: option.splits)

lemma set_prop_inv:
  "prop_inv K S \<Longrightarrow> skip_ok K skip \<Longrightarrow> \<exists>S'. prop_set_prop_exl p skip q S = Some S' \<and> prop_inv K S'"
  by (cases "hp_payload (hp S p)") (auto simp: prop_set_prop_exl_def is_dir_def intro!: store_invs)

lemma set_int_inv:
  "prop_inv K S \<Longrightarrow> skip_ok K skip \<Longrightarrow> \<exists>S'. prop_set_int_exl f2i p skip v S = Some S' \<and> prop_inv K S'"
  by (cases "hp_payload (hp S p)") (auto simp: prop_set_int_exl_def is_dir_def intro!: store_invs)

lemma set_int_ex_inv:
  "prop_inv K S \<Longrightarrow> skip_ok K skip \<Longrightarrow> \<exists>S'. prop_set_int_ex f2i p skip v S = Some S' \<and> prop_inv K S'"
  by (auto simp: prop_set_int_ex_def set_int_inv split: option.splits)

lemma set_uri_inv:
  "prop_inv K S \<Longrightarrow> skip_ok K skip \<Longrightarrow> \<exists>S'. prop_set_uri_ex p skip title url S = Some S' \<and> prop_inv K S'"
proof (cases p)
  case (Some q)
  assume "prop_inv K S" "skip_ok K skip"
  then show ?thesis
    using Some set_void_ex_inv [of K S skip p]
    by (cases "hp_payload (hp S q)") (auto simp: prop_set_uri_ex_def is_dir_def Let_def intro!: store_invs)
qed (simp add: prop_set_uri_ex_def)

lemma set_payload_twice: "set_payload p v (set_payload p w S) = set_payload p v S"
  by (simp add: upd_prop_def)

lemma store_value_twice: "store_value p skip v (set_payload p w S) = store_value p skip v S"
  by (simp add: store_value_def set_payload_twice)

lemma toggle_int_inv:
  assumes "prop_inv K S" "skip_ok K skip"
  shows "\<exists>S'. prop_toggle_int_ex f2i p skip S = Some S' \<and> prop_inv K S'"
proof (cases p)
  case None
  then show ?thesis using assms by (simp add: prop_toggle_int_ex_def)
next
  case (Some q)
  show ?thesis
  proof (cases "hp_payload (hp S q) = PROP_ZOMBIE")
    case True
    then show ?thesis using Some assms by (simp add: prop_toggle_int_ex_def int_of_prop_def)
  next
    case False
    note al = False
    obtain r S1 where c: "prop_clean q S = Some (r, S1)" "prop_inv K S1"
      "\<not> r \<Longrightarrow> \<not> is_dir (hp_payload (hp S1 q)) \<and> hp_payload (hp S1 q) \<noteq> PROP_ZOMBIE"
      using clean_inv [OF assms(1) False] by blast
    have "\<exists>S'. store_value q skip (PROP_INT i mn mx) S1 = Some S' \<and> prop_inv K S'" if "\<not> r" for i mn mx
      using store_scalar_inv [OF c(2) assms(2)] c(3) [OF that] by (simp add: is_dir_def)
    moreover have "\<exists>S'. store_value q skip (PROP_INT i mn mx) S = Some S' \<and> prop_inv K S'" if "\<not> is_dir (hp_payload (hp S q))" for i mn mx
      using store_scalar_inv [OF assms that al] by (simp add: is_dir_def)
    ultimately show ?thesis
      using Some c(1,2) assms(1) by (cases "hp_payload (hp S q)")
        (auto simp: prop_toggle_int_ex_def int_of_prop_def store_value_twice is_dir_def)
  qed
qed

lemma add_int_inv:
  assumes "prop_inv K S" "skip_ok K skip" "hp_payload (hp S q) = PROP_INT i mn mx"
  shows "\<exists>S'. prop_add_int_ex f2i (Some q) skip v S = Some S' \<and> prop_inv K S'"
  using assms store_scalar_inv [OF assms(1,2), of q]
  by (auto simp: prop_add_int_ex_def int_of_prop_def is_dir_def Let_def)

lemma clipping_range_inv:
  assumes "prop_inv K S" "hp_payload (hp S q) = PROP_INT i mn0 mx0"
  shows "\<exists>S'. prop_set_int_clipping_range f2i (Some q) mn mx S = Some S' \<and> prop_inv K S'"
proof -
  let ?S1 = "upd_prop q (hp_clipped_update (\<lambda>_. True)) S"
  have i1: "prop_inv K ?S1" by (rule inert_inv [OF assms(1)]) simp
  have "prop_inv K (set_payload q (PROP_INT i mn mx) ?S1)"
    by (rule prop_inv_cong [OF i1]) (use assms(2) in \<open>auto simp: childs_def payload_view_def value_event_def\<close>)
  moreover have "\<exists>S'. store_value q None v ?S1 = Some S' \<and> prop_inv K S'" if "\<not> is_dir v" "v \<noteq> PROP_ZOMBIE" for v
    using store_scalar_inv [OF i1 skip_ok_None _ _ that, of q] assms(2) by (simp add: is_dir_def)
  ultimately show ?thesis
    using assms(2) by (auto simp: prop_set_int_clipping_range_def int_of_prop_def Let_def store_value_twice is_dir_def)
qed

section \<open>Hierarchy\<close>

lemma make_dir_inv:
  assumes "prop_inv K S" "skip_ok K skip" "prop_make_dir p skip S = Some S'"
  shows "prop_inv K S'" "is_dir (hp_payload (hp S' p))" "\<And>x. hp_parent (hp S' x) = hp_parent (hp S x)"
    "\<And>x. childs S' x = childs S x" "ps_next S' = ps_next S"
    "\<And>x. hp_payload (hp S' x) = PROP_ZOMBIE \<longleftrightarrow> hp_payload (hp S x) = PROP_ZOMBIE" "\<And>x. hp_name (hp S' x) = hp_name (hp S x)"
proof -
  have "prop_inv K S' \<and> is_dir (hp_payload (hp S' p)) \<and> ps_next S' = ps_next S \<and> (\<forall>x. hp_parent (hp S' x) = hp_parent (hp S x) \<and>
    childs S' x = childs S x \<and> hp_name (hp S' x) = hp_name (hp S x) \<and> (hp_payload (hp S' x) = PROP_ZOMBIE \<longleftrightarrow> hp_payload (hp S x) = PROP_ZOMBIE))"
  proof (cases "is_dir (hp_payload (hp S p))")
    case True
    then show ?thesis using assms by (simp add: prop_make_dir_def)
  next
    case False
    obtain r where c: "prop_clean p S = Some (r, S)" "\<not> r \<longrightarrow> hp_payload (hp S p) \<noteq> PROP_ZOMBIE"
      using clean_scalar [OF False] by blast
    then have nr: "\<not> r" "store_value p skip (PROP_DIR [] None) S = Some S'"
      using assms(3) False by (auto simp: prop_make_dir_def store_value_def split: if_splits)
    note nc = scalar_no_childs [OF False]
    from store_value_inv [OF assms(1,2) nc, of "PROP_DIR [] None"] c(2) nr
    have S': "prop_inv K S'" "ps_props S' = ps_props (set_payload p (PROP_DIR [] None) S)" "ps_next S' = ps_next S" by auto
    then show ?thesis using nc c(2) nr(1) by (auto simp: childs_def)
  qed
  then show "prop_inv K S'" "is_dir (hp_payload (hp S' p))" "\<And>x. hp_parent (hp S' x) = hp_parent (hp S x)"
    "\<And>x. childs S' x = childs S x" "ps_next S' = ps_next S"
    "\<And>x. hp_payload (hp S' x) = PROP_ZOMBIE \<longleftrightarrow> hp_payload (hp S x) = PROP_ZOMBIE" "\<And>x. hp_name (hp S' x) = hp_name (hp S x)"
    by auto
qed

lemma insert_before_set [simp]: "set (insert_before b c xs) = insert c (set xs)"
  by (induction xs) auto

lemma insert_before_distinct: "distinct xs \<Longrightarrow> c \<notin> set xs \<Longrightarrow> distinct (insert_before b c xs)"
  by (induction xs) auto

lemma insert_at_set [simp]: "set (insert_at b c xs) = insert c (set xs)"
  by (auto simp: insert_at_def split: option.splits)

lemma insert_at_distinct: "distinct xs \<Longrightarrow> c \<notin> set xs \<Longrightarrow> distinct (insert_at b c xs)"
  by (auto simp: insert_at_def insert_before_distinct split: option.splits)

text \<open>\<open>flags_only S S'\<close>: only flags of nodes differ, as after \<open>prop_flood_flag\<close>.\<close>

definition flags_only :: "pstate \<Rightarrow> pstate \<Rightarrow> bool" where
  "flags_only S S' \<longleftrightarrow> ps_subs S' = ps_subs S \<and> ps_next S' = ps_next S \<and> ps_next_sub S' = ps_next_sub S \<and>
     (\<forall>x. \<exists>b. hp S' x = (hp S x)\<lparr>hp_multi_notify := b\<rparr>)"

lemma flags_only_refl [simp]: "flags_only S S"
proof -
  have "\<exists>b. hp S x = (hp S x)\<lparr>hp_multi_notify := b\<rparr>" for x by (rule exI [of _ "hp_multi_notify (hp S x)"]) simp
  then show ?thesis by (simp add: flags_only_def)
qed

lemma flags_only_trans: "flags_only S S1 \<Longrightarrow> flags_only S1 S2 \<Longrightarrow> flags_only S S2"
proof -
  assume a: "flags_only S S1" "flags_only S1 S2"
  have "\<exists>b. hp S2 x = (hp S x)\<lparr>hp_multi_notify := b\<rparr>" for x
  proof -
    obtain b b' where "hp S1 x = (hp S x)\<lparr>hp_multi_notify := b\<rparr>" "hp S2 x = (hp S1 x)\<lparr>hp_multi_notify := b'\<rparr>"
      using a unfolding flags_only_def by blast
    then show ?thesis by (intro exI [of _ b']) simp
  qed
  with a show ?thesis by (simp add: flags_only_def)
qed

lemma flags_only_step: "flags_only S (upd_prop p (hp_multi_notify_update (\<lambda>_. v)) S)"
proof -
  have "\<exists>b. hp (upd_prop p (hp_multi_notify_update (\<lambda>_. v)) S) x = (hp S x)\<lparr>hp_multi_notify := b\<rparr>" for x
    by (cases "x = p", force, rule exI [of _ "hp_multi_notify (hp S x)"], simp)
  then show ?thesis by (simp add: flags_only_def)
qed

lemma flood_flags_only:
  "flags_only S (prop_flood_flag n v p S)" "flags_only S (prop_flood_flag_on_childs n v cs S)"
proof (induction n v p S and n v cs S rule: prop_flood_flag_prop_flood_flag_on_childs.induct)
  case (2 n v p S)
  then show ?case using flags_only_trans [OF flags_only_step] by simp
next
  case (4 n v c cs S)
  then show ?case using flags_only_trans by simp
qed simp_all

lemma flood_below_flags: "flags_only S (flood_below q p S)"
  by (simp add: flood_below_def flood_flags_only)

lemma flags_only_fields:
  assumes "flags_only S S'"
  shows "hp_parent (hp S' x) = hp_parent (hp S x)" "hp_payload (hp S' x) = hp_payload (hp S x)"
    "hp_originator (hp S' x) = hp_originator (hp S x)" "hp_targets (hp S' x) = hp_targets (hp S x)"
    "hp_value_subscriptions (hp S' x) = hp_value_subscriptions (hp S x)" "hp_name (hp S' x) = hp_name (hp S x)"
    "hp_canonical_subscriptions (hp S' x) = hp_canonical_subscriptions (hp S x)" "childs S' x = childs S x"
proof -
  obtain b where "hp S' x = (hp S x)\<lparr>hp_multi_notify := b\<rparr>" using assms by (auto simp: flags_only_def)
  then show "hp_parent (hp S' x) = hp_parent (hp S x)" "hp_payload (hp S' x) = hp_payload (hp S x)"
    "hp_originator (hp S' x) = hp_originator (hp S x)" "hp_targets (hp S' x) = hp_targets (hp S x)"
    "hp_value_subscriptions (hp S' x) = hp_value_subscriptions (hp S x)" "hp_name (hp S' x) = hp_name (hp S x)"
    "hp_canonical_subscriptions (hp S' x) = hp_canonical_subscriptions (hp S x)" "childs S' x = childs S x"
    by (simp_all add: childs_def)
qed

lemma flags_only_inv: "flags_only S S' \<Longrightarrow> prop_inv K S \<Longrightarrow> prop_inv K S'"
proof -
  assume f: "flags_only S S'" and i: "prop_inv K S"
  have "ps_subs S' = ps_subs S" "ps_next S' = ps_next S" "ps_next_sub S' = ps_next_sub S"
    using f by (simp_all add: flags_only_def)
  then show ?thesis by (rule prop_inv_cong [OF i]) (simp_all add: flags_only_fields [OF f])
qed

definition insert_event :: "pid \<Rightarrow> pid option \<Rightarrow> prop_event" where
  "insert_event p before = (case before of None \<Rightarrow> ADD_CHILD p False | Some b \<Rightarrow> ADD_CHILD_BEFORE p (Some b))"

lemma prop_insert_eq:
  "prop_insert p q before skip S =
     (if (\<exists>b. before = Some b \<and> hp_parent (hp S b) \<noteq> Some q) then None
      else Some (prop_notify_child q (insert_event p before) skip (upd_childs q (insert_at before p) S)))"
proof (cases before)
  case None
  have "insert_at None p = (\<lambda>cs. cs @ [p])" by (simp add: fun_eq_iff insert_at_def)
  then show ?thesis using None by (simp add: prop_insert_def insert_event_def)
next
  case (Some b)
  have "insert_at (Some b) p = insert_before b p" by (simp add: fun_eq_iff insert_at_def)
  then show ?thesis using Some by (simp add: prop_insert_def insert_event_def)
qed

lemma insert_event_view: "apply_event (V_Dir cs) (insert_event p before) = V_Dir (insert_at before p cs)"
  by (auto simp: insert_event_def insert_at_def split: option.splits)

text \<open>A node is entered below another one, with nobody told yet.\<close>

lemma attach_step:
  assumes t: "tree_ok S" and so: "subs_ok S"
    and p: "hp_parent (hp S p) = None" "hp_payload (hp S p) \<noteq> PROP_ZOMBIE"
    and q: "hp_payload (hp S q) = PROP_DIR cs sel" "(q, p) \<notin> (parent_rel S)\<^sup>*"
    and fl: "flags_only (set_parent p (Some q) S) S1" and B: "B = upd_childs q (insert_at before p) S1"
  shows "tree_ok B" "subs_ok B" "\<And>x. hp_payload (hp B x) = (if x = q then PROP_DIR (insert_at before p cs) sel else hp_payload (hp S x))"
    "\<And>x. hp_parent (hp B x) = (if x = p then Some q else hp_parent (hp S x))" "ps_subs B = ps_subs S" "ps_next B = ps_next S"
proof -
  let ?A = "upd_childs q (insert_at before p) (set_parent p (Some q) S)"
  have pq: "p \<noteq> q" using q(2) by auto
  have "p \<notin> set cs" using tree_okD(1) [OF t, of p q] p(1) childs_eq [OF q(1)] by simp
  then have A: "tree_ok ?A"
    using attach_tree_ok [OF t p q, of "insert_at before p"] insert_at_distinct tree_okD(2) [OF t, of q] childs_eq [OF q(1)] by simp
  have f: "hp_payload (hp B x) = hp_payload (hp ?A x)" "hp_parent (hp B x) = hp_parent (hp ?A x)"
    "hp_originator (hp B x) = hp_originator (hp ?A x)" "hp_targets (hp B x) = hp_targets (hp ?A x)"
    "hp_value_subscriptions (hp B x) = hp_value_subscriptions (hp S x)"
    "hp_canonical_subscriptions (hp B x) = hp_canonical_subscriptions (hp S x)" for x
    using flags_only_fields [OF fl, of x] flags_only_fields [OF fl, of q] by (auto simp: B split: if_splits)
  have n: "ps_next B = ps_next ?A" "ps_subs B = ps_subs S" "ps_next_sub B = ps_next_sub S"
    using fl by (simp_all add: flags_only_def B)
  have "childs B = childs ?A" by (rule ext) (simp only: childs_def f)
  moreover have "parent_rel B = parent_rel ?A" by (simp only: parent_rel_def f)
  ultimately show "tree_ok B" using A unfolding tree_ok_def f n by simp
  show pay: "hp_payload (hp B x) = (if x = q then PROP_DIR (insert_at before p cs) sel else hp_payload (hp S x))" for x
    unfolding f using q pq by simp
  show "subs_ok B"
    by (rule subs_ok_told [OF so told_refl n(2,3) f(5,6)]) (use pay in \<open>auto split: if_splits\<close>)
  show "hp_parent (hp B x) = (if x = p then Some q else hp_parent (hp S x))" for x unfolding f using pq by simp
  show "ps_subs B = ps_subs S" "ps_next B = ps_next S" using n by simp_all
qed

lemma insert_inv:
  assumes inv: "prop_inv K S" and sk: "skip_ok K skip"
    and p: "hp_parent (hp S p) = None" "hp_payload (hp S p) \<noteq> PROP_ZOMBIE"
    and q: "hp_payload (hp S q) = PROP_DIR cs sel" "(q, p) \<notin> (parent_rel S)\<^sup>*"
    and fl: "flags_only (set_parent p (Some q) S) S1" and ins: "prop_insert p q before skip S1 = Some S'"
  shows "prop_inv K S'" "childs S' q = insert_at before p cs" "hp_parent (hp S' p) = Some q" "ps_next S' = ps_next S"
    "hp_payload (hp S' p) \<noteq> PROP_ZOMBIE"
proof -
  let ?B = "upd_childs q (insert_at before p) S1"
  note B = attach_step [OF prop_invD(1,2) [OF inv] p q fl refl, of before]
  have S': "S' = prop_notify_child q (insert_event p before) skip ?B"
    using ins by (auto simp: prop_insert_eq split: if_splits)
  note told = told_notify_child [OF B(2), of q skip "insert_event p before", folded S']
  have "in_sync K S'"
  proof (rule in_sync_change [OF prop_invD(3) [OF inv] sk told B(5)])
    show "hp_payload (hp ?B x) = hp_payload (hp S x)" if "x \<noteq> q" for x unfolding B(3) using that by simp
    show "apply_event (payload_view (hp_payload (hp S q))) (insert_event p before) = payload_view (hp_payload (hp ?B q))"
      unfolding B(3) q(1) by (simp add: insert_event_view)
  qed
  then show "prop_inv K S'" using B(1,2) told_tree_ok [OF told] told_subs_ok [OF told] by (simp add: prop_inv_def)
  have hS: "hp S' = hp ?B" by (rule told_props(1) [OF told])
  show "childs S' q = insert_at before p cs" unfolding childs_def hS B(3) by simp
  show "hp_parent (hp S' p) = Some q" unfolding hS B(4) by simp
  show "ps_next S' = ps_next S" using told_props(2) [OF told] B(6) by simp
  show "hp_payload (hp S' p) \<noteq> PROP_ZOMBIE" unfolding hS B(3) using q p(2) by auto
qed

text \<open>A new node is a root that nobody knows.\<close>

lemma make_inv:
  assumes inv: "prop_inv K S"
  shows "prop_inv K (snd (prop_make name None S))"
    "snd (prop_make name (Some q) S) = set_parent (ps_next S) (Some q) (snd (prop_make name None S))"
proof -
  let ?n = "ps_next S" and ?S = "snd (prop_make name None S)"
  note t = prop_invD(1) [OF inv] and s = prop_invD(2) [OF inv]
  have z: "hp_payload (hp S ?n) = PROP_ZOMBIE" using tree_okD(4) [OF t] by simp
  have h: "hp ?S x = (if x = ?n then new_prop name None else hp S x)" for x by (simp add: prop_make_def)
  have n: "ps_next ?S = Suc ?n" "ps_subs ?S = ps_subs S" "ps_next_sub ?S = ps_next_sub S" by (simp_all add: prop_make_def)
  have par: "hp_parent (hp ?S x) = hp_parent (hp S x)" for x using tree_okD(3) [OF t z] by (simp add: h new_prop_def)
  have ch: "childs ?S x = childs S x" for x using z by (simp add: childs_def h new_prop_def)
  have "parent_rel ?S = parent_rel S" by (simp add: parent_rel_def par)
  then have "tree_ok ?S"
    using tree_okD [OF t] unfolding tree_ok_def ch par n by (auto simp: h new_prop_def)
  moreover have "hp_value_subscriptions (hp ?S x) = hp_value_subscriptions (hp S x)"
    "hp_canonical_subscriptions (hp ?S x) = hp_canonical_subscriptions (hp S x)" for x
    using subs_okD(5,6) [OF s z] by (simp_all add: h new_prop_def)
  then have "subs_ok ?S"
    using s unfolding subs_ok_def n by (auto simp: h new_prop_def)
  moreover have "in_sync K ?S"
    unfolding in_sync_def n
  proof (intro allI impI)
    fix u x assume a: "hps_value_prop (sub S u) = Some x" "plain_sub (sub S u)" "u \<notin> K"
    then have "u \<in> set (hp_value_subscriptions (hp S x))" using subs_okD(1) [OF s] by simp
    then have "x \<noteq> ?n" using subs_okD(5) [OF s z] by auto
    then show "view_of (hps_log (sub S u)) = payload_view (hp_payload (hp ?S x))"
      using a prop_invD(3) [OF inv] by (simp add: h in_sync_def)
  qed
  ultimately show "prop_inv K ?S" by (simp add: prop_inv_def)
  show "snd (prop_make name (Some q) S) = set_parent ?n (Some q) ?S"
    by (simp add: prop_make_def new_prop_def upd_prop_def)
qed

lemma create0_inv:
  assumes inv: "prop_inv K S" and sk: "skip_ok K skip" and cr: "prop_create0 q name skip S = Some (p, S')"
  shows "prop_inv K S' \<and> hp_parent (hp S' p) = Some q"
proof -
  obtain S1 where S1: "prop_make_dir q skip S = Some S1" "hp_payload (hp S q) \<noteq> PROP_ZOMBIE"
    using cr by (auto simp: prop_create0_def split: if_splits bind_splits)
  note D = make_dir_inv [OF inv sk S1(1)]
  show ?thesis
  proof (cases "case name of None \<Rightarrow> None | Some n \<Rightarrow> child_named S1 q n")
    case (Some x)
    then have "p = x" "S' = S1" using cr S1 by (auto simp: prop_create0_def)
    moreover have "x \<in> set (childs S1 q)"
      using Some by (auto simp: child_named_def find_Some_iff split: option.splits)
    ultimately show ?thesis using D(1) tree_okD(1) [OF prop_invD(1) [OF D(1)]] by blast
  next
    case None
    let ?n = "ps_next S1" and ?T = "snd (prop_make name None S1)"
    let ?S3 = "flood_below q ?n (snd (prop_make name (Some q) S1))"
    have ins: "prop_insert ?n q None skip ?S3 = Some S'" "p = ?n"
      using cr S1 None by (auto simp: prop_create0_def prop_make_def Let_def)
    note M = make_inv [OF D(1)]
    have hT: "hp ?T x = (if x = ?n then new_prop name None else hp S1 x)" for x by (simp add: prop_make_def)
    have "q \<noteq> ?n" using D(2) tree_okD(4) [OF prop_invD(1) [OF D(1)], of ?n] by (auto simp: is_dir_def)
    then obtain cs sel where dir: "hp_payload (hp ?T q) = PROP_DIR cs sel" using D(2) by (auto simp: hT is_dir_iff)
    have no: "(q, ?n) \<notin> (parent_rel ?T)\<^sup>*"
    proof
      assume "(q, ?n) \<in> (parent_rel ?T)\<^sup>*"
      then obtain y where "(y, ?n) \<in> parent_rel ?T" using \<open>q \<noteq> ?n\<close> by (auto elim: rtranclE)
      then have "y \<in> set (childs ?T ?n)" using tree_okD(1) [OF prop_invD(1) [OF M(1)]] by (simp add: parent_rel_def)
      then show False by (simp add: childs_def hT new_prop_def)
    qed
    have fl: "flags_only (set_parent ?n (Some q) ?T) ?S3"
      unfolding M(2) by (rule flood_below_flags)
    show ?thesis
      using insert_inv [OF M(1) sk _ _ dir no fl ins(1)] ins(2) by (simp add: hT new_prop_def)
  qed
qed

text \<open>A change of the order of the children, told as \<open>MOVE_CHILD\<close>.\<close>

lemma reorder_inv:
  assumes inv: "prop_inv K S" and sk: "skip_ok K skip" and par: "hp_parent (hp S p) = Some q"
  shows "prop_inv K (prop_notify_child q (MOVE_CHILD p before) skip (upd_childs q (\<lambda>cs. insert_at before p (remove1 p cs)) S))"
    (is "prop_inv K ?S'")
proof -
  note t = prop_invD(1) [OF inv]
  let ?g = "\<lambda>cs. insert_at before p (remove1 p cs)"
  let ?B = "upd_childs q ?g S"
  have mem: "p \<in> set (childs S q)" using tree_okD(1) [OF t] par by blast
  then obtain sel where q: "hp_payload (hp S q) = PROP_DIR (childs S q) sel" by (blast dest: childs_dir)
  have d: "distinct (childs S q)" using tree_okD(2) [OF t] .
  have B: "tree_ok ?B"
    by (rule reorder_tree_ok [OF t q]) (use mem d in \<open>auto simp: insert_at_distinct distinct_remove1\<close>)
  have pay: "hp_payload (hp ?B x) = (if x = q then PROP_DIR (?g (childs S q)) sel else hp_payload (hp S x))" for x
    using q by simp
  have sB: "subs_ok ?B"
    by (rule subs_ok_told [OF prop_invD(2) [OF inv] told_refl]) (use q in \<open>auto split: if_splits\<close>)
  note told = told_notify_child [OF sB, of q skip "MOVE_CHILD p before"]
  have "in_sync K ?S'"
  proof (rule in_sync_change [OF prop_invD(3) [OF inv] sk told])
    show "apply_event (payload_view (hp_payload (hp S q))) (MOVE_CHILD p before) = payload_view (hp_payload (hp ?B q))"
      unfolding pay using q by simp
  qed simp_all
  then show ?thesis using B sB told_tree_ok [OF told] told_subs_ok [OF told] by (simp add: prop_inv_def)
qed

lemma move0_inv:
  assumes "prop_inv K S" "skip_ok K skip" "prop_move0 p before skip S = Some S'"
  shows "prop_inv K S'"
proof (cases "S' = S")
  case False
  then obtain q where q: "hp_parent (hp S p) = Some q"
    "S' = prop_notify_child q (MOVE_CHILD p before) skip (upd_childs q (\<lambda>cs. insert_at before p (remove1 p cs)) S)"
    using assms(3) by (auto simp: prop_move0_def split: if_splits option.splits)
  then show ?thesis using reorder_inv [OF assms(1,2) q(1)] by simp
qed (use assms(1) in simp)

lemma unparent0_inv: "prop_inv K S \<Longrightarrow> prop_unparent0 p skip S = Some S' \<Longrightarrow> prop_inv K S'"
  using leave_parent_inv(1) by (auto simp: prop_unparent0_def split: if_splits)

lemma set_parent0_inv:
  assumes inv: "prop_inv K S" and sk: "skip_ok K skip" and p: "hp_payload (hp S p) \<noteq> PROP_ZOMBIE"
    and below: "(q, p) \<notin> (parent_rel S)\<^sup>*" and op: "prop_set_parent0 p q before skip S = Some (r, S')"
  shows "prop_inv K S'"
proof (cases "hp_payload (hp S q) = PROP_ZOMBIE")
  case True
  then show ?thesis using op inv by (simp add: prop_set_parent0_def)
next
  case False
  then obtain S1 where S1: "prop_make_dir q skip S = Some S1"
    using op by (auto simp: prop_set_parent0_def split: bind_splits)
  note D = make_dir_inv [OF inv sk S1]
  have rel: "parent_rel S1 = parent_rel S" by (simp add: parent_rel_def D(3))
  show ?thesis
  proof (cases "hp_parent (hp S1 p) = Some q")
    case True
    then show ?thesis
      using op False S1 move0_inv [OF D(1) sk] by (auto simp: prop_set_parent0_def split: bind_splits)
  next
    case no: False
    let ?L = "leave_parent p S1"
    note L = leave_parent_inv [OF D(1), of p]
    have un: "prop_unparent0 p skip S1 = Some ?L" if "prop_unparent0 p skip S1 = Some X" for X
      using that by (auto simp: prop_unparent0_def leave_parent_def split: if_splits)
    then have ins: "prop_insert p q before skip (flood_below q p (set_parent p (Some q) ?L)) = Some S'"
      using op False S1 no by (auto simp: prop_set_parent0_def split: bind_splits if_splits)
    have "p \<noteq> q" using below by auto
    obtain cs sel where dir: "hp_payload (hp S1 q) = PROP_DIR cs sel" using D(2) by (auto simp: is_dir_iff)
    then have "hp_payload (hp ?L q) \<noteq> PROP_ZOMBIE" using L(3) by simp
    have "is_dir (hp_payload (hp ?L q))"
    proof (cases "hp_parent (hp S1 p)")
      case None
      then show ?thesis using D(2) by (simp add: leave_parent_def)
    next
      case (Some q')
      have "p \<in> set (childs S1 q')" using tree_okD(1) [OF prop_invD(1) [OF D(1)]] Some by blast
      then obtain s' where "hp_payload (hp S1 q') = PROP_DIR (childs S1 q') s'" by (blast dest: childs_dir)
      from leave_parent_props(1) [OF prop_invD(2) [OF D(1)] Some this no_self_parent [OF prop_invD(1) [OF D(1)] Some]]
      show ?thesis using D(2) \<open>p \<noteq> q\<close> by simp
    qed
    then obtain cs' sel' where dirL: "hp_payload (hp ?L q) = PROP_DIR cs' sel'" by (auto simp: is_dir_iff)
    have "parent_rel ?L \<subseteq> parent_rel S" using L(2) by (auto simp: parent_rel_def D(3) split: if_splits)
    then have bL: "(q, p) \<notin> (parent_rel ?L)\<^sup>*" using below rtrancl_mono by blast
    show ?thesis
      by (rule insert_inv(1) [OF L(1) sk _ _ dirL bL flood_below_flags ins]) (use L(2,3) D(6) p in auto)
  qed
qed

text \<open>A vector of nodes is entered one by one and announced by one event.\<close>

lemma attach_path: "(q, p) \<notin> (parent_rel S)\<^sup>* \<Longrightarrow> (q, x) \<notin> (parent_rel S)\<^sup>* \<Longrightarrow>
    (\<And>y. hp_parent (hp B y) = (if y = p then Some q else hp_parent (hp S y))) \<Longrightarrow> (q, x) \<notin> (parent_rel B)\<^sup>*"
proof -
  assume a: "(q, p) \<notin> (parent_rel S)\<^sup>*" "(q, x) \<notin> (parent_rel S)\<^sup>*" "\<And>y. hp_parent (hp B y) = (if y = p then Some q else hp_parent (hp S y))"
  have "parent_rel B \<subseteq> insert (p, q) (parent_rel S)" by (auto simp: parent_rel_def a(3) split: if_splits)
  then have "(parent_rel B)\<^sup>* \<subseteq> (insert (p, q) (parent_rel S))\<^sup>*" by (rule rtrancl_mono)
  then show ?thesis using a(1,2) by (auto simp: rtrancl_insert)
qed

definition attach_one :: "pid \<Rightarrow> pid option \<Rightarrow> pid \<Rightarrow> pstate \<Rightarrow> pstate option" where
  "attach_one q before p S =
     (if hp_parent (hp S p) \<noteq> None then None
      else if (case before of None \<Rightarrow> False | Some b \<Rightarrow> hp_parent (hp S b) \<noteq> Some q) then None
      else Some (upd_childs q (insert_at before p) (flood_below q p (set_parent p (Some q) S))))"

lemma attach_oneD: "attach_one q before p S = Some B \<Longrightarrow>
    hp_parent (hp S p) = None \<and> B = upd_childs q (insert_at before p) (flood_below q p (set_parent p (Some q) S))"
  by (auto simp: attach_one_def split: if_splits)

lemma attach_loop:
  assumes "tree_ok S" "subs_ok S" "hp_payload (hp S q) = PROP_DIR cs sel"
    "\<And>p. p \<in> set pv \<Longrightarrow> hp_payload (hp S p) \<noteq> PROP_ZOMBIE \<and> (q, p) \<notin> (parent_rel S)\<^sup>*" "forM (attach_one q before) pv S = Some S'"
  shows "tree_ok S' \<and> subs_ok S' \<and> ps_subs S' = ps_subs S \<and>
    (\<forall>x. hp_payload (hp S' x) = (if x = q then PROP_DIR (fold (insert_at before) pv cs) sel else hp_payload (hp S x)))"
  using assms
proof (induction pv arbitrary: S cs)
  case (Cons p pv)
  let ?B = "upd_childs q (insert_at before p) (flood_below q p (set_parent p (Some q) S))"
  have pa: "hp_parent (hp S p) = None" "forM (attach_one q before) pv ?B = Some S'"
    using Cons.prems(5) by (auto split: bind_splits dest: attach_oneD)
  have p: "hp_payload (hp S p) \<noteq> PROP_ZOMBIE" "(q, p) \<notin> (parent_rel S)\<^sup>*" using Cons.prems(4) by auto
  note B = attach_step [OF Cons.prems(1,2) pa(1) p(1) Cons.prems(3) p(2) flood_below_flags refl, of before]
  have "tree_ok S' \<and> subs_ok S' \<and> ps_subs S' = ps_subs ?B \<and>
    (\<forall>x. hp_payload (hp S' x) = (if x = q then PROP_DIR (fold (insert_at before) pv (insert_at before p cs)) sel else hp_payload (hp ?B x)))"
  proof (rule Cons.IH [OF B(1,2) _ _ pa(2)])
    show "hp_payload (hp ?B q) = PROP_DIR (insert_at before p cs) sel" unfolding B(3) by simp
    show "hp_payload (hp ?B x) \<noteq> PROP_ZOMBIE \<and> (q, x) \<notin> (parent_rel ?B)\<^sup>*" if "x \<in> set pv" for x
      using Cons.prems(4) [of x] that attach_path [OF p(2) _ B(4), of x] unfolding B(3) by auto
  qed
  then show ?case unfolding B(3,5) by simp
qed simp

lemma insert_at_end: "fold (insert_at None) pv cs = cs @ pv"
  by (induction pv arbitrary: cs) (simp_all add: insert_at_def)

lemma insert_at_before: "insert_at (Some b) = insert_before b"
  by (simp add: fun_eq_iff insert_at_def)

lemma set_parent_vector_inv:
  assumes inv: "prop_inv K S" and sk: "skip_ok K skip"
    and pv: "\<And>p. p \<in> set pv \<Longrightarrow> hp_payload (hp S p) \<noteq> PROP_ZOMBIE \<and> (q, p) \<notin> (parent_rel S)\<^sup>*"
    and al: "hp_payload (hp S q) \<noteq> PROP_ZOMBIE" and op: "prop_set_parent_vector pv (Some q) before skip S = Some S'"
  shows "prop_inv K S'"
proof -
  let ?e = "case before of None \<Rightarrow> ADD_CHILD_VECTOR pv | Some b \<Rightarrow> ADD_CHILD_VECTOR_BEFORE pv b"
  obtain S1 S2 where S1: "prop_make_dir q None S = Some S1" and S2: "forM (attach_one q before) pv S1 = Some S2"
    and S': "S' = prop_notify_child q ?e skip S2"
    using op al by (auto simp: prop_set_parent_vector_def attach_one_def [abs_def] split: bind_splits)
  note D = make_dir_inv [OF inv skip_ok_None S1]
  obtain cs sel where dir: "hp_payload (hp S1 q) = PROP_DIR cs sel" using D(2) by (auto simp: is_dir_iff)
  have "parent_rel S1 = parent_rel S" by (simp add: parent_rel_def D(3))
  then have "tree_ok S2 \<and> subs_ok S2 \<and> ps_subs S2 = ps_subs S1 \<and>
    (\<forall>x. hp_payload (hp S2 x) = (if x = q then PROP_DIR (fold (insert_at before) pv cs) sel else hp_payload (hp S1 x)))"
    by (intro attach_loop [OF prop_invD(1,2) [OF D(1)] dir _ S2]) (simp add: D(6) pv)
  then have A: "tree_ok S2" "subs_ok S2" "ps_subs S2 = ps_subs S1"
    "\<And>x. hp_payload (hp S2 x) = (if x = q then PROP_DIR (fold (insert_at before) pv cs) sel else hp_payload (hp S1 x))" by blast+
  note told = told_notify_child [OF A(2), of q skip ?e, folded S']
  have "in_sync K S'"
  proof (rule in_sync_change [OF prop_invD(3) [OF D(1)] sk told A(3)])
    show "hp_payload (hp S2 x) = hp_payload (hp S1 x)" if "x \<noteq> q" for x unfolding A(4) using that by simp
    show "apply_event (payload_view (hp_payload (hp S1 q))) ?e = payload_view (hp_payload (hp S2 q))"
      unfolding A(4) dir by (cases before) (simp_all add: insert_at_end insert_at_before)
  qed
  then show ?thesis using A(1,2) told_tree_ok [OF told] told_subs_ok [OF told] by (simp add: prop_inv_def)
qed

section \<open>Selection\<close>

lemma notify_quiet_inv:
  assumes inv: "prop_inv K S" and quiet: "\<And>v. apply_event v e = v"
  shows "prop_inv K (prop_notify_child q e skip S)"
proof -
  note told = told_notify_child [OF prop_invD(2) [OF inv], of q skip e]
  have "in_sync K (prop_notify_child q e skip S)"
    by (rule in_sync_general [OF prop_invD(3) [OF inv] told refl]) (auto simp: quiet told_props [OF told])
  then show ?thesis
    using inv told_tree_ok [OF told] told_subs_ok [OF told] by (simp add: prop_inv_def)
qed

lemma quiet_events: "apply_event v (SELECT_CHILD a b) = v" "apply_event v (REQ_MOVE_CHILD p q) = v"
    "apply_event v (SUGGEST_FOCUS p) = v" "apply_event v SUBSCRIPTION_MONITOR_ACTIVE = v" "apply_event v DESTROYED = v"
  by (cases v; simp)+

lemma set_selected_inv: "prop_inv K S \<Longrightarrow> prop_inv K (upd_prop q (hp_payload_update (set_selected c)) S)"
  by (erule prop_inv_cong) (auto simp: childs_def set_selected_def payload_view_def value_event_def split: payload.splits)

lemma select_ops_inv:
  assumes "prop_inv K S"
  shows "prop_select_ex p extra skip S = Some S' \<Longrightarrow> prop_inv K S'"
    "prop_inv K (prop_unselect_ex q skip S)" "prop_inv K (prop_select_by_value_ex q name skip S)"
  using assms by (auto simp: prop_select_ex_def prop_unselect_ex_def prop_select_by_value_ex_def Let_def
      split: if_splits option.splits intro!: set_selected_inv notify_quiet_inv quiet_events)

section \<open>Subscriptions\<close>

text \<open>\<open>core_same S S'\<close>: the nodes agree in all that the invariant says of the tree, and in their value
  subscriptions.\<close>

definition core_same :: "pstate \<Rightarrow> pstate \<Rightarrow> bool" where
  "core_same S S' \<longleftrightarrow> ps_subs S' = ps_subs S \<and> ps_next S' = ps_next S \<and> ps_next_sub S' = ps_next_sub S \<and>
     (\<forall>x. hp_parent (hp S' x) = hp_parent (hp S x) \<and> hp_payload (hp S' x) = hp_payload (hp S x) \<and>
        hp_originator (hp S' x) = hp_originator (hp S x) \<and> hp_targets (hp S' x) = hp_targets (hp S x) \<and>
        hp_value_subscriptions (hp S' x) = hp_value_subscriptions (hp S x))"

lemma core_same_refl [simp]: "core_same S S"
  by (simp add: core_same_def)

lemma core_same_trans: "core_same S S1 \<Longrightarrow> core_same S1 S2 \<Longrightarrow> core_same S S2"
  by (simp add: core_same_def)

lemma core_same_inert: "inert f \<Longrightarrow> core_same S (upd_prop p f S)"
  by (auto simp: core_same_def inert_def)

lemma core_same_flags: "flags_only S S' \<Longrightarrow> core_same S S'"
proof -
  assume f: "flags_only S S'"
  then have "ps_subs S' = ps_subs S \<and> ps_next S' = ps_next S \<and> ps_next_sub S' = ps_next_sub S"
    by (simp add: flags_only_def)
  then show ?thesis unfolding core_same_def flags_only_fields [OF f] by simp
qed

lemma core_same_tree_ok: "core_same S S' \<Longrightarrow> tree_ok S' \<longleftrightarrow> tree_ok S"
proof -
  assume c: "core_same S S'"
  then have "childs S' = childs S" "parent_rel S' = parent_rel S"
    by (auto simp: fun_eq_iff childs_def core_same_def parent_rel_def)
  then show ?thesis using c by (simp add: tree_ok_def core_same_def)
qed

lemma set_multi_props:
  "core_same S (prop_set_multi p S)" "hp_canonical_subscriptions (hp (prop_set_multi p S) x) = hp_canonical_subscriptions (hp S x)"
  "core_same S (prop_clr_multi p S)" "hp_canonical_subscriptions (hp (prop_clr_multi p S) x) = hp_canonical_subscriptions (hp S x)"
proof -
  let ?A = "upd_prop p (hp_multi_sub_update (\<lambda>_. True)) S" and ?B = "upd_prop p (hp_multi_sub_update (\<lambda>_. False)) S"
  have fl: "flags_only ?A (prop_flood_flag_on_childs n v cs ?A)" "flags_only ?B (prop_flood_flag_on_childs n v cs ?B)" for n v cs
    by (rule flood_flags_only(2))+
  have ab: "core_same S ?A" "core_same S ?B" by (rule core_same_inert, simp)+
  show "core_same S (prop_set_multi p S)"
    using core_same_trans [OF ab(1) core_same_flags [OF fl(1)]] by (simp add: prop_set_multi_def)
  show "core_same S (prop_clr_multi p S)"
    using core_same_trans [OF ab(2) core_same_flags [OF fl(2)]] ab(2) by (simp add: prop_clr_multi_def Let_def)
  show "hp_canonical_subscriptions (hp (prop_set_multi p S) x) = hp_canonical_subscriptions (hp S x)"
    by (simp add: prop_set_multi_def flags_only_fields(7) [OF fl(1)])
  show "hp_canonical_subscriptions (hp (prop_clr_multi p S) x) = hp_canonical_subscriptions (hp S x)"
    by (simp add: prop_clr_multi_def Let_def flags_only_fields(7) [OF fl(2)])
qed

lemma subscribe_canonical_props:
  assumes "subscribe_canonical s p S = (act, S1)"
  shows "core_same S S1"
    "hp_canonical_subscriptions (hp S1 x) = (if x = p then s # hp_canonical_subscriptions (hp S p) else hp_canonical_subscriptions (hp S x))"
proof -
  let ?A = "upd_prop p (hp_canonical_subscriptions_update (Cons s)) S"
  let ?B = "upd_prop p (hp_monitored_update (\<lambda>_. True)) ?A"
  have S1: "S1 = ?A \<or> S1 = ?B \<or> S1 = prop_set_multi p ?A \<or> S1 = prop_set_multi p ?B"
    using arg_cong [OF assms, of snd] by (simp add: subscribe_canonical_def Let_def split: if_splits)
  have a: "core_same S ?A" by (simp add: core_same_def)
  have b: "core_same S ?B" by (rule core_same_trans [OF a core_same_inert]) simp
  show "core_same S S1"
    using S1 a b core_same_trans [OF a set_multi_props(1)] core_same_trans [OF b set_multi_props(1)] by blast
  have "hp_canonical_subscriptions (hp S1 x) = hp_canonical_subscriptions (hp ?A x)"
    using S1 set_multi_props(2) [of p ?A x] set_multi_props(2) [of p ?B x] by (auto split: if_splits)
  then show "hp_canonical_subscriptions (hp S1 x) = (if x = p then s # hp_canonical_subscriptions (hp S p) else hp_canonical_subscriptions (hp S x))"
    by simp
qed

lemma told_add_childs:
  "told (\<lambda>t. if t = s then map (\<lambda>c. ADD_CHILD c (sel = Some c)) cs else []) S
     (fold (\<lambda>c. log_event s (ADD_CHILD c (sel = Some c))) cs S)"
proof -
  have "told (\<lambda>t. concat (map (\<lambda>c. if t = s then [ADD_CHILD c (sel = Some c)] else []) cs)) S
      (fold (\<lambda>c. log_event s (ADD_CHILD c (sel = Some c))) cs S)"
    by (rule told_fold) (rule told_log)
  moreover have "concat (map (\<lambda>c. if t = s then [ADD_CHILD c (sel = Some c)] else []) cs) =
      (if t = s then map (\<lambda>c. ADD_CHILD c (sel = Some c)) cs else [])" for t
    by (induction cs) auto
  ultimately show ?thesis by simp
qed

lemma view_add_childs: "foldl apply_event (V_Dir xs) (map (\<lambda>c. ADD_CHILD c (sel = Some c)) cs) = V_Dir (xs @ cs)"
  by (induction cs arbitrary: xs) simp_all

lemma initial_update_told:
  assumes "hp_payload (hp S p) \<noteq> PROP_ZOMBIE" "\<And>r. direct \<Longrightarrow> hp_payload (hp S p) \<noteq> PROP_PROP r"
  shows "\<exists>S' f. initial_update s p direct S = Some S' \<and> told f S S' \<and> (\<forall>t. t \<noteq> s \<longrightarrow> f t = []) \<and>
    (plain_sub (sub S s) \<longrightarrow> foldl apply_event V_None (f s) = payload_view (hp_payload (hp S p)))"
proof -
  obtain e where e: "value_event (hp_payload (hp S p)) = Some e" using value_event_ex assms(1) by blast
  let ?d = "\<lambda>t. if t = s then [e] else []"
  obtain S1 where S1: "prop_build_notify_value s direct p S = Some S1" "told ?d S S1"
    using told_build_value [OF e assms(2)] by blast
  show ?thesis
  proof (cases "is_dir (hp_payload (hp S p)) \<and> \<not> hps_multi (sub S s)")
    case False
    moreover have "plain_sub (sub S s) \<longrightarrow> foldl apply_event V_None (?d s) = payload_view (hp_payload (hp S p))"
      using False e value_event_view [OF e] by (auto simp: plain_sub_def)
    moreover have "initial_update s p direct S = Some S1"
      using S1 False told_props(1) [OF S1(2)] told_fields(3) [OF S1(2), of s]
      by (cases "hp_payload (hp S p)") (auto simp: initial_update_def is_dir_def)
    ultimately show ?thesis using S1(2) by (intro exI [of _ S1] exI [of _ ?d]) simp
  next
    case True
    then obtain cs sel where dir: "hp_payload (hp S p) = PROP_DIR cs sel" by (auto simp: is_dir_iff)
    have e': "e = SET_DIR" using e dir by (simp add: value_event_def)
    let ?S2 = "if sel = None \<and> direct then log_event s (ADD_CHILD_VECTOR_DIRECT cs) S1
        else fold (\<lambda>c. log_event s (ADD_CHILD c (sel = Some c))) cs S1"
    let ?e2 = "if sel = None \<and> direct then [ADD_CHILD_VECTOR_DIRECT cs] else map (\<lambda>c. ADD_CHILD c (sel = Some c)) cs"
    have "told (\<lambda>t. if t = s then ?e2 else []) S1 ?S2"
    proof (cases "sel = None \<and> direct")
      case True
      then show ?thesis using told_log [of s "ADD_CHILD_VECTOR_DIRECT cs" S1] by simp
    next
      case False
      then show ?thesis using told_add_childs [of s sel cs S1] by (simp only: if_False)
    qed
    from told_trans [OF S1(2) this] have t: "told (\<lambda>t. ?d t @ (if t = s then ?e2 else [])) S ?S2" .
    have "initial_update s p direct S = Some ?S2"
      using S1(1) dir True told_props(1) [OF S1(2)] told_fields(3) [OF S1(2), of s] by (simp add: initial_update_def)
    moreover have "foldl apply_event V_None (?d s @ ?e2) = payload_view (hp_payload (hp S p))"
      by (simp add: e' dir view_add_childs)
    ultimately show ?thesis using t by (intro exI [of _ ?S2] exI [of _ "\<lambda>t. ?d t @ (if t = s then ?e2 else [])"]) simp
  qed
qed

lemma log_quiet_inv:
  assumes inv: "prop_inv K S" and quiet: "\<And>v. apply_event v e = v"
  shows "prop_inv K (log_event s e S)"
proof -
  note told = told_log [of s e S]
  have "in_sync K (log_event s e S)"
    by (rule in_sync_general [OF prop_invD(3) [OF inv] told refl]) (auto simp: quiet told_props [OF told])
  then show ?thesis using inv told_tree_ok [OF told] told_subs_ok [OF told] by (simp add: prop_inv_def)
qed

lemma monitor_active_inv:
  assumes inv: "prop_inv K S"
  shows "prop_inv K (prop_send_subscription_monitor_active p S)"
proof -
  have "prop_inv K (fold (\<lambda>s S. if hps_monitor (sub S s) then log_event s SUBSCRIPTION_MONITOR_ACTIVE S else S) ss S)" for ss
    using inv by (induction ss arbitrary: S) (simp_all add: log_quiet_inv quiet_events)
  then show ?thesis by (simp add: prop_send_subscription_monitor_active_def)
qed

text \<open>A new subscription is entered in both lists of its node.\<close>

lemma subscribe_attach:
  assumes inv: "prop_inv K S" and s: "s = ps_next_sub S" and al: "hp_payload (hp S q) \<noteq> PROP_ZOMBIE"
    and S0: "S0 = S\<lparr>ps_subs := (ps_subs S)(s := new_sub fl (Some q)), ps_next_sub := s + 1\<rparr>"
    and S1: "subscribe_canonical s q S0 = (act, S1)"
    and S2: "S2 = upd_prop q (hp_value_subscriptions_update (Cons s)) S1"
  shows "tree_ok S2" "subs_ok S2" "in_sync (insert s K) S2" "sub S2 s = new_sub fl (Some q)"
    "hp_payload (hp S2 q) = hp_payload (hp S q)"
proof -
  note t = prop_invD(1) [OF inv] and so = prop_invD(2) [OF inv] and c = subscribe_canonical_props [OF S1]
  have pr: "ps_props S0 = ps_props S" "ps_next S0 = ps_next S" by (simp_all add: S0)
  have eq: "hp_parent (hp S2 x) = hp_parent (hp S x)" "hp_payload (hp S2 x) = hp_payload (hp S x)"
    "hp_originator (hp S2 x) = hp_originator (hp S x)" "hp_targets (hp S2 x) = hp_targets (hp S x)"
    "hp_value_subscriptions (hp S2 x) = (if x = q then s # hp_value_subscriptions (hp S q) else hp_value_subscriptions (hp S x))"
    "hp_canonical_subscriptions (hp S2 x) = (if x = q then s # hp_canonical_subscriptions (hp S q) else hp_canonical_subscriptions (hp S x))" for x
    using c(1) c(2) [of x] pr by (auto simp: S2 core_same_def)
  have nx: "ps_next S2 = ps_next S" "ps_next_sub S2 = Suc s" "ps_subs S2 = (ps_subs S)(s := new_sub fl (Some q))"
    using c(1) by (simp_all add: S2 core_same_def S0)
  have ch: "childs S2 = childs S" by (simp add: fun_eq_iff childs_def eq)
  show "tree_ok S2" using t unfolding tree_ok_def ch nx eq parent_rel_def .
  have fresh: "hps_value_prop (sub S s) = None" "hps_canonical_prop (sub S s) = None" using subs_okD(7,8) [OF so, of s] s by simp_all
  have new: "hps_value_prop (new_sub fl (Some q)) = Some q" "hps_canonical_prop (new_sub fl (Some q)) = Some q" by (simp_all add: new_sub_def)
  have "s \<notin> set (hp_value_subscriptions (hp S x))" "s \<notin> set (hp_canonical_subscriptions (hp S x))" for x
    using subs_okD(1,2) [OF so, of s x] fresh by simp_all
  then show "subs_ok S2"
    unfolding subs_ok_def eq nx using subs_okD [OF so] al new s by auto
  show "in_sync (insert s K) S2" using prop_invD(3) [OF inv] unfolding in_sync_def eq nx by auto
  show "sub S2 s = new_sub fl (Some q)" "hp_payload (hp S2 q) = hp_payload (hp S q)" by (simp_all add: nx eq)
qed

lemma initial_update_inv:
  assumes "tree_ok S" "subs_ok S" "in_sync (insert s K) S" "sub S s = new_sub fl (Some q)" "hp_payload (hp S q) \<noteq> PROP_ZOMBIE"
    "(if sf_no_initial_update fl then Some S else initial_update s q direct S) = Some S'"
    and noref: "\<And>r. direct \<Longrightarrow> hp_payload (hp S q) \<noteq> PROP_PROP r"
  shows "prop_inv K S'"
proof (cases "sf_no_initial_update fl")
  case True
  then have "\<not> plain_sub (sub S s)" by (simp add: assms(4) new_sub_def plain_sub_def)
  then have "in_sync K S" using assms(3) unfolding in_sync_def by auto
  then show ?thesis using True assms by (simp add: prop_inv_def)
next
  case False
  have log: "hps_log (sub S s) = []" by (simp add: assms(4) new_sub_def)
  obtain f where f: "initial_update s q direct S = Some S'" "told f S S'" "\<forall>t. t \<noteq> s \<longrightarrow> f t = []"
    "plain_sub (sub S s) \<longrightarrow> foldl apply_event V_None (f s) = payload_view (hp_payload (hp S q))"
    using initial_update_told [OF assms(5) noref, where s = s and direct = direct] False assms(6) by auto
  have "in_sync K S'"
    unfolding in_sync_def
  proof (intro allI impI)
    fix t x assume a: "hps_value_prop (sub S' t) = Some x" "plain_sub (sub S' t)" "t \<notin> K"
    then have a': "hps_value_prop (sub S t) = Some x" "plain_sub (sub S t)" using told_fields [OF f(2)] by auto
    show "view_of (hps_log (sub S' t)) = payload_view (hp_payload (hp S' x))"
    proof (cases "t = s")
      case True
      then have "x = q" using a' assms(4) by (simp add: new_sub_def)
      then show ?thesis using told_view [OF f(2) a'(2)] True a'(2) f(4) log told_props(1) [OF f(2)] by simp
    next
      case False
      then show ?thesis
        using told_view [OF f(2) a'(2)] f(3) a' a(3) assms(3) told_props(1) [OF f(2)] by (simp add: in_sync_def)
    qed
  qed
  then show ?thesis using told_tree_ok [OF f(2)] told_subs_ok [OF f(2)] assms(1,2) by (simp add: prop_inv_def)
qed

lemma subscribe_inv:
  assumes inv: "prop_inv K S" and op: "prop_subscribe fl root S = Some (r, S')"
    and noref: "\<And>q r. root = Some q \<Longrightarrow> sf_direct fl \<or> sf_internal fl \<Longrightarrow> hp_payload (hp S q) \<noteq> PROP_PROP r"
  shows "prop_inv K S'"
proof -
  note t = prop_invD(1) [OF inv] and so = prop_invD(2) [OF inv]
  define s where s: "s = ps_next_sub S"
  define p where "p = (case root of None \<Rightarrow> None | Some q \<Rightarrow> if hp_payload (hp S q) = PROP_ZOMBIE then None else Some q)"
  define S0 where "S0 = S\<lparr>ps_subs := (ps_subs S)(s := new_sub fl p), ps_next_sub := s + 1\<rparr>"
  have fresh: "hps_value_prop (sub S s) = None" "hps_canonical_prop (sub S s) = None" using subs_okD(7,8) [OF so, of s] s by simp_all
  show ?thesis
  proof (cases p)
    case None
    have "prop_inv K S0"
      using t so prop_invD(3) [OF inv] fresh None unfolding prop_inv_def tree_ok_def subs_ok_def in_sync_def
      by (auto simp: S0_def childs_def parent_rel_def new_sub_def s)
    moreover have "S' = S0 \<or> S' = log_event s DESTROYED S0"
      using op None s by (auto simp: prop_subscribe_def Let_def p_def [symmetric] S0_def prop_notify_destroyed_def split: if_splits)
    ultimately show ?thesis using log_quiet_inv quiet_events(5) by blast
  next
    case (Some q)
    then have al: "hp_payload (hp S q) \<noteq> PROP_ZOMBIE" by (auto simp: p_def split: option.splits if_splits)
    obtain act S1 where S1: "subscribe_canonical s q S0 = (act, S1)" by force
    let ?S2 = "upd_prop q (hp_value_subscriptions_update (Cons s)) S1"
    let ?i = "if sf_no_initial_update fl then Some ?S2 else initial_update s q (sf_direct fl \<or> sf_internal fl) ?S2"
    define snd2 where "snd2 S3 = (let S4 = (if \<not> sf_monitor fl \<and> hp_monitored (hp S3 q) then prop_send_subscription_monitor_active q S3 else S3)
        in if act then prop_send_subscription_monitor_active q S4 else S4)" for S3
    have "?i \<bind> (\<lambda>S3. Some (Some s, snd2 S3)) = Some (r, S')"
      using op S1 Some unfolding S0_def snd2_def s
      by (simp add: prop_subscribe_def Let_def p_def [symmetric] cong: if_cong)
    then obtain S3 where S3: "?i = Some S3" "S' = snd2 S3" by (auto split: bind_splits)
    note A = subscribe_attach [OF inv s al S0_def [unfolded Some] S1 refl]
    have "prop_inv K S3" by (rule initial_update_inv [OF A(1-4) _ S3(1)]) (use A(5) al noref Some in \<open>auto simp: p_def split: option.splits if_splits\<close>)
    then show ?thesis by (simp add: S3(2) snd2_def Let_def monitor_active_inv)
  qed
qed

text \<open>A subscription leaves the lists of its node.\<close>

lemma drop_value_link_inv:
  assumes inv: "prop_inv K S" and p: "hps_value_prop (sub S s) = Some p"
  shows "prop_inv K (upd_sub s (hps_value_prop_update (\<lambda>_. None)) (upd_prop p (hp_value_subscriptions_update (remove1 s)) S))"
    (is "prop_inv K ?S'")
proof -
  note so = prop_invD(2) [OF inv]
  have eq: "hp_parent (hp ?S' x) = hp_parent (hp S x)" "hp_payload (hp ?S' x) = hp_payload (hp S x)"
    "hp_originator (hp ?S' x) = hp_originator (hp S x)" "hp_targets (hp ?S' x) = hp_targets (hp S x)" for x
    by simp_all
  have ch: "childs ?S' = childs S" and pr: "parent_rel ?S' = parent_rel S"
    unfolding fun_eq_iff childs_def parent_rel_def eq by simp_all
  have "tree_ok ?S'" using prop_invD(1) [OF inv] unfolding tree_ok_def ch pr eq by simp
  moreover have "subs_ok ?S'" using subs_okD [OF so] p unfolding subs_ok_def eq by auto
  moreover have "in_sync K ?S'" using prop_invD(3) [OF inv] unfolding in_sync_def eq by (auto simp: plain_sub_def)
  ultimately show ?thesis by (simp add: prop_inv_def)
qed

lemma drop_canonical_link_inv:
  assumes inv: "prop_inv K S" and p: "hps_canonical_prop (sub S s) = Some p"
    and c: "core_same (upd_prop p (hp_canonical_subscriptions_update (remove1 s)) S) S1"
      "\<And>x. hp_canonical_subscriptions (hp S1 x) = hp_canonical_subscriptions (hp (upd_prop p (hp_canonical_subscriptions_update (remove1 s)) S) x)"
  shows "prop_inv K (upd_sub s (hps_canonical_prop_update (\<lambda>_. None)) S1)" (is "prop_inv K ?S'")
proof -
  note so = prop_invD(2) [OF inv]
  have "core_same S S1" using c(1) by (simp add: core_same_def)
  then have eq: "hp_parent (hp S1 x) = hp_parent (hp S x)" "hp_payload (hp S1 x) = hp_payload (hp S x)"
    "hp_value_subscriptions (hp S1 x) = hp_value_subscriptions (hp S x)"
    "hp_canonical_subscriptions (hp S1 x) = (if x = p then remove1 s else id) (hp_canonical_subscriptions (hp S x))"
    "ps_subs S1 = ps_subs S" "ps_next_sub S1 = ps_next_sub S" for x
    using c(2) [of x] by (simp_all add: core_same_def)
  have "tree_ok S1" using core_same_tree_ok [OF \<open>core_same S S1\<close>] prop_invD(1) [OF inv] by simp
  then have "tree_ok ?S'" by (simp add: tree_ok_def childs_def parent_rel_def)
  moreover have "subs_ok ?S'" using subs_okD [OF so] p by (auto simp: subs_ok_def eq)
  moreover have "in_sync K ?S'" using prop_invD(3) [OF inv] by (auto simp: in_sync_def plain_sub_def eq)
  ultimately show ?thesis by (simp add: prop_inv_def)
qed

lemma sub_zombie_inv: "prop_inv K S \<Longrightarrow> prop_inv K (upd_sub s (hps_zombie_update (\<lambda>_. True)) S)"
  by (auto simp: prop_inv_def tree_ok_def subs_ok_def in_sync_def childs_def parent_rel_def plain_sub_def)

lemma unsubscribe_inv:
  assumes inv: "prop_inv K S" and op: "prop_unsubscribe0 s S = Some S'"
  shows "prop_inv K S'"
proof -
  let ?S1 = "upd_sub s (hps_zombie_update (\<lambda>_. True)) S"
  define S2 where "S2 = (case hps_value_prop (sub ?S1 s) of None \<Rightarrow> ?S1
      | Some p \<Rightarrow> upd_sub s (hps_value_prop_update (\<lambda>_. None)) (upd_prop p (hp_value_subscriptions_update (remove1 s)) ?S1))"
  have i2: "prop_inv K S2"
    unfolding S2_def using sub_zombie_inv [OF inv, of s] drop_value_link_inv by (auto split: option.split)
  note op' = op [unfolded prop_unsubscribe0_def Let_def, folded S2_def]
  show ?thesis
  proof (cases "hps_canonical_prop (sub S2 s)")
    case None
    then show ?thesis using op' i2 by (simp split: if_splits)
  next
    case (Some p)
    define S3 where "S3 = upd_prop p (hp_canonical_subscriptions_update (remove1 s)) S2"
    define S4 where "S4 = (if list_ex hps_monitor (map (sub S3) (hp_canonical_subscriptions (hp S3 p))) then S3
        else upd_prop p (hp_monitored_update (\<lambda>_. False)) S3)"
    have S': "S' \<in> upd_sub s (hps_canonical_prop_update (\<lambda>_. None)) ` {S3, S4, prop_clr_multi p S4}"
      using op' [unfolded Some option.case, folded S3_def, folded S4_def] by (simp split: if_splits)
    have c4: "core_same S3 S4" and n4: "hp_canonical_subscriptions (hp S4 x) = hp_canonical_subscriptions (hp S3 x)" for x
      using core_same_inert [of "hp_monitored_update (\<lambda>_. False)" S3 p] by (simp_all add: S4_def)
    note d = drop_canonical_link_inv [OF i2 Some, folded S3_def]
    have "prop_inv K (upd_sub s (hps_canonical_prop_update (\<lambda>_. None)) X)" if "X \<in> {S3, S4, prop_clr_multi p S4}" for X
      using that c4 n4 core_same_trans [OF c4 set_multi_props(3)] set_multi_props(4) by (intro d) auto
    then show ?thesis using S' by blast
  qed
qed

lemma destroy_inv:
  assumes "prop_inv K S"
  shows "\<exists>S'. prop_destroy p S = Some S' \<and> prop_inv K S'"
proof (cases p)
  case (Some q)
  then show ?thesis
    using assms destroy0_inv [OF assms, of q]
    by (cases "hp_payload (hp S q) = PROP_ZOMBIE") (auto simp: prop_destroy_def destroyed_def)
qed (simp add: prop_destroy_def assms)

lemma forM_inv:
  assumes "\<And>x S S'. prop_inv K S \<Longrightarrow> g x S = Some S' \<Longrightarrow> prop_inv K S'"
  shows "prop_inv K S \<Longrightarrow> forM g xs S = Some S' \<Longrightarrow> prop_inv K S'"
  by (induction xs arbitrary: S) (auto split: bind_splits dest: assms)

lemma void_childs0_inv: "prop_inv K S \<Longrightarrow> prop_void_childs0 n p S = Some S' \<Longrightarrow> prop_inv K S'"
proof (induction n arbitrary: p S S')
  case (Suc n)
  show ?case
  proof (cases "is_dir (hp_payload (hp S p)) \<or> hp_payload (hp S p) = PROP_ZOMBIE")
    case True
    then show ?thesis
    proof
      assume "is_dir (hp_payload (hp S p))"
      then obtain cs where "forM (prop_void_childs0 n) cs S = Some S'" using Suc.prems(2) by (auto simp: is_dir_iff)
      then show ?thesis by (rule forM_inv [rotated 2]) (use Suc in blast)+
    qed (use Suc.prems in simp)
  next
    case False
    then show ?thesis
      using Suc.prems clean_and_store_inv [OF Suc.prems(1) skip_ok_None, of p PROP_VOID]
      by (cases "hp_payload (hp S p)") (auto simp: is_dir_def)
  qed
qed simp

lemma create_path_inv: "prop_inv K S \<Longrightarrow> prop_create_path p names S = Some (q, S') \<Longrightarrow> prop_inv K S'"
  by (induction names arbitrary: p S) (auto split: bind_splits dest: create0_inv [OF _ skip_ok_None])

end
