(* ===== verification/Prop_Run.thy ===== *)
theory Prop_Run
  imports Prop_Ops
begin

text \<open>
  Programs that use the property tree: sequences of operations from the empty tree. The locale
  \<open>invariant_of\<close> is the contract of a step relation with an invariant; it is interpreted for the
  operations of \<^verbatim>\<open>prop_core.c\<close>. The properties follow: what subscribers see, and where an operation
  breaks it.
\<close>

section \<open>Runs\<close>

definition unused_prop :: prop_t where
  "unused_prop = (new_prop None None)\<lparr>hp_payload := PROP_ZOMBIE\<rparr>"

definition no_flags :: sub_flags where
  "no_flags =
     \<lparr>sf_ignore_void = False, sf_multi = False, sf_monitor = False, sf_track_destroy = False,
      sf_direct = False, sf_no_initial_update = False, sf_internal = False\<rparr>"

definition empty_state :: pstate where
  "empty_state =
     \<lparr>ps_props = \<lambda>_. unused_prop, ps_subs = \<lambda>_. new_sub no_flags None, ps_next = 0, ps_next_sub = 0\<rparr>"

text \<open>The operations with their duties: the subscriptions in \<open>K\<close> are those that some caller passes as the one
  not to be told; a node is not moved below itself; the two functions that change the type of a node
  without telling are applied to numbers only; nobody subscribes with direct updates to a node that
  holds a reference.\<close>

inductive prop_step :: "(u32 \<Rightarrow> u32) \<Rightarrow> sid set \<Rightarrow> pstate \<Rightarrow> pstate \<Rightarrow> bool" for f2i K where
  create_root: "prop_create_root_ex name S = (p, S') \<Longrightarrow> prop_step f2i K S S'"
| create: "skip_ok K skip \<Longrightarrow> prop_create_ex q name skip S = Some (p, S') \<Longrightarrow> prop_step f2i K S S'"
| create_multi: "prop_create_multi q names S = Some (p, S') \<Longrightarrow> prop_step f2i K S S'"
| void_childs: "prop_void_childs q S = Some S' \<Longrightarrow> prop_step f2i K S S'"
| set_parent: "skip_ok K skip \<Longrightarrow> hp_payload (hp S p) \<noteq> PROP_ZOMBIE \<Longrightarrow> (\<And>r. q = Some r \<Longrightarrow> (r, p) \<notin> (parent_rel S)\<^sup>*) \<Longrightarrow>
    prop_set_parent_ex p q before skip S = Some (r, S') \<Longrightarrow> prop_step f2i K S S'"
| set_parent_vector: "skip_ok K skip \<Longrightarrow> (\<And>p. p \<in> set pv \<Longrightarrow> hp_payload (hp S p) \<noteq> PROP_ZOMBIE \<and> (q, p) \<notin> (parent_rel S)\<^sup>*) \<Longrightarrow>
    hp_payload (hp S q) \<noteq> PROP_ZOMBIE \<Longrightarrow> prop_set_parent_vector pv (Some q) before skip S = Some S' \<Longrightarrow> prop_step f2i K S S'"
| unparent: "prop_unparent0 p skip S = Some S' \<Longrightarrow> prop_step f2i K S S'"
| move: "skip_ok K skip \<Longrightarrow> prop_move0 p before skip S = Some S' \<Longrightarrow> prop_step f2i K S S'"
| req_move: "prop_req_move0 p before skip S = Some S' \<Longrightarrow> prop_step f2i K S S'"
| destroy: "prop_destroy q S = Some S' \<Longrightarrow> prop_step f2i K S S'"
| destroy_childs: "prop_destroy_childs q S = Some S' \<Longrightarrow> prop_step f2i K S S'"
| destroy_by_name: "prop_destroy_by_name p name S = Some S' \<Longrightarrow> prop_step f2i K S S'"
| destroy_first: "prop_destroy_first p S = Some S' \<Longrightarrow> prop_step f2i K S S'"
| destroy_marked: "prop_destroy_marked_childs p S = Some S' \<Longrightarrow> prop_step f2i K S S'"
| mark_childs: "prop_step f2i K S (prop_mark_childs p S)"
| unmark: "prop_step f2i K S (prop_unmark q S)"
| xref: "prop_xref_addref q S = Some S' \<Longrightarrow> prop_step f2i K S S'"
| set_void: "skip_ok K skip \<Longrightarrow> prop_set_void_ex q skip S = Some S' \<Longrightarrow> prop_step f2i K S S'"
| set_string: "skip_ok K skip \<Longrightarrow> prop_set_string_ex q skip str type S = Some S' \<Longrightarrow> prop_step f2i K S S'"
| set_rstring: "skip_ok K skip \<Longrightarrow> prop_set_rstring_ex q skip rstr S = Some S' \<Longrightarrow> prop_step f2i K S S'"
| set_cstring: "skip_ok K skip \<Longrightarrow> prop_set_cstring_ex q skip rstr S = Some S' \<Longrightarrow> prop_step f2i K S S'"
| set_uri: "skip_ok K skip \<Longrightarrow> prop_set_uri_ex q skip title url S = Some S' \<Longrightarrow> prop_step f2i K S S'"
| set_int: "skip_ok K skip \<Longrightarrow> prop_set_int_ex f2i q skip v S = Some S' \<Longrightarrow> prop_step f2i K S S'"
| toggle_int: "skip_ok K skip \<Longrightarrow> prop_toggle_int_ex f2i q skip S = Some S' \<Longrightarrow> prop_step f2i K S S'"
| add_int: "skip_ok K skip \<Longrightarrow> hp_payload (hp S p) = PROP_INT i mn mx \<Longrightarrow> prop_add_int_ex f2i (Some p) skip v S = Some S' \<Longrightarrow>
    prop_step f2i K S S'"
| clipping_range: "hp_payload (hp S p) = PROP_INT i mn0 mx0 \<Longrightarrow> prop_set_int_clipping_range f2i (Some p) mn mx S = Some S' \<Longrightarrow>
    prop_step f2i K S S'"
| set_prop: "skip_ok K skip \<Longrightarrow> prop_set_prop_exl p skip target S = Some S' \<Longrightarrow> prop_step f2i K S S'"
| select_child: "prop_select_ex p extra skip S = Some S' \<Longrightarrow> prop_step f2i K S S'"
| unselect_child: "prop_step f2i K S (prop_unselect_ex p skip S)"
| select_by_value: "prop_step f2i K S (prop_select_by_value_ex p n skip S)"
| suggest_focus: "prop_suggest_focus0 p S = Some S' \<Longrightarrow> prop_step f2i K S S'"
| subscribe: "(\<And>p r. q = Some p \<Longrightarrow> sf_direct fl \<or> sf_internal fl \<Longrightarrow> hp_payload (hp S p) \<noteq> PROP_PROP r) \<Longrightarrow> prop_subscribe fl q S = Some (s, S') \<Longrightarrow> prop_step f2i K S S'"
| unsubscribe: "prop_unsubscribe r S = Some S' \<Longrightarrow> prop_step f2i K S S'"

lemma empty_state_inv: "prop_inv K empty_state"
proof -
  have "hp empty_state p = unused_prop" "sub empty_state s = new_sub no_flags None" for p s
    by (simp_all add: empty_state_def)
  then show ?thesis
    by (simp add: prop_inv_def tree_ok_def subs_ok_def in_sync_def childs_def parent_rel_def unused_prop_def new_prop_def
        new_sub_def acyclic_def)
qed

lemma create_ex_inv:
  assumes "prop_inv K S" "skip_ok K skip" "prop_create_ex q name skip S = Some (p, S')"
  shows "prop_inv K S'"
  using assms create0_inv [OF assms(1,2)]
  by (auto simp: prop_create_ex_def split: option.splits if_splits)

lemma set_parent_ex_inv:
  assumes "prop_inv K S" "skip_ok K skip" "hp_payload (hp S p) \<noteq> PROP_ZOMBIE" "\<And>r. q = Some r \<Longrightarrow> (r, p) \<notin> (parent_rel S)\<^sup>*"
    "prop_set_parent_ex p q before skip S = Some (r, S')"
  shows "prop_inv K S'"
  using assms set_parent0_inv [OF assms(1-3)] by (cases q) (auto simp: prop_set_parent_ex_def)

lemma wrapper_invs:
  assumes "prop_inv K S"
  shows "prop_unsubscribe r S = Some S' \<Longrightarrow> prop_inv K S'" "prop_void_childs q S = Some S' \<Longrightarrow> prop_inv K S'"
    "prop_create_multi q names S = Some (p, S') \<Longrightarrow> prop_inv K S'"
  using assms unsubscribe_inv [OF assms] void_childs0_inv [OF assms] create_path_inv [OF assms]
  by (auto simp: prop_unsubscribe_def prop_void_childs_def prop_create_multi_def simp del: prop_void_childs0.simps
      split: option.splits if_splits)

lemma quiet_ops_inv:
  assumes "prop_inv K S"
  shows "prop_req_move0 p before skip S = Some S' \<Longrightarrow> prop_inv K S'" "prop_suggest_focus0 p S = Some S' \<Longrightarrow> prop_inv K S'"
    "prop_xref_addref q S = Some S' \<Longrightarrow> prop_inv K S'" "prop_inv K (prop_unmark q S)"
  using assms by (auto simp: prop_req_move0_def prop_suggest_focus0_def prop_xref_addref_def prop_unmark_def
      split: if_splits option.splits intro!: notify_quiet_inv quiet_events inert_inv)

lemma mark_childs_inv: "prop_inv K S \<Longrightarrow> prop_inv K (prop_mark_childs p S)"
proof -
  have "prop_inv K S \<Longrightarrow> prop_inv K (fold (\<lambda>c. upd_prop c (hp_marked_update (\<lambda>_. True))) cs S)" for cs
    by (induction cs arbitrary: S) (simp_all add: inert_inv)
  then show "prop_inv K S \<Longrightarrow> ?thesis" by (simp add: prop_mark_childs_def)
qed

text \<open>Destroying one child, in whatever state it is, does not touch its siblings.\<close>

lemma sibling_not_below:
  assumes t: "tree_ok S" and c: "hp_parent (hp S c) = Some p" and x: "hp_parent (hp S x) = Some p" "x \<noteq> c"
  shows "x \<notin> desc S c"
proof
  assume "x \<in> desc S c"
  then have "p \<in> desc S c"
    using x unfolding desc_def by (auto elim: converse_rtranclE simp: parent_rel_def)
  then show False using desc_child(2) [OF t c] by simp
qed

lemma destroyed_siblings:
  assumes t: "tree_ok S" and c: "hp_parent (hp S c) = Some p" and d: "destroyed K r c S S'"
    and x: "hp_parent (hp S x) = Some p" "x \<noteq> c"
  shows "hp S' x = hp S x"
  using d sibling_not_below [OF t c x] no_self_parent [OF t x(1)] c by (simp add: destroyed_def)

lemma destroy_child_inv:
  assumes inv: "prop_inv K S" and par: "hp_parent (hp S c) = Some p"
  shows "\<exists>S'. prop_destroy_child p c S = Some S' \<and> prop_inv K S' \<and>
    (\<forall>x. hp_parent (hp S x) = Some p \<longrightarrow> x \<noteq> c \<longrightarrow> hp S' x = hp S x)"
proof -
  note t = prop_invD(1) [OF inv]
  have al: "hp_payload (hp S c) \<noteq> PROP_ZOMBIE" using tree_okD(3) [OF t, of c] par by auto
  obtain r S1 where d: "prop_destroy0 (Suc (ps_next S)) c S = Some (r, S1)" "destroyed K r c S S1"
    using destroy0_inv [OF inv al] by blast
  note sib = destroyed_siblings [OF t par d(2)]
  show ?thesis
  proof (cases r)
    case True
    then show ?thesis using d sib by (auto simp: prop_destroy_child_def destroyed_def)
  next
    case False
    then have "prop_inv K S1" "hp_parent (hp S1 c) = Some p" using d(2) par by (auto simp: destroyed_def)
    note dr = drop_child_leave [OF this]
    have "hp (drop_child p c S1) x = hp S x" if "hp_parent (hp S x) = Some p" "x \<noteq> c" for x
      using dr(5) [of x] sib [OF that] no_self_parent [OF t that(1)] that(2) by simp
    then show ?thesis using d(1) dr(1) False by (auto simp: prop_destroy_child_def drop_child_def)
  qed
qed

lemma destroy_in_place_inv:
  assumes inv: "prop_inv K S" and par: "hp_parent (hp S c) = Some p"
  shows "\<exists>S'. map_option snd (prop_destroy0 (Suc (ps_next S)) c S) = Some S' \<and> prop_inv K S' \<and>
    (\<forall>x. hp_parent (hp S x) = Some p \<longrightarrow> x \<noteq> c \<longrightarrow> hp S' x = hp S x)"
proof -
  note t = prop_invD(1) [OF inv]
  have al: "hp_payload (hp S c) \<noteq> PROP_ZOMBIE" using tree_okD(3) [OF t, of c] par by auto
  obtain r S1 where d: "prop_destroy0 (Suc (ps_next S)) c S = Some (r, S1)" "destroyed K r c S S1"
    using destroy0_inv [OF inv al] by blast
  then show ?thesis using destroyed_siblings [OF t par d(2)] by (auto simp: destroyed_def)
qed

lemma forM_childs_inv:
  assumes step: "\<And>c S. prop_inv K S \<Longrightarrow> hp_parent (hp S c) = Some p \<Longrightarrow> \<exists>S'. g c S = Some S' \<and> prop_inv K S' \<and>
      (\<forall>x. hp_parent (hp S x) = Some p \<longrightarrow> x \<noteq> c \<longrightarrow> hp S' x = hp S x)"
    and "prop_inv K S" "distinct cs" "\<And>c. c \<in> set cs \<Longrightarrow> hp_parent (hp S c) = Some p"
  shows "\<exists>S'. forM g cs S = Some S' \<and> prop_inv K S'"
  using assms(2-4)
proof (induction cs arbitrary: S)
  case (Cons c cs)
  obtain S1 where S1: "g c S = Some S1" "prop_inv K S1" "\<forall>x. hp_parent (hp S x) = Some p \<longrightarrow> x \<noteq> c \<longrightarrow> hp S1 x = hp S x"
    using step [OF Cons.prems(1), of c] Cons.prems(3) by auto
  have "\<exists>S'. forM g cs S1 = Some S' \<and> prop_inv K S'"
  proof (rule Cons.IH [OF S1(2)])
    show "distinct cs" using Cons.prems(2) by simp
    show "hp_parent (hp S1 d) = Some p" if "d \<in> set cs" for d
      using S1(3) Cons.prems(2) Cons.prems(3) [of d] that by force
  qed
  then show ?case using S1(1) by simp
qed simp

lemma destroy_named_inv:
  assumes inv: "prop_inv K S"
  shows "\<exists>S'. prop_destroy_by_name p name S = Some S' \<and> prop_inv K S'"
    "\<exists>S'. prop_destroy_first p S = Some S' \<and> prop_inv K S'"
    "\<exists>S'. prop_destroy_marked_childs p S = Some S' \<and> prop_inv K S'"
proof -
  note t = prop_invD(1) [OF inv]
  have cs: "hp_parent (hp S c) = Some p" if "c \<in> set (childs S p)" for c using tree_okD(1) [OF t] that by blast
  have all: "\<exists>S'. forM (\<lambda>c S. if Q c S then g c S else Some S) (childs S p) S = Some S' \<and> prop_inv K S'"
    if g: "\<And>c S. prop_inv K S \<Longrightarrow> hp_parent (hp S c) = Some p \<Longrightarrow> \<exists>S'. g c S = Some S' \<and> prop_inv K S' \<and>
      (\<forall>x. hp_parent (hp S x) = Some p \<longrightarrow> x \<noteq> c \<longrightarrow> hp S' x = hp S x)" for Q g
    by (rule forM_childs_inv [where p = p]) (use g inv tree_okD(2) [OF t] cs in auto)
  show "\<exists>S'. prop_destroy_by_name p name S = Some S' \<and> prop_inv K S'"
  proof (cases name)
    case None
    then show ?thesis using all [OF destroy_child_inv, of "\<lambda>c S. hp_name (hp S c) = None"] inv
      by (simp add: prop_destroy_by_name_def)
  next
    case (Some n)
    have "\<exists>S'. prop_destroy_child p c S = Some S' \<and> prop_inv K S'"
      if "find (\<lambda>c. hp_name (hp S c) = Some n) (childs S p) = Some c" for c
      using that destroy_child_inv [OF inv cs, of c] nth_mem by (fastforce simp: find_Some_iff)
    then show ?thesis using Some inv by (auto simp: prop_destroy_by_name_def split: option.split)
  qed
  show "\<exists>S'. prop_destroy_first p S = Some S' \<and> prop_inv K S'"
  proof (cases "childs S p")
    case (Cons c ds)
    then show ?thesis using destroy_child_inv [OF inv cs, of c] by (auto simp: prop_destroy_first_def)
  qed (simp add: prop_destroy_first_def inv)
  show "\<exists>S'. prop_destroy_marked_childs p S = Some S' \<and> prop_inv K S'"
    unfolding prop_destroy_marked_childs_def by (rule all [OF destroy_in_place_inv])
qed

lemma destroy_childs_inv:
  assumes "prop_inv K S"
  shows "\<exists>S'. prop_destroy_childs q S = Some S' \<and> prop_inv K S'"
proof (cases "\<exists>p cs sel. q = Some p \<and> hp_payload (hp S p) = PROP_DIR cs sel")
  case True
  then obtain p cs sel where q: "q = Some p" "hp_payload (hp S p) = PROP_DIR cs sel" by blast
  then show ?thesis using destroy_childs0_inv [OF assms q(2)] by (auto simp: prop_destroy_childs_def is_dir_def)
next
  case False
  then show ?thesis using assms by (auto simp: prop_destroy_childs_def is_dir_iff split: option.split)
qed

text \<open>Every operation keeps the invariant; \<open>outcome\<close> takes the ones that are known to return.\<close>

lemma outcome: "\<exists>S'. r = Some S' \<and> P S' \<Longrightarrow> r = Some S' \<Longrightarrow> P S'"
  by auto

lemmas op_invs = create_ex_inv set_parent_ex_inv set_parent_vector_inv unparent0_inv move0_inv quiet_ops_inv mark_childs_inv
  select_ops_inv subscribe_inv wrapper_invs set_void_ex_inv [THEN outcome] set_string_ex_inv [THEN outcome]
  set_strings_ex_inv [THEN outcome] set_uri_inv [THEN outcome] set_int_ex_inv [THEN outcome]
  toggle_int_inv [THEN outcome] add_int_inv [THEN outcome] clipping_range_inv [THEN outcome] set_prop_inv [THEN outcome]
  destroy_inv [THEN outcome] destroy_childs_inv [THEN outcome] destroy_named_inv [THEN outcome]

lemma step_inv:
  assumes "prop_step f2i K S S'" "prop_inv K S"
  shows "prop_inv K S'"
  using assms
proof cases
  case (create_root name p)
  then show ?thesis using make_inv(1) [OF assms(2), of name] by (simp add: prop_create_root_ex_def)
qed (assumption | (hypsubst, rule op_invs; assumption) | (rule op_invs; assumption))+

interpretation pt: invariant_of empty_state "prop_step f2i K" "prop_inv K" for f2i K
  by unfold_locales (auto intro: empty_state_inv step_inv)

section \<open>What subscribers see\<close>

text \<open>A program that makes a directory with the children \<open>1\<close> and \<open>2\<close>, the second with a number, and subscribes to
  the directory and to the number.\<close>

definition sample_run :: "(u32 \<Rightarrow> u32) \<Rightarrow> pstate option" where
  "sample_run f2i =
     (let (r, S0) = prop_create_root_ex None empty_state in
      do {
        (a, S1) \<leftarrow> prop_create_ex (Some r) (Some [97]) None S0;
        (c, S2) \<leftarrow> prop_create_ex (Some r) (Some [99]) None S1;
        (s, S3) \<leftarrow> prop_subscribe no_flags (Some r) S2;
        S4 \<leftarrow> prop_set_int_ex f2i c None 7 S3;
        (t, S5) \<leftarrow> prop_subscribe no_flags c S4;
        Some S5
      })"

lemmas eval_defs = sample_run_def empty_state_def unused_prop_def no_flags_def new_sub_def new_prop_def
  prop_create_root_ex_def prop_make_def prop_create_ex_def prop_create0_def prop_make_dir_def prop_clean_def
  prop_insert_def prop_notify_child_def prop_notify_value_def prop_build_notify_value_def value_event_def
  prop_subscribe_def subscribe_canonical_def initial_update_def prop_set_int_ex_def prop_set_int_exl_def
  clean_and_store_def store_value_def flood_below_def child_named_def childs_def is_dir_def map_childs_def
  upd_prop_def upd_sub_def log_event_def Let_def

definition sample_state :: "(u32 \<Rightarrow> u32) \<Rightarrow> pstate" where
  "sample_state f2i = the (sample_run f2i)"

lemma sample_returns: "sample_run f2i = Some (sample_state f2i)"
proof -
  have "sample_run f2i \<noteq> None" by (simp add: eval_defs)
  then show ?thesis by (auto simp: sample_state_def)
qed

lemma sample_facts:
  "childs (sample_state f2i) 0 = [1, 2]"
  "hp_payload (hp (sample_state f2i) 2) = PROP_INT 7 0 0" "hp_parent (hp (sample_state f2i) 2) = Some 0"
  "hp_xref (hp (sample_state f2i) 2) = 1"
  "hps_log (sub (sample_state f2i) 0) = [SET_DIR, ADD_CHILD 1 False, ADD_CHILD 2 False]"
  "hps_value_prop (sub (sample_state f2i) 0) = Some 0" "plain_sub (sub (sample_state f2i) 0)"
  by (simp_all add: sample_state_def plain_sub_def eval_defs)

lemma run_step: "(prop_step f2i K)\<^sup>*\<^sup>* S S1 \<Longrightarrow> prop_step f2i K S1 S2 \<Longrightarrow> (prop_step f2i K)\<^sup>*\<^sup>* S S2"
  by (rule rtranclp.rtrancl_into_rtrancl)

lemma subscribe_plainly: "prop_subscribe no_flags q S = Some (s, S') \<Longrightarrow> prop_step f2i K S S'"
  by (erule prop_step.subscribe [rotated]) (simp add: no_flags_def)

lemma sample_reachable: "(prop_step f2i K)\<^sup>*\<^sup>* empty_state (sample_state f2i)"
proof -
  note run = sample_returns [of f2i, unfolded sample_run_def Let_def]
  obtain r S0 where S0: "prop_create_root_ex None empty_state = (r, S0)" by (cases "prop_create_root_ex None empty_state")
  with run obtain a S1 where S1: "prop_create_ex (Some r) (Some [97]) None S0 = Some (a, S1)"
    by (cases "prop_create_ex (Some r) (Some [97]) None S0") auto
  with S0 run obtain c S2 where S2: "prop_create_ex (Some r) (Some [99]) None S1 = Some (c, S2)"
    by (cases "prop_create_ex (Some r) (Some [99]) None S1") auto
  with S0 S1 run obtain s S3 where S3: "prop_subscribe no_flags (Some r) S2 = Some (s, S3)"
    by (cases "prop_subscribe no_flags (Some r) S2") auto
  with S0 S1 S2 run obtain S4 where S4: "prop_set_int_ex f2i c None 7 S3 = Some S4"
    by (cases "prop_set_int_ex f2i c None 7 S3") auto
  with S0 S1 S2 S3 run obtain t where S5: "prop_subscribe no_flags c S4 = Some (t, sample_state f2i)"
    by (cases "prop_subscribe no_flags c S4") auto
  show ?thesis
    by (rule run_step [OF run_step [OF run_step [OF run_step [OF run_step [OF run_step [OF rtranclp.rtrancl_refl
      prop_step.create_root [OF S0]] prop_step.create [OF skip_ok_None S1]] prop_step.create [OF skip_ok_None S2]]
      subscribe_plainly [OF S3]] prop_step.set_int [OF skip_ok_None S4]] subscribe_plainly [OF S5]])
qed

text \<open>
  Property C1. In every state that a program can reach, a subscriber that applies the events it was sent,
  in order, knows the value of its node, and for a directory the list of its children in their order,
  unless it asked not to be told of its own changes.
\<close>

theorem subscribers_in_sync:
  assumes "(prop_step f2i K)\<^sup>*\<^sup>* empty_state S" "hps_value_prop (sub S s) = Some p" "plain_sub (sub S s)" "s \<notin> K"
  shows "view_of (hps_log (sub S s)) = payload_view (hp_payload (hp S p))"
  using prop_invD(3) [OF pt.reachable [OF assms(1)]] assms(2-4) by (simp add: in_sync_def)

theorem subscribers_in_sync_witness:
  "view_of (hps_log (sub (sample_state id) 0)) = payload_view (hp_payload (hp (sample_state id) 0)) \<and>
   view_of (hps_log (sub (sample_state id) 0)) = V_Dir [1, 2]"
  using subscribers_in_sync [OF sample_reachable [of id "{}"], of 0 0]
  by (simp add: sample_facts view_of_def)

text \<open>
  Property C10. In every state that a program can reach, the lists of children and the links to parents
  agree, no node is listed twice, following parents ends, and destroyed nodes have neither parent nor
  children nor subscriptions; the lists of subscriptions agree with the nodes that the subscriptions
  refer to.
\<close>

theorem prop_tree_invariant:
  assumes "(prop_step f2i K)\<^sup>*\<^sup>* empty_state S"
  shows "(c \<in> set (childs S p) \<longleftrightarrow> hp_parent (hp S c) = Some p) \<and> distinct (childs S p) \<and> acyclic (parent_rel S) \<and>
    (hp_payload (hp S p) = PROP_ZOMBIE \<longrightarrow> hp_parent (hp S p) = None \<and> childs S p = [] \<and>
      hp_value_subscriptions (hp S p) = [] \<and> hp_canonical_subscriptions (hp S p) = []) \<and>
    (s \<in> set (hp_value_subscriptions (hp S p)) \<longleftrightarrow> hps_value_prop (sub S s) = Some p) \<and>
    (s \<in> set (hp_canonical_subscriptions (hp S p)) \<longleftrightarrow> hps_canonical_prop (sub S s) = Some p)"
proof -
  note inv = pt.reachable [OF assms]
  note t = tree_okD [OF prop_invD(1) [OF inv]] and so = subs_okD [OF prop_invD(2) [OF inv]]
  have "hp_payload (hp S p) = PROP_ZOMBIE \<longrightarrow> childs S p = []" by (simp add: childs_def)
  then show ?thesis using t(1-3,7) so(1,2,5,6) by blast
qed

theorem prop_tree_invariant_witness:
  "(2 \<in> set (childs (sample_state id) 0) \<longleftrightarrow> hp_parent (hp (sample_state id) 2) = Some 0) \<and>
   distinct (childs (sample_state id) 0) \<and> acyclic (parent_rel (sample_state id)) \<and> childs (sample_state id) 0 = [1, 2]"
  using prop_tree_invariant [OF sample_reachable [of id "{}"], of 2 0] by (simp add: sample_facts)

text \<open>
  Property C9. Destroying a node always ends, however deep the tree is. If the node was referred to once it
  is a zombie afterwards, without parent, children or subscriptions, and gone from the children of its
  former parent; nodes that are neither below it nor its parent are unchanged.
\<close>

theorem prop_destroy_total:
  assumes "(prop_step f2i K)\<^sup>*\<^sup>* empty_state S" "hp_payload (hp S p) \<noteq> PROP_ZOMBIE" "hp_xref (hp S p) = 1"
  shows "\<exists>S'. prop_destroy (Some p) S = Some S' \<and> hp_payload (hp S' p) = PROP_ZOMBIE \<and> hp_parent (hp S' p) = None \<and>
    hp_value_subscriptions (hp S' p) = [] \<and> hp_canonical_subscriptions (hp S' p) = [] \<and>
    (\<forall>q. hp_parent (hp S p) = Some q \<longrightarrow> childs S' q = remove1 p (childs S q)) \<and>
    (\<forall>x. (x, p) \<notin> (parent_rel S)\<^sup>* \<longrightarrow> hp_parent (hp S p) \<noteq> Some x \<longrightarrow> hp S' x = hp S x)"
proof -
  note inv = pt.reachable [OF assms(1)]
  obtain r S' where d: "prop_destroy0 (Suc (ps_next S)) p S = Some (r, S')" "destroyed K r p S S'"
    using destroy0_inv [OF inv assms(2)] by blast
  have "r" using d(1) assms(2,3) tree_okD(5,6) [OF prop_invD(1) [OF inv]] by (auto simp: Let_def split: if_splits bind_splits)
  then have z: "hp_payload (hp S' p) = PROP_ZOMBIE" "prop_inv K S'" "hp_parent (hp S' p) = None" using d(2) by (simp_all add: destroyed_def)
  have "childs S' q = remove1 p (childs S q)" if "hp_parent (hp S p) = Some q" for q
    using d(2) \<open>r\<close> that by (auto simp: destroyed_def childs_def)
  moreover have "hp S' x = hp S x" if "(x, p) \<notin> (parent_rel S)\<^sup>*" "hp_parent (hp S p) \<noteq> Some x" for x
    using d(2) that by (simp add: destroyed_def desc_def)
  ultimately show ?thesis
    using d(1) z subs_okD(5,6) [OF prop_invD(2) [OF z(2)]] by (simp add: prop_destroy_def)
qed

theorem prop_destroy_total_witness:
  "\<exists>S'. prop_destroy (Some 2) (sample_state id) = Some S' \<and> hp_payload (hp S' 2) = PROP_ZOMBIE \<and> childs S' 0 = [1]"
  using prop_destroy_total [OF sample_reachable [of id "{}"], of 2] by (auto simp: sample_facts)

section \<open>Numbers with limits\<close>

lemma clip_range: "sint mn \<le> sint mx \<Longrightarrow> sint mn \<le> sint (clip mn mx v) \<and> sint (clip mn mx v) \<le> sint mx"
  by (simp add: clip_def Let_def)

lemma clip_id: "sint mn \<le> sint v \<Longrightarrow> sint v \<le> sint mx \<Longrightarrow> clip mn mx v = v"
  by (simp add: clip_def)

lemma store_value_payload:
  assumes "prop_inv K S" "skip_ok K skip" "\<not> is_dir (hp_payload (hp S p))" "hp_payload (hp S p) \<noteq> PROP_ZOMBIE" "\<not> is_dir v" "v \<noteq> PROP_ZOMBIE"
  shows "\<exists>S'. store_value p skip v S = Some S' \<and> hp_payload (hp S' p) = v"
proof -
  obtain S' where "store_value p skip v S = Some S'" "ps_props S' = ps_props (set_payload p v S)"
    using store_value_inv [OF assms(1,2) scalar_no_childs [OF assms(3)] assms(4,6)] assms(5) by blast
  then show ?thesis by simp
qed


definition clipped_state :: pstate where
  "clipped_state = the (prop_set_int_clipping_range id (Some 2) 0 10 (sample_state id))"

lemma clipped_state_reachable:
  "(prop_step id K)\<^sup>*\<^sup>* empty_state clipped_state" "hp_payload (hp clipped_state 2) = PROP_INT 7 0 10" "hp_clipped (hp clipped_state 2)"
proof -
  have op: "prop_set_int_clipping_range id (Some 2) 0 10 (sample_state id) =
      Some (set_payload 2 (PROP_INT 7 0 10) (upd_prop 2 (hp_clipped_update (\<lambda>_. True)) (sample_state id)))"
    by (simp add: prop_set_int_clipping_range_def int_of_prop_def sample_facts clip_def Let_def)
  then have eq: "clipped_state = set_payload 2 (PROP_INT 7 0 10) (upd_prop 2 (hp_clipped_update (\<lambda>_. True)) (sample_state id))"
    by (simp add: clipped_state_def)
  show "hp_payload (hp clipped_state 2) = PROP_INT 7 0 10" "hp_clipped (hp clipped_state 2)" by (simp_all add: eq)
  show "(prop_step id K)\<^sup>*\<^sup>* empty_state clipped_state"
    by (rule run_step [OF sample_reachable prop_step.clipping_range [OF sample_facts(2) op [folded eq]]])
qed


section \<open>Operations that break the contract\<close>

text \<open>
  \<open>prop_create_after\<close> announces a child that it puts before another one as the last child: in
  the directory with the children \<open>1\<close> and \<open>2\<close>, the new child \<open>3\<close> behind \<open>1\<close> is second, and the subscriber
  takes it for the last.
\<close>

theorem prop_create_after_misplaced:
  "\<exists>S'. prop_create_after (Some 0) [98] (Some 1) None (sample_state f2i) = Some (Some 3, S') \<and>
     hps_value_prop (sub S' 0) = Some 0 \<and> plain_sub (sub S' 0) \<and>
     payload_view (hp_payload (hp S' 0)) = V_Dir [1, 3, 2] \<and> view_of (hps_log (sub S' 0)) = V_Dir [1, 2, 3]"
  by (simp add: sample_state_def prop_create_after_def insert_behind_def prev_in_def plain_sub_def payload_view_def
      view_of_def eval_defs)

text \<open>
  \<open>prop_unparent_childs\<close> leaves the children where they are and takes the node itself out of its
  parent.
\<close>

theorem prop_unparent_childs_wrong_node:
  assumes "childs S p \<noteq> []" "\<not> hp_multi_notify (hp S p)"
  shows "prop_unparent_childs p S = Some (leave_parent p S)"
proof -
  have "hp_parent (hp (leave_parent p S) p) = None" by (simp add: leave_parent_def split: option.split)
  then have stay: "forM (\<lambda>c. prop_unparent0 p None) cs (leave_parent p S) = Some (leave_parent p S)" for cs
    by (induction cs) (simp_all add: prop_unparent0_def)
  have "prop_unparent0 p None S = Some (leave_parent p S)"
    using assms(2) by (simp add: prop_unparent0_def leave_parent_def)
  then show ?thesis using assms(1) stay by (cases "childs S p") (simp_all add: prop_unparent_childs_def)
qed

text \<open>
  Adding 0 to a node that is no number makes it one without telling anybody: the subscriber of
  an empty node still sees no value.
\<close>

theorem prop_add_int_silent:
  "\<exists>S s S'. (prop_step f2i K)\<^sup>*\<^sup>* empty_state S \<and> hps_value_prop (sub S s) = Some 0 \<and> plain_sub (sub S s) \<and>
     prop_add_int_ex f2i (Some 0) None 0 S = Some S' \<and> hp_payload (hp S' 0) = PROP_INT 0 0 0 \<and>
     view_of (hps_log (sub S' s)) = V_Value SET_VOID"
proof -
  obtain r S0 where S0: "prop_create_root_ex None empty_state = (r, S0)" by (cases "prop_create_root_ex None empty_state")
  obtain S1 where S1: "prop_subscribe no_flags (Some 0) S0 = Some (Some 0, S1)" "hps_value_prop (sub S1 0) = Some 0"
    "plain_sub (sub S1 0)" "hps_log (sub S1 0) = [SET_VOID]" "hp_payload (hp S1 0) = PROP_VOID" "\<not> hp_clipped (hp S1 0)"
    using S0 by (fastforce simp: plain_sub_def eval_defs)
  have "(prop_step f2i K)\<^sup>*\<^sup>* empty_state S1"
    by (rule run_step [OF run_step [OF rtranclp.rtrancl_refl prop_step.create_root [OF S0]] subscribe_plainly [OF S1(1)]])
  moreover have "prop_add_int_ex f2i (Some 0) None 0 S1 = Some (set_payload 0 (PROP_INT 0 0 0) S1)"
    using S1(5,6) by (simp add: prop_add_int_ex_def int_of_prop_def prop_clean_def Let_def)
  ultimately show ?thesis
    using S1 by (intro exI [of _ S1] exI [of _ 0] exI [of _ "set_payload 0 (PROP_INT 0 0 0) S1"]) (simp add: view_of_def)
qed

text \<open>
  A subscriber that asks for direct updates is told that a node which holds a reference to another
  node is a directory, and one that does not is told of the reference.
\<close>

theorem direct_subscription_misled:
  assumes "hp_payload (hp S p) = PROP_PROP q" "hp_multi_sub (hp S p) = False" "hp_monitored (hp S p) = False"
  shows "\<exists>S'. prop_subscribe (no_flags\<lparr>sf_direct := direct\<rparr>) (Some p) S = Some (Some (ps_next_sub S), S') \<and>
    hp_payload (hp S' p) = PROP_PROP q \<and>
    view_of (hps_log (sub S' (ps_next_sub S))) = (if direct then V_Dir [] else V_Value (SET_PROP q))"
  using assms by (simp add: prop_subscribe_def subscribe_canonical_def initial_update_def prop_build_notify_value_def
      direct_event_def value_event_def new_sub_def no_flags_def log_event_def Let_def view_of_def)

definition reference_state :: pstate where
  "reference_state = set_payload 0 (PROP_PROP 1) (snd (prop_create_root_ex None empty_state))"

end
