(* ===== verification/Bitstream.thy ===== *)
theory Bitstream
  imports Prelude "HOL-Library.Monad_Syntax"
begin

text \<open>
  The reader of bits of \<^verbatim>\<open>src/src/misc/bitstream.c\<close>, used on the headers of H.264 streams. A read outside of the
  memory that holds the data is \<open>None\<close>. The reader is compared with the list of bits it has ahead
  (\<open>ahead\<close>): the bytes with the escapes removed, most significant bit first. Of a number of more than 32 bits
  the low ones are kept, as the shift by 32 and more that the code performs there has no defined value.
\<close>

section \<open>The reader\<close>

record bitstream =
  rdata :: bytes
  bytes_length :: nat
  bytes_offset :: nat
  remain :: nat
  tmp :: u8
  rbsp :: bool

definition init_rbits :: "bytes \<Rightarrow> nat \<Rightarrow> bool \<Rightarrow> bitstream" where
  "init_rbits data len r = \<lparr>rdata = data, bytes_length = len, bytes_offset = 0, remain = 0, tmp = 0, rbsp = r\<rparr>"

definition bs_eof :: "bitstream \<Rightarrow> bool" where
  "bs_eof bs \<longleftrightarrow> bytes_length bs \<le> bytes_offset bs"

definition rd :: "bytes \<Rightarrow> nat \<Rightarrow> u8 option" where
  "rd d i = (if i < length d then Some (d ! i) else None)"

text \<open>The test for the escape \<^verbatim>\<open>0 0 3\<close> behind the byte before \<open>off\<close>.\<close>

definition escape_at :: "bitstream \<Rightarrow> nat \<Rightarrow> bool option" where
  "escape_at bs off =
     (if rbsp bs \<and> 2 \<le> off \<and> off < bytes_length bs then
        do {
          a \<leftarrow> rd (rdata bs) (off - 2);
          b \<leftarrow> rd (rdata bs) (off - 1);
          c \<leftarrow> rd (rdata bs) off;
          Some (a = 0 \<and> b = 0 \<and> c = 3)
        }
      else Some False)"

definition load_byte :: "bitstream \<Rightarrow> bitstream option" where
  "load_byte bs =
     do {
       t \<leftarrow> rd (rdata bs) (bytes_offset bs);
       let off = bytes_offset bs + 1;
       esc \<leftarrow> escape_at bs off;
       Some (bs\<lparr>tmp := t, bytes_offset := (if esc then off + 1 else off), remain := 8\<rparr>)
     }"

fun read_bits_loop :: "nat \<Rightarrow> u32 \<Rightarrow> bitstream \<Rightarrow> (u32 \<times> bitstream) option" where
  "read_bits_loop 0 r bs = Some (r, bs)"
| "read_bits_loop (Suc num) r bs =
     (if bs_eof bs then Some (0, bs)
      else do {
        bs1 \<leftarrow> (if remain bs = 0 then load_byte bs else Some bs);
        let rem = remain bs1 - 1;
        read_bits_loop num (if bit (tmp bs1) rem then r OR push_bit num 1 else r) (bs1\<lparr>remain := rem\<rparr>)
      })"

definition read_bits :: "bitstream \<Rightarrow> nat \<Rightarrow> (u32 \<times> bitstream) option" where
  "read_bits bs num = read_bits_loop num 0 bs"

definition read_bits1 :: "bitstream \<Rightarrow> (u32 \<times> bitstream) option" where
  "read_bits1 bs = read_bits bs 1"

definition skip_bits :: "bitstream \<Rightarrow> nat \<Rightarrow> bitstream option" where
  "skip_bits bs num = map_option snd (read_bits bs num)"

definition bits_left :: "bitstream \<Rightarrow> int" where
  "bits_left bs = int (remain bs) + (int (bytes_length bs) - int (bytes_offset bs)) * 8"

definition todo :: "bitstream \<Rightarrow> nat" where
  "todo bs = remain bs + 8 * (bytes_length bs - bytes_offset bs)"

lemma load_byte_todo: "load_byte bs = Some bs1 \<Longrightarrow> \<not> bs_eof bs \<Longrightarrow> todo bs1 \<le> 8 + 8 * (bytes_length bs - Suc (bytes_offset bs)) \<and> remain bs1 = 8 \<and>
    bytes_length bs1 = bytes_length bs \<and> bytes_offset bs < bytes_offset bs1"
  by (auto simp: load_byte_def todo_def bs_eof_def Let_def split: bind_splits if_splits)

lemma read_bits1_todo:
  assumes "read_bits1 bs = Some (b, bs1)" "\<not> bs_eof bs"
  shows "todo bs1 < todo bs"
proof (cases "remain bs = 0")
  case True
  then obtain bs0 where "load_byte bs = Some bs0" "bs1 = bs0\<lparr>remain := remain bs0 - 1\<rparr>"
    using assms by (auto simp: read_bits1_def read_bits_def numeral_eq_Suc Let_def split: bind_splits)
  then show ?thesis using load_byte_todo [of bs bs0] assms(2) True by (auto simp: todo_def bs_eof_def)
next
  case False
  then have "bs1 = bs\<lparr>remain := remain bs - 1\<rparr>"
    using assms by (auto simp: read_bits1_def read_bits_def numeral_eq_Suc Let_def split: bind_splits)
  then show ?thesis using False by (simp add: todo_def)
qed

text \<open>The loop that counts the zeros of a Golomb code: the number of bits it read.\<close>

function golomb_zeros :: "nat \<Rightarrow> bitstream \<Rightarrow> (nat \<times> bitstream) option" where
  "golomb_zeros n bs =
     (if bs_eof bs then Some (n, bs)
      else
        case read_bits1 bs of
          None \<Rightarrow> None
        | Some (b, bs1) \<Rightarrow> if b \<noteq> 0 then Some (n + 1, bs1) else golomb_zeros (n + 1) bs1)"
  by pat_completeness auto
termination
  by (relation "measure (\<lambda>(n, bs). todo bs)") (auto dest: read_bits1_todo)

declare golomb_zeros.simps [simp del]

text \<open>\<^verbatim>\<open>lzb\<close> is one less than the number of bits. The shift of 1 by a number outside of 0 to 31, which C does not
  define, is the parameter \<open>shift\<close>; a negative number of bits is not read.\<close>

definition read_golomb_ue :: "(int \<Rightarrow> u32) \<Rightarrow> bitstream \<Rightarrow> (u32 \<times> bitstream) option" where
  "read_golomb_ue shift bs =
     do {
       (n, bs1) \<leftarrow> golomb_zeros 0 bs;
       let lzb = int n - 1;
       (v, bs2) \<leftarrow> read_bits bs1 (nat lzb);
       Some ((if 0 \<le> lzb \<and> lzb < 32 then push_bit (nat lzb) 1 else shift lzb) - 1 + v, bs2)
     }"

definition read_golomb_se :: "(int \<Rightarrow> u32) \<Rightarrow> bitstream \<Rightarrow> (u32 \<times> bitstream) option" where
  "read_golomb_se shift bs =
     do {
       (v, bs1) \<leftarrow> read_golomb_ue shift bs;
       if v = 0 then Some (0, bs1)
       else
         let w = signed_drop_bit 1 (v + 1)
         in Some (if bit v 0 then w else - w, bs1)
     }"

section \<open>The bits ahead\<close>

definition low_bits :: "nat \<Rightarrow> u8 \<Rightarrow> bool list" where
  "low_bits n t = map (bit t) (rev [0..<n])"

definition next_off :: "bitstream \<Rightarrow> nat \<Rightarrow> nat" where
  "next_off bs off = (if escape_at bs (off + 1) = Some True then off + 2 else off + 1)"

text \<open>Of the byte with which the reader comes to the end of the data only the first bit can be read.\<close>

function ahead_from :: "bitstream \<Rightarrow> nat \<Rightarrow> bool list" where
  "ahead_from bs off =
     (if bytes_length bs \<le> off then []
      else if bytes_length bs \<le> next_off bs off then [bit (rdata bs ! off) 7]
      else low_bits 8 (rdata bs ! off) @ ahead_from bs (next_off bs off))"
  by pat_completeness auto
termination
  by (relation "measure (\<lambda>(bs, off). bytes_length bs - off)") (auto simp: next_off_def)

declare ahead_from.simps [simp del]

definition ahead :: "bitstream \<Rightarrow> bool list" where
  "ahead bs = (if bs_eof bs then [] else low_bits (remain bs) (tmp bs) @ ahead_from bs (bytes_offset bs))"

definition bits_word :: "bool list \<Rightarrow> u32" where
  "bits_word xs = horner_sum of_bool 2 (rev xs)"

definition bs_ok :: "bitstream \<Rightarrow> bool" where
  "bs_ok bs \<longleftrightarrow> bytes_length bs \<le> length (rdata bs)"

lemma low_bits_Suc: "low_bits (Suc n) t = bit t n # low_bits n t"
  by (simp add: low_bits_def)

lemma ahead_from_cong:
  assumes "rdata bs1 = rdata bs" "bytes_length bs1 = bytes_length bs" "rbsp bs1 = rbsp bs"
  shows "ahead_from bs1 off = ahead_from bs off"
proof -
  have "next_off bs1 x = next_off bs x" for x using assms by (simp add: next_off_def escape_at_def)
  then show ?thesis
    using assms by (induction bs off rule: ahead_from.induct) (subst (1 2) ahead_from.simps, simp)
qed

lemma escape_at_total: "bs_ok bs \<Longrightarrow> \<exists>b. escape_at bs off = Some b"
  by (auto simp: escape_at_def bs_ok_def rd_def)

lemma load_byte_total:
  assumes "bs_ok bs" "\<not> bs_eof bs"
  shows "load_byte bs = Some (bs\<lparr>tmp := rdata bs ! bytes_offset bs, bytes_offset := next_off bs (bytes_offset bs), remain := 8\<rparr>)"
  using assms escape_at_total [OF assms(1), of "Suc (bytes_offset bs)"]
  by (auto simp: load_byte_def rd_def bs_ok_def bs_eof_def next_off_def Let_def)

text \<open>One turn of the loop delivers the first bit ahead.\<close>

lemma next_bit:
  assumes "bs_ok bs" "\<not> bs_eof bs"
  shows "\<exists>bs1. (if remain bs = 0 then load_byte bs else Some bs) = Some bs1 \<and> bs_ok bs1 \<and>
    ahead bs = bit (tmp bs1) (remain bs1 - 1) # ahead (bs1\<lparr>remain := remain bs1 - 1\<rparr>)"
proof (cases "remain bs")
  case 0
  let ?b = "bs\<lparr>tmp := rdata bs ! bytes_offset bs, bytes_offset := next_off bs (bytes_offset bs), remain := 8\<rparr>"
  have a: "ahead_from (?b\<lparr>remain := 7\<rparr>) x = ahead_from bs x" for x by (rule ahead_from_cong) simp_all
  have l: "low_bits 8 t = bit t 7 # low_bits 7 t" for t using low_bits_Suc [of 7 t] by (simp add: numeral_eq_Suc)
  have "ahead bs = ahead_from bs (bytes_offset bs)" using assms(2) 0 by (simp add: ahead_def low_bits_def)
  also have "\<dots> = bit (tmp ?b) 7 # ahead (?b\<lparr>remain := 7\<rparr>)"
    using assms(2) by (subst ahead_from.simps) (simp add: ahead_def bs_eof_def a [simplified] l)
  finally show ?thesis using load_byte_total [OF assms] assms(1) 0 by (simp add: bs_ok_def)
next
  case (Suc n)
  have "ahead_from (bs\<lparr>remain := n\<rparr>) x = ahead_from bs x" for x by (rule ahead_from_cong) simp_all
  then show ?thesis using assms Suc by (simp add: ahead_def bs_eof_def low_bits_Suc)
qed

lemma ahead_eof: "bs_ok bs \<Longrightarrow> ahead bs = [] \<longleftrightarrow> bs_eof bs"
  using next_bit [of bs] by (auto simp: ahead_def)

lemma bits_word_Cons: "bits_word (b # xs) = (if b then push_bit (length xs) 1 else 0) OR bits_word xs"
  by (rule bit_eqI) (auto simp: bits_word_def bit_simps bit_horner_sum_bit_iff nth_append)

lemma bits_word_Nil [simp]: "bits_word [] = 0"
  by (simp add: bits_word_def)

lemma read_bits_loop_spec:
  assumes "bs_ok bs"
  shows "\<exists>bs'. read_bits_loop num r bs =
      Some (if num \<le> length (ahead bs) then r OR bits_word (take num (ahead bs)) else 0, bs') \<and>
    bs_ok bs' \<and> ahead bs' = drop num (ahead bs)"
  using assms
proof (induction num arbitrary: r bs)
  case (Suc num)
  show ?case
  proof (cases "bs_eof bs")
    case True
    then show ?thesis using Suc.prems by (simp add: ahead_def)
  next
    case False
    obtain bs1 where b: "(if remain bs = 0 then load_byte bs else Some bs) = Some bs1" "bs_ok bs1"
      "ahead bs = bit (tmp bs1) (remain bs1 - 1) # ahead (bs1\<lparr>remain := remain bs1 - 1\<rparr>)"
      using next_bit [OF Suc.prems False] by blast
    let ?b = "bs1\<lparr>remain := remain bs1 - 1\<rparr>"
    have "bs_ok ?b" using b(2) by (simp add: bs_ok_def)
    from Suc.IH [OF this, of "if bit (tmp bs1) (remain bs1 - 1) then r OR push_bit num 1 else r"]
    show ?thesis using False b(1) by (auto simp: b(3) Let_def bits_word_Cons or.assoc min_def)
  qed
qed simp

lemma read_bits_spec:
  assumes "bs_ok bs"
  shows "\<exists>bs'. read_bits bs num = Some (if num \<le> length (ahead bs) then bits_word (take num (ahead bs)) else 0, bs') \<and>
    bs_ok bs' \<and> ahead bs' = drop num (ahead bs)"
  using read_bits_loop_spec [OF assms, of num 0] by (simp add: read_bits_def cong: if_cong)

section \<open>Golomb codes\<close>

fun top_bit :: "nat \<Rightarrow> nat" where
  "top_bit n = (if n < 2 then 0 else Suc (top_bit (n div 2)))"

declare top_bit.simps [simp del]

text \<open>The code of a number: as many zeros as the successor has digits behind its first one, and then the
  successor.\<close>

definition number_bits :: "nat \<Rightarrow> nat \<Rightarrow> bool list" where
  "number_bits k n = map (bit n) (rev [0..<k])"

definition ue_code :: "nat \<Rightarrow> bool list" where
  "ue_code n = replicate (top_bit (n + 1)) False @ True # number_bits (top_bit (n + 1)) (n + 1)"

lemma top_bit_bounds: "0 < n \<Longrightarrow> 2 ^ top_bit n \<le> n \<and> n < 2 ^ Suc (top_bit n)"
proof (induction n rule: top_bit.induct)
  case (1 n)
  then show ?case
    by (cases "n < 2") (subst (1 2) top_bit.simps, simp, subst (1 2) top_bit.simps, auto)
qed

lemma zeros_spec:
  assumes "bs_ok bs" "ahead bs = replicate k False @ True # rest"
  shows "\<exists>bs'. golomb_zeros n bs = Some (n + k + 1, bs') \<and> bs_ok bs' \<and> ahead bs' = rest"
  using assms
proof (induction k arbitrary: n bs)
  case 0
  obtain bs1 where "read_bits1 bs = Some (1, bs1)" "bs_ok bs1" "ahead bs1 = rest"
    using read_bits_spec [OF 0(1), of 1] 0(2) by (auto simp: read_bits1_def bits_word_Cons)
  then show ?case using ahead_eof [OF 0(1)] 0(2) by (subst golomb_zeros.simps) simp
next
  case (Suc k)
  obtain bs1 where b: "read_bits1 bs = Some (0, bs1)" "bs_ok bs1" "ahead bs1 = replicate k False @ True # rest"
    using read_bits_spec [OF Suc.prems(1), of 1] Suc.prems(2) by (auto simp: read_bits1_def bits_word_Cons)
  then show ?case
    using Suc.IH [OF b(2,3), of "Suc n"] ahead_eof [OF Suc.prems(1)] Suc.prems(2) by (subst golomb_zeros.simps) simp
qed

lemma number_bits_length [simp]: "length (number_bits k n) = k"
  by (simp add: number_bits_def)

lemma number_bits_word: "bits_word (number_bits k n) = of_nat (take_bit k n)"
  by (rule bit_eqI) (auto simp: bits_word_def number_bits_def bit_simps bit_horner_sum_bit_iff rev_map)

lemma golomb_ue_code:
  assumes "bs_ok bs" "ahead bs = ue_code n @ rest" "n < 2 ^ 32 - 1"
  shows "\<exists>bs'. read_golomb_ue shift bs = Some (of_nat n, bs') \<and> bs_ok bs' \<and> ahead bs' = rest"
proof -
  define k where "k = top_bit (n + 1)"
  have k: "2 ^ k \<le> n + 1" "n + 1 < 2 ^ Suc k" using top_bit_bounds [of "n + 1"] by (auto simp: k_def)
  have "k < 32"
  proof (rule ccontr)
    assume "\<not> k < 32"
    then have "(2::nat) ^ 32 \<le> 2 ^ k" by (intro power_increasing) auto
    then show False using k(1) assms(3) by simp
  qed
  obtain bs1 where z: "golomb_zeros 0 bs = Some (k + 1, bs1)" "bs_ok bs1" "ahead bs1 = number_bits k (n + 1) @ rest"
    using zeros_spec [OF assms(1), of k "number_bits k (n + 1) @ rest" 0] assms(2) by (auto simp: ue_code_def k_def)
  obtain bs2 where r: "read_bits bs1 k = Some (of_nat (take_bit k (n + 1)), bs2)" "bs_ok bs2" "ahead bs2 = rest"
    using read_bits_spec [OF z(2), of k] by (auto simp: z(3) number_bits_word)
  have "take_bit k (n + 1) = n + 1 - 2 ^ k"
    using k by (simp add: take_bit_eq_mod mod_nat_eqI le_mod_geq)
  then have "push_bit k 1 - 1 + (of_nat (take_bit k (n + 1)) :: u32) = of_nat n"
    using k(1) by (simp add: push_bit_eq_mult of_nat_diff)
  then show ?thesis using z(1) r \<open>k < 32\<close> by (simp add: read_golomb_ue_def Let_def)
qed

definition se_number :: "int \<Rightarrow> nat" where
  "se_number i = (if 0 < i then nat (2 * i - 1) else nat (- 2 * i))"

lemma sint_of_nat_small: "m < 2 ^ 31 \<Longrightarrow> sint (of_nat m :: u32) = int m"
  by (simp add: sint_uint unsigned_of_nat take_bit_nat_eq_self signed_take_bit_int_eq_self)

lemma signed_half: "m < 2 ^ 31 \<Longrightarrow> signed_drop_bit 1 (of_nat m :: u32) = of_nat (m div 2)"
proof -
  assume m: "m < 2 ^ 31"
  then have "sint (signed_drop_bit 1 (of_nat m :: u32)) = int (m div 2)"
    by (simp add: sint_signed_drop_bit_eq sint_of_nat_small drop_bit_eq_div zdiv_int)
  also have "\<dots> = sint (of_nat (m div 2) :: u32)" using m by (subst sint_of_nat_small) auto
  finally show ?thesis by (simp add: signed_word_eqI)
qed

lemma golomb_se_code:
  assumes "bs_ok bs" "ahead bs = ue_code (se_number i) @ rest" "\<bar>i\<bar> < 2 ^ 30"
  shows "\<exists>bs'. read_golomb_se shift bs = Some (of_int i, bs') \<and> bs_ok bs' \<and> ahead bs' = rest"
proof -
  define n where "n = se_number i"
  have n: "n < 2 ^ 31 - 1" using assms(3) by (auto simp: n_def se_number_def)
  then obtain bs' where r: "read_golomb_ue shift bs = Some (of_nat n, bs')" "bs_ok bs'" "ahead bs' = rest"
    using golomb_ue_code [OF assms(1) assms(2) [folded n_def], of shift] by auto
  have z: "(of_nat n :: u32) = 0 \<longleftrightarrow> i = 0"
    using n by (auto simp: word_of_nat_eq_0_iff n_def se_number_def nat_dvd_not_less dest!: dvd_imp_le)
  have w: "signed_drop_bit 1 (of_nat n + 1 :: u32) = of_nat ((n + 1) div 2)"
    using signed_half [of "n + 1"] n by (simp add: add.commute)
  have b: "bit (of_nat n :: u32) 0 \<longleftrightarrow> 0 < i"
    using assms(3) by (auto simp: bit_0 n_def se_number_def even_nat_iff)
  have "(if 0 < i then of_nat ((n + 1) div 2) else - of_nat ((n + 1) div 2)) = (of_int i :: u32)"
  proof (cases "0 < i")
    case True
    then have "(n + 1) div 2 = nat i" by (simp add: n_def se_number_def nat_div_distrib flip: nat_add_distrib)
    then show ?thesis using True by (simp add: of_nat_nat)
  next
    case False
    then have "(n + 1) div 2 = nat (- i)" by (simp add: n_def se_number_def nat_mult_distrib)
    then show ?thesis using False by (simp add: of_nat_nat)
  qed
  then show ?thesis using r z w b by (auto simp: read_golomb_se_def Let_def)
qed

section \<open>Properties\<close>



text \<open>
  Property C21. Reading a Golomb code gives the number it encodes: every number below \<open>2\<^sup>3\<^sup>2 - 1\<close> for the unsigned
  form, every number of less than 31 bits for the signed form.
\<close>

theorem golomb_roundtrip:
  assumes "bytes_length bs \<le> length (rdata bs)"
  shows "(ahead bs = ue_code n @ rest \<longrightarrow> n < 2 ^ 32 - 1 \<longrightarrow>
      (\<exists>bs'. read_golomb_ue shift bs = Some (of_nat n, bs') \<and> ahead bs' = rest)) \<and>
    (ahead bs = ue_code (se_number i) @ rest \<longrightarrow> \<bar>i\<bar> < 2 ^ 30 \<longrightarrow>
      (\<exists>bs'. read_golomb_se shift bs = Some (of_int i, bs') \<and> ahead bs' = rest))"
  using golomb_ue_code [of bs n rest shift] golomb_se_code [of bs i rest shift] assms by (auto simp: bs_ok_def)

theorem golomb_roundtrip_witness:
  "\<exists>bs'. read_golomb_ue (\<lambda>_. 0) (init_rbits [0x28, 0, 0] 3 False) = Some (of_nat 4, bs')"
proof -
  define bs where "bs = init_rbits [0x28, 0, 0] 3 False"
  have "ahead bs = ue_code 4 @ drop 5 (ahead bs)" unfolding bs_def by code_simp
  moreover have "bytes_length bs \<le> length (rdata bs)" unfolding bs_def by code_simp
  ultimately show ?thesis
    using golomb_roundtrip [of bs 4 "drop 5 (ahead bs)" "\<lambda>_. 0"] unfolding bs_def by auto
qed

text \<open>
  The last byte of the data cannot be read beyond its first bit: of \<open>n\<close> bytes without escapes
  \<open>8 n - 7\<close> bits can be read, although \<open>bits_left\<close> counts \<open>8 n\<close>.
\<close>

theorem last_byte_unreadable:
  assumes "0 < n" "n \<le> length data"
  shows "length (ahead (init_rbits data n False)) = 8 * n - 7 \<and> bits_left (init_rbits data n False) = 8 * int n"
proof -
  let ?bs = "init_rbits data n False"
  have "length (ahead_from ?bs off) = (if n \<le> off then 0 else 8 * (n - off) - 7)" for off
  proof (induction "n - off" arbitrary: off)
    case (Suc k)
    have "next_off ?bs off = off + 1" by (simp add: next_off_def escape_at_def init_rbits_def)
    then show ?case
      using Suc(1) [of "off + 1"] Suc(2) by (subst ahead_from.simps) (auto simp: init_rbits_def low_bits_def)
  qed (subst ahead_from.simps, simp add: init_rbits_def)
  from this [of 0] show ?thesis using assms
    by (simp add: ahead_def bs_eof_def low_bits_def init_rbits_def bits_left_def)
qed

end
