(* ===== verification/H264.thy ===== *)
theory H264
  imports Bitstream
begin

text \<open>
  The parser of H.264 parameter sets and slice headers, \<^verbatim>\<open>src/src/video/h264_parser.c\<close>. The arrays of parameter
  sets are lists, and an index outside of them is \<open>None\<close>, as is a read outside of the memory of the data.
  \<^verbatim>\<open>int\<close> fields are words, read with \<^const>\<open>sint\<close> where the code compares them. The parameter \<open>shift\<close> is
  \<^verbatim>\<open>1 << n\<close> where C does not define it.
\<close>

section \<open>State\<close>

record h264_sps =
  mb_width :: u16
  mb_height :: u16
  num_ref_frames :: u8
  mbs_only_flag :: u8
  aff :: u8
  gaps_in_frame_num_value_allowed_flag :: u8
  profile :: u8
  level :: u8
  chroma_format :: u8
  bit_depth_luma :: u8
  bit_depth_chroma :: u8
  residual_color_transform_flag :: u8
  transform_bypass :: u8
  max_frame_num_bits :: u8
  poc_type :: u32
  log2_max_poc_lsb :: u32
  delta_pic_order_always_zero_flag :: u32
  offset_for_non_ref_pic :: u32
  offset_for_top_to_bottom_field :: u32
  poc_cycle_length :: u32
  direct_8x8_inference_flag :: u32
  crop_left :: u16
  crop_right :: u16
  crop_top :: u16
  crop_bottom :: u16
  sps_present :: bool

record h264_pps =
  pps_sps_id :: u32
  ref_count0 :: u32
  ref_count1 :: u32
  cabac :: u8
  pic_order_present :: u8
  weighted_pred_flag :: u8
  weighted_bipred_idc :: u8
  deblocking_filter_parameters_present :: u8
  constrained_intra_pred :: u8
  redundant_pic_cnt_present :: u8
  transform_8x8_mode :: u8
  pps_present :: bool
  init_qp :: u32
  init_qs :: u32
  chroma_qp_index_offset0 :: u32
  chroma_qp_index_offset1 :: u32
  slice_group_count :: u32

record h264_parser =
  sps_array :: "h264_sps list"
  pps_array :: "h264_pps list"
  cur_sps :: "nat option"
  cur_pps :: "nat option"
  lensize :: nat
  nal_ref_idc :: u8
  nal_unit_type :: u8
  current_poc :: u32
  first_mb_in_slice :: u32
  slice_type :: u32
  slice_type_nos :: u32
  frame_num :: u32
  frame_num_offset :: u32
  prev_frame_num :: u32
  field_pic_flag :: u32
  bottom_field_flag :: u32
  idr_pic_id :: u32
  pic_order_cnt_lsb :: u32
  delta_pic_order_cnt_bottom :: u32
  delta_pic_order_cnt0 :: u32
  delta_pic_order_cnt1 :: u32
  redundant_pic_cnt :: u32
  direct_spatial_mv_pred_flag :: u32
  num_ref_idx_active_override_flag :: u32
  num_ref_idx_l0_active_minus1 :: u32
  num_ref_idx_l1_active_minus1 :: u32
  prev_poc_lsb :: u32
  poc_msb :: u32
  max_frame_num :: u32

abbreviation H264_PARSER_NUM_SPS :: nat where
  "H264_PARSER_NUM_SPS \<equiv> 4"

abbreviation H264_PARSER_NUM_PPS :: nat where
  "H264_PARSER_NUM_PPS \<equiv> 16"

definition zero_sps :: h264_sps where
  "zero_sps =
     \<lparr>mb_width = 0, mb_height = 0, num_ref_frames = 0, mbs_only_flag = 0, aff = 0,
      gaps_in_frame_num_value_allowed_flag = 0, profile = 0, level = 0, chroma_format = 0, bit_depth_luma = 0,
      bit_depth_chroma = 0, residual_color_transform_flag = 0, transform_bypass = 0, max_frame_num_bits = 0,
      poc_type = 0, log2_max_poc_lsb = 0, delta_pic_order_always_zero_flag = 0, offset_for_non_ref_pic = 0,
      offset_for_top_to_bottom_field = 0, poc_cycle_length = 0, direct_8x8_inference_flag = 0, crop_left = 0,
      crop_right = 0, crop_top = 0, crop_bottom = 0, sps_present = False\<rparr>"

definition zero_pps :: h264_pps where
  "zero_pps =
     \<lparr>pps_sps_id = 0, ref_count0 = 0, ref_count1 = 0, cabac = 0, pic_order_present = 0, weighted_pred_flag = 0,
      weighted_bipred_idc = 0, deblocking_filter_parameters_present = 0, constrained_intra_pred = 0,
      redundant_pic_cnt_present = 0, transform_8x8_mode = 0, pps_present = False, init_qp = 0, init_qs = 0,
      chroma_qp_index_offset0 = 0, chroma_qp_index_offset1 = 0, slice_group_count = 0\<rparr>"

definition zero_parser :: h264_parser where
  "zero_parser =
     \<lparr>sps_array = replicate H264_PARSER_NUM_SPS zero_sps, pps_array = replicate H264_PARSER_NUM_PPS zero_pps,
      cur_sps = None, cur_pps = None, lensize = 0, nal_ref_idc = 0, nal_unit_type = 0, current_poc = 0,
      first_mb_in_slice = 0, slice_type = 0, slice_type_nos = 0, frame_num = 0, frame_num_offset = 0,
      prev_frame_num = 0, field_pic_flag = 0, bottom_field_flag = 0, idr_pic_id = 0, pic_order_cnt_lsb = 0,
      delta_pic_order_cnt_bottom = 0, delta_pic_order_cnt0 = 0, delta_pic_order_cnt1 = 0, redundant_pic_cnt = 0,
      direct_spatial_mv_pred_flag = 0, num_ref_idx_active_override_flag = 0, num_ref_idx_l0_active_minus1 = 0,
      num_ref_idx_l1_active_minus1 = 0, prev_poc_lsb = 0, poc_msb = 0, max_frame_num = 0\<rparr>"

section \<open>Reading\<close>

type_synonym 'a reader = "bitstream \<Rightarrow> ('a \<times> bitstream) option"

definition returnR :: "'a \<Rightarrow> 'a reader" where
  "returnR v bs = Some (v, bs)"

definition bindR :: "'a reader \<Rightarrow> ('a \<Rightarrow> 'b reader) \<Rightarrow> 'b reader" where
  "bindR m k bs = (case m bs of None \<Rightarrow> None | Some (v, bs1) \<Rightarrow> k v bs1)"

abbreviation bitsR :: "nat \<Rightarrow> u32 reader" where
  "bitsR n \<equiv> (\<lambda>bs. read_bits bs n)"

abbreviation ifR :: "bool \<Rightarrow> 'a reader \<Rightarrow> 'a \<Rightarrow> 'a reader" where
  "ifR b m v \<equiv> (if b then m else returnR v)"

definition shl1 :: "(int \<Rightarrow> u32) \<Rightarrow> int \<Rightarrow> u32" where
  "shl1 shift n = (if 0 \<le> n \<and> n < 32 then push_bit (nat n) 1 else shift n)"

fun scaling_loop :: "(int \<Rightarrow> u32) \<Rightarrow> nat \<Rightarrow> bool \<Rightarrow> u32 \<Rightarrow> u32 \<Rightarrow> unit reader" where
  "scaling_loop shift 0 first lst nxt = returnR ()"
| "scaling_loop shift (Suc n) first lst nxt =
     bindR (ifR (nxt \<noteq> 0) (bindR (read_golomb_se shift) (\<lambda>d. returnR ((lst + d) AND 0xff))) nxt) (\<lambda>nxt.
       if first \<and> nxt = 0 then returnR ()
       else scaling_loop shift n False (if nxt \<noteq> 0 then nxt else lst) nxt)"

definition decode_scaling_list :: "(int \<Rightarrow> u32) \<Rightarrow> nat \<Rightarrow> unit reader" where
  "decode_scaling_list shift n =
     bindR read_bits1 (\<lambda>b. if b = 0 then returnR () else scaling_loop shift n True 8 8)"

fun repeatR :: "nat \<Rightarrow> 'a reader \<Rightarrow> unit reader" where
  "repeatR 0 m = returnR ()"
| "repeatR (Suc n) m = bindR m (\<lambda>_. repeatR n m)"

section \<open>Parameter sets\<close>

definition high_profiles :: "u8 set" where
  "high_profiles = {100, 110, 122, 244, 44, 83, 86, 118, 128, 144}"

definition sps_chroma :: "(int \<Rightarrow> u32) \<Rightarrow> h264_sps \<Rightarrow> h264_sps reader" where
  "sps_chroma shift sps =
     (if profile sps \<in> high_profiles then
        bindR (read_golomb_ue shift) (\<lambda>cf.
        let sps = sps\<lparr>chroma_format := ucast cf\<rparr> in
        bindR (ifR (chroma_format sps = 3)
                (bindR (bitsR 1) (\<lambda>v. returnR (sps\<lparr>residual_color_transform_flag := ucast v\<rparr>))) sps) (\<lambda>sps.
        bindR (read_golomb_ue shift) (\<lambda>l.
        bindR (read_golomb_ue shift) (\<lambda>c.
        bindR (bitsR 1) (\<lambda>t.
        bindR read_bits1 (\<lambda>m.
        bindR (ifR (m \<noteq> 0)
                (bindR (repeatR 6 (decode_scaling_list shift 16)) (\<lambda>_. repeatR 2 (decode_scaling_list shift 64))) ()) (\<lambda>_.
        returnR (sps\<lparr>bit_depth_luma := ucast (l + 8), bit_depth_chroma := ucast (c + 8),
                      transform_bypass := ucast t\<rparr>))))))))
      else returnR (sps\<lparr>chroma_format := 1, bit_depth_luma := 8, bit_depth_chroma := 8\<rparr>))"

text \<open>The part on the picture order count; the flag tells that its type is valid.\<close>

definition sps_poc :: "(int \<Rightarrow> u32) \<Rightarrow> h264_sps \<Rightarrow> (bool \<times> h264_sps) reader" where
  "sps_poc shift sps =
     bindR (read_golomb_ue shift) (\<lambda>mfn.
     bindR (read_golomb_ue shift) (\<lambda>pt.
     let sps = sps\<lparr>max_frame_num_bits := ucast (mfn + 4), poc_type := pt\<rparr> in
     if pt = 0 then
       bindR (read_golomb_ue shift) (\<lambda>v. returnR (True, sps\<lparr>log2_max_poc_lsb := v + 4\<rparr>))
     else if pt = 1 then
       bindR read_bits1 (\<lambda>z.
       bindR (read_golomb_se shift) (\<lambda>o1.
       bindR (read_golomb_se shift) (\<lambda>o2.
       bindR (read_golomb_ue shift) (\<lambda>n.
       bindR (repeatR (nat (sint n)) (read_golomb_se shift)) (\<lambda>_.
       returnR (True, sps\<lparr>delta_pic_order_always_zero_flag := z, offset_for_non_ref_pic := o1,
                            offset_for_top_to_bottom_field := o2, poc_cycle_length := n\<rparr>))))))
     else returnR (pt = 2, sps)))"

definition sps_crop :: "(int \<Rightarrow> u32) \<Rightarrow> h264_sps \<Rightarrow> h264_sps reader" where
  "sps_crop shift sps =
     (let hscale = (if chroma_format sps = 1 \<or> chroma_format sps = 2 then 2 else 1) :: u32;
          vscale = (2 - ucast (mbs_only_flag sps)) * (if chroma_format sps = 1 then 2 else 1) :: u32
      in bindR (read_golomb_ue shift) (\<lambda>l.
         bindR (read_golomb_ue shift) (\<lambda>r.
         bindR (read_golomb_ue shift) (\<lambda>t.
         bindR (read_golomb_ue shift) (\<lambda>b.
         returnR (sps\<lparr>crop_left := ucast (l * hscale), crop_right := ucast (r * hscale),
                       crop_top := ucast (t * vscale), crop_bottom := ucast (b * vscale)\<rparr>))))))"

definition sps_size :: "(int \<Rightarrow> u32) \<Rightarrow> h264_sps \<Rightarrow> h264_sps reader" where
  "sps_size shift sps =
     bindR (read_golomb_ue shift) (\<lambda>nrf.
     bindR read_bits1 (\<lambda>gaps.
     bindR (read_golomb_ue shift) (\<lambda>w.
     bindR (read_golomb_ue shift) (\<lambda>h.
     bindR read_bits1 (\<lambda>mbs.
     let sps = sps\<lparr>num_ref_frames := ucast nrf, gaps_in_frame_num_value_allowed_flag := ucast gaps,
                   mb_width := ucast (w + 1), mb_height := ucast (h + 1), mbs_only_flag := ucast mbs\<rparr> in
     bindR (ifR (mbs_only_flag sps = 0) (bindR read_bits1 (\<lambda>a. returnR (sps\<lparr>aff := ucast a\<rparr>))) sps) (\<lambda>sps.
     bindR read_bits1 (\<lambda>d.
     let sps = sps\<lparr>direct_8x8_inference_flag := d\<rparr> in
     bindR read_bits1 (\<lambda>crop.
     if crop \<noteq> 0 then sps_crop shift sps else returnR sps))))))))"

text \<open>The fields behind the identifier; the result is \<open>False\<close> where the code returns \<^verbatim>\<open>-1\<close>.\<close>

definition sps_fields :: "(int \<Rightarrow> u32) \<Rightarrow> u32 \<Rightarrow> u32 \<Rightarrow> h264_sps \<Rightarrow> (bool \<times> h264_sps) reader" where
  "sps_fields shift prof lev sps =
     bindR (sps_chroma shift (sps\<lparr>sps_present := True, profile := ucast prof, level := ucast lev\<rparr>)) (\<lambda>sps.
     bindR (sps_poc shift sps) (\<lambda>(ok, sps).
     if ok then bindR (sps_size shift sps) (\<lambda>sps. returnR (True, sps)) else returnR (False, sps)))"

definition sps_head :: "(int \<Rightarrow> u32) \<Rightarrow> (u32 \<times> u32 \<times> u32) reader" where
  "sps_head shift =
     bindR (bitsR 8) (\<lambda>prof.
     bindR (bitsR 8) (\<lambda>_.
     bindR (bitsR 8) (\<lambda>lev.
     bindR (read_golomb_ue shift) (\<lambda>id. returnR (prof, lev, id)))))"

text \<open>\<open>h264_parser_decode_sps\<close> with a parser, and without one, into a given structure.\<close>

definition h264_parser_decode_sps :: "(int \<Rightarrow> u32) \<Rightarrow> h264_parser \<Rightarrow> (int \<times> h264_parser) reader" where
  "h264_parser_decode_sps shift hp =
     bindR (sps_head shift) (\<lambda>(prof, lev, sps_id).
     if int H264_PARSER_NUM_SPS \<le> sint sps_id then returnR (-1, hp)
     else if sint sps_id < 0 then (\<lambda>_. None)
     else
       let i = nat (sint sps_id) in
       bindR (sps_fields shift prof lev (sps_array hp ! i)) (\<lambda>(ok, sps).
       returnR (if ok then sint sps_id else -1, hp\<lparr>sps_array := (sps_array hp)[i := sps]\<rparr>)))"

definition h264_decode_single_sps :: "(int \<Rightarrow> u32) \<Rightarrow> h264_sps \<Rightarrow> (int \<times> h264_sps) reader" where
  "h264_decode_single_sps shift sps =
     bindR (sps_head shift) (\<lambda>(prof, lev, sps_id).
     bindR (sps_fields shift prof lev sps) (\<lambda>(ok, sps). returnR (if ok then sint sps_id else -1, sps)))"

definition pps_fields :: "(int \<Rightarrow> u32) \<Rightarrow> u32 \<Rightarrow> h264_pps \<Rightarrow> h264_pps reader" where
  "pps_fields shift sps_id pps =
     bindR read_bits1 (\<lambda>cab.
     bindR read_bits1 (\<lambda>pop.
     bindR (read_golomb_ue shift) (\<lambda>sgc.
     bindR (read_golomb_ue shift) (\<lambda>r0.
     bindR (read_golomb_ue shift) (\<lambda>r1.
     bindR read_bits1 (\<lambda>wp.
     bindR (bitsR 2) (\<lambda>wb.
     bindR (read_golomb_se shift) (\<lambda>qp.
     bindR (read_golomb_se shift) (\<lambda>qs.
     bindR (read_golomb_se shift) (\<lambda>off.
     bindR read_bits1 (\<lambda>dbf.
     bindR read_bits1 (\<lambda>cip.
     bindR read_bits1 (\<lambda>rpc.
     returnR (pps\<lparr>pps_present := True, pps_sps_id := sps_id, cabac := ucast cab, pic_order_present := ucast pop,
                   slice_group_count := sgc + 1, ref_count0 := r0 + 1, ref_count1 := r1 + 1,
                   weighted_pred_flag := ucast wp, weighted_bipred_idc := ucast wb, init_qp := qp + 26,
                   init_qs := qs + 26, chroma_qp_index_offset0 := off, chroma_qp_index_offset1 := off,
                   deblocking_filter_parameters_present := ucast dbf, constrained_intra_pred := ucast cip,
                   redundant_pic_cnt_present := ucast rpc, transform_8x8_mode := 0\<rparr>))))))))))))))"

definition pps_tail :: "h264_pps \<Rightarrow> h264_pps reader" where
  "pps_tail pps bs =
     (if bits_left bs \<le> 7 then returnR pps bs
      else bindR read_bits1 (\<lambda>v. returnR (pps\<lparr>transform_8x8_mode := ucast v\<rparr>)) bs)"

definition h264_parser_decode_pps :: "(int \<Rightarrow> u32) \<Rightarrow> h264_parser \<Rightarrow> h264_parser reader" where
  "h264_parser_decode_pps shift hp =
     bindR (read_golomb_ue shift) (\<lambda>pps_id.
     if H264_PARSER_NUM_PPS \<le> unat pps_id then returnR hp
     else
       bindR (read_golomb_ue shift) (\<lambda>sps_id.
       if H264_PARSER_NUM_SPS \<le> unat sps_id then returnR hp
       else
         bindR (pps_fields shift sps_id (pps_array hp ! unat pps_id)) (\<lambda>pps.
         bindR (pps_tail pps) (\<lambda>pps.
         returnR (hp\<lparr>pps_array := (pps_array hp)[unat pps_id := pps]\<rparr>)))))"

section \<open>Slices\<close>

text \<open>The state and the result of \<open>calc_poc\<close>. The differences of the two counts are compared as unsigned numbers.\<close>

definition calc_poc :: "(int \<Rightarrow> u32) \<Rightarrow> h264_sps \<Rightarrow> h264_parser \<Rightarrow> u32 \<times> h264_parser" where
  "calc_poc shift sps hp =
     (let max_frame = shl1 shift (uint (max_frame_num_bits sps));
          hp = (if sint (frame_num hp) < sint (prev_frame_num hp)
                then hp\<lparr>frame_num_offset := frame_num_offset hp + max_frame\<rparr> else hp)
      in if poc_type sps = 0 then
           (let max_poc = shl1 shift (sint (log2_max_poc_lsb sps));
                lsb = pic_order_cnt_lsb hp;
                prev = prev_poc_lsb hp;
                msb = (if sint lsb < sint prev \<and> max_poc div 2 \<le> prev - lsb then poc_msb hp + max_poc
                       else if sint prev < sint lsb \<and> max_poc div 2 < lsb - prev then poc_msb hp - max_poc
                       else poc_msb hp)
            in (msb + lsb, hp\<lparr>poc_msb := msb, prev_poc_lsb := lsb\<rparr>))
         else if poc_type sps = 2 then
           (let poc = 2 * (frame_num_offset hp + frame_num hp)
            in (if nal_ref_idc hp = 0 then poc - 1 else poc, hp))
         else (0, hp))"

definition slice_frame :: "(int \<Rightarrow> u32) \<Rightarrow> h264_sps \<Rightarrow> h264_parser \<Rightarrow> h264_parser reader" where
  "slice_frame shift sps hp =
     bindR (bitsR (unat (max_frame_num_bits sps))) (\<lambda>fn.
     let hp = hp\<lparr>frame_num := fn, max_frame_num := shl1 shift (uint (max_frame_num_bits sps))\<rparr> in
     bindR (ifR (mbs_only_flag sps = 0)
             (bindR (bitsR 1) (\<lambda>f.
              let hp = hp\<lparr>field_pic_flag := f\<rparr> in
              ifR (f \<noteq> 0) (bindR (bitsR 1) (\<lambda>b. returnR (hp\<lparr>bottom_field_flag := b\<rparr>))) hp)) hp) (\<lambda>hp.
     ifR (nal_unit_type hp = 5) (bindR (read_golomb_ue shift) (\<lambda>v. returnR (hp\<lparr>idr_pic_id := v\<rparr>))) hp))"

definition slice_poc :: "(int \<Rightarrow> u32) \<Rightarrow> h264_sps \<Rightarrow> h264_pps \<Rightarrow> h264_parser \<Rightarrow> h264_parser reader" where
  "slice_poc shift sps pps hp =
     bindR (ifR (poc_type sps = 0)
             (bindR (bitsR (nat (sint (log2_max_poc_lsb sps)))) (\<lambda>v.
              let hp = hp\<lparr>pic_order_cnt_lsb := v\<rparr> in
              ifR (pic_order_present pps \<noteq> 0 \<and> field_pic_flag hp = 0)
                (bindR (read_golomb_se shift) (\<lambda>d. returnR (hp\<lparr>delta_pic_order_cnt_bottom := d\<rparr>))) hp)) hp) (\<lambda>hp.
     bindR (ifR (poc_type sps = 1 \<and> delta_pic_order_always_zero_flag sps = 0)
             (bindR (read_golomb_se shift) (\<lambda>d.
              let hp = hp\<lparr>delta_pic_order_cnt0 := d\<rparr> in
              ifR (pic_order_present pps \<noteq> 0 \<and> field_pic_flag hp = 0)
                (bindR (read_golomb_se shift) (\<lambda>e. returnR (hp\<lparr>delta_pic_order_cnt1 := e\<rparr>))) hp)) hp) (\<lambda>hp.
     ifR (redundant_pic_cnt_present pps \<noteq> 0)
       (bindR (read_golomb_ue shift) (\<lambda>v. returnR (hp\<lparr>redundant_pic_cnt := v\<rparr>))) hp))"

text \<open>The types of slices are 0 (\<^verbatim>\<open>SLICE_TYPE_P\<close>), 1 (\<^verbatim>\<open>SLICE_TYPE_B\<close>), 2 (\<^verbatim>\<open>SLICE_TYPE_I\<close>) and more.\<close>

definition slice_refs :: "(int \<Rightarrow> u32) \<Rightarrow> h264_pps \<Rightarrow> h264_parser \<Rightarrow> h264_parser reader" where
  "slice_refs shift pps hp =
     (let hp = hp\<lparr>num_ref_idx_l0_active_minus1 := ref_count0 pps - 1,
                  num_ref_idx_l1_active_minus1 := ref_count1 pps - 1\<rparr>
      in bindR (if slice_type_nos hp = 1
                then bindR (bitsR 1) (\<lambda>v. returnR (hp\<lparr>direct_spatial_mv_pred_flag := v\<rparr>))
                else returnR (hp\<lparr>direct_spatial_mv_pred_flag := 0\<rparr>)) (\<lambda>hp.
         ifR (slice_type_nos hp = 0 \<or> slice_type_nos hp = 1)
           (bindR (bitsR 1) (\<lambda>v.
            let hp = hp\<lparr>num_ref_idx_active_override_flag := v\<rparr> in
            ifR (v \<noteq> 0)
              (bindR (read_golomb_ue shift) (\<lambda>l0.
               let hp = hp\<lparr>num_ref_idx_l0_active_minus1 := l0\<rparr> in
               ifR (slice_type hp = 1)
                 (bindR (read_golomb_ue shift) (\<lambda>l1. returnR (hp\<lparr>num_ref_idx_l1_active_minus1 := l1\<rparr>))) hp)) hp)) hp))"

definition slice_head :: "(int \<Rightarrow> u32) \<Rightarrow> h264_parser \<Rightarrow> (u32 \<times> h264_parser) reader" where
  "slice_head shift hp =
     bindR (read_golomb_ue shift) (\<lambda>mb.
     bindR (read_golomb_ue shift) (\<lambda>st.
     let st = (if 5 \<le> sint st then st - 5 else st) in
     bindR (read_golomb_ue shift) (\<lambda>pps_id.
     returnR (pps_id, hp\<lparr>first_mb_in_slice := mb, slice_type := st, slice_type_nos := st AND 3\<rparr>))))"

definition h264_parser_decode_slice_header :: "(int \<Rightarrow> u32) \<Rightarrow> h264_parser \<Rightarrow> h264_parser reader" where
  "h264_parser_decode_slice_header shift hp =
     bindR (slice_head shift hp) (\<lambda>(pps_id, hp).
     if int H264_PARSER_NUM_PPS \<le> sint pps_id then returnR hp
     else if sint pps_id < 0 then (\<lambda>_. None)
     else
       let i = nat (sint pps_id); pps = pps_array hp ! i; j = unat (pps_sps_id pps) in
       if length (sps_array hp) \<le> j then (\<lambda>_. None)
       else
         let sps = sps_array hp ! j; hp = hp\<lparr>cur_sps := Some j, cur_pps := Some i\<rparr> in
         bindR (slice_frame shift sps hp) (\<lambda>hp.
         bindR (slice_poc shift sps pps hp) (\<lambda>hp.
         bindR (slice_refs shift pps hp) (\<lambda>hp.
         let (poc, hp) = calc_poc shift sps hp in returnR (hp\<lparr>current_poc := poc\<rparr>)))))"

section \<open>Units and data\<close>

definition idr :: "h264_parser \<Rightarrow> h264_parser" where
  "idr hp = hp\<lparr>prev_poc_lsb := 0, frame_num_offset := 0, prev_frame_num := 0\<rparr>"

definition h264_parser_decode_nal_from_bs :: "(int \<Rightarrow> u32) \<Rightarrow> h264_parser \<Rightarrow> h264_parser reader" where
  "h264_parser_decode_nal_from_bs shift hp =
     (if nal_unit_type hp = 5 then h264_parser_decode_slice_header shift (idr hp)
      else if nal_unit_type hp = 1 then h264_parser_decode_slice_header shift hp
      else if nal_unit_type hp = 7 then bindR (h264_parser_decode_sps shift hp) (\<lambda>(_, hp). returnR hp)
      else if nal_unit_type hp = 8 then h264_parser_decode_pps shift hp
      else returnR hp)"

definition h264_parser_decode_nal :: "(int \<Rightarrow> u32) \<Rightarrow> h264_parser \<Rightarrow> bytes \<Rightarrow> nat \<Rightarrow> h264_parser option" where
  "h264_parser_decode_nal shift hp data len =
     (if len = 0 then Some hp
      else do {
        b \<leftarrow> rd data 0;
        let hp1 = hp\<lparr>nal_ref_idc := drop_bit 5 b, nal_unit_type := b AND 0x1f\<rparr>;
        map_option fst (h264_parser_decode_nal_from_bs shift hp1 (init_rbits (drop 1 data) (len - 1) True))
      })"

text \<open>The search for start codes: \<open>d\<close> is the position, \<open>n\<close> the number of bytes from there on, \<open>p\<close> the start of
  the current unit.\<close>

fun start_code_loop :: "(int \<Rightarrow> u32) \<Rightarrow> h264_parser \<Rightarrow> bytes \<Rightarrow> nat option \<Rightarrow> nat \<Rightarrow> nat \<Rightarrow> h264_parser option" where
  "start_code_loop shift hp data p d n =
     (if 3 < n then
        do {
          a \<leftarrow> rd data d;
          b \<leftarrow> rd data (d + 1);
          c \<leftarrow> rd data (d + 2);
          if \<not> (a = 0 \<and> b = 0 \<and> c = 1) then start_code_loop shift hp data p (d + 1) (n - 1)
          else do {
            hp \<leftarrow> (case p of None \<Rightarrow> Some hp | Some q \<Rightarrow> h264_parser_decode_nal shift hp (drop q data) (d - q));
            start_code_loop shift hp data (Some (d + 3)) (d + 3) (n - 3)
          }
        }
      else
        case p of
          None \<Rightarrow> Some hp
        | Some q \<Rightarrow> h264_parser_decode_nal shift hp (drop q data) (d + n - q))"

declare start_code_loop.simps [simp del]

text \<open>With a length before each unit the loop may not end. \<open>Running\<close> is the outcome when the fuel is used up,
  \<open>Outside\<close> a read outside of the data.\<close>

datatype outcome = Done h264_parser | Outside | Running

definition rd_int :: "bytes \<Rightarrow> int \<Rightarrow> u8 option" where
  "rd_int data i = (if 0 \<le> i then rd data (nat i) else None)"

fun read_nal_len :: "nat \<Rightarrow> bytes \<Rightarrow> int \<Rightarrow> u32 \<Rightarrow> u32 option" where
  "read_nal_len 0 data d v = Some v"
| "read_nal_len (Suc k) data d v =
     do { b \<leftarrow> rd_int data d; read_nal_len k data (d + 1) (push_bit 8 v OR ucast b) }"

fun length_loop :: "nat \<Rightarrow> (int \<Rightarrow> u32) \<Rightarrow> h264_parser \<Rightarrow> bytes \<Rightarrow> int \<Rightarrow> int \<Rightarrow> outcome" where
  "length_loop 0 shift hp data d n = Running"
| "length_loop (Suc fuel) shift hp data d n =
     (if int (lensize hp) \<le> n then
        case read_nal_len (lensize hp) data d 0 of
          None \<Rightarrow> Outside
        | Some v \<Rightarrow>
            (let d1 = d + int (lensize hp); n1 = n - int (lensize hp) in
             if n1 \<noteq> 0 \<and> d1 < 0 then Outside
             else
               case h264_parser_decode_nal shift hp (drop (nat d1) data) (nat n1) of
                 None \<Rightarrow> Outside
               | Some hp \<Rightarrow> length_loop fuel shift hp data (d1 + sint v) (n1 - sint v))
      else Done hp)"

definition h264_parser_decode_data :: "nat \<Rightarrow> (int \<Rightarrow> u32) \<Rightarrow> h264_parser \<Rightarrow> bytes \<Rightarrow> nat \<Rightarrow> outcome" where
  "h264_parser_decode_data fuel shift hp data len =
     (if lensize hp = 0 then
        case start_code_loop shift hp data None 0 len of None \<Rightarrow> Outside | Some hp \<Rightarrow> Done hp
      else length_loop fuel shift hp data 0 (int len))"

text \<open>The two loops of \<open>h264_parser_init\<close> over the parameter sets: what they decode is \<open>f\<close>.\<close>

fun init_loop :: "(h264_parser \<Rightarrow> h264_parser reader) \<Rightarrow> nat \<Rightarrow> h264_parser \<Rightarrow> bytes \<Rightarrow> nat \<Rightarrow> (h264_parser \<times> bytes \<times> nat) option" where
  "init_loop f 0 hp data len = Some (hp, data, len)"
| "init_loop f (Suc n) hp data len =
     (if 2 \<le> len then
        do {
          a \<leftarrow> rd data 0;
          b \<leftarrow> rd data 1;
          let s = unat a * 256 + unat b + 2;
          if len < s then Some (hp, data, len)
          else do {
            (hp, _) \<leftarrow> f hp (init_rbits (drop 3 data) (s - 3) False);
            init_loop f n hp (drop s data) (len - s)
          }
        }
      else Some (hp, data, len))"

text \<open>The result is the return value; \<open>None\<close> is a read outside of the data.\<close>

definition h264_parser_init :: "(int \<Rightarrow> u32) \<Rightarrow> bytes option \<Rightarrow> nat \<Rightarrow> (int \<times> h264_parser) option" where
  "h264_parser_init shift extradata len =
     (case extradata of
        None \<Rightarrow> Some (0, zero_parser)
      | Some data \<Rightarrow>
          (if len < 7 then Some (-1, zero_parser)
           else do {
             v \<leftarrow> rd data 0;
             if v \<noteq> 1 then map_option (Pair 0) (start_code_loop shift zero_parser data None 0 len)
             else do {
               b4 \<leftarrow> rd data 4;
               b5 \<leftarrow> rd data 5;
               let hp = zero_parser\<lparr>lensize := unat (b4 AND 3) + 1\<rparr>;
               (hp, d, n) \<leftarrow>
                 init_loop (\<lambda>hp. bindR (h264_parser_decode_sps shift hp) (\<lambda>(_, hp). returnR hp))
                   (unat (b5 AND 0x1f)) hp (drop 6 data) (len - 6);
               if n < 1 then Some (-1, hp)
               else do {
                 b \<leftarrow> rd d 0;
                 (hp, _, _) \<leftarrow> init_loop (h264_parser_decode_pps shift) (unat b) hp (drop 1 d) (n - 1);
                 Some (0, hp)
               }
             }
           }))"

section \<open>Readers that never leave the data\<close>

definition safe :: "'a reader \<Rightarrow> ('a \<Rightarrow> bool) \<Rightarrow> bool" where
  "safe m P \<longleftrightarrow> (\<forall>bs. bs_ok bs \<longrightarrow> (\<exists>v bs'. m bs = Some (v, bs') \<and> bs_ok bs' \<and> P v))"

abbreviation total :: "'a reader \<Rightarrow> bool" where
  "total m \<equiv> safe m (\<lambda>_. True)"

named_theorems safe_rules \<open>readers that always return\<close>

lemma safe_return [safe_rules]: "P v \<Longrightarrow> safe (returnR v) P"
  by (simp add: safe_def returnR_def)

lemma safe_bind: "safe m P \<Longrightarrow> (\<And>v. P v \<Longrightarrow> safe (k v) Q) \<Longrightarrow> safe (bindR m k) Q"
  unfolding safe_def bindR_def by (fastforce split: option.split)

lemma safe_bind_total [safe_rules]: "total m \<Longrightarrow> (\<And>v. safe (k v) Q) \<Longrightarrow> safe (bindR m k) Q"
  by (rule safe_bind)

lemma safe_bits [safe_rules]: "total (bitsR n)" "total read_bits1"
  using read_bits_spec by (fastforce simp: safe_def read_bits1_def)+

lemma zeros_total: "bs_ok bs \<Longrightarrow> \<exists>n' bs'. golomb_zeros n bs = Some (n', bs') \<and> bs_ok bs'"
proof (induction n bs rule: golomb_zeros.induct)
  case (1 n bs)
  obtain b bs1 where r: "read_bits1 bs = Some (b, bs1)" "bs_ok bs1" using safe_bits(2) 1(2) by (auto simp: safe_def)
  show ?case
  proof (cases "bs_eof bs \<or> b \<noteq> 0")
    case True
    then show ?thesis using 1(2) r by (subst golomb_zeros.simps) auto
  next
    case False
    then show ?thesis using 1(1) [of "(b, bs1)" b bs1] r by (subst golomb_zeros.simps) auto
  qed
qed

lemma safe_ue [safe_rules]: "total (read_golomb_ue shift)"
  unfolding safe_def
proof (intro allI impI)
  fix bs assume "bs_ok bs"
  then obtain n bs1 where z: "golomb_zeros 0 bs = Some (n, bs1)" "bs_ok bs1" using zeros_total by blast
  obtain v bs2 where "read_bits bs1 (nat (int n - 1)) = Some (v, bs2)" "bs_ok bs2"
    using safe_bits(1) [of "nat (int n - 1)"] z(2) by (auto simp: safe_def)
  then show "\<exists>v bs'. read_golomb_ue shift bs = Some (v, bs') \<and> bs_ok bs' \<and> True"
    using z(1) by (simp add: read_golomb_ue_def Let_def)
qed

lemma safe_se [safe_rules]: "total (read_golomb_se shift)"
  using safe_ue [of shift] unfolding safe_def read_golomb_se_def by (fastforce simp: Let_def)

lemma safe_if [safe_rules]: "(b \<Longrightarrow> safe m P) \<Longrightarrow> (\<not> b \<Longrightarrow> safe m' P) \<Longrightarrow> safe (if b then m else m') P"
  by simp

lemma safe_repeat [safe_rules]: "total m \<Longrightarrow> total (repeatR n m)"
  by (induction n) (auto intro: safe_rules)

lemma safe_scaling [safe_rules]: "total (decode_scaling_list shift n)"
proof -
  have "total (scaling_loop shift n f l x)" for f l x
    by (induction n arbitrary: f l x) (auto intro!: safe_rules)
  then show ?thesis unfolding decode_scaling_list_def by (auto intro!: safe_rules)
qed

lemma safe_split [safe_rules]: "(\<And>a b. x = (a, b) \<Longrightarrow> safe (f a b) P) \<Longrightarrow> safe (case x of (a, b) \<Rightarrow> f a b) P"
  by (cases x) simp

lemma safe_sps [safe_rules]: "total (sps_fields shift prof lev sps)" "total (sps_head shift)"
  unfolding sps_fields_def sps_chroma_def sps_poc_def sps_size_def sps_crop_def sps_head_def Let_def
  by (intro safe_rules; simp)+

section \<open>The identifiers are the only way out\<close>

definition parser_ok :: "h264_parser \<Rightarrow> bool" where
  "parser_ok hp \<longleftrightarrow> length (sps_array hp) = H264_PARSER_NUM_SPS \<and> length (pps_array hp) = H264_PARSER_NUM_PPS \<and>
     (\<forall>pps\<in>set (pps_array hp). unat (pps_sps_id pps) < H264_PARSER_NUM_SPS)"

lemma parser_ok_fields: "sps_array hp' = sps_array hp \<Longrightarrow> pps_array hp' = pps_array hp \<Longrightarrow> parser_ok hp' \<longleftrightarrow> parser_ok hp"
  by (simp add: parser_ok_def)

text \<open>The readers of a slice header keep the parameter sets.\<close>

definition same_sets :: "h264_parser \<Rightarrow> h264_parser \<Rightarrow> bool" where
  "same_sets hp hp' \<longleftrightarrow> sps_array hp' = sps_array hp \<and> pps_array hp' = pps_array hp \<and> lensize hp' = lensize hp"

lemma safe_slice:
  "safe (slice_frame shift sps hp) (same_sets hp)" "safe (slice_poc shift sps pps hp) (same_sets hp)"
  "safe (slice_refs shift pps hp) (same_sets hp)" "safe (slice_head shift hp) (\<lambda>(_, hp'). same_sets hp hp')"
proof -
  have tr: "safe m (same_sets hp1)" if "safe m (same_sets hp2)" "same_sets hp1 hp2" for m hp1 hp2
    using that by (fastforce simp: safe_def same_sets_def)
  have b: "safe (bindR m k) (same_sets hp)" if "safe m (same_sets hp)" "\<And>hp'. safe (k hp') (same_sets hp')" for m k and hp :: h264_parser
    by (rule safe_bind [OF that(1)]) (rule tr [OF that(2)])
  show "safe (slice_frame shift sps hp) (same_sets hp)"
    unfolding slice_frame_def Let_def
    by (rule safe_bind_total, rule safe_rules, rule tr, rule b)
      (auto intro!: safe_rules simp: same_sets_def)
  show "safe (slice_poc shift sps pps hp) (same_sets hp)"
    unfolding slice_poc_def Let_def
    by (intro b) (auto intro!: safe_rules simp: same_sets_def)
  show "safe (slice_refs shift pps hp) (same_sets hp)"
    unfolding slice_refs_def Let_def
    by (rule tr, rule b) (auto intro!: safe_rules simp: same_sets_def)
  show "safe (slice_head shift hp) (\<lambda>(_, hp'). same_sets hp hp')"
    unfolding slice_head_def Let_def by (auto intro!: safe_rules simp: same_sets_def)
qed

lemma decode_pps_safe:
  assumes "parser_ok hp"
  shows "safe (h264_parser_decode_pps shift hp) (\<lambda>hp'. parser_ok hp' \<and> lensize hp' = lensize hp)"
proof -
  have f: "safe (pps_fields shift sid pps) (\<lambda>pps'. pps_sps_id pps' = sid)" for sid pps
    unfolding pps_fields_def by (intro safe_rules) simp
  have t: "safe (pps_tail pps) (\<lambda>pps'. pps_sps_id pps' = pps_sps_id pps)" for pps
  proof -
    have "safe (bindR read_bits1 (\<lambda>v. returnR (pps\<lparr>transform_8x8_mode := ucast v\<rparr>))) (\<lambda>pps'. pps_sps_id pps' = pps_sps_id pps)"
      by (intro safe_rules) simp
    then show ?thesis by (auto simp: safe_def pps_tail_def returnR_def)
  qed
  have upd: "parser_ok (hp\<lparr>pps_array := (pps_array hp)[i := pps]\<rparr>)" if "unat (pps_sps_id pps) < H264_PARSER_NUM_SPS" for i pps
    using assms that by (auto simp: parser_ok_def dest!: set_update_subset_insert [THEN subsetD])
  have "safe (bindR (pps_fields shift sid pps0) (\<lambda>pps. bindR (pps_tail pps) (\<lambda>pps. returnR (hp\<lparr>pps_array := (pps_array hp)[i := pps]\<rparr>))))
      (\<lambda>hp'. parser_ok hp' \<and> lensize hp' = lensize hp)" if "\<not> H264_PARSER_NUM_SPS \<le> unat sid" for sid pps0 i
    by (rule safe_bind [OF f], rule safe_bind [OF t], rule safe_return) (use that upd in auto)
  then show ?thesis unfolding h264_parser_decode_pps_def
    by (intro safe_bind_total [OF safe_ue] safe_if) (use assms in \<open>auto intro: safe_return\<close>)
qed

text \<open>The identifier that a unit names, as the code compares it.\<close>

definition unit_id :: "(int \<Rightarrow> u32) \<Rightarrow> u8 \<Rightarrow> bitstream \<Rightarrow> int option" where
  "unit_id shift t bs =
     (if t = 7 then map_option (\<lambda>((_, _, id), _). sint id) (sps_head shift bs)
      else if t = 1 \<or> t = 5 then map_option (\<lambda>((id, _), _). sint id) (slice_head shift zero_parser bs)
      else Some 0)"

definition id_outcome :: "h264_parser \<Rightarrow> int option \<Rightarrow> (h264_parser \<times> bitstream) option \<Rightarrow> bool" where
  "id_outcome hp i r \<longleftrightarrow> (\<exists>j. i = Some j \<and> (if j < 0 then r = None
     else (\<exists>hp' bs'. r = Some (hp', bs') \<and> parser_ok hp' \<and> lensize hp' = lensize hp)))"

lemma decode_sps_outcome:
  assumes "bs_ok bs" "parser_ok hp"
  shows "id_outcome hp (unit_id shift 7 bs) (bindR (h264_parser_decode_sps shift hp) (\<lambda>(_, hp). returnR hp) bs)"
proof -
  obtain prof lev id bs1 where h: "sps_head shift bs = Some ((prof, lev, id), bs1)" "bs_ok bs1"
    using safe_sps(2) [of shift] assms(1) by (fastforce simp: safe_def)
  obtain ok sps bs2 where f: "sps_fields shift prof lev (sps_array hp ! nat (sint id)) bs1 = Some ((ok, sps), bs2)"
    using safe_sps(1) [of shift prof lev "sps_array hp ! nat (sint id)"] h(2) by (fastforce simp: safe_def)
  show ?thesis
    using h f assms(2) by (auto simp: id_outcome_def unit_id_def h264_parser_decode_sps_def bindR_def returnR_def Let_def parser_ok_def)
qed

lemma slice_head_id:
  "map_option (\<lambda>((id, _), _). sint id) (slice_head shift hp bs) = map_option (\<lambda>((id, _), _). sint id) (slice_head shift hp1 bs)"
  by (simp add: slice_head_def bindR_def returnR_def Let_def split: option.split prod.split)

lemma decode_slice_outcome:
  assumes "bs_ok bs" "parser_ok hp" "t = 1 \<or> t = 5"
  shows "id_outcome hp (unit_id shift t bs) (h264_parser_decode_slice_header shift hp bs)"
proof -
  obtain id hp1 bs1 where h: "slice_head shift hp bs = Some ((id, hp1), bs1)" "bs_ok bs1" "same_sets hp hp1"
    using safe_slice(4) [of shift hp] assms(1) by (fastforce simp: safe_def)
  have u: "unit_id shift t bs = Some (sint id)"
    using slice_head_id [of shift hp bs zero_parser] h(1) assms(3) by (auto simp: unit_id_def)
  show ?thesis
  proof (cases "0 \<le> sint id \<and> sint id < int H264_PARSER_NUM_PPS")
    case False
    then show ?thesis
      using h u assms(2) by (auto simp: id_outcome_def h264_parser_decode_slice_header_def bindR_def returnR_def same_sets_def parser_ok_def)
  next
    case True
    define pps where "pps = pps_array hp1 ! nat (sint id)"
    have ok1: "parser_ok hp1" using assms(2) h(3) by (simp add: parser_ok_def same_sets_def)
    have "nat (sint id) < length (pps_array hp1)" using True ok1 by (simp add: parser_ok_def nat_less_iff)
    then have j: "unat (pps_sps_id pps) < length (sps_array hp1)" using ok1 nth_mem unfolding pps_def parser_ok_def by metis
    define sps where "sps = sps_array hp1 ! unat (pps_sps_id pps)"
    have cp: "same_sets hpx (snd (calc_poc shift sps hpx)\<lparr>current_poc := v\<rparr>)" for hpx v
      by (simp add: calc_poc_def Let_def same_sets_def)
    have tr: "same_sets a b \<Longrightarrow> same_sets b c \<Longrightarrow> same_sets a c" for a b c by (simp add: same_sets_def)
    let ?hp2 = "hp1\<lparr>cur_sps := Some (unat (pps_sps_id pps)), cur_pps := Some (nat (sint id))\<rparr>"
    have "safe (bindR (slice_frame shift sps ?hp2) (\<lambda>hp. bindR (slice_poc shift sps pps hp) (\<lambda>hp. bindR (slice_refs shift pps hp) (\<lambda>hp.
        let (poc, hp) = calc_poc shift sps hp in returnR (hp\<lparr>current_poc := poc\<rparr>))))) (same_sets hp1)"
      by (rule safe_bind [OF safe_slice(1)], rule safe_bind [OF safe_slice(2)], rule safe_bind [OF safe_slice(3)])
        (use cp in \<open>auto simp: Let_def same_sets_def case_prod_unfold intro!: safe_return\<close>)
    then obtain hp' bs' where "bindR (slice_frame shift sps ?hp2) (\<lambda>hp. bindR (slice_poc shift sps pps hp) (\<lambda>hp. bindR (slice_refs shift pps hp) (\<lambda>hp.
        let (poc, hp) = calc_poc shift sps hp in returnR (hp\<lparr>current_poc := poc\<rparr>)))) bs1 = Some (hp', bs')" "same_sets hp1 hp'"
      using h(2) unfolding safe_def by blast
    moreover from this(2) have "parser_ok hp'" "lensize hp' = lensize hp" using ok1 h(3) by (simp_all add: same_sets_def parser_ok_def)
    ultimately show ?thesis
      using True u j h(1) by (simp add: id_outcome_def h264_parser_decode_slice_header_def bindR_def [of "slice_head shift hp"]
          pps_def [symmetric] sps_def [symmetric] Let_def)
  qed
qed

lemma decode_nal_from_bs_outcome:
  assumes "bs_ok bs" "parser_ok hp"
  shows "id_outcome hp (unit_id shift (nal_unit_type hp) bs) (h264_parser_decode_nal_from_bs shift hp bs)"
proof -
  have i: "parser_ok (idr hp)" "lensize (idr hp) = lensize hp" using assms(2) by (simp_all add: idr_def parser_ok_def)
  have I: "id_outcome hp x r" if "id_outcome (idr hp) x r" for x r using that unfolding id_outcome_def i(2) .
  obtain hp' bs' where "h264_parser_decode_pps shift hp bs = Some (hp', bs')" "parser_ok hp'" "lensize hp' = lensize hp"
    using decode_pps_safe [OF assms(2), of shift] assms(1) unfolding safe_def by blast
  then have pps: "id_outcome hp (Some 0) (h264_parser_decode_pps shift hp bs)" by (simp add: id_outcome_def)
  have none: "id_outcome hp (Some 0) (returnR hp bs)" using assms(2) by (simp add: id_outcome_def returnR_def)
  consider "nal_unit_type hp = 5" | "nal_unit_type hp = 1" | "nal_unit_type hp = 7" | "nal_unit_type hp = 8"
    | "nal_unit_type hp \<notin> {1, 5, 7, 8}" by blast
  then show ?thesis
  proof cases
    case 1
    then show ?thesis using I [OF decode_slice_outcome [OF assms(1) i(1), of 5 shift]] by (simp add: h264_parser_decode_nal_from_bs_def)
  next
    case 2
    then show ?thesis using decode_slice_outcome [OF assms, of 1 shift] by (simp add: h264_parser_decode_nal_from_bs_def)
  next
    case 3
    then show ?thesis using decode_sps_outcome [OF assms, of shift] by (simp add: h264_parser_decode_nal_from_bs_def)
  next
    case 4
    then show ?thesis using pps by (simp add: h264_parser_decode_nal_from_bs_def unit_id_def)
  next
    case 5
    then show ?thesis using none by (simp add: h264_parser_decode_nal_from_bs_def unit_id_def)
  qed
qed


lemma zero_parser_ok: "parser_ok zero_parser"
  by (simp add: parser_ok_def zero_parser_def zero_pps_def)


section \<open>Start codes\<close>

definition start_code :: bytes where
  "start_code = [0, 0, 1]"

fun stream :: "bytes list \<Rightarrow> bytes" where
  "stream [] = []"
| "stream (u # us) = start_code @ u @ stream us"

text \<open>The units in order, each decoded from the memory that begins with it, and with its own length.\<close>

fun decode_units :: "(int \<Rightarrow> u32) \<Rightarrow> h264_parser \<Rightarrow> bytes list \<Rightarrow> h264_parser option" where
  "decode_units shift hp [] = Some hp"
| "decode_units shift hp (u # us) =
     h264_parser_decode_nal shift hp (u @ stream us) (length u) \<bind> (\<lambda>hp. decode_units shift hp us)"

definition has_start_code :: "bytes \<Rightarrow> bool" where
  "has_start_code u \<longleftrightarrow> (\<exists>i. i + 2 < length u \<and> u ! i = 0 \<and> u ! (i + 1) = 0 \<and> u ! (i + 2) = 1)"

text \<open>No start code begins inside of a unit, also not one that ends in the next start code.\<close>

lemma no_start_code_inside:
  assumes "\<not> has_start_code u" "i < length u" "i + 3 < length (u @ stream us)"
  shows "\<not> ((u @ stream us) ! i = 0 \<and> (u @ stream us) ! (i + 1) = 0 \<and> (u @ stream us) ! (i + 2) = 1)"
proof (cases "i + 2 < length u")
  case True
  then show ?thesis using assms(1) by (auto simp: has_start_code_def nth_append)
next
  case False
  then have "us \<noteq> []" using assms(3) by (cases us) auto
  then obtain v vs where us: "us = v # vs" by (cases us) auto
  have "(u @ stream us) ! (i + 2) = (start_code @ v @ stream vs) ! (i + 2 - length u)" using False us by (simp add: nth_append)
  moreover have "i + 2 - length u < 2" using assms(2) False by auto
  then have "(start_code @ v @ stream vs) ! (i + 2 - length u) = 0"
    by (cases "i + 2 - length u") (auto simp: start_code_def less_Suc_eq)
  ultimately show ?thesis by simp
qed

definition units_ok :: "bytes list \<Rightarrow> bool" where
  "units_ok us \<longleftrightarrow> (\<forall>u\<in>set us. \<not> has_start_code u) \<and> (us \<noteq> [] \<longrightarrow> last us \<noteq> [])"

lemma stream_length: "units_ok us \<Longrightarrow> us \<noteq> [] \<Longrightarrow> 3 < length (stream us)"
proof (induction us)
  case (Cons u us)
  then show ?case by (cases us) (auto simp: units_ok_def start_code_def)
qed simp

lemma loop_skip:
  assumes "3 < n" "rd data d = Some a" "rd data (d + 1) = Some b" "rd data (d + 2) = Some c" "\<not> (a = 0 \<and> b = 0 \<and> c = 1)"
  shows "start_code_loop shift hp data p d n = start_code_loop shift hp data p (d + 1) (n - 1)"
  using assms by (subst start_code_loop.simps) simp

lemma unit_loop:
  assumes "\<not> has_start_code u" "units_ok us" "i \<le> length u"
    and nxt: "us \<noteq> [] \<Longrightarrow> start_code_loop shift hp (pre @ u @ stream us) (Some (length pre)) (length pre + length u) (length (stream us)) = R"
    and fin: "us = [] \<Longrightarrow> h264_parser_decode_nal shift hp u (length u) = R"
  shows "start_code_loop shift hp (pre @ u @ stream us) (Some (length pre)) (length pre + i) (length u - i + length (stream us)) = R"
  using assms(3)
proof (induction "length u - i" arbitrary: i)
  case 0
  then show ?case using nxt fin by (cases "us = []") (subst start_code_loop.simps, simp_all)
next
  case (Suc k)
  let ?d = "pre @ u @ stream us"
  have "3 < length u - i + length (stream us) \<or> us = []" using stream_length [OF assms(2)] by auto
  then show ?case
  proof (cases "3 < length u - i + length (stream us)")
    case False
    then have "us = []" using stream_length [OF assms(2)] by auto
    then show ?thesis using fin Suc.prems False by (subst start_code_loop.simps) simp
  next
    case True
    have i: "i < length u" "k = length u - Suc i" using Suc.hyps(2) by auto
    have at: "rd ?d (length pre + j) = Some ((u @ stream us) ! j)" if "j < length u + length (stream us)" for j
      using that by (simp add: rd_def nth_append)
    have r: "rd ?d (length pre + i) = Some ((u @ stream us) ! i)" "rd ?d (length pre + i + 1) = Some ((u @ stream us) ! (i + 1))"
      "rd ?d (length pre + i + 2) = Some ((u @ stream us) ! (i + 2))"
      using at [of i] at [of "i + 1"] at [of "i + 2"] True i(1) by (simp_all add: add.assoc)
    have no: "\<not> ((u @ stream us) ! i = 0 \<and> (u @ stream us) ! (i + 1) = 0 \<and> (u @ stream us) ! (i + 2) = 1)"
      using True i(1) by (intro no_start_code_inside [OF assms(1)]) auto
    have "length u - i + length (stream us) - 1 = length u - Suc i + length (stream us)" using i(1) by simp
    with loop_skip [OF True r no, of shift hp "Some (length pre)"]
    have "start_code_loop shift hp ?d (Some (length pre)) (length pre + i) (length u - i + length (stream us)) =
        start_code_loop shift hp ?d (Some (length pre)) (length pre + Suc i) (length u - Suc i + length (stream us))"
      by simp
    then show ?thesis using Suc.hyps(1) [OF i(2)] i(1) by simp
  qed
qed

lemma code_found:
  assumes "units_ok (v # vs)" "data = pre @ u @ stream (v # vs)"
  shows "start_code_loop shift hp data p (length pre + length u) (length (stream (v # vs))) =
    (case p of None \<Rightarrow> Some hp | Some q \<Rightarrow> h264_parser_decode_nal shift hp (drop q data) (length pre + length u - q)) \<bind>
    (\<lambda>hp. start_code_loop shift hp data (Some (length pre + length u + 3)) (length pre + length u + 3) (length v + length (stream vs)))"
proof -
  have "rd data (length pre + length u) = Some 0" "rd data (length pre + length u + 1) = Some 0" "rd data (length pre + length u + 2) = Some 1"
    by (simp_all add: assms(2) rd_def nth_append start_code_def)
  then show ?thesis
    using stream_length [OF assms(1)] by (subst start_code_loop.simps) (simp add: start_code_def)
qed

lemma units_loop:
  assumes "\<not> has_start_code u" "units_ok us"
  shows "start_code_loop shift hp (pre @ u @ stream us) (Some (length pre)) (length pre) (length u + length (stream us)) =
    decode_units shift hp (u # us)"
  using assms
proof (induction us arbitrary: u hp pre)
  case Nil
  then show ?case using unit_loop [of u "[]" 0 shift hp pre] by (auto split: bind_split)
next
  case (Cons v vs)
  have ok: "\<not> has_start_code v" "units_ok vs"
    using Cons.prems(2) by (auto simp: units_ok_def split: if_splits)
  let ?d = "pre @ u @ stream (v # vs)"
  have IH: "start_code_loop shift hp1 ?d (Some (length pre + length u + 3)) (length pre + length u + 3) (length v + length (stream vs)) =
      decode_units shift hp1 (v # vs)" for hp1
    using Cons.IH [OF ok, of hp1 "pre @ u @ start_code"] by (simp add: start_code_def numeral_3_eq_3)
  have "start_code_loop shift hp ?d (Some (length pre)) (length pre + length u) (length (stream (v # vs))) = decode_units shift hp (u # v # vs)"
    by (subst code_found [OF Cons.prems(2) refl]) (simp add: IH del: stream.simps decode_units.simps(2), simp)
  then show ?case
    using unit_loop [OF Cons.prems, of 0 shift hp pre "decode_units shift hp (u # v # vs)"] by simp
qed

text \<open>
  Property C16. A stream of units with start codes between them is decoded unit by unit, in order and with the
  length of each: the search finds every start code and nothing else.
\<close>

theorem start_codes_found:
  assumes "lensize hp = 0" "\<And>u. u \<in> set us \<Longrightarrow> \<not> has_start_code u" "us \<noteq> []" "last us \<noteq> []"
  shows "h264_parser_decode_data fuel shift hp (stream us) (length (stream us)) =
    (case decode_units shift hp us of None \<Rightarrow> Outside | Some hp' \<Rightarrow> Done hp')"
proof -
  obtain v vs where us: "us = v # vs" using assms(3) by (cases us) auto
  have ok: "units_ok us" using assms by (simp add: units_ok_def)
  then have "\<not> has_start_code v" "units_ok vs" unfolding us by (auto simp: units_ok_def split: if_splits)
  from units_loop [OF this, of shift hp start_code]
  have "start_code_loop shift hp (stream us) None 0 (length (stream us)) = decode_units shift hp us"
    using code_found [of v vs "stream us" "[]" "[]" shift hp None] ok us by (simp add: start_code_def numeral_3_eq_3)
  then show ?thesis using assms(1) by (simp add: h264_parser_decode_data_def)
qed

theorem start_codes_found_witness:
  "h264_parser_decode_data 0 (\<lambda>_. 0) zero_parser (stream [[0x09, 0x10], [0x0c]]) (length (stream [[0x09, 0x10], [0x0c]])) =
   (case decode_units (\<lambda>_. 0) zero_parser [[0x09, 0x10], [0x0c]] of None \<Rightarrow> Outside | Some hp' \<Rightarrow> Done hp')"
  by (rule start_codes_found) (auto simp: zero_parser_def has_start_code_def)

section \<open>Lengths before the units\<close>

text \<open>
  With lengths of four bytes before the units the parser can be made to run for ever: the length
  \<^verbatim>\<open>0xfffffffc\<close> is -4 as an \<^verbatim>\<open>int\<close>, and takes the parser back to where it read it.
\<close>

theorem h264_length_endless:
  assumes "lensize hp = 4"
  shows "h264_parser_decode_data fuel shift hp [0xff, 0xff, 0xff, 0xfc, 0] 5 = Running"
proof -
  let ?d = "[0xff, 0xff, 0xff, 0xfc, 0] :: bytes"
  have len: "read_nal_len 4 ?d 0 0 = Some 0xfffffffc" by code_simp
  have v: "sint (0xfffffffc :: u32) = -4" by simp
  have nal: "h264_parser_decode_nal shift hp0 (drop 4 ?d) 1 = Some (hp0\<lparr>nal_ref_idc := 0, nal_unit_type := 0\<rparr>)" for hp0
    by (simp add: h264_parser_decode_nal_def rd_def h264_parser_decode_nal_from_bs_def returnR_def)
  have "length_loop fuel shift hp ?d 0 5 = Running"
    using assms
  proof (induction fuel arbitrary: hp)
    case (Suc fuel)
    then show ?case using len v nal [of hp] by (simp add: Let_def)
  qed simp
  then show ?thesis using assms by (simp add: h264_parser_decode_data_def)
qed

end
