(* ===== verification/Media.thy ===== *)
theory Media
  imports Prelude "HOL-Library.Monad_Syntax"
begin

text \<open>
  The media pipe of \<^verbatim>\<open>src/src/media\<close>: the queues of packets between a demuxer and the decoders
  (\<^verbatim>\<open>media_queue.c\<close>), pausing and flushing (\<^verbatim>\<open>media.c\<close>), the events for the demuxer and seeking within the
  queues (\<^verbatim>\<open>media_event.c\<close>), and the two loops that take packets out, \<^verbatim>\<open>vd_thread\<close> of
  \<^verbatim>\<open>src/src/video/video_decoder.c\<close> and \<^verbatim>\<open>audio_decode_thread\<close> of \<^verbatim>\<open>src/src/audio2/audio.c\<close>.

  Every operation is what the code does from locking \<^verbatim>\<open>mp_mutex\<close> to releasing it or waiting; it runs on a
  \<open>locked\<close> pipe, which is the pipe with the global counter \<^verbatim>\<open>media_buffer_hungry\<close>. A packet is a value: its
  address is its place in the queue. Time stamps are integers, sizes and counts are words. What the codecs
  decide is an argument of the operations.
\<close>

section \<open>State\<close>

datatype mb_type =
    MB_VIDEO | MB_AUDIO | MB_SET_PROP_STRING | MB_DVD_CLUT | MB_DVD_RESET_SPU | MB_DVD_SPU | MB_DVD_PCI
  | MB_SUBTITLE | MB_CTRL | MB_CTRL_FLUSH | MB_CTRL_PAUSE | MB_CTRL_PLAY | MB_CTRL_EXIT
  | MB_CTRL_FLUSH_SUBTITLES | MB_CTRL_DVD_HILITE | MB_CTRL_EXT_SUBTITLE | MB_CTRL_REINITIALIZE
  | MB_CTRL_RECONFIGURE | MB_CTRL_REQ_OUTPUT_SIZE | MB_CTRL_DVD_SPU2 | MB_CTRL_UNBLOCK
  | MB_CTRL_SET_VOLUME_MULTIPLIER

text \<open>\<^verbatim>\<open>mb_data_type > MB_CTRL\<close>, in the order of the enumeration.\<close>

fun above_ctrl :: "mb_type \<Rightarrow> bool" where
  "above_ctrl t \<longleftrightarrow>
     t \<notin> {MB_VIDEO, MB_AUDIO, MB_SET_PROP_STRING, MB_DVD_CLUT, MB_DVD_RESET_SPU, MB_DVD_SPU, MB_DVD_PCI,
          MB_SUBTITLE, MB_CTRL}"

definition PTS_UNSET :: int where
  "PTS_UNSET = - (2 ^ 63)"

record media_buf =
  mb_data_type :: mb_type
  mb_pts :: int
  mb_delta :: int
  mb_size :: u32
  mb_stream :: int
  mb_epoch :: u32
  mb_keyframe :: bool
  mb_skip :: bool
  mb_data32 :: u32

record media_queue =
  mq_q_data :: "media_buf list"
  mq_q_ctrl :: "media_buf list"
  mq_q_aux :: "media_buf list"
  mq_packets_current :: u32
  mq_stream :: int
  mq_stream2 :: int
  mq_no_data_interest :: bool
  mq_buffer_delay :: int

datatype action =
    ACTION_PLAYPAUSE | ACTION_PLAY | ACTION_PAUSE | ACTION_STOP | ACTION_EJECT | ACTION_SEEK_BACKWARD
  | ACTION_SEEK_FORWARD | ACTION_SKIP_BACKWARD | ACTION_SKIP_FORWARD | ACTION_SHOW_MEDIA_STATS | ACTION_SHUFFLE
  | ACTION_REPEAT | ACTION_CYCLE_AUDIO | ACTION_CYCLE_SUBTITLE | ACTION_VOLUME_UP | ACTION_VOLUME_DOWN
  | ACTION_OTHER nat

datatype event =
    EVENT_ACTION_VECTOR "action list" | EVENT_SEEK int | EVENT_HOLD bool | EVENT_CURRENT_TIME int u32
  | EVENT_SELECT_AUDIO_TRACK nat | EVENT_SELECT_SUBTITLE_TRACK nat | EVENT_PLAYQUEUE_JUMP nat
  | EVENT_INTERNAL_PAUSE string | EVENT_DELTA_SEEK_REL int int int | EVENT_EXIT | EVENT_OTHER nat

text \<open>The flags of a pipe and the reasons for which it is held.\<close>

definition MP_PRIMABLE :: u32 where "MP_PRIMABLE = 0x1"
definition MP_PRE_BUFFERING :: u32 where "MP_PRE_BUFFERING = 0x2"
definition MP_VIDEO :: u32 where "MP_VIDEO = 0x4"
definition MP_FLUSH_ON_HOLD :: u32 where "MP_FLUSH_ON_HOLD = 0x8"
definition MP_ALWAYS_SATISFIED :: u32 where "MP_ALWAYS_SATISFIED = 0x10"
definition MP_CAN_SEEK :: u32 where "MP_CAN_SEEK = 0x20"
definition MP_CAN_PAUSE :: u32 where "MP_CAN_PAUSE = 0x40"
definition MP_CAN_EJECT :: u32 where "MP_CAN_EJECT = 0x80"
definition MP_HOLD_PAUSE :: u32 where "MP_HOLD_PAUSE = 0x1"
definition MP_HOLD_PRE_BUFFERING :: u32 where "MP_HOLD_PRE_BUFFERING = 0x2"

lemmas mp_flag_defs = MP_PRIMABLE_def MP_PRE_BUFFERING_def MP_VIDEO_def MP_FLUSH_ON_HOLD_def
  MP_ALWAYS_SATISFIED_def MP_CAN_SEEK_def MP_CAN_PAUSE_def MP_CAN_EJECT_def MP_HOLD_PAUSE_def
  MP_HOLD_PRE_BUFFERING_def

text \<open>\<open>mp_handle_event\<close> tells which events the demuxer takes directly; \<open>mp_cancelled\<close> is the state of the
  object that \<^verbatim>\<open>mp_cancellable\<close> points to, if it does. Of the properties in the tree, the status and the reason
  of a pause are kept.\<close>

record media_pipe =
  mp_refcount :: int
  mp_flags :: u32
  mp_eof :: bool
  mp_hold_flags :: u32
  mp_hold_gate :: bool
  mp_pre_buffer_delay :: u32
  mp_buffer_current :: u32
  mp_buffer_delay :: u32
  mp_buffer_limit :: u32
  mp_max_realtime_delay :: u32
  mp_satisfied :: int
  mp_video :: media_queue
  mp_audio :: media_queue
  mp_eq :: "event list"
  mp_handle_event :: "(event \<Rightarrow> bool) option"
  mp_seek_base :: int
  mp_start_time :: int
  mp_duration :: int
  mp_epoch :: u32
  mp_cancelled :: "bool option"
  mp_prop_playstatus :: string
  mp_prop_pausereason :: "string option"

record locked = media_pipe +
  media_buffer_hungry :: int

datatype qid = Video | Audio

fun queue_of :: "qid \<Rightarrow> 'a media_pipe_scheme \<Rightarrow> media_queue" where
  "queue_of Video mp = mp_video mp"
| "queue_of Audio mp = mp_audio mp"

fun upd_queue :: "qid \<Rightarrow> (media_queue \<Rightarrow> media_queue) \<Rightarrow> 'a media_pipe_scheme \<Rightarrow> 'a media_pipe_scheme" where
  "upd_queue Video f mp = mp_video_update f mp"
| "upd_queue Audio f mp = mp_audio_update f mp"

definition has_flag :: "u32 \<Rightarrow> u32 \<Rightarrow> bool" where
  "has_flag w f \<longleftrightarrow> w AND f \<noteq> 0"

section \<open>The level of the buffers\<close>

text \<open>At most \<open>n\<close> packets without a time stamp are passed over.\<close>

fun skip_unset :: "nat \<Rightarrow> media_buf list \<Rightarrow> media_buf list" where
  "skip_unset (Suc n) (mb # q) = (if mb_pts mb = PTS_UNSET then skip_unset n q else mb # q)"
| "skip_unset _ q = q"

definition mq_get_buffer_delay :: "media_queue \<Rightarrow> u32 \<times> media_queue" where
  "mq_get_buffer_delay mq =
     (if mq_stream mq = -1 then (0x7fffffff, mq)
      else
        let mq1 =
          (case (skip_unset 5 (mq_q_data mq), skip_unset 5 (rev (mq_q_data mq))) of
             (f # _, l # _) \<Rightarrow>
               (if mb_epoch f = mb_epoch l \<and> mb_pts l \<noteq> PTS_UNSET \<and> mb_pts f \<noteq> PTS_UNSET
                then mq\<lparr>mq_buffer_delay := (mb_pts l - mb_delta l) - (mb_pts f - mb_delta f)\<rparr>
                else mq)
           | _ \<Rightarrow> mq)
        in (word_of_int (mq_buffer_delay mq1), mq1))"

definition mp_update_buffer_delay :: "locked \<Rightarrow> locked" where
  "mp_update_buffer_delay mp =
     (let (vd, v) = mq_get_buffer_delay (mp_video mp);
          (ad, a) = mq_get_buffer_delay (mp_audio mp)
      in mp\<lparr>mp_video := v, mp_audio := a, mp_buffer_delay := (if sint vd < sint ad then vd else ad)\<rparr>)"

definition set_satisfied :: "bool \<Rightarrow> locked \<Rightarrow> locked" where
  "set_satisfied b mp =
     (if b then
        if mp_satisfied mp = 0
        then mp\<lparr>media_buffer_hungry := media_buffer_hungry mp - 1, mp_satisfied := 1\<rparr> else mp
      else
        if mp_satisfied mp \<noteq> 0
        then mp\<lparr>media_buffer_hungry := media_buffer_hungry mp + 1, mp_satisfied := 0\<rparr> else mp)"

definition mq_update_stats :: "locked \<Rightarrow> locked" where
  "mq_update_stats mp =
     mp_update_buffer_delay
       (set_satisfied
          (mp_eof mp \<or> mp_buffer_current mp = 0 \<or> mp_buffer_limit mp * 7 < mp_buffer_current mp * 8 \<or>
           has_flag (mp_flags mp) MP_ALWAYS_SATISFIED) mp)"

section \<open>Adding and removing packets\<close>

definition account :: "qid \<Rightarrow> media_buf \<Rightarrow> locked \<Rightarrow> locked" where
  "account q mb mp =
     (upd_queue q (\<lambda>mq. mq\<lparr>mq_packets_current := mq_packets_current mq + 1\<rparr>) mp)
       \<lparr>mp_buffer_current := mp_buffer_current mp + mb_size mb\<rparr>"

definition unaccount :: "qid \<Rightarrow> media_buf \<Rightarrow> locked \<Rightarrow> locked" where
  "unaccount q mb mp =
     (upd_queue q (\<lambda>mq. mq\<lparr>mq_packets_current := mq_packets_current mq - 1\<rparr>) mp)
       \<lparr>mp_buffer_current := mp_buffer_current mp - mb_size mb\<rparr>"

text \<open>The packet is stamped with the epoch of the pipe.\<close>

definition mb_enq :: "qid \<Rightarrow> media_buf \<Rightarrow> locked \<Rightarrow> locked" where
  "mb_enq q mb mp =
     (let mb = mb\<lparr>mb_epoch := mp_epoch mp\<rparr> in
      mq_update_stats (account q mb
        (upd_queue q (\<lambda>mq.
           if mb_data_type mb = MB_SUBTITLE then mq\<lparr>mq_q_aux := mq_q_aux mq @ [mb]\<rparr>
           else if above_ctrl (mb_data_type mb) then mq\<lparr>mq_q_ctrl := mq_q_ctrl mq @ [mb]\<rparr>
           else mq\<lparr>mq_q_data := mq_q_data mq @ [mb]\<rparr>) mp)))"

text \<open>A new packet of the pool, with a size of 0: the pool zeroes its memory, and \<^verbatim>\<open>av_new_packet\<close> leaves the
  time stamps unset.\<close>

definition ctrl_buf :: "mb_type \<Rightarrow> u32 \<Rightarrow> media_buf" where
  "ctrl_buf t d = \<lparr>mb_data_type = t, mb_pts = PTS_UNSET, mb_delta = 0, mb_size = 0, mb_stream = 0, mb_epoch = 0,
     mb_keyframe = False, mb_skip = False, mb_data32 = d\<rparr>"

definition cmd_buf :: "mb_type \<Rightarrow> media_buf" where
  "cmd_buf t = (ctrl_buf t 0)\<lparr>mb_pts := 0\<rparr>"

definition mp_send_cmd_locked :: "qid \<Rightarrow> mb_type \<Rightarrow> locked \<Rightarrow> locked" where
  "mp_send_cmd_locked q cmd mp = mb_enq q (cmd_buf cmd) mp"

definition mp_send_cmd_u32 :: "qid \<Rightarrow> mb_type \<Rightarrow> u32 \<Rightarrow> locked \<Rightarrow> locked" where
  "mp_send_cmd_u32 q cmd u mp = mb_enq q (ctrl_buf cmd u) mp"

definition mb_enqueue_always :: "qid \<Rightarrow> media_buf \<Rightarrow> locked \<Rightarrow> locked" where
  "mb_enqueue_always q mb mp = mb_enq q mb mp"

text \<open>The loop of \<open>mq_flush_q\<close> over one of the lists of a queue: what stays, and the pipe with the rest
  subtracted.\<close>

definition flush_keeps :: "bool \<Rightarrow> media_buf \<Rightarrow> bool" where
  "flush_keeps full mb \<longleftrightarrow>
     mb_data_type mb = MB_CTRL_EXIT \<or> (mb_data_type mb = MB_CTRL_UNBLOCK \<and> \<not> full)"

fun mq_flush_q :: "qid \<Rightarrow> bool \<Rightarrow> media_buf list \<Rightarrow> locked \<Rightarrow> media_buf list \<times> locked" where
  "mq_flush_q q full [] mp = ([], mp)"
| "mq_flush_q q full (mb # l) mp =
     (if flush_keeps full mb then let (r, mp) = mq_flush_q q full l mp in (mb # r, mp)
      else mq_flush_q q full l (unaccount q mb mp))"

definition mq_flush_locked :: "qid \<Rightarrow> bool \<Rightarrow> locked \<Rightarrow> locked" where
  "mq_flush_locked q full mp =
     (let (d, mp) = mq_flush_q q full (mq_q_data (queue_of q mp)) mp;
          mp = upd_queue q (\<lambda>mq. mq\<lparr>mq_q_data := d\<rparr>) mp;
          (c, mp) = mq_flush_q q full (mq_q_ctrl (queue_of q mp)) mp;
          mp = upd_queue q (\<lambda>mq. mq\<lparr>mq_q_ctrl := c\<rparr>) mp;
          (x, mp) = mq_flush_q q full (mq_q_aux (queue_of q mp)) mp;
          mp = upd_queue q (\<lambda>mq. mq\<lparr>mq_q_aux := x\<rparr>) mp
      in mq_update_stats mp)"

definition send_flush :: "qid \<Rightarrow> bool \<Rightarrow> locked \<Rightarrow> locked" where
  "send_flush q final mp =
     (if 0 \<le> mq_stream (queue_of q mp) then mb_enq q (ctrl_buf MB_CTRL_FLUSH (of_bool final)) mp else mp)"

definition mp_flush_locked :: "bool \<Rightarrow> locked \<Rightarrow> locked" where
  "mp_flush_locked final mp =
     (let mp = mq_flush_locked Audio False mp;
          mp = mq_flush_locked Video False mp;
          mp = mp\<lparr>mp_epoch := mp_epoch mp + 1\<rparr>;
          mp = send_flush Video final mp;
          mp = send_flush Audio final mp
      in if mp_satisfied mp = 0
         then mp\<lparr>media_buffer_hungry := media_buffer_hungry mp - 1, mp_satisfied := 1\<rparr> else mp)"

definition mp_flush :: "locked \<Rightarrow> locked" where
  "mp_flush mp = mp_flush_locked False mp"

section \<open>Holding the pipe\<close>

definition mp_event_dispatch :: "event \<Rightarrow> locked \<Rightarrow> locked" where
  "mp_event_dispatch e mp =
     (case mp_handle_event mp of
        Some f \<Rightarrow> if f e then mp else mp\<lparr>mp_eq := mp_eq mp @ [e]\<rparr>
      | None \<Rightarrow> mp\<lparr>mp_eq := mp_eq mp @ [e]\<rparr>)"

definition mp_set_playstatus_by_hold_locked :: "string option \<Rightarrow> locked \<Rightarrow> locked" where
  "mp_set_playstatus_by_hold_locked msg mp =
     (let hold = (mp_hold_flags mp \<noteq> 0) in
      if hold = mp_hold_gate mp then mp
      else
        let mp = mp\<lparr>mp_hold_gate := hold\<rparr>;
            cmd = (if hold then MB_CTRL_PAUSE else MB_CTRL_PLAY);
            mp = (if has_flag (mp_flags mp) MP_VIDEO then mp_send_cmd_locked Video cmd mp else mp);
            mp = mp_send_cmd_locked Audio cmd mp;
            mp = mp\<lparr>mp_prop_pausereason :=
                      (if hold then Some (case msg of Some m \<Rightarrow> m | None \<Rightarrow> ''Paused by user'') else None),
                    mp_prop_playstatus := (if hold then ''pause'' else ''play'')\<rparr>;
            mp = mp_event_dispatch (EVENT_HOLD hold) mp
        in if has_flag (mp_flags mp) MP_FLUSH_ON_HOLD then mp_flush_locked False mp else mp)"

definition mp_hold :: "u32 \<Rightarrow> string option \<Rightarrow> locked \<Rightarrow> locked" where
  "mp_hold flag msg mp =
     mp_set_playstatus_by_hold_locked msg (mp\<lparr>mp_hold_flags := mp_hold_flags mp OR flag\<rparr>)"

definition mp_unhold :: "u32 \<Rightarrow> locked \<Rightarrow> locked" where
  "mp_unhold flag mp =
     mp_set_playstatus_by_hold_locked None (mp\<lparr>mp_hold_flags := mp_hold_flags mp AND NOT flag\<rparr>)"

definition mp_underrun :: "locked \<Rightarrow> locked" where
  "mp_underrun mp =
     mp_set_playstatus_by_hold_locked None (mp\<lparr>mp_hold_flags := mp_hold_flags mp OR MP_HOLD_PRE_BUFFERING\<rparr>)"

definition mp_check_underrun :: "locked \<Rightarrow> locked" where
  "mp_check_underrun mp =
     (if has_flag (mp_flags mp) MP_PRE_BUFFERING \<and> mq_q_data (mp_video mp) = [] \<and> mq_q_data (mp_audio mp) = []
      then mp_underrun mp else mp)"

definition mq_flush :: "qid \<Rightarrow> bool \<Rightarrow> locked \<Rightarrow> locked" where
  "mq_flush q full mp = mp_check_underrun (mq_flush_locked q full mp)"

definition mp_enqueue_check_pre_buffering :: "locked \<Rightarrow> locked" where
  "mp_enqueue_check_pre_buffering mp =
     (if has_flag (mp_hold_flags mp) MP_HOLD_PRE_BUFFERING \<and> mp_pre_buffer_delay mp < mp_buffer_delay mp
      then mp_set_playstatus_by_hold_locked None
             (mp\<lparr>mp_hold_flags := mp_hold_flags mp AND NOT MP_HOLD_PRE_BUFFERING\<rparr>)
      else mp)"

section \<open>Producers\<close>

text \<open>The demuxer waits with \<^verbatim>\<open>hts_cond_wait\<close> while the buffers are full; \<open>Wait\<close> is the state in which it does. The
  numbers of packets that the queues should hold at least are taken when the function is entered.\<close>

datatype 'a waiting = Wait locked | Return 'a locked

definition min_packets :: "qid \<Rightarrow> locked \<Rightarrow> u32" where
  "min_packets q mp = (if mq_stream (queue_of q mp) \<noteq> -1 then 5 else 0)"

definition enqueue_enter :: "locked \<Rightarrow> locked" where
  "enqueue_enter mp = mp_enqueue_check_pre_buffering (mp_update_buffer_delay mp)"

definition has_room :: "u32 \<Rightarrow> u32 \<Rightarrow> media_buf \<Rightarrow> locked \<Rightarrow> bool" where
  "has_room vminpkt aminpkt mb mp \<longleftrightarrow>
     (mp_buffer_delay mp < mp_max_realtime_delay mp \<and> mp_buffer_current mp + mb_size mb < mp_buffer_limit mp) \<or>
     mq_packets_current (mp_video mp) < vminpkt \<or> mq_packets_current (mp_audio mp) < aminpkt"

definition enqueue_try :: "u32 \<Rightarrow> u32 \<Rightarrow> qid \<Rightarrow> media_buf \<Rightarrow> locked \<Rightarrow> event option waiting" where
  "enqueue_try vminpkt aminpkt q mb mp =
     (case mp_eq mp of
        e # es \<Rightarrow> Return (Some e) (mp\<lparr>mp_eq := es\<rparr>)
      | [] \<Rightarrow> if has_room vminpkt aminpkt mb mp then Return None (mb_enq q mb mp) else Wait mp)"

definition mb_enqueue_with_events :: "qid \<Rightarrow> media_buf \<Rightarrow> locked \<Rightarrow> event option waiting" where
  "mb_enqueue_with_events q mb mp =
     enqueue_try (min_packets Video mp) (min_packets Audio mp) q mb (enqueue_enter mp)"

text \<open>The packet goes behind the last one of its type in the list of auxiliary packets, or to the front.\<close>

definition insert_aux :: "mb_type \<Rightarrow> media_buf \<Rightarrow> media_buf list \<Rightarrow> media_buf list" where
  "insert_aux t mb l =
     (let other = (\<lambda>b. mb_data_type b \<noteq> t); r = dropWhile other (rev l) in
      if r = [] then mb # l else rev r @ mb # rev (takeWhile other (rev l)))"

text \<open>\<open>None\<close> is a failed assertion; the result is \<open>-1\<close> or \<open>0\<close>.\<close>

definition mb_enqueue_no_block :: "qid \<Rightarrow> media_buf \<Rightarrow> mb_type option \<Rightarrow> locked \<Rightarrow> (int \<times> locked) option" where
  "mb_enqueue_no_block q mb auxtype mp =
     (if mb_data_type mb = MB_CTRL \<or> above_ctrl (mb_data_type mb) then None
      else
        let mp = enqueue_enter mp in
        if mp_buffer_limit mp < mp_buffer_current mp + mb_size mb \<and> mq_packets_current (queue_of q mp) < 5
        then Some (-1, mp)
        else
          let mb = mb\<lparr>mb_epoch := mp_epoch mp\<rparr> in
          Some (0, mq_update_stats (account q mb (upd_queue q (\<lambda>mq.
            case auxtype of
              Some t \<Rightarrow> mq\<lparr>mq_q_aux := insert_aux t mb (mq_q_aux mq)\<rparr>
            | None \<Rightarrow> mq\<lparr>mq_q_data := mq_q_data mq @ [mb]\<rparr>) mp))))"

definition mp_wait_for_empty_queues :: "locked \<Rightarrow> event option waiting" where
  "mp_wait_for_empty_queues mp =
     (case mp_eq mp of
        e # es \<Rightarrow> Return (Some e) (mp\<lparr>mp_eq := es\<rparr>)
      | [] \<Rightarrow>
          if mq_q_data (mp_audio mp) \<noteq> [] \<or> mq_q_data (mp_video mp) \<noteq> [] then Wait mp else Return None mp)"

definition mp_dequeue_event :: "locked \<Rightarrow> event waiting" where
  "mp_dequeue_event mp = (case mp_eq mp of e # es \<Rightarrow> Return e (mp\<lparr>mp_eq := es\<rparr>) | [] \<Rightarrow> Wait mp)"

definition mp_bump_epoch :: "locked \<Rightarrow> locked" where
  "mp_bump_epoch mp = mp\<lparr>mp_epoch := mp_epoch mp + 1\<rparr>"

definition mp_set_clr_flags :: "u32 \<Rightarrow> u32 \<Rightarrow> locked \<Rightarrow> locked" where
  "mp_set_clr_flags st clr mp = mp\<lparr>mp_flags := (mp_flags mp AND NOT clr) OR st\<rparr>"

datatype buffer_size = MP_BUFFER_NONE | MP_BUFFER_SHALLOW | MP_BUFFER_DEEP | MP_BUFFER_OTHER

definition mp_configure :: "u32 \<Rightarrow> buffer_size \<Rightarrow> int \<Rightarrow> locked \<Rightarrow> locked" where
  "mp_configure flags bsize duration mp =
     (let mp = mp\<lparr>mp_prop_playstatus := ''play'', mp_max_realtime_delay := 0x7fffffff\<rparr>;
          mp = mp_set_clr_flags flags
                 (MP_PRE_BUFFERING OR MP_FLUSH_ON_HOLD OR MP_ALWAYS_SATISFIED OR MP_CAN_SEEK OR MP_CAN_PAUSE OR
                  MP_CAN_EJECT) mp;
          mp = (case bsize of
                  MP_BUFFER_NONE \<Rightarrow> mp\<lparr>mp_buffer_limit := 0\<rparr>
                | MP_BUFFER_SHALLOW \<Rightarrow> mp\<lparr>mp_buffer_limit := 1024 * 1024\<rparr>
                | MP_BUFFER_DEEP \<Rightarrow> mp\<lparr>mp_buffer_limit := 32 * 1024 * 1024\<rparr>
                | MP_BUFFER_OTHER \<Rightarrow> mp);
          mp = mp\<lparr>mp_duration := (if duration = PTS_UNSET then 0 else duration)\<rparr>
      in if has_flag (mp_flags mp) MP_PRE_BUFFERING then mp_check_underrun mp else mp)"

section \<open>Events and seeking\<close>

definition at_or_after :: "int \<Rightarrow> media_buf \<Rightarrow> bool" where
  "at_or_after pos mb \<longleftrightarrow> mb_pts mb \<noteq> PTS_UNSET \<and> pos \<le> mb_pts mb"

fun find_audio :: "int \<Rightarrow> nat \<Rightarrow> media_buf list \<Rightarrow> nat option" where
  "find_audio pos i [] = None"
| "find_audio pos i (mb # l) = (if at_or_after pos mb then Some i else find_audio pos (i + 1) l)"

text \<open>The index of the first packet at the position, and of the last key frame up to it.\<close>

fun find_video :: "int \<Rightarrow> nat \<Rightarrow> nat option \<Rightarrow> media_buf list \<Rightarrow> (nat \<times> nat option) option" where
  "find_video pos i vk [] = None"
| "find_video pos i vk (mb # l) =
     (let vk = (if mb_keyframe mb then Some i else vk) in
      if at_or_after pos mb then Some (i, vk) else find_video pos (i + 1) vk l)"

fun drop_packets :: "qid \<Rightarrow> nat \<Rightarrow> locked \<Rightarrow> locked" where
  "drop_packets q 0 mp = mp"
| "drop_packets q (Suc n) mp =
     (case mq_q_data (queue_of q mp) of
        [] \<Rightarrow> mp
      | mb # l \<Rightarrow> drop_packets q n (unaccount q mb (upd_queue q (\<lambda>mq. mq\<lparr>mq_q_data := l\<rparr>) mp)))"

definition mark_skipped :: "nat \<Rightarrow> media_buf list \<Rightarrow> media_buf list" where
  "mark_skipped n l = map (\<lambda>mb. mb\<lparr>mb_skip := True\<rparr>) (take n l) @ drop n l"

definition update_epoch_in_queue :: "u32 \<Rightarrow> media_buf list \<Rightarrow> media_buf list" where
  "update_epoch_in_queue epoch l = map (\<lambda>mb. mb\<lparr>mb_epoch := epoch\<rparr>) l"

text \<open>\<open>True\<close> is the result 0: the target was in the queues.\<close>

definition mp_seek_in_queues :: "int \<Rightarrow> locked \<Rightarrow> bool \<times> locked" where
  "mp_seek_in_queues pos mp =
     (case find_audio pos 0 (mq_q_data (mp_audio mp)) of
        None \<Rightarrow> (False, mp)
      | Some a \<Rightarrow>
          (case find_video pos 0 None (mq_q_data (mp_video mp)) of
             Some (v, Some k) \<Rightarrow>
               (let mp = mq_update_stats (drop_packets Audio a mp);
                    mp = mq_update_stats (drop_packets Video k mp);
                    mp = upd_queue Video (\<lambda>mq. mq\<lparr>mq_q_data := mark_skipped (v - k) (mq_q_data mq)\<rparr>) mp;
                    ep = mp_epoch mp;
                    mp = upd_queue Audio (\<lambda>mq. mq\<lparr>mq_q_data := update_epoch_in_queue ep (mq_q_data mq)\<rparr>) mp;
                    mp = upd_queue Video (\<lambda>mq. mq\<lparr>mq_q_data := update_epoch_in_queue ep (mq_q_data mq),
                                                   mq_q_aux := update_epoch_in_queue ep (mq_q_aux mq)\<rparr>) mp;
                    mp = mb_enq Video (ctrl_buf MB_CTRL_FLUSH 0) mp;
                    mp = mb_enq Audio (ctrl_buf MB_CTRL_FLUSH 0) mp
                in (True, mp_check_underrun mp))
           | _ \<Rightarrow> (False, mp)))"

fun update_seek :: "int \<Rightarrow> event list \<Rightarrow> event list option" where
  "update_seek ts [] = None"
| "update_seek ts (EVENT_SEEK t # es) = Some (EVENT_SEEK ts # es)"
| "update_seek ts (e # es) = map_option ((#) e) (update_seek ts es)"

definition mp_direct_seek :: "int \<Rightarrow> locked \<Rightarrow> locked" where
  "mp_direct_seek ts mp =
     (if \<not> has_flag (mp_flags mp) MP_CAN_SEEK then mp
      else
        let ts = max ts 0;
            mp = mp\<lparr>mp_epoch := mp_epoch mp + 1, mp_seek_base := ts\<rparr>;
            (found, mp) = mp_seek_in_queues (ts + mp_start_time mp) mp
        in if found then mp
           else case update_seek ts (mp_eq mp) of
                  Some es \<Rightarrow> mp\<lparr>mp_eq := es\<rparr>
                | None \<Rightarrow> mp_event_dispatch (EVENT_SEEK ts) mp)"

definition event_is_action :: "event \<Rightarrow> action \<Rightarrow> bool" where
  "event_is_action e a \<longleftrightarrow> (case e of EVENT_ACTION_VECTOR as \<Rightarrow> a \<in> set as | _ \<Rightarrow> False)"

definition action_update_hold_by_event :: "bool \<Rightarrow> event \<Rightarrow> bool" where
  "action_update_hold_by_event hold e \<longleftrightarrow>
     (if event_is_action e ACTION_PLAYPAUSE then \<not> hold
      else event_is_action e ACTION_PAUSE)"

text \<open>Only the latest of these events is kept in the queue.\<close>

fun same_dedup_type :: "event \<Rightarrow> event \<Rightarrow> bool" where
  "same_dedup_type (EVENT_SELECT_AUDIO_TRACK _) (EVENT_SELECT_AUDIO_TRACK _) \<longleftrightarrow> True"
| "same_dedup_type (EVENT_SELECT_SUBTITLE_TRACK _) (EVENT_SELECT_SUBTITLE_TRACK _) \<longleftrightarrow> True"
| "same_dedup_type (EVENT_PLAYQUEUE_JUMP _) (EVENT_PLAYQUEUE_JUMP _) \<longleftrightarrow> True"
| "same_dedup_type _ _ \<longleftrightarrow> False"

fun remove_first :: "('a \<Rightarrow> bool) \<Rightarrow> 'a list \<Rightarrow> 'a list" where
  "remove_first P [] = []"
| "remove_first P (x # xs) = (if P x then xs else x # remove_first P xs)"

definition MP_SKIP_LIMIT :: int where
  "MP_SKIP_LIMIT = 3000000"

text \<open>The events that the pipe passes on to the demuxer.\<close>

definition forward_event :: "event \<Rightarrow> locked \<Rightarrow> locked" where
  "forward_event e mp =
     (if event_is_action e ACTION_SKIP_BACKWARD \<and> MP_SKIP_LIMIT \<le> mp_seek_base mp \<and>
         has_flag (mp_flags mp) MP_CAN_SEEK
      then mp_direct_seek 0 mp
      else
        let mp = (if event_is_action e ACTION_STOP \<or> event_is_action e ACTION_EJECT
                  then mp\<lparr>mp_prop_playstatus := ''stop''\<rparr> else mp);
            mp = (if (case e of EVENT_PLAYQUEUE_JUMP _ \<Rightarrow> True | EVENT_EXIT \<Rightarrow> True | _ \<Rightarrow> False) \<or> event_is_action e ACTION_STOP \<or>
                     event_is_action e ACTION_SKIP_FORWARD \<or> event_is_action e ACTION_SKIP_BACKWARD
                  then mp\<lparr>mp_cancelled := map_option (\<lambda>_. True) (mp_cancelled mp)\<rparr> else mp)
        in mp_event_dispatch e mp)"

text \<open>C's division of integers.\<close>

definition c_div :: "int \<Rightarrow> int \<Rightarrow> int" where
  "c_div a b = sgn a * sgn b * (\<bar>a\<bar> div \<bar>b\<bar>)"

text \<open>\<open>select\<close> tells whether the manager of the tracks takes the event, \<open>back\<close> and \<open>fwd\<close> are the steps of the
  settings in seconds. Statistics, shuffle, repeat, the change of tracks and the volume are properties and
  settings outside of the pipe. \<open>None\<close> is a division by zero.\<close>

definition mp_enqueue_event_locked :: "(event \<Rightarrow> bool) \<Rightarrow> int \<Rightarrow> int \<Rightarrow> event \<Rightarrow> locked \<Rightarrow> locked option" where
  "mp_enqueue_event_locked select back fwd e mp =
     (case e of
        EVENT_DELTA_SEEK_REL pre sign rate \<Rightarrow>
          if rate = 0 then None
          else
            let d = c_div (pre * pre * mp_duration mp) (rate * 2 * 255 * 255);
                ts = mp_seek_base mp + d * sign
            in Some (mp_direct_seek ts (mp\<lparr>mp_seek_base := ts\<rparr>))
      | _ \<Rightarrow>
          if (case e of EVENT_SELECT_AUDIO_TRACK _ \<Rightarrow> select e | EVENT_SELECT_SUBTITLE_TRACK _ \<Rightarrow> select e
              | _ \<Rightarrow> False) then Some mp
          else
            let mp = mp\<lparr>mp_eq := remove_first (same_dedup_type e) (mp_eq mp)\<rparr> in
            Some
             (if event_is_action e ACTION_PLAYPAUSE \<or> event_is_action e ACTION_PLAY \<or> event_is_action e ACTION_PAUSE then
                mp_set_playstatus_by_hold_locked None
                  (if action_update_hold_by_event (has_flag (mp_hold_flags mp) MP_HOLD_PAUSE) e
                   then mp\<lparr>mp_hold_flags := mp_hold_flags mp OR MP_HOLD_PAUSE\<rparr>
                   else mp\<lparr>mp_hold_flags := mp_hold_flags mp AND NOT MP_HOLD_PAUSE\<rparr>)
              else case e of
                EVENT_INTERNAL_PAUSE msg \<Rightarrow>
                  mp_set_playstatus_by_hold_locked (Some msg)
                    (mp\<lparr>mp_hold_flags := mp_hold_flags mp OR MP_HOLD_PAUSE\<rparr>)
              | _ \<Rightarrow>
                  if event_is_action e ACTION_SEEK_BACKWARD then mp_direct_seek (mp_seek_base mp - 1000000 * back) mp
                  else if event_is_action e ACTION_SEEK_FORWARD then mp_direct_seek (mp_seek_base mp + 1000000 * fwd) mp
                  else if list_ex (event_is_action e)
                    [ACTION_SHOW_MEDIA_STATS, ACTION_SHUFFLE, ACTION_REPEAT, ACTION_CYCLE_AUDIO,
                     ACTION_CYCLE_SUBTITLE, ACTION_VOLUME_UP, ACTION_VOLUME_DOWN] then mp
                  else forward_event e mp))"

text \<open>The position that a decoder reports.\<close>

definition mp_set_current_time :: "(event \<Rightarrow> bool) \<Rightarrow> int \<Rightarrow> int \<Rightarrow> int \<Rightarrow> u32 \<Rightarrow> int \<Rightarrow> locked \<Rightarrow> locked option" where
  "mp_set_current_time select back fwd ts epoch delta mp =
     (if ts = PTS_UNSET then Some mp
      else if epoch = mp_epoch mp
        then mp_enqueue_event_locked select back fwd (EVENT_CURRENT_TIME (ts - delta) epoch)
               (mp\<lparr>mp_seek_base := ts - delta\<rparr>)
      else Some mp)"

text \<open>\<open>None\<close> is a call of the callback \<^verbatim>\<open>NULL\<close>.\<close>

definition mp_event_set_callback :: "(event \<Rightarrow> bool) option \<Rightarrow> locked \<Rightarrow> locked option" where
  "mp_event_set_callback cb mp =
     (if Option.is_none cb \<and> mp_eq mp \<noteq> [] then None else Some (mp\<lparr>mp_eq := [], mp_handle_event := cb\<rparr>))"

section \<open>Decoders\<close>

text \<open>The packet that a decoder takes from its queue, if any. \<open>Again\<close> is the packet that the codec of the video
  decoder has refused before, \<open>Sleep\<close> the wait for \<^verbatim>\<open>mq_avail\<close>.\<close>

datatype pick = Pick media_buf | Again media_buf | Sleep

record video_decoder =
  vd_hold :: bool
  vd_run :: bool
  vd_subpts :: int
  vd_cur :: "media_buf option"

definition take_ctrl :: "qid \<Rightarrow> locked \<Rightarrow> locked" where
  "take_ctrl q mp = upd_queue q (\<lambda>mq. mq\<lparr>mq_q_ctrl := tl (mq_q_ctrl mq)\<rparr>) mp"

definition take_aux :: "qid \<Rightarrow> locked \<Rightarrow> locked" where
  "take_aux q mp = upd_queue q (\<lambda>mq. mq\<lparr>mq_q_aux := tl (mq_q_aux mq)\<rparr>) mp"

definition take_data :: "qid \<Rightarrow> locked \<Rightarrow> locked" where
  "take_data q mp = mp_check_underrun (upd_queue q (\<lambda>mq. mq\<lparr>mq_q_data := tl (mq_q_data mq)\<rparr>) mp)"

definition vd_take :: "video_decoder \<Rightarrow> locked \<Rightarrow> pick \<times> locked" where
  "vd_take vd mp =
     (let mq = mp_video mp;
          due = (case mq_q_aux mq of [] \<Rightarrow> False | aux # _ \<Rightarrow> mb_pts aux < vd_subpts vd + 1000000)
      in case mq_q_ctrl mq of
           ctrl # _ \<Rightarrow> (Pick ctrl, mq_update_stats (unaccount Video ctrl (take_ctrl Video mp)))
         | [] \<Rightarrow>
             if due then
               if vd_hold vd then (Sleep, mp)
               else (Pick (hd (mq_q_aux mq)), mq_update_stats (unaccount Video (hd (mq_q_aux mq)) (take_aux Video mp)))
             else case vd_cur vd of
               Some cur \<Rightarrow> if vd_hold vd then (Sleep, mp) else (Again cur, mp)
             | None \<Rightarrow>
                 (case mq_q_data mq of
                    data # _ \<Rightarrow>
                      if vd_hold vd then (Sleep, mp)
                      else (Pick data, mq_update_stats (unaccount Video data (take_data Video mp)))
                  | [] \<Rightarrow> (Sleep, mp)))"

text \<open>What the packet does to the decoder and the pipe. \<open>is_locked\<close> tells that the codec decodes with the lock held
  (\<^verbatim>\<open>decode_locked\<close>), \<open>refuses\<close> that it then returns non-zero. \<open>None\<close> is \<^verbatim>\<open>abort\<close>. Packets for DVD menus are
  compiled in only with \<^verbatim>\<open>ENABLE_DVD\<close>.\<close>

definition set_interest :: "bool \<Rightarrow> locked \<Rightarrow> locked" where
  "set_interest b mp = upd_queue Video (\<lambda>mq. mq\<lparr>mq_no_data_interest := b\<rparr>) mp"

definition vd_process :: "bool \<Rightarrow> bool \<Rightarrow> media_buf \<Rightarrow> video_decoder \<Rightarrow> locked \<Rightarrow> (video_decoder \<times> locked) option" where
  "vd_process is_locked refuses mb vd mp =
     (case mb_data_type mb of
        MB_VIDEO \<Rightarrow>
          Some (if is_locked then
                  if refuses then (vd\<lparr>vd_cur := Some mb\<rparr>, set_interest True mp)
                  else (vd\<lparr>vd_cur := None\<rparr>, set_interest False mp)
                else (vd, mp))
      | MB_CTRL_EXIT \<Rightarrow> Some (vd\<lparr>vd_run := False, vd_cur := None\<rparr>, set_interest False mp)
      | MB_CTRL_PAUSE \<Rightarrow> Some (vd\<lparr>vd_hold := True\<rparr>, mp)
      | MB_CTRL_PLAY \<Rightarrow> Some (vd\<lparr>vd_hold := False\<rparr>, mp)
      | MB_CTRL_FLUSH \<Rightarrow>
          Some (if vd_cur vd \<noteq> None then (vd\<lparr>vd_cur := None\<rparr>, set_interest False mp) else (vd, mp))
      | MB_CTRL_REQ_OUTPUT_SIZE \<Rightarrow> Some (vd, mp)
      | MB_CTRL_REINITIALIZE \<Rightarrow> Some (vd, mp)
      | MB_CTRL_RECONFIGURE \<Rightarrow> Some (vd, mp)
      | MB_CTRL_DVD_SPU2 \<Rightarrow> Some (vd, mp)
      | MB_SUBTITLE \<Rightarrow> Some (vd, mp)
      | MB_CTRL_FLUSH_SUBTITLES \<Rightarrow> Some (vd, mp)
      | MB_CTRL_EXT_SUBTITLE \<Rightarrow> Some (vd, mp)
      | _ \<Rightarrow> None)"

text \<open>The audio decoder releases the lock while it works on a packet, \<open>ad_work\<close>.\<close>

record audio_decoder =
  ad_paused :: bool
  ad_run :: bool
  ad_blocked :: bool
  ad_work :: "media_buf option"

definition ad_finish :: "audio_decoder \<Rightarrow> locked \<Rightarrow> audio_decoder \<times> locked" where
  "ad_finish ad mp = (ad, mq_update_stats mp)"

definition put_back :: "media_buf \<Rightarrow> locked \<Rightarrow> locked" where
  "put_back mb mp = account Audio mb (upd_queue Audio (\<lambda>mq. mq\<lparr>mq_q_data := mb # mq_q_data mq\<rparr>) mp)"

text \<open>\<open>is_full\<close> tells that enough samples for the output are decoded, \<open>coded\<close> that packets are delivered without
  decoding, \<open>refuses\<close> what the output returns for a tile of samples or a coded packet, \<open>dlv_locked\<close> that it is
  called with the lock held. \<open>None\<close> is a failed assertion.\<close>

definition ad_handle :: "bool \<Rightarrow> bool \<Rightarrow> media_buf \<Rightarrow> audio_decoder \<Rightarrow> locked \<Rightarrow> (audio_decoder \<times> locked) option" where
  "ad_handle coded refuses mb ad mp =
     (if mb_data_type mb = MB_CTRL_UNBLOCK then
        if ad_blocked ad then Some (ad_finish (ad\<lparr>ad_blocked := False\<rparr>) mp) else None
      else if coded \<and> mb_data_type mb = MB_AUDIO then
        if \<not> mb_skip mb \<and> mb_stream mb = mq_stream (mp_audio mp) \<and> refuses then Some (ad, put_back mb mp)
        else Some (ad_finish ad mp)
      else Some (ad\<lparr>ad_work := Some mb\<rparr>, mp))"

definition ad_take :: "bool \<Rightarrow> bool \<Rightarrow> bool \<Rightarrow> bool \<Rightarrow> audio_decoder \<Rightarrow> locked \<Rightarrow> (audio_decoder \<times> locked) option" where
  "ad_take is_full coded dlv_locked refuses ad mp =
     (let mq = mp_audio mp in
      if is_full \<and> \<not> ad_blocked ad \<and> \<not> ad_paused ad \<and> mq_q_ctrl mq = [] then
        Some (if dlv_locked then ad else ad\<lparr>ad_blocked := refuses\<rparr>, mp)
      else case mq_q_ctrl mq of
        ctrl # _ \<Rightarrow> ad_handle coded refuses ctrl ad (unaccount Audio ctrl (take_ctrl Audio mp))
      | [] \<Rightarrow>
          (case mq_q_data mq of
             data # _ \<Rightarrow>
               if is_full then Some (ad, mp)
               else ad_handle coded refuses data ad (unaccount Audio data (take_data Audio mp))
           | [] \<Rightarrow> Some (ad, mp)))"

text \<open>The end of the work: \<open>left\<close> is the number of bytes of a packet that are still to be decoded.\<close>

definition ad_process :: "u32 \<Rightarrow> media_buf \<Rightarrow> audio_decoder \<Rightarrow> locked \<Rightarrow> (audio_decoder \<times> locked) option" where
  "ad_process left mb ad mp =
     (let ad = ad\<lparr>ad_work := None\<rparr> in
      case mb_data_type mb of
        MB_AUDIO \<Rightarrow>
          Some (if left \<noteq> 0 then (ad, put_back (mb\<lparr>mb_size := left\<rparr>) mp) else ad_finish ad mp)
      | MB_SET_PROP_STRING \<Rightarrow> Some (ad_finish ad mp)
      | MB_CTRL_SET_VOLUME_MULTIPLIER \<Rightarrow> Some (ad_finish ad mp)
      | MB_CTRL_PAUSE \<Rightarrow> Some (ad_finish (ad\<lparr>ad_paused := True\<rparr>) mp)
      | MB_CTRL_PLAY \<Rightarrow> Some (ad_finish (ad\<lparr>ad_paused := False\<rparr>) mp)
      | MB_CTRL_FLUSH \<Rightarrow> Some (ad_finish ad mp)
      | MB_CTRL_EXIT \<Rightarrow> Some (ad_finish (ad\<lparr>ad_run := False\<rparr>) mp)
      | _ \<Rightarrow> None)"

section \<open>All pipes\<close>

text \<open>The pipes of the program, by their address; \<open>mp_live\<close> are the addresses that are allocated.\<close>

record media =
  hungry :: int
  media_pipelines :: "nat list"
  media_primary :: "nat option"
  mp_live :: "nat set"
  mp_at :: "nat \<Rightarrow> media_pipe"

definition empty_queue :: media_queue where
  "empty_queue = \<lparr>mq_q_data = [], mq_q_ctrl = [], mq_q_aux = [], mq_packets_current = 0, mq_stream = -1,
     mq_stream2 = 0, mq_no_data_interest = False, mq_buffer_delay = 0\<rparr>"

definition new_pipe :: "u32 \<Rightarrow> media_pipe" where
  "new_pipe flags = \<lparr>mp_refcount = 1, mp_flags = flags, mp_eof = False, mp_hold_flags = 0, mp_hold_gate = False,
     mp_pre_buffer_delay = 0, mp_buffer_current = 0, mp_buffer_delay = 0, mp_buffer_limit = 1024 * 1024,
     mp_max_realtime_delay = 0, mp_satisfied = -1, mp_video = empty_queue, mp_audio = empty_queue, mp_eq = [],
     mp_handle_event = None, mp_seek_base = 0, mp_start_time = 0, mp_duration = 0, mp_epoch = 1,
     mp_cancelled = None, mp_prop_playstatus = '''', mp_prop_pausereason = None\<rparr>"

definition mp_create :: "nat \<Rightarrow> u32 \<Rightarrow> media \<Rightarrow> media" where
  "mp_create p flags m =
     m\<lparr>media_pipelines := p # media_pipelines m, mp_live := insert p (mp_live m), mp_at := (mp_at m)(p := new_pipe flags)\<rparr>"

text \<open>An operation on the pipe at an address, with the lock held.\<close>

definition lock_mp :: "nat \<Rightarrow> media \<Rightarrow> locked" where
  "lock_mp p m = media_pipe.extend (mp_at m p) \<lparr>media_buffer_hungry = hungry m\<rparr>"

definition unlock_mp :: "nat \<Rightarrow> locked \<Rightarrow> media \<Rightarrow> media" where
  "unlock_mp p l m = m\<lparr>hungry := media_buffer_hungry l, mp_at := (mp_at m)(p := media_pipe.truncate l)\<rparr>"

definition with_mp :: "nat \<Rightarrow> (locked \<Rightarrow> locked) \<Rightarrow> media \<Rightarrow> media" where
  "with_mp p f m = unlock_mp p (f (lock_mp p m)) m"

definition mp_retain :: "nat \<Rightarrow> media \<Rightarrow> media" where
  "mp_retain p m = with_mp p (\<lambda>mp. mp\<lparr>mp_refcount := mp_refcount mp + 1\<rparr>) m"

text \<open>The last reference frees the pipe: \<open>None\<close> is a failed assertion.\<close>

definition mp_release :: "nat \<Rightarrow> media \<Rightarrow> media option" where
  "mp_release p m =
     (let m = with_mp p (\<lambda>mp. mp\<lparr>mp_refcount := mp_refcount mp - 1\<rparr>) m in
      if mp_refcount (mp_at m p) \<noteq> 0 then Some m
      else if media_primary m = Some p then None
      else
        let m = with_mp p (\<lambda>mp. mq_flush Video True (mq_flush Audio True (mp\<lparr>mp_eq := []\<rparr>))) m;
            m = with_mp p (\<lambda>mp. if mp_satisfied mp = 0
                                then mp\<lparr>media_buffer_hungry := media_buffer_hungry mp - 1\<rparr> else mp) m
        in Some (m\<lparr>mp_live := mp_live m - {p}\<rparr>))"

text \<open>The pipe that was primary before is sent the event that stops it.\<close>

definition mp_become_primary :: "(event \<Rightarrow> bool) \<Rightarrow> int \<Rightarrow> int \<Rightarrow> nat \<Rightarrow> media \<Rightarrow> media option" where
  "mp_become_primary select back fwd p m =
     (if media_primary m = Some p then Some m
      else if \<not> has_flag (mp_flags (mp_at m p)) MP_PRIMABLE then None
      else do {
        m \<leftarrow> (case media_primary m of
               Some old \<Rightarrow>
                 map_option (\<lambda>l. unlock_mp old l m)
                   (mp_enqueue_event_locked select back fwd (EVENT_ACTION_VECTOR [ACTION_STOP]) (lock_mp old m))
             | None \<Rightarrow> Some m);
        Some ((mp_retain p m)\<lparr>media_primary := Some p\<rparr>)
      })"

definition mp_unbecome_primary :: "nat \<Rightarrow> media \<Rightarrow> media option" where
  "mp_unbecome_primary p m =
     (if \<not> has_flag (mp_flags (mp_at m p)) MP_PRIMABLE then None
      else if media_primary m = Some p then mp_release p (m\<lparr>media_primary := None\<rparr>)
      else Some m)"

definition mp_destroy :: "nat \<Rightarrow> media \<Rightarrow> media option" where
  "mp_destroy p m =
     do {
       m \<leftarrow> mp_unbecome_primary p (m\<lparr>media_pipelines := remove1 p (media_pipelines m)\<rparr>);
       mp_release p m
     }"

definition mp_shutdown :: "nat \<Rightarrow> media \<Rightarrow> media option" where
  "mp_shutdown p m = mp_unbecome_primary p (with_mp p (mp_flush_locked True) m)"

text \<open>The pipes are retained for the loop over them.\<close>

fun hold_loop :: "(locked \<Rightarrow> locked) \<Rightarrow> nat list \<Rightarrow> media \<Rightarrow> media option" where
  "hold_loop f [] m = Some m"
| "hold_loop f (p # ps) m = do { m \<leftarrow> mp_release p (with_mp p f m); hold_loop f ps m }"

definition media_global_hold :: "bool \<Rightarrow> u32 \<Rightarrow> media \<Rightarrow> media option" where
  "media_global_hold on flag m =
     hold_loop (if on then mp_hold flag None else mp_unhold flag) (media_pipelines m)
       (fold mp_retain (media_pipelines m) m)"

end
