(* ===== verification/Media_Run.thy ===== *)
theory Media_Run
  imports Media
begin

text \<open>
  What the operations of the media pipe keep: the numbers of packets and bytes match the queues, every packet is
  in a queue for its type, the counter of hungry pipes counts them, and a pipe is held exactly when there is a
  reason. The relation \<open>conserves\<close> collects what an operation leaves unchanged, and is shown for the steps from
  which the operations are composed.
\<close>

section \<open>The books\<close>

definition packets_of :: "media_queue \<Rightarrow> media_buf list" where
  "packets_of mq = mq_q_data mq @ mq_q_ctrl mq @ mq_q_aux mq"

definition bytes_of :: "media_buf list \<Rightarrow> u32" where
  "bytes_of l = sum_list (map mb_size l)"

lemma bytes_of_simps [simp]:
  "bytes_of [] = 0" "bytes_of (mb # l) = mb_size mb + bytes_of l" "bytes_of (l @ l') = bytes_of l + bytes_of l'"
  by (simp_all add: bytes_of_def)

text \<open>What the books show beyond the packets that are in the queues.\<close>

definition excess :: "qid \<Rightarrow> 'a media_pipe_scheme \<Rightarrow> u32" where
  "excess q mp = mq_packets_current (queue_of q mp) - of_nat (length (packets_of (queue_of q mp)))"

definition excess_bytes :: "'a media_pipe_scheme \<Rightarrow> u32" where
  "excess_bytes mp =
     mp_buffer_current mp - (bytes_of (packets_of (mp_video mp)) + bytes_of (packets_of (mp_audio mp)))"

text \<open>The hungry pipes other than this one.\<close>

definition others_hungry :: "locked \<Rightarrow> int" where
  "others_hungry mp = media_buffer_hungry mp - of_bool (mp_satisfied mp = 0)"

definition queue_typed :: "media_queue \<Rightarrow> bool" where
  "queue_typed mq \<longleftrightarrow>
     (\<forall>mb \<in> set (mq_q_data mq @ mq_q_aux mq). \<not> above_ctrl (mb_data_type mb)) \<and>
     (\<forall>mb \<in> set (mq_q_ctrl mq). above_ctrl (mb_data_type mb))"

definition typed :: "'a media_pipe_scheme \<Rightarrow> bool" where
  "typed mp \<longleftrightarrow> queue_typed (mp_video mp) \<and> queue_typed (mp_audio mp)"

definition conserves :: "locked \<Rightarrow> locked \<Rightarrow> bool" where
  "conserves mp mp' \<longleftrightarrow>
     excess Video mp' = excess Video mp \<and> excess Audio mp' = excess Audio mp \<and>
     excess_bytes mp' = excess_bytes mp \<and> others_hungry mp' = others_hungry mp \<and>
     (typed mp \<longrightarrow> typed mp') \<and> mp_refcount mp' = mp_refcount mp"

lemma conserves_refl [simp, intro]: "conserves mp mp"
  by (simp add: conserves_def)

lemma conserves_trans [trans]: "conserves a b \<Longrightarrow> conserves b c \<Longrightarrow> conserves a c"
  by (simp add: conserves_def)

lemmas books_defs = conserves_def excess_def excess_bytes_def others_hungry_def typed_def queue_typed_def packets_of_def

lemma packets_of_update [simp]:
  "packets_of (mq\<lparr>mq_packets_current := n\<rparr>) = packets_of mq" "packets_of (mq\<lparr>mq_no_data_interest := b\<rparr>) = packets_of mq"
  by (simp_all add: packets_of_def)

lemma queue_typed_update [simp]:
  "queue_typed (mq\<lparr>mq_packets_current := n\<rparr>) = queue_typed mq" "queue_typed (mq\<lparr>mq_no_data_interest := b\<rparr>) = queue_typed mq"
  by (simp_all add: queue_typed_def)

section \<open>Steps\<close>

named_theorems conserved \<open>operations that keep the books\<close>

lemma delay_keeps [simp]:
  "mq_q_data (snd (mq_get_buffer_delay mq)) = mq_q_data mq" "mq_q_ctrl (snd (mq_get_buffer_delay mq)) = mq_q_ctrl mq"
  "mq_q_aux (snd (mq_get_buffer_delay mq)) = mq_q_aux mq"
  "mq_packets_current (snd (mq_get_buffer_delay mq)) = mq_packets_current mq"
  "mq_stream (snd (mq_get_buffer_delay mq)) = mq_stream mq"
  by (auto simp: mq_get_buffer_delay_def Let_def split: list.split)

text \<open>What does not depend on the level of the buffers is left alone by the statistics.\<close>

lemma update_delay_fields [simp]:
  "mp_video (mp_update_buffer_delay mp) = snd (mq_get_buffer_delay (mp_video mp))"
  "mp_audio (mp_update_buffer_delay mp) = snd (mq_get_buffer_delay (mp_audio mp))"
  "mp_buffer_current (mp_update_buffer_delay mp) = mp_buffer_current mp"
  "mp_satisfied (mp_update_buffer_delay mp) = mp_satisfied mp"
  "media_buffer_hungry (mp_update_buffer_delay mp) = media_buffer_hungry mp"
  "mp_refcount (mp_update_buffer_delay mp) = mp_refcount mp"
  "mp_flags (mp_update_buffer_delay mp) = mp_flags mp" "mp_eq (mp_update_buffer_delay mp) = mp_eq mp"
  "mp_hold_flags (mp_update_buffer_delay mp) = mp_hold_flags mp"
  "mp_hold_gate (mp_update_buffer_delay mp) = mp_hold_gate mp" "mp_epoch (mp_update_buffer_delay mp) = mp_epoch mp"
  "mp_buffer_limit (mp_update_buffer_delay mp) = mp_buffer_limit mp"
  "mp_handle_event (mp_update_buffer_delay mp) = mp_handle_event mp"
  by (simp_all add: mp_update_buffer_delay_def split: prod.split)

lemma set_satisfied_fields [simp]:
  "mp_video (set_satisfied b mp) = mp_video mp" "mp_audio (set_satisfied b mp) = mp_audio mp"
  "mp_buffer_current (set_satisfied b mp) = mp_buffer_current mp" "mp_refcount (set_satisfied b mp) = mp_refcount mp"
  "mp_flags (set_satisfied b mp) = mp_flags mp" "mp_eq (set_satisfied b mp) = mp_eq mp"
  "mp_hold_flags (set_satisfied b mp) = mp_hold_flags mp" "mp_hold_gate (set_satisfied b mp) = mp_hold_gate mp"
  "mp_epoch (set_satisfied b mp) = mp_epoch mp" "mp_buffer_limit (set_satisfied b mp) = mp_buffer_limit mp"
  "mp_handle_event (set_satisfied b mp) = mp_handle_event mp"
  "others_hungry (set_satisfied b mp) = others_hungry mp"
  by (simp_all add: set_satisfied_def others_hungry_def)

lemma update_stats_fields [simp]:
  "mp_video (mq_update_stats mp) = snd (mq_get_buffer_delay (mp_video mp))"
  "mp_audio (mq_update_stats mp) = snd (mq_get_buffer_delay (mp_audio mp))"
  "mp_buffer_current (mq_update_stats mp) = mp_buffer_current mp" "mp_refcount (mq_update_stats mp) = mp_refcount mp"
  "mp_flags (mq_update_stats mp) = mp_flags mp" "mp_eq (mq_update_stats mp) = mp_eq mp"
  "mp_hold_flags (mq_update_stats mp) = mp_hold_flags mp" "mp_hold_gate (mq_update_stats mp) = mp_hold_gate mp"
  "mp_epoch (mq_update_stats mp) = mp_epoch mp" "mp_buffer_limit (mq_update_stats mp) = mp_buffer_limit mp"
  "mp_handle_event (mq_update_stats mp) = mp_handle_event mp"
  by (simp_all add: mq_update_stats_def)

lemma update_delay_conserves [conserved]: "conserves mp (mp_update_buffer_delay mp)"
  by (simp add: books_defs)

lemma update_stats_conserves [conserved]: "conserves mp (mq_update_stats mp)"
proof -
  have "others_hungry (mq_update_stats mp) = others_hungry mp"
    unfolding mq_update_stats_def by (subst others_hungry_def) (simp flip: others_hungry_def)
  then show ?thesis by (simp add: books_defs)
qed

text \<open>A packet that enters a list and the books at once.\<close>

definition fits :: "media_buf \<Rightarrow> (media_queue \<Rightarrow> media_queue) \<Rightarrow> bool" where
  "fits mb f \<longleftrightarrow>
     (\<forall>mq. length (packets_of (f mq)) = Suc (length (packets_of mq)) \<and>
           bytes_of (packets_of (f mq)) = mb_size mb + bytes_of (packets_of mq) \<and>
           mq_packets_current (f mq) = mq_packets_current mq \<and> (queue_typed mq \<longrightarrow> queue_typed (f mq)))"

lemma account_conserves: "fits mb f \<Longrightarrow> conserves mp (account q mb (upd_queue q f mp))"
  by (cases q)
    (simp_all add: fits_def account_def conserves_def excess_def excess_bytes_def others_hungry_def typed_def
      algebra_simps)

lemma mb_enq_conserves [conserved]: "conserves mp (mb_enq q mb mp)"
proof -
  let ?mb = "mb\<lparr>mb_epoch := mp_epoch mp\<rparr>"
  have "fits ?mb (\<lambda>mq. if mb_data_type ?mb = MB_SUBTITLE then mq\<lparr>mq_q_aux := mq_q_aux mq @ [?mb]\<rparr>
           else if above_ctrl (mb_data_type ?mb) then mq\<lparr>mq_q_ctrl := mq_q_ctrl mq @ [?mb]\<rparr>
           else mq\<lparr>mq_q_data := mq_q_data mq @ [?mb]\<rparr>)"
    by (auto simp: fits_def packets_of_def queue_typed_def algebra_simps)
  from conserves_trans [OF account_conserves [OF this] update_stats_conserves]
  show ?thesis by (simp add: mb_enq_def Let_def)
qed

lemma put_back_conserves: "\<not> above_ctrl (mb_data_type mb) \<Longrightarrow> conserves mp (put_back mb mp)"
  unfolding put_back_def by (rule account_conserves) (auto simp: fits_def packets_of_def queue_typed_def)

text \<open>A packet that has left its list and is still in the books.\<close>

definition owes :: "qid \<Rightarrow> media_buf \<Rightarrow> locked \<Rightarrow> locked \<Rightarrow> bool" where
  "owes q mb mp mp' \<longleftrightarrow>
     (\<forall>r. excess r mp' = excess r mp + of_bool (r = q)) \<and>
     excess_bytes mp' = excess_bytes mp + mb_size mb \<and> others_hungry mp' = others_hungry mp \<and>
     (typed mp \<longrightarrow> typed mp') \<and> mp_refcount mp' = mp_refcount mp"

lemma owes_conserves: "owes q mb mp mp1 \<Longrightarrow> conserves mp1 mp2 \<Longrightarrow> owes q mb mp mp2"
  unfolding owes_def conserves_def by (metis qid.exhaust)

lemma unaccount_books [simp]:
  "excess r (unaccount q mb mp) = excess r mp - of_bool (r = q)"
  "excess_bytes (unaccount q mb mp) = excess_bytes mp - mb_size mb" "typed (unaccount q mb mp) = typed mp"
  "others_hungry (unaccount q mb mp) = others_hungry mp" "mp_refcount (unaccount q mb mp) = mp_refcount mp"
  by (cases q; cases r; simp add: unaccount_def excess_def excess_bytes_def typed_def others_hungry_def)+

lemma owes_unaccount: "owes q mb mp mp' \<Longrightarrow> conserves mp (unaccount q mb mp')"
  by (simp add: owes_def conserves_def)

lemma all_qid: "(\<forall>r. P r) \<longleftrightarrow> P Video \<and> P Audio"
  by (metis qid.exhaust)

lemma owes_taken:
  assumes "length (packets_of (queue_of q mp)) = Suc (length (packets_of (f (queue_of q mp))))"
    "bytes_of (packets_of (queue_of q mp)) = mb_size mb + bytes_of (packets_of (f (queue_of q mp)))"
    "mq_packets_current (f (queue_of q mp)) = mq_packets_current (queue_of q mp)"
    "queue_typed (queue_of q mp) \<Longrightarrow> queue_typed (f (queue_of q mp))"
  shows "owes q mb mp (upd_queue q f mp)"
  using assms
  by (cases q) (simp_all add: owes_def excess_def excess_bytes_def others_hungry_def typed_def all_qid algebra_simps)

lemma take_ctrl_owes: "mq_q_ctrl (queue_of q mp) = mb # l \<Longrightarrow> owes q mb mp (take_ctrl q mp)"
  unfolding take_ctrl_def by (rule owes_taken) (auto simp: packets_of_def queue_typed_def)

lemma take_aux_owes: "mq_q_aux (queue_of q mp) = mb # l \<Longrightarrow> owes q mb mp (take_aux q mp)"
  unfolding take_aux_def by (rule owes_taken) (auto simp: packets_of_def queue_typed_def)

lemma tail_owes:
  "mq_q_data (queue_of q mp) = mb # l \<Longrightarrow>
   owes q mb mp (upd_queue q (\<lambda>mq. mq\<lparr>mq_q_data := tl (mq_q_data mq)\<rparr>) mp)"
  by (rule owes_taken) (auto simp: packets_of_def queue_typed_def)

section \<open>Flushing\<close>

lemma fold_unaccount:
  "fold (unaccount q) l mp =
     (upd_queue q (\<lambda>mq. mq\<lparr>mq_packets_current := mq_packets_current mq - of_nat (length l)\<rparr>) mp)
       \<lparr>mp_buffer_current := mp_buffer_current mp - bytes_of l\<rparr>"
  by (induction l arbitrary: mp; cases q) (simp_all add: unaccount_def algebra_simps)

lemma flush_q: "mq_flush_q q full l mp = (filter (flush_keeps full) l, fold (unaccount q) (filter (\<lambda>mb. \<not> flush_keeps full mb) l) mp)"
  by (induction l arbitrary: mp) auto

lemma bytes_filter: "bytes_of (filter P l) + bytes_of (filter (\<lambda>x. \<not> P x) l) = bytes_of l"
  by (induction l) (auto simp: algebra_simps)

lemma count_filter: "of_nat (length (filter P l)) + of_nat (length (filter (\<lambda>x. \<not> P x) l)) = (of_nat (length l) :: u32)"
  by (metis of_nat_add sum_length_filter_compl)

lemma flush_step_conserves:
  assumes "mq_flush_q q full (lst (queue_of q mp)) mp = (d, mp1)"
    "(lst, put) \<in> {(mq_q_data, \<lambda>d. mq_q_data_update (\<lambda>_. d)), (mq_q_ctrl, \<lambda>d. mq_q_ctrl_update (\<lambda>_. d)),
                   (mq_q_aux, \<lambda>d. mq_q_aux_update (\<lambda>_. d))}"
  shows "conserves mp (upd_queue q (put d) mp1)"
proof -
  let ?l = "lst (queue_of q mp)"
  have d: "d = filter (flush_keeps full) ?l" "mp1 = fold (unaccount q) (filter (\<lambda>mb. \<not> flush_keeps full mb) ?l) mp"
    using assms(1) by (simp_all add: flush_q)
  have "bytes_of ?l = bytes_of d + bytes_of (filter (\<lambda>mb. \<not> flush_keeps full mb) ?l)"
    "of_nat (length ?l) = (of_nat (length d) + of_nat (length (filter (\<lambda>mb. \<not> flush_keeps full mb) ?l)) :: u32)"
    by (simp_all add: d bytes_filter count_filter)
  moreover have "set d \<subseteq> set ?l" by (auto simp: d)
  ultimately show ?thesis
    using assms(2) unfolding d(2) fold_unaccount
    by (cases q) (auto simp: books_defs algebra_simps)
qed

lemma flush_locked_conserves [conserved]: "conserves mp (mq_flush_locked q full mp)"
proof -
  obtain d mp1 where d: "mq_flush_q q full (mq_q_data (queue_of q mp)) mp = (d, mp1)" by fastforce
  let ?m1 = "upd_queue q (\<lambda>mq. mq\<lparr>mq_q_data := d\<rparr>) mp1"
  obtain c mp2 where c: "mq_flush_q q full (mq_q_ctrl (queue_of q ?m1)) ?m1 = (c, mp2)" by fastforce
  let ?m2 = "upd_queue q (\<lambda>mq. mq\<lparr>mq_q_ctrl := c\<rparr>) mp2"
  obtain x mp3 where x: "mq_flush_q q full (mq_q_aux (queue_of q ?m2)) ?m2 = (x, mp3)" by fastforce
  have "conserves mp ?m1" using flush_step_conserves [of q full mq_q_data mp d mp1 "\<lambda>d. mq_q_data_update (\<lambda>_. d)"] d by simp
  also have "conserves ?m1 ?m2" using flush_step_conserves [of q full mq_q_ctrl "?m1" c mp2 "\<lambda>d. mq_q_ctrl_update (\<lambda>_. d)"] c by simp
  also have "conserves ?m2 (upd_queue q (\<lambda>mq. mq\<lparr>mq_q_aux := x\<rparr>) mp3)" using flush_step_conserves [of q full mq_q_aux "?m2" x mp3 "\<lambda>d. mq_q_aux_update (\<lambda>_. d)"] x by simp
  also have "conserves \<dots> (mq_update_stats \<dots>)" by (rule update_stats_conserves)
  finally show ?thesis by (simp add: mq_flush_locked_def d c x)
qed

lemma send_flush_conserves [conserved]: "conserves mp (send_flush q final mp)"
  by (simp add: send_flush_def mb_enq_conserves)

lemma field_updates_conserve [simp]:
  "conserves mp (mp\<lparr>mp_epoch := e\<rparr>)" "conserves mp (mp\<lparr>mp_eq := es\<rparr>)" "conserves mp (mp\<lparr>mp_hold_flags := f\<rparr>)"
  "conserves mp (mp\<lparr>mp_hold_gate := g\<rparr>)" "conserves mp (mp\<lparr>mp_flags := f\<rparr>)" "conserves mp (mp\<lparr>mp_seek_base := s\<rparr>)"
  "conserves mp (mp\<lparr>mp_prop_playstatus := ps\<rparr>)" "conserves mp (mp\<lparr>mp_prop_pausereason := pr, mp_prop_playstatus := ps\<rparr>)"
  "conserves mp (mp\<lparr>mp_cancelled := c\<rparr>)" "conserves mp (mp\<lparr>mp_epoch := e, mp_seek_base := s\<rparr>)"
  "conserves mp (mp\<lparr>mp_buffer_limit := l\<rparr>)" "conserves mp (mp\<lparr>mp_duration := dr\<rparr>)" "conserves mp (mp\<lparr>mp_eof := b\<rparr>)"
  "conserves mp (mp\<lparr>mp_prop_playstatus := ps, mp_max_realtime_delay := rd\<rparr>)"
  "conserves mp (mp\<lparr>mp_eq := es, mp_handle_event := cb\<rparr>)"
  "mp_satisfied mp = 0 \<Longrightarrow> conserves mp (mp\<lparr>media_buffer_hungry := media_buffer_hungry mp - 1, mp_satisfied := 1\<rparr>)"
  by (simp_all add: conserves_def excess_def excess_bytes_def others_hungry_def typed_def)

lemma flush_conserves [conserved]: "conserves mp (mp_flush_locked final mp)"
proof -
  let ?a = "mq_flush_locked Audio False mp" let ?v = "mq_flush_locked Video False ?a"
  let ?e = "?v\<lparr>mp_epoch := mp_epoch ?v + 1\<rparr>" let ?f = "send_flush Audio final (send_flush Video final ?e)"
  have "conserves mp ?a" by (rule flush_locked_conserves)
  also have "conserves ?a ?v" by (rule flush_locked_conserves)
  also have "conserves ?v ?e" by simp
  also have "conserves ?e (send_flush Video final ?e)" by (rule send_flush_conserves)
  also have "conserves \<dots> ?f" by (rule send_flush_conserves)
  also have "conserves ?f (mp_flush_locked final mp)" by (simp add: mp_flush_locked_def Let_def)
  finally show ?thesis .
qed

section \<open>Holding\<close>

lemma dispatch_conserves [conserved]: "conserves mp (mp_event_dispatch e mp)"
  by (simp add: mp_event_dispatch_def split: option.split)

lemma send_cmd_conserves [conserved]: "conserves mp (mp_send_cmd_locked q cmd mp)" "conserves mp (mp_send_cmd_u32 q cmd u mp)"
  by (simp_all add: mp_send_cmd_locked_def mp_send_cmd_u32_def mb_enq_conserves)

lemma playstatus_conserves [conserved]: "conserves mp (mp_set_playstatus_by_hold_locked msg mp)"
proof -
  let ?h = "mp_hold_flags mp \<noteq> 0" let ?cmd = "if ?h then MB_CTRL_PAUSE else MB_CTRL_PLAY"
  let ?g = "mp\<lparr>mp_hold_gate := ?h\<rparr>"
  let ?v = "if has_flag (mp_flags ?g) MP_VIDEO then mp_send_cmd_locked Video ?cmd ?g else ?g"
  let ?a = "mp_send_cmd_locked Audio ?cmd ?v"
  let ?p = "?a\<lparr>mp_prop_pausereason := (if ?h then Some (case msg of Some m \<Rightarrow> m | None \<Rightarrow> ''Paused by user'') else None),
       mp_prop_playstatus := (if ?h then ''pause'' else ''play'')\<rparr>"
  let ?d = "mp_event_dispatch (EVENT_HOLD ?h) ?p"
  have "conserves mp ?g" by simp
  also have "conserves ?g ?v" by (simp add: send_cmd_conserves)
  also have "conserves ?v ?a" by (rule send_cmd_conserves)
  also have "conserves ?a ?p" by simp
  also have "conserves ?p ?d" by (rule dispatch_conserves)
  also have "conserves ?d (if has_flag (mp_flags ?d) MP_FLUSH_ON_HOLD then mp_flush_locked False ?d else ?d)"
    by (simp add: flush_conserves)
  finally have "conserves mp (if has_flag (mp_flags ?d) MP_FLUSH_ON_HOLD then mp_flush_locked False ?d else ?d)" .
  then show ?thesis by (simp only: mp_set_playstatus_by_hold_locked_def Let_def conserves_refl split: if_split) simp
qed

lemma underrun_conserves [conserved]: "conserves mp (mp_underrun mp)" "conserves mp (mp_check_underrun mp)"
proof -
  show "conserves mp (mp_underrun mp)"
    unfolding mp_underrun_def by (rule conserves_trans [OF _ playstatus_conserves]) simp
  then show "conserves mp (mp_check_underrun mp)" by (simp add: mp_check_underrun_def)
qed

lemma hold_conserves [conserved]: "conserves mp (mp_hold f msg mp)" "conserves mp (mp_unhold f mp)"
  unfolding mp_hold_def mp_unhold_def by (rule conserves_trans [OF _ playstatus_conserves]; simp)+

lemma enter_conserves [conserved]: "conserves mp (enqueue_enter mp)"
proof -
  have "conserves mp' (mp_enqueue_check_pre_buffering mp')" for mp'
    unfolding mp_enqueue_check_pre_buffering_def
    by (auto intro: conserves_trans [OF _ playstatus_conserves])
  then show ?thesis
    unfolding enqueue_enter_def using update_delay_conserves conserves_trans by blast
qed

lemma mq_flush_conserves [conserved]: "conserves mp (mq_flush q full mp)"
  unfolding mq_flush_def using flush_locked_conserves underrun_conserves(2) conserves_trans by blast

section \<open>Producers and events\<close>

lemma try_conserves: "enqueue_try v a q mb mp = Return e mp' \<Longrightarrow> conserves mp mp'"
  by (auto simp: enqueue_try_def mb_enq_conserves split: list.splits if_splits)

lemma insert_aux_packets:
  "length (insert_aux t mb l) = Suc (length l)" "bytes_of (insert_aux t mb l) = mb_size mb + bytes_of l"
  "set (insert_aux t mb l) = insert mb (set l)"
proof -
  let ?o = "\<lambda>b. mb_data_type b \<noteq> t"
  have "takeWhile ?o (rev l) @ dropWhile ?o (rev l) = rev l" by (rule takeWhile_dropWhile_id)
  then have l: "l = rev (dropWhile ?o (rev l)) @ rev (takeWhile ?o (rev l))"
    by (metis rev_append rev_rev_ident)
  obtain r w where rw: "rev (dropWhile ?o (rev l)) = r" "rev (takeWhile ?o (rev l)) = w" "l = r @ w"
    using l by blast
  have "insert_aux t mb l = (if dropWhile ?o (rev l) = [] then mb # l else r @ mb # w)"
    by (simp add: insert_aux_def Let_def rw(1,2))
  moreover have "dropWhile ?o (rev l) = [] \<Longrightarrow> r = []" using rw(1) by (metis rev.simps(1))
  ultimately have i: "insert_aux t mb l = r @ mb # w" using rw(3) by (metis append_Nil)
  show "length (insert_aux t mb l) = Suc (length l)" "bytes_of (insert_aux t mb l) = mb_size mb + bytes_of l"
    "set (insert_aux t mb l) = insert mb (set l)"
    unfolding i by (simp_all add: rw(3) algebra_simps)
qed

lemma no_block_conserves:
  assumes "mb_enqueue_no_block q mb t mp = Some (r, mp')"
  shows "conserves mp mp'"
proof (cases "r = 0")
  case False
  then show ?thesis using assms enter_conserves by (auto simp: mb_enqueue_no_block_def Let_def split: if_splits)
next
  case True
  let ?e = "enqueue_enter mp" let ?mb = "mb\<lparr>mb_epoch := mp_epoch ?e\<rparr>"
  let ?f = "\<lambda>mq. case t of Some t \<Rightarrow> mq\<lparr>mq_q_aux := insert_aux t ?mb (mq_q_aux mq)\<rparr> | None \<Rightarrow> mq\<lparr>mq_q_data := mq_q_data mq @ [?mb]\<rparr>"
  have ty: "\<not> above_ctrl (mb_data_type mb)"
    and mp': "mp' = mq_update_stats (account q ?mb (upd_queue q ?f ?e))"
    using assms True by (auto simp: mb_enqueue_no_block_def Let_def simp del: above_ctrl.simps split: if_splits)
  have "fits ?mb ?f"
    using ty by (auto simp: fits_def packets_of_def queue_typed_def insert_aux_packets algebra_simps simp del: above_ctrl.simps
        split: option.split)
  then have "conserves ?e mp'"
    unfolding mp' using account_conserves update_stats_conserves conserves_trans by blast
  then show ?thesis using enter_conserves conserves_trans by blast
qed

lemma drop_packets_conserves [conserved]: "conserves mp (drop_packets q n mp)"
proof (induction n arbitrary: mp)
  case (Suc n)
  show ?case
  proof (cases "mq_q_data (queue_of q mp)")
    case (Cons mb l)
    let ?m = "upd_queue q (\<lambda>mq. mq\<lparr>mq_q_data := l\<rparr>) mp"
    have "owes q mb mp ?m"
      by (rule owes_taken) (use Cons in \<open>auto simp: packets_of_def queue_typed_def\<close>)
    then have "conserves mp (unaccount q mb ?m)" by (rule owes_unaccount)
    with Suc.IH have "conserves mp (drop_packets q n (unaccount q mb ?m))" by (rule conserves_trans [rotated])
    then show ?thesis using Cons by simp
  qed simp
qed simp

lemma relabel_conserves:
  assumes "\<And>mq. map mb_size (packets_of (f mq)) = map mb_size (packets_of mq)"
    "\<And>mq. mq_packets_current (f mq) = mq_packets_current mq" "\<And>mq. queue_typed mq \<Longrightarrow> queue_typed (f mq)"
  shows "conserves mp (upd_queue q f mp)"
proof -
  have "length (packets_of (f mq)) = length (packets_of mq)" "bytes_of (packets_of (f mq)) = bytes_of (packets_of mq)" for mq
    using assms(1) [of mq] map_eq_imp_length_eq by (auto simp: bytes_of_def)
  then show ?thesis
    using assms(2,3) by (cases q) (auto simp: conserves_def excess_def excess_bytes_def others_hungry_def typed_def)
qed

lemma relabel_types:
  "map mb_size (mark_skipped n l) = map mb_size l" "map mb_data_type (mark_skipped n l) = map mb_data_type l"
  "map mb_size (update_epoch_in_queue e l) = map mb_size l" "map mb_data_type (update_epoch_in_queue e l) = map mb_data_type l"
  by (simp_all add: mark_skipped_def update_epoch_in_queue_def comp_def) (simp_all flip: map_append)

lemma typed_by_types: "map mb_data_type l' = map mb_data_type l \<Longrightarrow> (\<forall>mb \<in> set l'. P (mb_data_type mb)) \<longleftrightarrow> (\<forall>mb \<in> set l. P (mb_data_type mb))"
  by (metis (no_types, lifting) image_iff list.set_map)

lemma relabel_data_conserves:
  assumes "\<And>l. map mb_size (g l) = map mb_size l" "\<And>l. map mb_data_type (g l) = map mb_data_type l"
  shows "conserves mp (upd_queue q (mq_q_data_update g) mp)" "conserves mp (upd_queue q (mq_q_aux_update g) mp)"
proof -
  have t: "(\<forall>mb \<in> set (g l). \<not> above_ctrl (mb_data_type mb)) \<longleftrightarrow> (\<forall>mb \<in> set l. \<not> above_ctrl (mb_data_type mb))" for l
    by (rule typed_by_types [OF assms(2)])
  show "conserves mp (upd_queue q (mq_q_data_update g) mp)"
    by (rule relabel_conserves) (use t in \<open>auto simp: assms(1) packets_of_def queue_typed_def simp del: above_ctrl.simps\<close>)
  show "conserves mp (upd_queue q (mq_q_aux_update g) mp)"
    by (rule relabel_conserves) (use t in \<open>auto simp: assms(1) packets_of_def queue_typed_def simp del: above_ctrl.simps\<close>)
qed

lemma upd_queue_both:
  "upd_queue q (\<lambda>mq. mq\<lparr>mq_q_data := f (mq_q_data mq), mq_q_aux := g (mq_q_aux mq)\<rparr>) mp =
   upd_queue q (mq_q_aux_update g) (upd_queue q (mq_q_data_update f) mp)"
  "upd_queue q (\<lambda>mq. mq\<lparr>mq_q_data := f (mq_q_data mq)\<rparr>) mp = upd_queue q (mq_q_data_update f) mp"
  by (cases q; simp add: o_def)+

text \<open>The state of the queues after a seek within them, before the decoders are told.\<close>

definition seek_queues :: "nat \<Rightarrow> nat \<Rightarrow> nat \<Rightarrow> locked \<Rightarrow> locked" where
  "seek_queues a v k mp =
     (let mp = mq_update_stats (drop_packets Audio a mp);
          mp = mq_update_stats (drop_packets Video k mp);
          mp = upd_queue Video (\<lambda>mq. mq\<lparr>mq_q_data := mark_skipped (v - k) (mq_q_data mq)\<rparr>) mp;
          ep = mp_epoch mp;
          mp = upd_queue Audio (\<lambda>mq. mq\<lparr>mq_q_data := update_epoch_in_queue ep (mq_q_data mq)\<rparr>) mp
      in upd_queue Video (\<lambda>mq. mq\<lparr>mq_q_data := update_epoch_in_queue ep (mq_q_data mq),
                                    mq_q_aux := update_epoch_in_queue ep (mq_q_aux mq)\<rparr>) mp)"

lemma seek_in_queues_eq:
  "mp_seek_in_queues pos mp =
     (case (find_audio pos 0 (mq_q_data (mp_audio mp)), find_video pos 0 None (mq_q_data (mp_video mp))) of
        (Some a, Some (v, Some k)) \<Rightarrow>
          (True, mp_check_underrun (mb_enq Audio (ctrl_buf MB_CTRL_FLUSH 0) (mb_enq Video (ctrl_buf MB_CTRL_FLUSH 0) (seek_queues a v k mp))))
      | _ \<Rightarrow> (False, mp))"
  by (simp add: mp_seek_in_queues_def seek_queues_def Let_def split: option.split prod.split)

lemma seek_queues_conserves: "conserves mp (seek_queues a v k mp)"
proof -
  let ?m1 = "mq_update_stats (drop_packets Audio a mp)" let ?m2 = "mq_update_stats (drop_packets Video k ?m1)"
  let ?m3 = "upd_queue Video (mq_q_data_update (mark_skipped (v - k))) ?m2"
  let ?u = "update_epoch_in_queue (mp_epoch ?m3)"
  let ?m4 = "upd_queue Audio (mq_q_data_update ?u) ?m3" let ?m5 = "upd_queue Video (mq_q_data_update ?u) ?m4"
  have "conserves mp ?m1" by (rule conserves_trans [OF drop_packets_conserves update_stats_conserves])
  also have "conserves ?m1 ?m2" by (rule conserves_trans [OF drop_packets_conserves update_stats_conserves])
  also have "conserves ?m2 ?m3" by (rule relabel_data_conserves) (rule relabel_types)+
  also have "conserves ?m3 ?m4" by (rule relabel_data_conserves) (rule relabel_types)+
  also have "conserves ?m4 ?m5" by (rule relabel_data_conserves) (rule relabel_types)+
  also have "conserves ?m5 (upd_queue Video (mq_q_aux_update ?u) ?m5)" by (rule relabel_data_conserves) (rule relabel_types)+
  finally show ?thesis by (simp only: seek_queues_def Let_def upd_queue_both)
qed

lemma seek_conserves: "conserves mp (snd (mp_seek_in_queues pos mp))"
proof -
  have "conserves mp (mp_check_underrun (mb_enq Audio b (mb_enq Video c (seek_queues a v k mp))))" for a v k b c
    by (rule conserves_trans [OF _ underrun_conserves(2)], rule conserves_trans [OF _ mb_enq_conserves],
        rule conserves_trans [OF _ mb_enq_conserves], rule seek_queues_conserves)
  then show ?thesis by (auto simp: seek_in_queues_eq split: option.split)
qed

lemma direct_seek_conserves [conserved]: "conserves mp (mp_direct_seek ts mp)"
proof -
  let ?m = "mp\<lparr>mp_epoch := mp_epoch mp + 1, mp_seek_base := max ts 0\<rparr>"
  obtain b mp1 where s: "mp_seek_in_queues (max ts 0 + mp_start_time ?m) ?m = (b, mp1)" by fastforce
  have "conserves mp ?m" by simp
  also have "conserves ?m mp1" using seek_conserves [of ?m] s by (metis snd_conv)
  finally have c: "conserves mp mp1" .
  moreover have "conserves mp (mp1\<lparr>mp_eq := es\<rparr>)" "conserves mp (mp_event_dispatch e mp1)" for es e
    by (rule conserves_trans [OF c]; simp add: dispatch_conserves)+
  ultimately show ?thesis using s by (simp add: mp_direct_seek_def Let_def split: option.split)
qed

lemma forward_conserves [conserved]: "conserves mp (forward_event e mp)"
proof (cases "event_is_action e ACTION_SKIP_BACKWARD \<and> MP_SKIP_LIMIT \<le> mp_seek_base mp \<and> has_flag (mp_flags mp) MP_CAN_SEEK")
  case True
  then show ?thesis by (simp add: forward_event_def direct_seek_conserves)
next
  case False
  let ?m = "if event_is_action e ACTION_STOP \<or> event_is_action e ACTION_EJECT then mp\<lparr>mp_prop_playstatus := ''stop''\<rparr> else mp"
  let ?c = "?m\<lparr>mp_cancelled := map_option (\<lambda>_. True) (mp_cancelled ?m)\<rparr>"
  have "conserves mp ?m" by simp
  moreover have "conserves ?m ?c" by simp
  ultimately have "conserves mp (mp_event_dispatch e ?m)" "conserves mp (mp_event_dispatch e ?c)"
    using dispatch_conserves conserves_trans by blast+
  with False show ?thesis by (simp only: forward_event_def Let_def if_False split: if_split) simp
qed

lemma event_conserves:
  assumes "mp_enqueue_event_locked select back fwd e mp = Some mp'"
  shows "conserves mp mp'"
proof -
  let ?m = "mp\<lparr>mp_eq := remove_first (same_dedup_type e) (mp_eq mp)\<rparr>"
  have d: "conserves mp ?m" by simp
  have hold: "conserves mp (mp_set_playstatus_by_hold_locked msg (?m\<lparr>mp_hold_flags := f\<rparr>))" for msg f
    by (rule conserves_trans [OF d], rule conserves_trans [OF _ playstatus_conserves]) simp
  have seek: "conserves mp (mp_direct_seek ts ?m)" "conserves mp (forward_event e ?m)" for ts
    by (rule conserves_trans [OF d]; simp add: direct_seek_conserves forward_conserves)+
  have rel: "conserves mp (mp_direct_seek ts (mp\<lparr>mp_seek_base := b\<rparr>))" for ts b
    by (rule conserves_trans [OF _ direct_seek_conserves]) simp
  show ?thesis
    using assms hold seek rel d
    by (cases e) (auto simp: mp_enqueue_event_locked_def Let_def split: if_splits)
qed

section \<open>Decoders\<close>

lemma take_data_owes: "mq_q_data (queue_of q mp) = mb # l \<Longrightarrow> owes q mb mp (take_data q mp)"
  unfolding take_data_def by (rule owes_conserves [OF tail_owes underrun_conserves(2)])

lemma stats_after: "conserves mp mp' \<Longrightarrow> conserves mp (mq_update_stats mp')"
  by (rule conserves_trans [OF _ update_stats_conserves])

lemma vd_take_conserves: "conserves mp (snd (vd_take vd mp))"
proof -
  have "mq_q_ctrl (mp_video mp) = mb # l \<Longrightarrow> conserves mp (mq_update_stats (unaccount Video mb (take_ctrl Video mp)))"
    "mq_q_aux (mp_video mp) = mb # l \<Longrightarrow> conserves mp (mq_update_stats (unaccount Video mb (take_aux Video mp)))"
    "mq_q_data (mp_video mp) = mb # l \<Longrightarrow> conserves mp (mq_update_stats (unaccount Video mb (take_data Video mp)))"
    for mb l
    by (rule stats_after, rule owes_unaccount, rule take_ctrl_owes take_aux_owes take_data_owes, simp)+
  then show ?thesis by (auto simp: vd_take_def Let_def split: list.split option.split)
qed

lemma interest_conserves: "conserves mp (set_interest b mp)"
  unfolding set_interest_def by (rule relabel_conserves) simp_all

lemma vd_process_conserves: "vd_process lk r mb vd mp = Some (vd', mp') \<Longrightarrow> conserves mp mp'"
  by (cases "mb_data_type mb") (auto simp: vd_process_def interest_conserves split: if_splits)

lemma ad_handle_conserves: "ad_handle coded r mb ad mp = Some (ad', mp') \<Longrightarrow> conserves mp mp'"
  by (auto simp: ad_handle_def ad_finish_def put_back_conserves update_stats_conserves split: if_splits)

lemma ad_take_conserves:
  assumes "ad_take f c dl r ad mp = Some (ad', mp')"
  shows "conserves mp mp'"
proof -
  have "mq_q_ctrl (mp_audio mp) = mb # l \<Longrightarrow> conserves mp (unaccount Audio mb (take_ctrl Audio mp))"
    "mq_q_data (mp_audio mp) = mb # l \<Longrightarrow> conserves mp (unaccount Audio mb (take_data Audio mp))" for mb l
    by (rule owes_unaccount, rule take_ctrl_owes take_data_owes, simp)+
  then show ?thesis
    using assms ad_handle_conserves conserves_trans
    by (auto simp: ad_take_def Let_def split: if_splits list.splits)
qed

lemma ad_process_conserves: "ad_process left mb ad mp = Some (ad', mp') \<Longrightarrow> conserves mp mp'"
  by (cases "mb_data_type mb")
    (auto simp: ad_process_def Let_def ad_finish_def put_back_conserves update_stats_conserves split: if_splits)

section \<open>The gate\<close>

definition gated :: "'a media_pipe_scheme \<Rightarrow> bool" where
  "gated mp \<longleftrightarrow> (mp_hold_gate mp \<longleftrightarrow> mp_hold_flags mp \<noteq> 0)"

definition hold_state :: "'a media_pipe_scheme \<Rightarrow> bool \<times> u32" where
  "hold_state mp = (mp_hold_gate mp, mp_hold_flags mp)"

lemma gated_hold_state: "hold_state mp' = hold_state mp \<Longrightarrow> gated mp \<Longrightarrow> gated mp'"
  by (simp add: hold_state_def gated_def)

lemma upd_queue_hold [simp]:
  "hold_state (upd_queue q f mp) = hold_state mp" "hold_state (mp_video_update f mp) = hold_state mp"
  "hold_state (mp_audio_update f mp) = hold_state mp"
  by (cases q; simp add: hold_state_def)+

lemma account_hold [simp]:
  "hold_state (account q mb mp) = hold_state mp" "hold_state (unaccount q mb mp) = hold_state mp"
  "hold_state (mq_update_stats mp) = hold_state mp"
  by (cases q; simp add: hold_state_def account_def unaccount_def)+

lemma enq_hold [simp]:
  "hold_state (mb_enq q mb mp) = hold_state mp" "hold_state (mp_send_cmd_locked q cmd mp) = hold_state mp"
  "hold_state (send_flush q final mp) = hold_state mp" "hold_state (mp_event_dispatch e mp) = hold_state mp"
  by (simp_all add: mb_enq_def Let_def mp_send_cmd_locked_def send_flush_def mp_event_dispatch_def hold_state_def [of "_\<lparr>mp_eq := _\<rparr>"]
      hold_state_def [of mp] split: option.split)

lemma fold_unaccount_hold [simp]: "hold_state (fold (unaccount q) l mp) = hold_state mp"
  by (induction l arbitrary: mp) simp_all

lemma flush_hold [simp]: "hold_state (mq_flush_locked q full mp) = hold_state mp" "hold_state (mp_flush_locked final mp) = hold_state mp"
proof -
  show 1: "hold_state (mq_flush_locked q full mp) = hold_state mp" for q full mp
    by (simp add: mq_flush_locked_def flush_q Let_def)
  have 2: "hold_state (mp\<lparr>mp_epoch := e\<rparr>) = hold_state mp"
    "hold_state (mp\<lparr>media_buffer_hungry := h, mp_satisfied := s\<rparr>) = hold_state mp" for mp e h s
    by (simp_all add: hold_state_def)
  show "hold_state (mp_flush_locked final mp) = hold_state mp" by (simp add: mp_flush_locked_def Let_def 1 2)
qed

lemma playstatus_gated [simp]: "gated (mp_set_playstatus_by_hold_locked msg mp)"
proof (cases "(mp_hold_flags mp \<noteq> 0) = mp_hold_gate mp")
  case False
  let ?h = "mp_hold_flags mp \<noteq> 0"
  have "hold_state (m\<lparr>mp_prop_pausereason := pr, mp_prop_playstatus := ps\<rparr>) = hold_state m"
    "hold_state (m\<lparr>mp_hold_gate := g\<rparr>) = (g, mp_hold_flags m)" for m :: locked and pr ps g
    by (simp_all add: hold_state_def)
  then have "hold_state (mp_set_playstatus_by_hold_locked msg mp) = (?h, mp_hold_flags mp)"
    using False by (simp add: mp_set_playstatus_by_hold_locked_def Let_def)
  then show ?thesis by (simp add: hold_state_def gated_def)
qed (auto simp: mp_set_playstatus_by_hold_locked_def gated_def)

lemma take_gated: "gated mp \<Longrightarrow> gated (mp_check_underrun mp)"
  by (simp add: mp_check_underrun_def mp_underrun_def)

lemma hold_gated [simp]: "gated (mp_hold f msg mp)" "gated (mp_unhold f mp)"
  by (simp_all add: mp_hold_def mp_unhold_def)

lemma gated_iff: "hold_state mp' = hold_state mp \<Longrightarrow> gated mp' = gated mp"
  by (simp add: hold_state_def gated_def)

lemma keep_gated [simp]:
  "gated (mb_enq q mb mp) = gated mp" "gated (mp_flush_locked final mp) = gated mp"
  "gated (mp_event_dispatch e mp) = gated mp" "gated (put_back mb mp) = gated mp"
  "gated (mq_update_stats mp) = gated mp" "gated (unaccount q mb mp) = gated mp" "gated (account q mb mp) = gated mp"
  "gated (upd_queue q f mp) = gated mp" "gated (mp_video_update f mp) = gated mp" "gated (mp_audio_update f mp) = gated mp"
  by (rule gated_iff, simp add: put_back_def)+

lemma flush_gated: "gated mp \<Longrightarrow> gated (mq_flush q full mp)"
  unfolding mq_flush_def by (rule take_gated) (erule gated_hold_state [rotated], simp)

lemma enter_gated: "gated mp \<Longrightarrow> gated (enqueue_enter mp)"
  by (simp add: enqueue_enter_def mp_enqueue_check_pre_buffering_def) (simp add: gated_def)

lemma try_gated: "enqueue_try v a q mb mp = Return e mp' \<Longrightarrow> gated mp \<Longrightarrow> gated mp'"
  by (auto simp: enqueue_try_def split: list.splits if_splits) (simp add: gated_def)

lemma no_block_gated: "mb_enqueue_no_block q mb t mp = Some (r, mp') \<Longrightarrow> gated mp \<Longrightarrow> gated mp'"
  by (auto simp: mb_enqueue_no_block_def Let_def enter_gated split: if_splits)

lemma drop_hold [simp]: "hold_state (drop_packets q n mp) = hold_state mp"
  by (induction n arbitrary: mp) (simp_all split: list.split)

lemma seek_gated: "gated mp \<Longrightarrow> gated (snd (mp_seek_in_queues pos mp))"
proof -
  assume g: "gated mp"
  have "gated (mp_check_underrun (mb_enq Audio b (mb_enq Video c (seek_queues a v k mp))))" for a v k b c
  proof -
    have "hold_state (seek_queues a v k mp) = hold_state mp" by (simp add: seek_queues_def Let_def)
    from gated_iff [OF this] show ?thesis using g by (intro take_gated) simp
  qed
  then show ?thesis using g by (auto simp: seek_in_queues_eq split: option.split)
qed

lemma direct_seek_gated: "gated mp \<Longrightarrow> gated (mp_direct_seek ts mp)"
proof -
  let ?m = "mp\<lparr>mp_epoch := mp_epoch mp + 1, mp_seek_base := max ts 0\<rparr>"
  obtain b mp1 where s: "mp_seek_in_queues (max ts 0 + mp_start_time ?m) ?m = (b, mp1)" by fastforce
  assume g: "gated mp"
  then have "gated ?m" by (simp add: gated_def)
  then have g1: "gated mp1" using seek_gated [of ?m] s by (metis snd_conv)
  then have "gated (mp1\<lparr>mp_eq := es\<rparr>)" for es by (simp add: gated_def)
  with g g1 s show ?thesis by (simp add: mp_direct_seek_def Let_def split: option.split)
qed

lemma event_gated: "mp_enqueue_event_locked select back fwd e mp = Some mp' \<Longrightarrow> gated mp \<Longrightarrow> gated mp'"
proof -
  assume a: "mp_enqueue_event_locked select back fwd e mp = Some mp'" and g: "gated mp"
  let ?m = "mp\<lparr>mp_eq := remove_first (same_dedup_type e) (mp_eq mp)\<rparr>"
  have m: "gated ?m" "gated (mp\<lparr>mp_seek_base := b\<rparr>)" for b using g by (simp_all add: gated_def)
  have "gated (m\<lparr>mp_prop_playstatus := ps\<rparr>)" "gated (m\<lparr>mp_cancelled := c\<rparr>)"
    "gated (m\<lparr>mp_prop_playstatus := ps, mp_cancelled := c\<rparr>)" if "gated m" for m :: locked and ps c
    using that by (simp_all add: gated_def)
  then have "gated (forward_event e ?m)"
    using m by (auto simp: forward_event_def Let_def direct_seek_gated)
  with a g m show ?thesis
    by (cases e) (auto simp: mp_enqueue_event_locked_def Let_def direct_seek_gated split: if_splits)
qed

lemma vd_gated: "gated mp \<Longrightarrow> gated (snd (vd_take vd mp))"
  by (auto simp: vd_take_def Let_def take_ctrl_def take_aux_def take_data_def take_gated
      split: list.split option.split)

lemma vd_process_gated: "vd_process lk r mb vd mp = Some (vd', mp') \<Longrightarrow> gated mp \<Longrightarrow> gated mp'"
  by (cases "mb_data_type mb") (auto simp: vd_process_def set_interest_def gated_def split: if_splits)

lemma ad_handle_gated: "ad_handle coded r mb ad mp = Some (ad', mp') \<Longrightarrow> gated mp \<Longrightarrow> gated mp'"
  by (auto simp: ad_handle_def ad_finish_def split: if_splits)

lemma ad_take_gated: "ad_take f c dl r ad mp = Some (ad', mp') \<Longrightarrow> gated mp \<Longrightarrow> gated mp'"
  by (auto simp: ad_take_def Let_def take_ctrl_def take_data_def take_gated elim!: ad_handle_gated
      split: if_splits list.splits)

lemma ad_process_gated: "ad_process left mb ad mp = Some (ad', mp') \<Longrightarrow> gated mp \<Longrightarrow> gated mp'"
  by (cases "mb_data_type mb") (auto simp: ad_process_def Let_def ad_finish_def split: if_splits)

end
