(* ===== verification/Media_System.thy ===== *)
theory Media_System
  imports Media_Run
begin

text \<open>
  The media pipes as a system: what demuxers, decoders and the user interface do to a pipe (\<open>pipe_op\<close>), and the
  creation, use and release of pipes (\<open>media_step\<close>). The invariant of all pipes is an instance of
  \<open>invariant_of\<close>; then what a seek and a flush do to the queues, when a producer that waits goes on, and the
  operations that lose packets or references.
\<close>

section \<open>Operations on a pipe\<close>

text \<open>One step with the lock of the pipe held. The stream of a queue, the end of file and the limits of the delays
  are set directly by the demuxers. The arguments of decoders are arbitrary.\<close>

inductive pipe_op :: "locked \<Rightarrow> locked \<Rightarrow> bool" where
  enqueue: "mb_enqueue_with_events q mb mp = Return e mp' \<Longrightarrow> pipe_op mp mp'"
| enqueue_wait: "mb_enqueue_with_events q mb mp = Wait mp' \<Longrightarrow> pipe_op mp mp'"
| enqueue_again: "enqueue_try v a q mb mp = Return e mp' \<Longrightarrow> pipe_op mp mp'"
| enqueue_no_block: "mb_enqueue_no_block q mb t mp = Some (r, mp') \<Longrightarrow> pipe_op mp mp'"
| enqueue_always: "pipe_op mp (mb_enqueue_always q mb mp)"
| send_cmd: "pipe_op mp (mp_send_cmd_locked q cmd mp)"
| send_cmd_u32: "pipe_op mp (mp_send_cmd_u32 q cmd u mp)"
| flush: "pipe_op mp (mp_flush mp)"
| final_flush: "pipe_op mp (mp_flush_locked True mp)"
| flush_queue: "pipe_op mp (mq_flush q full mp)"
| hold: "pipe_op mp (mp_hold f msg mp)"
| unhold: "pipe_op mp (mp_unhold f mp)"
| bump: "pipe_op mp (mp_bump_epoch mp)"
| set_flags: "pipe_op mp (mp_set_clr_flags s c mp)"
| configure: "pipe_op mp (mp_configure f b d mp)"
| seek: "pipe_op mp (mp_direct_seek ts mp)"
| event: "mp_enqueue_event_locked sel back fwd e mp = Some mp' \<Longrightarrow> pipe_op mp mp'"
| set_time: "mp_set_current_time sel back fwd ts ep delta mp = Some mp' \<Longrightarrow> pipe_op mp mp'"
| set_callback: "mp_event_set_callback cb mp = Some mp' \<Longrightarrow> pipe_op mp mp'"
| wait_empty: "mp_wait_for_empty_queues mp = Return e mp' \<Longrightarrow> pipe_op mp mp'"
| get_event: "mp_dequeue_event mp = Return ev mp' \<Longrightarrow> pipe_op mp mp'"
| set_stream: "pipe_op mp (upd_queue q (\<lambda>mq. mq\<lparr>mq_stream := s\<rparr>) mp)"
| set_eof: "pipe_op mp (mp\<lparr>mp_eof := b\<rparr>)"
| set_limits: "pipe_op mp (mp\<lparr>mp_pre_buffer_delay := d, mp_max_realtime_delay := r, mp_start_time := s\<rparr>)"
| video_take: "vd_take vd mp = (pick, mp') \<Longrightarrow> pipe_op mp mp'"
| video_process: "vd_process lk r mb vd mp = Some (vd', mp') \<Longrightarrow> pipe_op mp mp'"
| audio_take: "ad_take f c dl r ad mp = Some (ad', mp') \<Longrightarrow> pipe_op mp mp'"
| audio_process: "ad_process n mb ad mp = Some (ad', mp') \<Longrightarrow> pipe_op mp mp'"

lemma configure_keeps: "conserves mp (mp_configure f b d mp)" "gated mp \<Longrightarrow> gated (mp_configure f b d mp)"
proof -
  define m1 where "m1 = mp_set_clr_flags f (MP_PRE_BUFFERING OR MP_FLUSH_ON_HOLD OR MP_ALWAYS_SATISFIED OR MP_CAN_SEEK OR
      MP_CAN_PAUSE OR MP_CAN_EJECT) (mp\<lparr>mp_prop_playstatus := ''play'', mp_max_realtime_delay := 0x7fffffff\<rparr>)"
  define m2 where "m2 = (case b of MP_BUFFER_NONE \<Rightarrow> m1\<lparr>mp_buffer_limit := 0\<rparr> | MP_BUFFER_SHALLOW \<Rightarrow> m1\<lparr>mp_buffer_limit := 1024 * 1024\<rparr>
      | MP_BUFFER_DEEP \<Rightarrow> m1\<lparr>mp_buffer_limit := 32 * 1024 * 1024\<rparr> | MP_BUFFER_OTHER \<Rightarrow> m1)"
  define m3 where "m3 = m2\<lparr>mp_duration := (if d = PTS_UNSET then 0 else d)\<rparr>"
  have eq: "mp_configure f b d mp = (if has_flag (mp_flags m3) MP_PRE_BUFFERING then mp_check_underrun m3 else m3)"
    unfolding mp_configure_def m3_def m2_def m1_def Let_def by (rule refl)
  have "conserves mp m1" unfolding m1_def mp_set_clr_flags_def by (rule conserves_trans [rotated], rule field_updates_conserve) simp
  also have "conserves m1 m2" by (simp add: m2_def split: buffer_size.split)
  also have "conserves m2 m3" by (simp add: m3_def)
  finally have "conserves mp m3" .
  then show "conserves mp (mp_configure f b d mp)" unfolding eq using conserves_trans underrun_conserves(2) by auto
  have "gated m3 = gated mp"
    by (rule gated_iff) (simp add: m3_def m2_def m1_def mp_set_clr_flags_def hold_state_def split: buffer_size.split)
  then show "gated mp \<Longrightarrow> gated (mp_configure f b d mp)" unfolding eq by (simp add: take_gated)
qed

lemma stream_keeps: "conserves mp (upd_queue q (\<lambda>mq. mq\<lparr>mq_stream := s\<rparr>) mp)"
  by (rule relabel_conserves) (simp_all add: packets_of_def queue_typed_def)

lemma limits_keep: "conserves mp (mp\<lparr>mp_pre_buffer_delay := d, mp_max_realtime_delay := r, mp_start_time := s\<rparr>)"
  by (simp add: conserves_def excess_def excess_bytes_def others_hungry_def typed_def)

lemma wait_is_entered: "mb_enqueue_with_events q mb mp = Wait mp' \<Longrightarrow> mp' = enqueue_enter mp"
  by (auto simp: mb_enqueue_with_events_def enqueue_try_def split: list.splits if_splits)

lemma enqueue_conserves: "mb_enqueue_with_events q mb mp = Return e mp' \<Longrightarrow> conserves mp mp'"
  unfolding mb_enqueue_with_events_def using try_conserves enter_conserves conserves_trans by blast

lemma set_time_conserves: "mp_set_current_time sel back fwd ts ep delta mp = Some mp' \<Longrightarrow> conserves mp mp'"
  by (auto simp: mp_set_current_time_def dest!: event_conserves intro: conserves_trans [rotated] split: if_splits)

lemma pipe_op_conserves: "pipe_op mp mp' \<Longrightarrow> conserves mp mp'"
proof (induction rule: pipe_op.induct)
  case (video_take vd mp pick mp')
  then show ?case using vd_take_conserves [of mp vd] by simp
qed (auto simp: mb_enqueue_always_def mp_flush_def mp_bump_epoch_def mp_set_clr_flags_def mp_event_set_callback_def
    mp_wait_for_empty_queues_def mp_dequeue_event_def enter_conserves configure_keeps stream_keeps
    limits_keep mb_enq_conserves send_cmd_conserves flush_conserves mq_flush_conserves hold_conserves direct_seek_conserves
    intro: enqueue_conserves try_conserves no_block_conserves event_conserves set_time_conserves vd_process_conserves
      ad_take_conserves ad_process_conserves dest!: wait_is_entered split: if_splits list.splits)

lemma field_updates_gated [simp]:
  "gated (mp\<lparr>mp_epoch := e\<rparr>) = gated mp" "gated (mp\<lparr>mp_eq := es\<rparr>) = gated mp" "gated (mp\<lparr>mp_flags := f\<rparr>) = gated mp"
  "gated (mp\<lparr>mp_eof := b\<rparr>) = gated mp" "gated (mp\<lparr>mp_eq := es, mp_handle_event := cb\<rparr>) = gated mp"
  "gated (mp\<lparr>mp_pre_buffer_delay := d, mp_max_realtime_delay := r, mp_start_time := s\<rparr>) = gated mp"
  by (simp_all add: gated_def)

lemma pipe_op_gated: "pipe_op mp mp' \<Longrightarrow> gated mp \<Longrightarrow> gated mp'"
proof (induction rule: pipe_op.induct)
  case (video_take vd mp pick mp')
  then show ?case using vd_gated [of mp vd] by simp
next
  case (set_time sel bk fwd ts ep delta mp mp')
  then have "gated (mp\<lparr>mp_seek_base := ts - delta\<rparr>)" by (simp add: gated_def)
  with set_time show ?case by (auto simp: mp_set_current_time_def dest: event_gated split: if_splits)
next
  case (enqueue q mb mp e mp')
  then show ?case by (auto simp: mb_enqueue_with_events_def intro: try_gated enter_gated)
qed (auto simp: mb_enqueue_always_def mp_flush_def mp_bump_epoch_def mp_set_clr_flags_def mp_event_set_callback_def
    mp_wait_for_empty_queues_def mp_dequeue_event_def mp_send_cmd_locked_def mp_send_cmd_u32_def
    configure_keeps intro: try_gated enter_gated flush_gated no_block_gated direct_seek_gated event_gated
      vd_process_gated ad_take_gated ad_process_gated dest!: wait_is_entered split: if_splits list.splits)

section \<open>All pipes\<close>

definition pipe_ok :: "'a media_pipe_scheme \<Rightarrow> bool" where
  "pipe_ok mp \<longleftrightarrow>
     excess Video mp = 0 \<and> excess Audio mp = 0 \<and> excess_bytes mp = 0 \<and> typed mp \<and> gated mp"

definition hungry_pipes :: "media \<Rightarrow> nat set" where
  "hungry_pipes m = {p \<in> mp_live m. mp_satisfied (mp_at m p) = 0}"

definition media_inv :: "media \<Rightarrow> bool" where
  "media_inv m \<longleftrightarrow>
     finite (mp_live m) \<and> (\<forall>p \<in> mp_live m. pipe_ok (mp_at m p) \<and> 1 \<le> mp_refcount (mp_at m p)) \<and>
     (\<forall>p. media_primary m = Some p \<longrightarrow> p \<in> mp_live m) \<and> hungry m = int (card (hungry_pipes m))"

definition no_media :: media where
  "no_media = \<lparr>hungry = 0, media_pipelines = [], media_primary = None, mp_live = {}, mp_at = (\<lambda>_. new_pipe 0)\<rparr>"

text \<open>A client releases only a reference that it holds: not the one of \<^verbatim>\<open>media_primary\<close>.\<close>

definition has_client :: "nat \<Rightarrow> media \<Rightarrow> bool" where
  "has_client p m \<longleftrightarrow> p \<in> mp_live m \<and> of_bool (media_primary m = Some p) < mp_refcount (mp_at m p)"

inductive media_step :: "media \<Rightarrow> media \<Rightarrow> bool" where
  create: "p \<notin> mp_live m \<Longrightarrow> media_step m (mp_create p flags m)"
| operate: "p \<in> mp_live m \<Longrightarrow> pipe_op (lock_mp p m) l \<Longrightarrow> media_step m (unlock_mp p l m)"
| retain: "p \<in> mp_live m \<Longrightarrow> media_step m (mp_retain p m)"
| release: "has_client p m \<Longrightarrow> mp_release p m = Some m' \<Longrightarrow> media_step m m'"
| primary: "p \<in> mp_live m \<Longrightarrow> mp_become_primary sel back fwd p m = Some m' \<Longrightarrow> media_step m m'"
| unprimary: "p \<in> mp_live m \<Longrightarrow> mp_unbecome_primary p m = Some m' \<Longrightarrow> media_step m m'"
| shutdown: "p \<in> mp_live m \<Longrightarrow> mp_shutdown p m = Some m' \<Longrightarrow> media_step m m'"
| destroy: "has_client p m \<Longrightarrow> mp_destroy p m = Some m' \<Longrightarrow> media_step m m'"

lemma lock_fields [simp]:
  "mp_satisfied (lock_mp p m) = mp_satisfied (mp_at m p)" "mp_refcount (lock_mp p m) = mp_refcount (mp_at m p)"
  "media_buffer_hungry (lock_mp p m) = hungry m" "pipe_ok (lock_mp p m) = pipe_ok (mp_at m p)"
  by (simp_all add: lock_mp_def media_pipe.defs pipe_ok_def excess_def excess_bytes_def typed_def gated_def)

lemma truncate_fields [simp]:
  "mp_satisfied (media_pipe.truncate l) = mp_satisfied l" "mp_refcount (media_pipe.truncate l) = mp_refcount l"
  "pipe_ok (media_pipe.truncate l) = pipe_ok l" "mp_flags (media_pipe.truncate l) = mp_flags l"
  by (simp_all add: media_pipe.defs pipe_ok_def excess_def excess_bytes_def typed_def gated_def)

lemma unlock_fields [simp]:
  "mp_at (unlock_mp p l m) p = media_pipe.truncate l" "q \<noteq> p \<Longrightarrow> mp_at (unlock_mp p l m) q = mp_at m q"
  "mp_live (unlock_mp p l m) = mp_live m" "media_primary (unlock_mp p l m) = media_primary m"
  "hungry (unlock_mp p l m) = media_buffer_hungry l" "media_pipelines (unlock_mp p l m) = media_pipelines m"
  by (simp_all add: unlock_mp_def)

lemma hungry_unlock: "p \<in> mp_live m \<Longrightarrow> hungry_pipes (unlock_mp p l m) = (if mp_satisfied l = 0 then insert p (hungry_pipes m) else hungry_pipes m - {p})"
  unfolding hungry_pipes_def by (auto simp: unlock_mp_def)

lemma card_without: "finite A \<Longrightarrow> int (card A) = int (card (A - {p})) + of_bool (p \<in> A)"
proof (cases "p \<in> A")
  case True
  assume "finite A"
  then have "Suc (card (A - {p})) = card A" using True by (rule card_Suc_Diff1)
  then have "int (card A) = int (card (A - {p})) + 1" by linarith
  then show ?thesis using True by (simp only: of_bool_eq simp_thms)
qed simp

lemma card_hungry:
  assumes "media_inv m" "p \<in> mp_live m"
  shows "hungry m - of_bool (mp_satisfied (mp_at m p) = 0) = int (card (hungry_pipes m - {p}))"
proof -
  have "finite (hungry_pipes m)" using assms(1) by (simp add: media_inv_def hungry_pipes_def)
  moreover have "p \<in> hungry_pipes m \<longleftrightarrow> mp_satisfied (mp_at m p) = 0" using assms(2) by (simp add: hungry_pipes_def)
  moreover have "hungry m = int (card (hungry_pipes m))" using assms(1) by (simp add: media_inv_def)
  ultimately show ?thesis using card_without [of "hungry_pipes m" p] by simp
qed

text \<open>A pipe is changed by one step: it stays in order, and the other pipes do not notice.\<close>

lemma unlock_inv:
  assumes inv: "media_inv m" and p: "p \<in> mp_live m" and l: "pipe_ok l" "1 \<le> mp_refcount l"
    and h: "others_hungry l = others_hungry (lock_mp p m)"
  shows "media_inv (unlock_mp p l m)"
proof -
  have fin: "finite (hungry_pipes m)" using inv by (simp add: media_inv_def hungry_pipes_def)
  have "media_buffer_hungry l - of_bool (mp_satisfied l = 0) = int (card (hungry_pipes m - {p}))"
    using h card_hungry [OF inv p] by (simp add: others_hungry_def)
  then have "media_buffer_hungry l = int (card (hungry_pipes (unlock_mp p l m)))"
    using fin card_without [of "insert p (hungry_pipes m)" p] by (cases "mp_satisfied l = 0") (simp_all add: hungry_unlock [OF p])
  moreover have "pipe_ok (mp_at (unlock_mp p l m) q) \<and> 1 \<le> mp_refcount (mp_at (unlock_mp p l m) q)" if "q \<in> mp_live m" for q
    using inv l that by (cases "q = p") (auto simp: media_inv_def)
  ultimately show ?thesis using inv by (auto simp: media_inv_def)
qed

lemma conserves_ok: "conserves mp mp' \<Longrightarrow> (gated mp \<Longrightarrow> gated mp') \<Longrightarrow> pipe_ok mp \<Longrightarrow> pipe_ok mp'"
  by (simp add: conserves_def pipe_ok_def)

lemma live_ok: "media_inv m \<Longrightarrow> p \<in> mp_live m \<Longrightarrow> pipe_ok (lock_mp p m) \<and> 1 \<le> mp_refcount (mp_at m p)"
  by (simp add: media_inv_def)

lemma operate_inv:
  assumes "media_inv m" "p \<in> mp_live m" "conserves (lock_mp p m) l" "gated (lock_mp p m) \<Longrightarrow> gated l"
  shows "media_inv (unlock_mp p l m)"
proof (rule unlock_inv [OF assms(1,2)])
  show "pipe_ok l" using conserves_ok [OF assms(3,4)] live_ok [OF assms(1,2)] by simp
  show "1 \<le> mp_refcount l" "others_hungry l = others_hungry (lock_mp p m)"
    using assms(3) live_ok [OF assms(1,2)] by (simp_all add: conserves_def)
qed

lemma refcount_inv:
  assumes "media_inv m" "p \<in> mp_live m" "1 \<le> n"
  shows "media_inv (with_mp p (\<lambda>mp. mp\<lparr>mp_refcount := n\<rparr>) m)"
  unfolding with_mp_def
proof (rule unlock_inv [OF assms(1,2)])
  have "pipe_ok (mp\<lparr>mp_refcount := n\<rparr>) = pipe_ok mp" for mp :: locked
    by (simp add: pipe_ok_def excess_def excess_bytes_def typed_def gated_def)
  then show "pipe_ok (lock_mp p m\<lparr>mp_refcount := n\<rparr>)" using live_ok [OF assms(1,2)] by simp
qed (use assms(3) in \<open>simp_all add: others_hungry_def\<close>)

text \<open>The last reference: the pipe is emptied and forgotten.\<close>

lemma free_inv:
  assumes inv: "media_inv m" and p: "p \<in> mp_live m" "media_primary m \<noteq> Some p"
    and h: "others_hungry l = others_hungry (lock_mp p m)"
  shows "media_inv ((unlock_mp p (if mp_satisfied l = 0 then l\<lparr>media_buffer_hungry := media_buffer_hungry l - 1\<rparr> else l) m)\<lparr>mp_live := mp_live m - {p}\<rparr>)"
    (is "media_inv ?m")
proof -
  have "hungry_pipes ?m = hungry_pipes m - {p}" by (auto simp: hungry_pipes_def unlock_mp_def)
  moreover have "hungry ?m = others_hungry l" by (simp add: others_hungry_def)
  ultimately have "hungry ?m = int (card (hungry_pipes ?m))"
    using card_hungry [OF inv p(1)] h by (simp add: others_hungry_def)
  moreover have "mp_at ?m q = mp_at m q" if "q \<noteq> p" for q using that by simp
  ultimately show ?thesis using inv p(2) by (auto simp: media_inv_def)
qed

lemma with_with: "with_mp p g (with_mp p f m) = with_mp p (g \<circ> f) m"
proof -
  have l: "lock_mp p (unlock_mp p l m) = l" for l
    by (simp add: lock_mp_def media_pipe.defs)
  show ?thesis by (simp add: with_mp_def l) (simp add: unlock_mp_def)
qed

lemma with_fields [simp]:
  "mp_at (with_mp p f m) p = media_pipe.truncate (f (lock_mp p m))" "mp_live (with_mp p f m) = mp_live m"
  "media_primary (with_mp p f m) = media_primary m" "q \<noteq> p \<Longrightarrow> mp_at (with_mp p f m) q = mp_at m q"
  "media_pipelines (with_mp p f m) = media_pipelines m"
  by (simp_all add: with_mp_def)

definition drop_ref :: "locked \<Rightarrow> locked" where
  "drop_ref mp = mp\<lparr>mp_refcount := mp_refcount mp - 1\<rparr>"

definition empty_pipe :: "locked \<Rightarrow> locked" where
  "empty_pipe mp = mq_flush Video True (mq_flush Audio True (mp\<lparr>mp_eq := []\<rparr>))"

definition not_hungry :: "locked \<Rightarrow> locked" where
  "not_hungry mp = (if mp_satisfied mp = 0 then mp\<lparr>media_buffer_hungry := media_buffer_hungry mp - 1\<rparr> else mp)"

lemma release_eq:
  "mp_release p m =
     (if mp_refcount (mp_at m p) \<noteq> 1 then Some (with_mp p drop_ref m)
      else if media_primary m = Some p then None
      else Some ((with_mp p (\<lambda>l. not_hungry (empty_pipe (drop_ref l))) m)\<lparr>mp_live := mp_live m - {p}\<rparr>))"
proof -
  have "mp_release p m =
    (let m = with_mp p drop_ref m in
      if mp_refcount (mp_at m p) \<noteq> 0 then Some m else if media_primary m = Some p then None
      else Some ((with_mp p not_hungry (with_mp p empty_pipe m))\<lparr>mp_live := mp_live m - {p}\<rparr>))"
    by (simp add: mp_release_def drop_ref_def [abs_def] empty_pipe_def [abs_def] not_hungry_def [abs_def] Let_def)
  then show ?thesis by (simp add: Let_def with_with comp_def) (simp add: drop_ref_def)
qed

lemma release_inv:
  assumes inv: "media_inv m" and p: "p \<in> mp_live m" and r: "mp_release p m = Some m'"
  shows "media_inv m'"
proof (cases "mp_refcount (mp_at m p) = 1")
  case False
  then have "1 \<le> mp_refcount (mp_at m p) - 1" using live_ok [OF inv p] by simp
  moreover have "with_mp p drop_ref m = with_mp p (\<lambda>mp. mp\<lparr>mp_refcount := mp_refcount (mp_at m p) - 1\<rparr>) m"
    by (simp add: with_mp_def drop_ref_def)
  ultimately show ?thesis using refcount_inv [OF inv p, of "mp_refcount (mp_at m p) - 1"] r False by (simp add: release_eq)
next
  case True
  let ?l = "empty_pipe (drop_ref (lock_mp p m))"
  have np: "media_primary m \<noteq> Some p"
    and m': "m' = (with_mp p (\<lambda>l. not_hungry (empty_pipe (drop_ref l))) m)\<lparr>mp_live := mp_live m - {p}\<rparr>"
    using r True by (auto simp: release_eq split: if_splits)
  have "conserves (drop_ref (lock_mp p m)) ?l" unfolding empty_pipe_def
    by (rule conserves_trans [OF _ mq_flush_conserves], rule conserves_trans [OF _ mq_flush_conserves]) simp
  then have "others_hungry ?l = others_hungry (lock_mp p m)" by (simp add: conserves_def drop_ref_def) (simp add: others_hungry_def)
  from free_inv [OF inv p np this] show ?thesis unfolding m' by (simp add: with_mp_def not_hungry_def)
qed

text \<open>A new pipe is in order, and no pipe is called for yet.\<close>

lemma create_inv:
  assumes inv: "media_inv m" and p: "p \<notin> mp_live m"
  shows "media_inv (mp_create p flags m)"
proof -
  have "pipe_ok (new_pipe flags)"
    by (simp add: pipe_ok_def new_pipe_def empty_queue_def excess_def excess_bytes_def typed_def queue_typed_def gated_def packets_of_def)
  moreover have "hungry_pipes (mp_create p flags m) = hungry_pipes m"
    using p by (auto simp: hungry_pipes_def mp_create_def new_pipe_def)
  moreover have "mp_refcount (new_pipe flags) = 1" by (simp add: new_pipe_def)
  ultimately show ?thesis using inv by (auto simp: media_inv_def mp_create_def)
qed

lemma retain_inv: "media_inv m \<Longrightarrow> p \<in> mp_live m \<Longrightarrow> media_inv (mp_retain p m)"
proof -
  assume a: "media_inv m" "p \<in> mp_live m"
  have "mp_retain p m = with_mp p (\<lambda>mp. mp\<lparr>mp_refcount := mp_refcount (mp_at m p) + 1\<rparr>) m"
    by (simp add: mp_retain_def with_mp_def)
  then show ?thesis using refcount_inv [OF a] live_ok [OF a] by simp
qed

lemma primary_inv: "media_inv m \<Longrightarrow> p \<in> mp_live m \<Longrightarrow> media_inv (m\<lparr>media_primary := Some p\<rparr>)"
  by (auto simp: media_inv_def hungry_pipes_def)

lemma no_primary_inv: "media_inv m \<Longrightarrow> media_inv (m\<lparr>media_primary := None\<rparr>)"
  by (auto simp: media_inv_def hungry_pipes_def)

lemma pipelines_inv: "media_inv m \<Longrightarrow> media_inv (m\<lparr>media_pipelines := ps\<rparr>)"
  by (auto simp: media_inv_def hungry_pipes_def)

lemma become_inv:
  assumes "media_inv m" "p \<in> mp_live m" "mp_become_primary sel back fwd p m = Some m'"
  shows "media_inv m'"
proof (cases "media_primary m = Some p")
  case True
  then show ?thesis using assms by (simp add: mp_become_primary_def)
next
  case False
  then obtain m1 where m1: "m' = (mp_retain p m1)\<lparr>media_primary := Some p\<rparr>" and
    c: "m1 = m \<or> (\<exists>old l. media_primary m = Some old \<and> m1 = unlock_mp old l m \<and>
          mp_enqueue_event_locked sel back fwd (EVENT_ACTION_VECTOR [ACTION_STOP]) (lock_mp old m) = Some l)"
    using assms(3) by (auto simp: mp_become_primary_def split: if_splits option.splits bind_splits)
  have "media_inv m1" "mp_live m1 = mp_live m"
    using c assms(1) by (auto intro!: operate_inv intro: event_conserves event_gated simp: media_inv_def [of m])
  then show ?thesis unfolding m1 using assms(2) by (intro primary_inv retain_inv) (simp_all add: mp_retain_def)
qed

lemma unbecome_inv: "media_inv m \<Longrightarrow> p \<in> mp_live m \<Longrightarrow> mp_unbecome_primary p m = Some m' \<Longrightarrow> media_inv m'"
  by (auto simp: mp_unbecome_primary_def no_primary_inv intro: release_inv [of "m\<lparr>media_primary := None\<rparr>" p] split: if_splits)

lemma mp_destroy_inv:
  assumes "media_inv m" "has_client p m" "mp_destroy p m = Some m'"
  shows "media_inv m'"
proof -
  let ?m = "m\<lparr>media_pipelines := remove1 p (media_pipelines m)\<rparr>"
  obtain m1 where u: "mp_unbecome_primary p ?m = Some m1" and r: "mp_release p m1 = Some m'"
    using assms(3) by (auto simp: mp_destroy_def split: bind_splits)
  have inv: "media_inv ?m" "p \<in> mp_live ?m" using assms(1,2) by (simp_all add: pipelines_inv has_client_def)
  have "media_inv m1" using unbecome_inv [OF inv u] .
  moreover have "p \<in> mp_live m1"
    using u assms(2) by (auto simp: mp_unbecome_primary_def release_eq has_client_def split: if_splits)
  ultimately show ?thesis using release_inv r by blast
qed

lemma media_step_inv:
  assumes "media_inv m" "media_step m m'"
  shows "media_inv m'"
  using assms(2)
proof cases
  case (operate p l)
  then show ?thesis using assms(1) by (auto intro: operate_inv pipe_op_conserves pipe_op_gated)
next
  case (shutdown p)
  have "media_inv (with_mp p (mp_flush_locked True) m)"
    unfolding with_mp_def using assms(1) shutdown(1) by (rule operate_inv) (simp_all add: flush_conserves)
  then show ?thesis using shutdown by (auto simp: mp_shutdown_def intro: unbecome_inv)
qed (use assms(1) in \<open>auto simp: has_client_def intro: create_inv retain_inv release_inv become_inv unbecome_inv mp_destroy_inv\<close>)

lemma no_media_inv: "media_inv no_media"
  by (simp add: media_inv_def no_media_def hungry_pipes_def)

interpretation pipes: invariant_of no_media media_step media_inv
  by unfold_locales (auto intro: no_media_inv media_step_inv)

text \<open>Holding all pipes is a run of these steps.\<close>

lemma with_refcount:
  assumes "\<And>l. pipe_op l (f l)"
  shows "mp_refcount (mp_at (with_mp p f m) q) = mp_refcount (mp_at m q)"
  using pipe_op_conserves [OF assms, of "lock_mp p m"] by (cases "q = p") (simp_all add: conserves_def)

lemma hold_loop_run:
  assumes "\<And>l. pipe_op l (f l)"
  shows "hold_loop f ps m = Some m' \<Longrightarrow> distinct ps \<Longrightarrow> \<forall>p \<in> set ps. has_client p m \<Longrightarrow> media_step\<^sup>*\<^sup>* m m'"
proof (induction ps arbitrary: m)
  case (Cons p ps)
  let ?m = "with_mp p f m"
  obtain m1 where r: "mp_release p ?m = Some m1" and l: "hold_loop f ps m1 = Some m'"
    using Cons.prems(1) by (auto split: bind_splits)
  have c: "has_client q ?m" if "q \<in> set (p # ps)" for q
    using Cons.prems(3) that assms by (auto simp: has_client_def with_refcount)
  have "media_step m ?m"
    unfolding with_mp_def using Cons.prems(3) assms by (intro operate) (auto simp: has_client_def)
  moreover have "media_step ?m m1" by (rule release [OF c r]) simp
  moreover have "has_client q m1" if "q \<in> set ps" for q
    using c [of q] with_fields(4) [of q p] that Cons.prems(2) r by (cases "q = p") (auto simp: has_client_def release_eq split: if_splits)
  ultimately show ?case
    using Cons.IH [OF l] Cons.prems(2) by (auto intro: converse_rtranclp_into_rtranclp)
qed simp

lemma retain_run:
  "set ps \<subseteq> mp_live m \<Longrightarrow> media_step\<^sup>*\<^sup>* m (fold mp_retain ps m) \<and> mp_live (fold mp_retain ps m) = mp_live m \<and>
     media_primary (fold mp_retain ps m) = media_primary m \<and>
     (\<forall>p. mp_refcount (mp_at m p) + of_bool (p \<in> set ps) \<le> mp_refcount (mp_at (fold mp_retain ps m) p))"
proof (induction ps arbitrary: m)
  case (Cons p ps)
  have "media_step m (mp_retain p m)" using Cons.prems by (intro retain) simp
  moreover have f: "mp_live (mp_retain p m) = mp_live m" "media_primary (mp_retain p m) = media_primary m"
    "mp_refcount (mp_at (mp_retain p m) q) = mp_refcount (mp_at m q) + of_bool (q = p)" for q
    by (cases "q = p"; simp add: mp_retain_def)+
  moreover have IH: "media_step\<^sup>*\<^sup>* (mp_retain p m) (fold mp_retain (p # ps) m)" "mp_live (fold mp_retain (p # ps) m) = mp_live m"
    "media_primary (fold mp_retain (p # ps) m) = media_primary m"
    "mp_refcount (mp_at m q) + of_bool (q = p) + of_bool (q \<in> set ps) \<le> mp_refcount (mp_at (fold mp_retain (p # ps) m) q)" for q
    using Cons.IH [of "mp_retain p m"] Cons.prems by (simp_all add: f)
  moreover have "mp_refcount (mp_at m q) + of_bool (q \<in> set (p # ps)) \<le> mp_refcount (mp_at (fold mp_retain (p # ps) m) q)" for q
    using IH(4) [of q] by (cases "q = p"; cases "q \<in> set ps") simp_all
  ultimately show ?case by (meson converse_rtranclp_into_rtranclp)
qed simp

lemma global_hold_run:
  assumes "media_inv m" "set (media_pipelines m) \<subseteq> mp_live m" "distinct (media_pipelines m)"
    "media_global_hold on flag m = Some m'"
  shows "media_step\<^sup>*\<^sup>* m m'"
proof -
  let ?m = "fold mp_retain (media_pipelines m) m" let ?f = "if on then mp_hold flag None else mp_unhold flag"
  note r = retain_run [OF assms(2)]
  have "has_client p ?m" if "p \<in> set (media_pipelines m)" for p
  proof -
    have "1 \<le> mp_refcount (mp_at m p)" "p \<in> mp_live m" using that assms(1,2) by (auto simp: media_inv_def)
    moreover have "mp_refcount (mp_at m p) + 1 \<le> mp_refcount (mp_at ?m p)"
      using spec [OF conjunct2 [OF conjunct2 [OF conjunct2 [OF r]]], of p] that by simp
    ultimately show ?thesis using r by (simp add: has_client_def)
  qed
  moreover have "pipe_op l (?f l)" for l by (auto intro: hold unhold)
  ultimately have "media_step\<^sup>*\<^sup>* ?m m'"
    using hold_loop_run [of ?f "media_pipelines m" ?m m'] assms(3,4) by (simp add: media_global_hold_def)
  with r show ?thesis by (meson rtranclp_trans)
qed

lemma media_ok: "media_step\<^sup>*\<^sup>* no_media m \<Longrightarrow> p \<in> mp_live m \<Longrightarrow> pipe_ok (mp_at m p)"
  using pipes.reachable by (auto simp: media_inv_def)

text \<open>A program that makes a pipe with a video stream, sends a packet and pauses it.\<close>

definition frame :: media_buf where
  "frame = \<lparr>mb_data_type = MB_VIDEO, mb_pts = 40000, mb_delta = 0, mb_size = 1000, mb_stream = 0, mb_epoch = 0,
     mb_keyframe = True, mb_skip = False, mb_data32 = 0\<rparr>"

definition sample_media :: media where
  "sample_media =
     with_mp 1 (mp_hold MP_HOLD_PAUSE None) (with_mp 1 (mb_enqueue_always Video frame) (mp_create 1 (MP_VIDEO OR MP_PRIMABLE) no_media))"

lemma sample_media_reachable: "media_step\<^sup>*\<^sup>* no_media sample_media" "1 \<in> mp_live sample_media"
proof -
  let ?m0 = "mp_create 1 (MP_VIDEO OR MP_PRIMABLE) no_media" let ?m1 = "with_mp 1 (mb_enqueue_always Video frame) ?m0"
  have "media_step no_media ?m0" by (rule create) (simp add: no_media_def)
  then have "media_step\<^sup>*\<^sup>* no_media ?m0" by (rule r_into_rtranclp)
  also have "media_step ?m0 ?m1" unfolding with_mp_def by (intro operate enqueue_always) (simp add: mp_create_def)
  also have "media_step ?m1 sample_media"
    unfolding sample_media_def with_mp_def [of 1 "mp_hold MP_HOLD_PAUSE None"] by (intro operate hold) (simp add: mp_create_def)
  finally show "media_step\<^sup>*\<^sup>* no_media sample_media" .
  show "1 \<in> mp_live sample_media" by (simp add: sample_media_def mp_create_def)
qed





section \<open>Flushing and pausing\<close>

definition flush_packet :: "bool \<Rightarrow> u32 \<Rightarrow> media_buf" where
  "flush_packet final ep = (ctrl_buf MB_CTRL_FLUSH (of_bool final))\<lparr>mb_epoch := ep\<rparr>"

text \<open>The lists of a queue, and what the steps of a flush do to them.\<close>

definition lists_of :: "media_queue \<Rightarrow> media_buf list \<times> media_buf list \<times> media_buf list \<times> int" where
  "lists_of mq = (mq_q_data mq, mq_q_ctrl mq, mq_q_aux mq, mq_stream mq)"

lemma lists_of_keeps [simp]:
  "lists_of (snd (mq_get_buffer_delay mq)) = lists_of mq" "lists_of (mq\<lparr>mq_packets_current := n\<rparr>) = lists_of mq"
  by (simp_all add: lists_of_def)

lemma fold_unaccount_lists [simp]:
  "lists_of (queue_of r (fold (unaccount q) l mp)) = lists_of (queue_of r mp)" "mp_epoch (fold (unaccount q) l mp) = mp_epoch mp"
  by (cases q; cases r; simp add: fold_unaccount)+

lemma flush_locked_lists:
  "lists_of (queue_of r (mq_flush_locked q full mp)) =
     (case lists_of (queue_of r mp) of (d, c, x, s) \<Rightarrow>
        if r = q then (filter (flush_keeps full) d, filter (flush_keeps full) c, filter (flush_keeps full) x, s) else (d, c, x, s))"
  "mp_epoch (mq_flush_locked q full mp) = mp_epoch mp"
  by (cases q; cases r; simp add: mq_flush_locked_def flush_q Let_def lists_of_def fold_unaccount)+

lemma send_flush_lists:
  "lists_of (queue_of r (send_flush q final mp)) =
     (case lists_of (queue_of r mp) of (d, c, x, s) \<Rightarrow>
        (d, if r = q \<and> 0 \<le> s then c @ [flush_packet final (mp_epoch mp)] else c, x, s))"
  "mp_epoch (send_flush q final mp) = mp_epoch mp"
  by (cases q; cases r; simp add: send_flush_def mb_enq_def account_def Let_def lists_of_def ctrl_buf_def flush_packet_def)+

lemma flush_lists:
  "lists_of (queue_of q (mp_flush_locked final mp)) =
     (case lists_of (queue_of q mp) of (d, c, x, s) \<Rightarrow>
        (filter (flush_keeps False) d,
         filter (flush_keeps False) c @ (if 0 \<le> s then [flush_packet final (mp_epoch mp + 1)] else []),
         filter (flush_keeps False) x, s))"
  "mp_epoch (mp_flush_locked final mp) = mp_epoch mp + 1"
proof -
  let ?v = "mq_flush_locked Video False (mq_flush_locked Audio False mp)"
  let ?e = "?v\<lparr>mp_epoch := mp_epoch ?v + 1\<rparr>"
  let ?f = "send_flush Audio final (send_flush Video final ?e)"
  have "queue_of q (mp_flush_locked final mp) = queue_of q ?f" "mp_epoch (mp_flush_locked final mp) = mp_epoch ?f"
    by (cases q; simp add: mp_flush_locked_def Let_def)+
  moreover have "queue_of q ?e = queue_of q ?v" by (cases q) simp_all
  ultimately show
    "lists_of (queue_of q (mp_flush_locked final mp)) =
     (case lists_of (queue_of q mp) of (d, c, x, s) \<Rightarrow>
        (filter (flush_keeps False) d,
         filter (flush_keeps False) c @ (if 0 \<le> s then [flush_packet final (mp_epoch mp + 1)] else []),
         filter (flush_keeps False) x, s))"
    "mp_epoch (mp_flush_locked final mp) = mp_epoch mp + 1"
    by (simp_all add: send_flush_lists flush_locked_lists split: prod.split) (cases q; simp)
qed

lemma keeps_only_ctrl: "flush_keeps full mb \<Longrightarrow> above_ctrl (mb_data_type mb)"
  by (auto simp: flush_keeps_def)

lemma filter_no_ctrl: "\<forall>mb \<in> set l. \<not> above_ctrl (mb_data_type mb) \<Longrightarrow> filter (flush_keeps full) l = []"
  using keeps_only_ctrl by (auto simp: filter_empty_conv simp del: above_ctrl.simps)

text \<open>
  Property C30. A flush starts a new epoch: no data and no subtitles are left in the queues, of the commands only
  those that end or unblock a decoder, and every decoder with a stream is told to flush with a packet of the new epoch
  behind them.
\<close>

theorem flush_starts_epoch:
  assumes "typed mp"
  shows "mp_epoch (mp_flush mp) = mp_epoch mp + 1 \<and>
    mq_q_data (queue_of q (mp_flush mp)) = [] \<and> mq_q_aux (queue_of q (mp_flush mp)) = [] \<and>
    mq_q_ctrl (queue_of q (mp_flush mp)) =
      filter (flush_keeps False) (mq_q_ctrl (queue_of q mp)) @
      (if 0 \<le> mq_stream (queue_of q mp) then [flush_packet False (mp_epoch mp + 1)] else [])"
proof -
  have "queue_typed (queue_of q mp)" using assms by (cases q) (simp_all add: typed_def)
  then have "filter (flush_keeps False) (mq_q_data (queue_of q mp)) = []" "filter (flush_keeps False) (mq_q_aux (queue_of q mp)) = []"
    by (simp_all add: queue_typed_def filter_no_ctrl del: above_ctrl.simps)
  then show ?thesis
    using flush_lists(1) [of q False mp] flush_lists(2) [of False mp] by (simp add: mp_flush_def lists_of_def)
qed

text \<open>A pipe with a packet and a command in the queue of each decoder.\<close>

definition sample_pipe :: locked where
  "sample_pipe =
     mp_send_cmd_locked Video MB_CTRL_EXIT (mb_enqueue_always Video frame
       (upd_queue Video (\<lambda>mq. mq\<lparr>mq_stream := 0\<rparr>) (media_pipe.extend (new_pipe MP_VIDEO) \<lparr>media_buffer_hungry = 0\<rparr>)))"

lemma new_pipe_ok: "pipe_ok (media_pipe.extend (new_pipe f) \<lparr>media_buffer_hungry = 0\<rparr>)"
  by (simp add: pipe_ok_def media_pipe.defs new_pipe_def empty_queue_def excess_def excess_bytes_def typed_def queue_typed_def gated_def packets_of_def)

lemma sample_pipe_ok: "pipe_ok sample_pipe"
proof -
  let ?n = "media_pipe.extend (new_pipe MP_VIDEO) \<lparr>media_buffer_hungry = 0\<rparr>"
  let ?s = "upd_queue Video (\<lambda>mq. mq\<lparr>mq_stream := 0\<rparr>) ?n"
  have "conserves ?n ?s" by (rule stream_keeps)
  also have "conserves ?s (mb_enq Video frame ?s)" by (rule mb_enq_conserves)
  also have "conserves \<dots> sample_pipe" unfolding sample_pipe_def mb_enqueue_always_def by (rule send_cmd_conserves)
  finally show ?thesis
    by (rule conserves_ok) (simp_all add: new_pipe_ok sample_pipe_def mb_enqueue_always_def mp_send_cmd_locked_def del: upd_queue.simps)
qed

theorem flush_starts_epoch_witness:
  "mq_q_data (queue_of Video (mp_flush sample_pipe)) = [] \<and>
   mq_q_ctrl (queue_of Video (mp_flush sample_pipe)) =
     filter (flush_keeps False) (mq_q_ctrl (queue_of Video sample_pipe)) @
     (if 0 \<le> mq_stream (queue_of Video sample_pipe) then [flush_packet False (mp_epoch sample_pipe + 1)] else [])"
proof -
  have "typed sample_pipe" using sample_pipe_ok by (simp add: pipe_ok_def)
  from flush_starts_epoch [OF this, of Video] show ?thesis by blast
qed

lemma cmd_flags:
  "mp_flags (mp_send_cmd_locked q c m) = mp_flags m" "mp_flags (mp_event_dispatch e m) = mp_flags m"
  by (cases q; simp add: mp_send_cmd_locked_def mb_enq_def account_def Let_def mp_event_dispatch_def split: option.split)+

lemma playstatus_flushes:
  assumes "has_flag (mp_flags mp) MP_FLUSH_ON_HOLD" "\<not> mp_hold_gate mp" "mp_hold_flags mp \<noteq> 0"
  obtains m1 where "mp_set_playstatus_by_hold_locked msg mp = mp_flush_locked False m1" "hold_state m1 = (True, mp_hold_flags mp)"
proof
  let ?g = "mp\<lparr>mp_hold_gate := True\<rparr>"
  let ?v = "if has_flag (mp_flags ?g) MP_VIDEO then mp_send_cmd_locked Video MB_CTRL_PAUSE ?g else ?g"
  let ?p = "(mp_send_cmd_locked Audio MB_CTRL_PAUSE ?v)
      \<lparr>mp_prop_pausereason := Some (case msg of Some m \<Rightarrow> m | None \<Rightarrow> ''Paused by user''), mp_prop_playstatus := ''pause''\<rparr>"
  let ?d = "mp_event_dispatch (EVENT_HOLD True) ?p"
  have "mp_flags ?d = mp_flags mp" by (simp add: cmd_flags)
  moreover have "mp_set_playstatus_by_hold_locked msg mp = (if has_flag (mp_flags ?d) MP_FLUSH_ON_HOLD then mp_flush_locked False ?d else ?d)"
    using assms(2,3) by (simp only: mp_set_playstatus_by_hold_locked_def Let_def if_True if_False simp_thms)
  ultimately show "mp_set_playstatus_by_hold_locked msg mp = mp_flush_locked False ?d" using assms(1) by simp
  have "hold_state (m\<lparr>mp_prop_pausereason := pr, mp_prop_playstatus := ps\<rparr>) = hold_state m"
    "hold_state (m\<lparr>mp_hold_gate := g\<rparr>) = (g, mp_hold_flags m)" for m :: locked and pr ps g
    by (simp_all add: hold_state_def)
  then show "hold_state ?d = (True, mp_hold_flags mp)" by simp
qed

text \<open>
  Property C40. With \<^verbatim>\<open>MP_FLUSH_ON_HOLD\<close> a pipe that is held never pauses its decoders: the flush at the end of
  \<^verbatim>\<open>mp_set_playstatus_by_hold_locked\<close> removes the commands that were sent before it.
\<close>

theorem pause_lost_on_flush:
  assumes "has_flag (mp_flags mp) MP_FLUSH_ON_HOLD" "\<not> mp_hold_gate mp" "mp_hold_flags mp OR flag \<noteq> 0"
  shows "mp_hold_gate (mp_hold flag msg mp) \<and>
    (\<forall>mb \<in> set (mq_q_ctrl (queue_of q (mp_hold flag msg mp))). mb_data_type mb \<noteq> MB_CTRL_PAUSE)"
proof -
  obtain m1 where m1: "mp_hold flag msg mp = mp_flush_locked False m1" and h: "hold_state m1 = (True, mp_hold_flags mp OR flag)"
    using playstatus_flushes [of "mp\<lparr>mp_hold_flags := mp_hold_flags mp OR flag\<rparr>" msg] assms by (auto simp: mp_hold_def)
  have "hold_state (mp_hold flag msg mp) = (True, mp_hold_flags mp OR flag)" using m1 h by simp
  then have "mp_hold_gate (mp_hold flag msg mp)" by (simp add: hold_state_def)
  moreover have "mb \<in> set (mq_q_ctrl (queue_of q (mp_hold flag msg mp))) \<Longrightarrow> mb_data_type mb \<noteq> MB_CTRL_PAUSE" for mb
    using flush_lists(1) [of q False m1] unfolding m1 lists_of_def
    by (auto simp: flush_keeps_def flush_packet_def ctrl_buf_def split: if_splits)
  ultimately show ?thesis by blast
qed

theorem pause_lost_on_flush_witness:
  "mp_hold_gate (mp_hold MP_HOLD_PAUSE None (mp_set_clr_flags MP_FLUSH_ON_HOLD 0 sample_pipe)) \<and>
   list_all (\<lambda>mb. mb_data_type mb \<noteq> MB_CTRL_PAUSE)
     (mq_q_ctrl (queue_of Audio (mp_hold MP_HOLD_PAUSE None (mp_set_clr_flags MP_FLUSH_ON_HOLD 0 sample_pipe))))"
proof -
  let ?mp = "mp_set_clr_flags MP_FLUSH_ON_HOLD 0 sample_pipe"
  have h: "hold_state sample_pipe = (False, 0)"
    by (simp add: sample_pipe_def mb_enqueue_always_def) (simp add: hold_state_def media_pipe.defs new_pipe_def)
  have "(w OR f) AND f = f" for w f :: u32 by (rule bit_word_eqI) (auto simp: bit_simps)
  then have "has_flag (mp_flags ?mp) MP_FLUSH_ON_HOLD" by (simp add: mp_set_clr_flags_def has_flag_def mp_flag_defs)
  moreover have "\<not> mp_hold_gate ?mp" "mp_hold_flags ?mp OR MP_HOLD_PAUSE \<noteq> 0"
    using h by (simp_all add: mp_set_clr_flags_def hold_state_def mp_flag_defs)
  ultimately show ?thesis using pause_lost_on_flush [of ?mp MP_HOLD_PAUSE None Audio] by (simp add: list_all_iff)
qed

section \<open>Seeking in the queues\<close>

lemma find_audio_skips: "\<forall>mb \<in> set pre. \<not> at_or_after pos mb \<Longrightarrow> find_audio pos i (pre @ l) = find_audio pos (i + length pre) l"
  by (induction pre arbitrary: i) auto

lemma find_video_skips:
  assumes "\<forall>mb \<in> set pre. \<not> at_or_after pos mb"
  obtains vk' where "\<And>l. find_video pos i vk (pre @ l) = find_video pos (i + length pre) vk' l"
  using assms
proof (induction pre arbitrary: i vk thesis)
  case (Cons mb pre)
  then obtain vk' where "\<And>l. find_video pos (Suc i) (if mb_keyframe mb then Some i else vk) (pre @ l) = find_video pos (Suc i + length pre) vk' l"
    by (metis list.set_intros(2))
  then show ?case using Cons.prems by simp
qed simp

lemma find_video_keeps_key:
  "\<forall>mb \<in> set pre. \<not> at_or_after pos mb \<and> \<not> mb_keyframe mb \<Longrightarrow> find_video pos i vk (pre @ l) = find_video pos (i + length pre) vk l"
  by (induction pre arbitrary: i) auto

lemma find_video_result:
  assumes "\<forall>mb \<in> set (vpre @ seg). \<not> at_or_after pos mb" "at_or_after pos v"
    "mb_keyframe (hd (seg @ [v]))" "\<forall>mb \<in> set (tl (seg @ [v])). \<not> mb_keyframe mb"
  shows "find_video pos 0 None (vpre @ seg @ v # vsuf) = Some (length vpre + length seg, Some (length vpre))"
proof -
  obtain vk where "\<And>l. find_video pos 0 None (vpre @ l) = find_video pos (0 + length vpre) vk l"
    by (rule find_video_skips [of vpre pos 0 None]) (use assms(1) in auto)
  moreover have "find_video pos n vk (seg @ v # vsuf) = Some (n + length seg, Some n)" for n
  proof (cases seg)
    case (Cons kf mid)
    then have "find_video pos n vk (seg @ v # vsuf) = find_video pos (Suc n) (Some n) (mid @ v # vsuf)"
      using assms(1,3) by simp
    also have "\<dots> = find_video pos (Suc n + length mid) (Some n) (v # vsuf)"
      by (rule find_video_keeps_key) (use assms(1,4) Cons in auto)
    also have "\<dots> = Some (n + length seg, Some n)" using assms(2,4) Cons by simp
    finally show ?thesis .
  qed (use assms(2,3) in simp)
  ultimately show ?thesis by simp
qed

lemma unaccount_tail:
  "lists_of (queue_of r (unaccount q mb (upd_queue q (\<lambda>mq. mq\<lparr>mq_q_data := l\<rparr>) mp))) =
     (case lists_of (queue_of r mp) of (d, c, x, s) \<Rightarrow> (if r = q then l else d, c, x, s))"
  "mp_epoch (unaccount q mb (upd_queue q (\<lambda>mq. mq\<lparr>mq_q_data := l\<rparr>) mp)) = mp_epoch mp"
  by (cases q; cases r; simp add: unaccount_def lists_of_def)+

lemma drop_epoch: "mp_epoch (drop_packets q n mp) = mp_epoch mp"
  by (induction n arbitrary: mp) (simp_all add: unaccount_tail split: list.split)

lemma drop_lists:
  "lists_of (queue_of r (drop_packets q n mp)) =
     (case lists_of (queue_of r mp) of (d, c, x, s) \<Rightarrow> (if r = q then drop n d else d, c, x, s))"
proof (induction n arbitrary: mp)
  case (Suc n)
  obtain d c x s where L: "lists_of (queue_of r mp) = (d, c, x, s)" by (cases "lists_of (queue_of r mp)")
  have D: "r = q \<Longrightarrow> mq_q_data (queue_of q mp) = d" using L by (auto simp: lists_of_def)
  show ?case
  proof (cases "mq_q_data (queue_of q mp)")
    case (Cons mb l)
    then have "r = q \<Longrightarrow> d = mb # l" using D by simp
    then show ?thesis using Cons L by (simp add: Suc.IH unaccount_tail)
  qed (use L D in auto)
qed (simp add: lists_of_def)

lemma stats_lists [simp]: "lists_of (queue_of r (mq_update_stats mp)) = lists_of (queue_of r mp)"
  by (cases r) simp_all

lemma seek_lists:
  "lists_of (queue_of r (seek_queues a v k mp)) =
     (case lists_of (queue_of r mp) of (d, c, x, s) \<Rightarrow>
        (update_epoch_in_queue (mp_epoch mp) (if r = Video then mark_skipped (v - k) (drop k d) else drop a d), c,
         if r = Video then update_epoch_in_queue (mp_epoch mp) x else x, s))"
  "mp_epoch (seek_queues a v k mp) = mp_epoch mp"
proof -
  let ?m = "mq_update_stats (drop_packets Video k (mq_update_stats (drop_packets Audio a mp)))"
  have l: "lists_of (queue_of r ?m) = (case lists_of (queue_of r mp) of (d, c, x, s) \<Rightarrow> (if r = Video then drop k d else drop a d, c, x, s))"
    "mp_epoch ?m = mp_epoch mp"
    by (simp_all add: drop_lists drop_epoch split: prod.split) (cases r; simp)
  show
    "lists_of (queue_of r (seek_queues a v k mp)) =
     (case lists_of (queue_of r mp) of (d, c, x, s) \<Rightarrow>
        (update_epoch_in_queue (mp_epoch mp) (if r = Video then mark_skipped (v - k) (drop k d) else drop a d), c,
         if r = Video then update_epoch_in_queue (mp_epoch mp) x else x, s))"
    using l by (cases r) (auto simp: seek_queues_def Let_def lists_of_def)
  show "mp_epoch (seek_queues a v k mp) = mp_epoch mp" using l(2) by (simp add: seek_queues_def Let_def)
qed

lemma flush_cmd_lists:
  "lists_of (queue_of r (mb_enq q (ctrl_buf MB_CTRL_FLUSH 0) mp)) =
     (case lists_of (queue_of r mp) of (d, c, x, s) \<Rightarrow> (d, if r = q then c @ [flush_packet False (mp_epoch mp)] else c, x, s))"
  "mp_epoch (mb_enq q mb mp) = mp_epoch mp"
  by (cases q; cases r; simp add: mb_enq_def account_def Let_def lists_of_def ctrl_buf_def flush_packet_def)+

text \<open>
  Property C18. A seek to a position that is within the queues: audio starts with the first packet at the position,
  video with the last key frame before it, from there to the position the frames are only decoded and not shown, what is
  left belongs to the current epoch, and both decoders are told to flush.
\<close>

theorem seek_in_queues_correct:
  assumes audio: "mq_q_data (mp_audio mp) = apre @ a # asuf" "\<forall>mb \<in> set apre. \<not> at_or_after pos mb" "at_or_after pos a"
    and video: "mq_q_data (mp_video mp) = vpre @ seg @ v # vsuf" "\<forall>mb \<in> set (vpre @ seg). \<not> at_or_after pos mb" "at_or_after pos v"
    and key: "mb_keyframe (hd (seg @ [v]))" "\<forall>mb \<in> set (tl (seg @ [v])). \<not> mb_keyframe mb"
  shows "\<exists>mp'. mp_seek_in_queues pos mp = (True, mp') \<and>
    mq_q_data (mp_audio mp') = map (\<lambda>mb. mb\<lparr>mb_epoch := mp_epoch mp\<rparr>) (a # asuf) \<and>
    mq_q_data (mp_video mp') =
      map (\<lambda>mb. mb\<lparr>mb_epoch := mp_epoch mp\<rparr>) (map (\<lambda>mb. mb\<lparr>mb_skip := True\<rparr>) seg @ v # vsuf) \<and>
    mq_q_ctrl (mp_audio mp') = mq_q_ctrl (mp_audio mp) @ [flush_packet False (mp_epoch mp)] \<and>
    mq_q_ctrl (mp_video mp') = mq_q_ctrl (mp_video mp) @ [flush_packet False (mp_epoch mp)]"
proof -
  let ?k = "length vpre" let ?v = "length vpre + length seg"
  let ?mp = "mb_enq Audio (ctrl_buf MB_CTRL_FLUSH 0) (mb_enq Video (ctrl_buf MB_CTRL_FLUSH 0) (seek_queues (length apre) ?v ?k mp))"
  have fa: "find_audio pos 0 (mq_q_data (mp_audio mp)) = Some (length apre)"
    using audio by (simp add: find_audio_skips)
  have fv: "find_video pos 0 None (mq_q_data (mp_video mp)) = Some (?v, Some ?k)"
    unfolding video(1) using video(2,3) key by (rule find_video_result)
  have q: "lists_of (queue_of r ?mp) = (case lists_of (queue_of r mp) of (d, c, x, s) \<Rightarrow>
        (update_epoch_in_queue (mp_epoch mp) (if r = Video then mark_skipped (length seg) (drop ?k d) else drop (length apre) d),
         c @ [flush_packet False (mp_epoch mp)], if r = Video then update_epoch_in_queue (mp_epoch mp) x else x, s))" for r
    by (simp add: flush_cmd_lists seek_lists split: prod.split) (cases r; simp)
  have "mq_q_data (mp_video ?mp) \<noteq> []"
    using q [of Video] video(1) by (simp add: lists_of_def update_epoch_in_queue_def mark_skipped_def)
  then have "mp_check_underrun ?mp = ?mp" by (simp add: mp_check_underrun_def)
  then have "mp_seek_in_queues pos mp = (True, ?mp)" by (simp add: seek_in_queues_eq fa fv)
  then show ?thesis
    using q [of Audio] q [of Video] audio(1) video(1)
    by (intro exI [of _ ?mp]) (simp add: lists_of_def update_epoch_in_queue_def mark_skipped_def)
qed

text \<open>A pipe with the given packets and the books to match.\<close>

definition filled_pipe :: "media_buf list \<Rightarrow> media_buf list \<Rightarrow> locked" where
  "filled_pipe v a =
     (media_pipe.extend (new_pipe 0) \<lparr>media_buffer_hungry = 0\<rparr>)
       \<lparr>mp_video := empty_queue\<lparr>mq_stream := 0, mq_q_data := v, mq_packets_current := of_nat (length v)\<rparr>,
        mp_audio := empty_queue\<lparr>mq_stream := 1, mq_q_data := a, mq_packets_current := of_nat (length a)\<rparr>,
        mp_buffer_current := bytes_of v + bytes_of a\<rparr>"

lemma filled_fields [simp]:
  "mq_q_data (mp_video (filled_pipe v a)) = v" "mq_q_data (mp_audio (filled_pipe v a)) = a"
  "mq_q_ctrl (mp_video (filled_pipe v a)) = []" "mq_q_aux (mp_video (filled_pipe v a)) = []"
  "mp_eq (filled_pipe v a) = []" "mp_flags (filled_pipe v a) = 0"
  by (simp_all add: filled_pipe_def media_pipe.defs new_pipe_def empty_queue_def)

lemma filled_ok: "\<forall>mb \<in> set (v @ a). \<not> above_ctrl (mb_data_type mb) \<Longrightarrow> pipe_ok (filled_pipe v a)"
  by (auto simp: filled_pipe_def pipe_ok_def media_pipe.defs new_pipe_def empty_queue_def excess_def excess_bytes_def typed_def
      queue_typed_def gated_def packets_of_def)

theorem seek_in_queues_correct_witness:
  "\<exists>mp'. mp_seek_in_queues 60000 (filled_pipe [frame, frame\<lparr>mb_pts := 60000, mb_keyframe := False\<rparr>] [frame, frame\<lparr>mb_pts := 60000\<rparr>]) = (True, mp') \<and>
    mq_q_data (mp_audio mp') = [frame\<lparr>mb_pts := 60000, mb_epoch := 1\<rparr>] \<and>
    mq_q_data (mp_video mp') = [frame\<lparr>mb_skip := True, mb_epoch := 1\<rparr>, frame\<lparr>mb_pts := 60000, mb_keyframe := False, mb_epoch := 1\<rparr>]"
proof -
  have e: "mp_epoch (filled_pipe v a) = 1" for v a by (simp add: filled_pipe_def media_pipe.defs new_pipe_def)
  show ?thesis
    using seek_in_queues_correct
      [of "filled_pipe [frame, frame\<lparr>mb_pts := 60000, mb_keyframe := False\<rparr>] [frame, frame\<lparr>mb_pts := 60000\<rparr>]"
        "[frame]" "frame\<lparr>mb_pts := 60000\<rparr>" "[]" 60000 "[]" "[frame]" "frame\<lparr>mb_pts := 60000, mb_keyframe := False\<rparr>" "[]"]
    by (auto simp: e at_or_after_def PTS_UNSET_def frame_def)
qed

section \<open>Waiting producers\<close>

definition vd_takes :: "nat \<Rightarrow> video_decoder \<Rightarrow> locked \<Rightarrow> locked" where
  "vd_takes n vd mp = ((\<lambda>mp. snd (vd_take vd mp)) ^^ n) mp"

text \<open>What the decoder needs to go on: only data ahead, and no pre-buffering that would hold it.\<close>

definition only_data :: "media_buf list \<Rightarrow> locked \<Rightarrow> bool" where
  "only_data l mp \<longleftrightarrow>
     mq_q_data (mp_video mp) = l \<and> mq_q_ctrl (mp_video mp) = [] \<and> mq_q_aux (mp_video mp) = [] \<and>
     \<not> has_flag (mp_flags mp) MP_PRE_BUFFERING \<and> mp_eq mp = []"

lemma take_only_data:
  assumes "only_data (mb # l) mp" "\<not> vd_hold vd" "vd_cur vd = None"
  shows "fst (vd_take vd mp) = Pick mb" "only_data l (snd (vd_take vd mp))"
    "mq_packets_current (mp_video (snd (vd_take vd mp))) = mq_packets_current (mp_video mp) - 1"
proof -
  have "take_data Video mp = mp_video_update (\<lambda>mq. mq\<lparr>mq_q_data := tl (mq_q_data mq)\<rparr>) mp"
    using assms(1) by (simp add: take_data_def mp_check_underrun_def only_data_def)
  then have t: "vd_take vd mp = (Pick mb, mq_update_stats (unaccount Video mb (mp_video_update (\<lambda>mq. mq\<lparr>mq_q_data := tl (mq_q_data mq)\<rparr>) mp)))"
    using assms by (simp add: vd_take_def only_data_def)
  show "fst (vd_take vd mp) = Pick mb" by (simp add: t)
  show "only_data l (snd (vd_take vd mp))"
    "mq_packets_current (mp_video (snd (vd_take vd mp))) = mq_packets_current (mp_video mp) - 1"
    using assms(1) by (simp_all add: t only_data_def unaccount_def)
qed

lemma takes_only_data:
  assumes "\<not> vd_hold vd" "vd_cur vd = None" "only_data D mp" "n \<le> length D"
  shows "only_data (drop n D) (vd_takes n vd mp) \<and>
    mq_packets_current (mp_video (vd_takes n vd mp)) = mq_packets_current (mp_video mp) - of_nat n"
  using assms(4)
proof (induction n)
  case (Suc n)
  then have "drop n D = D ! n # drop (Suc n) D" by (simp add: Cons_nth_drop_Suc)
  with Suc show ?case using take_only_data [of "D ! n" "drop (Suc n) D" "vd_takes n vd mp" vd] assms(1,2)
    by (simp add: vd_takes_def diff_diff_eq add.commute)
qed (simp add: vd_takes_def assms(3))


definition idle_decoder :: video_decoder where
  "idle_decoder = \<lparr>vd_hold = False, vd_run = True, vd_subpts = 0, vd_cur = None\<rparr>"


section \<open>Other findings\<close>

text \<open>
  A pipe that another one replaces as primary is never freed: \<^verbatim>\<open>mp_become_primary\<close> does not release the
  reference of \<^verbatim>\<open>media_primary\<close> to the old pipe, and destroying it later only drops the reference of its owner.
\<close>

theorem primary_reference_leaks:
  assumes "media_primary m = Some p" "p \<in> mp_live m" "p \<noteq> r" "mp_refcount (mp_at m p) = 2"
    "mp_become_primary sel back fwd r m = Some m1" "mp_destroy p m1 = Some m2"
  shows "p \<in> mp_live m2 \<and> mp_refcount (mp_at m2 p) = 1 \<and> media_primary m2 = Some r"
proof -
  obtain l where l: "mp_enqueue_event_locked sel back fwd (EVENT_ACTION_VECTOR [ACTION_STOP]) (lock_mp p m) = Some l"
    and m1: "m1 = (mp_retain r (unlock_mp p l m))\<lparr>media_primary := Some r\<rparr>"
    using assms(1,3,5) by (auto simp: mp_become_primary_def split: if_splits bind_splits)
  have "mp_refcount l = 2" using event_conserves [OF l] assms(4) by (simp add: conserves_def)
  then have m: "mp_refcount (mp_at m1 p) = 2" "p \<in> mp_live m1" "media_primary m1 = Some r"
    using assms(2,3) by (simp_all add: m1 mp_retain_def)
  then have "m2 = with_mp p drop_ref (m1\<lparr>media_pipelines := remove1 p (media_pipelines m1)\<rparr>)"
    using assms(3,6) by (auto simp: mp_destroy_def mp_unbecome_primary_def release_eq split: if_splits)
  then show ?thesis using m by (simp add: drop_ref_def)
qed

text \<open>Two pipes, of which the first is primary.\<close>

definition two_pipes :: media where
  "two_pipes = (mp_retain 1 (mp_create 2 MP_PRIMABLE (mp_create 1 MP_PRIMABLE no_media)))\<lparr>media_primary := Some 1\<rparr>"

lemma two_pipes_swapped:
  obtains m1 m2 where "mp_become_primary (\<lambda>_. False) 0 0 2 two_pipes = Some m1" "mp_destroy 1 m1 = Some m2"
proof -
  have f: "has_flag (mp_flags (mp_at two_pipes 2)) MP_PRIMABLE"
    by (simp add: two_pipes_def mp_retain_def mp_create_def new_pipe_def has_flag_def mp_flag_defs)
  obtain l where l: "mp_enqueue_event_locked (\<lambda>_. False) 0 0 (EVENT_ACTION_VECTOR [ACTION_STOP]) (lock_mp 1 two_pipes) = Some l"
    by (simp add: mp_enqueue_event_locked_def Let_def)
  have fl: "mp_flags l = MP_PRIMABLE"
    using l by (auto simp: mp_enqueue_event_locked_def event_is_action_def forward_event_def Let_def cmd_flags lock_mp_def media_pipe.defs
        two_pipes_def mp_retain_def mp_create_def new_pipe_def with_mp_def unlock_mp_def)
  let ?m1 = "(mp_retain 2 (unlock_mp 1 l two_pipes))\<lparr>media_primary := Some 2\<rparr>"
  have 1: "mp_become_primary (\<lambda>_. False) 0 0 2 two_pipes = Some ?m1"
    using f l by (simp add: mp_become_primary_def) (simp add: two_pipes_def)
  have "mp_refcount l = 2"
    using event_conserves [OF l] by (simp add: conserves_def two_pipes_def mp_retain_def) (simp add: mp_create_def new_pipe_def)
  then have "mp_destroy 1 ?m1 = Some (with_mp 1 drop_ref (?m1\<lparr>media_pipelines := remove1 1 (media_pipelines ?m1)\<rparr>))"
    using fl by (simp add: mp_destroy_def mp_unbecome_primary_def release_eq mp_retain_def has_flag_def mp_flag_defs)
  with 1 show thesis using that by blast
qed

text \<open>\<^verbatim>\<open>mb_enqueue_no_block\<close> refuses a packet for which there is no room only while the queue is short, and accepts it when the
  queue is long: the test for the number of packets is the wrong way round.\<close>

theorem no_block_inverted:
  assumes "\<not> above_ctrl (mb_data_type mb)" "mb_data_type mb \<noteq> MB_CTRL"
    "mp_buffer_limit (enqueue_enter mp) < mp_buffer_current (enqueue_enter mp) + mb_size mb"
  shows "\<exists>mp'. mb_enqueue_no_block q mb t mp = Some (if mq_packets_current (queue_of q (enqueue_enter mp)) < 5 then -1 else 0, mp')"
  using assms by (auto simp: mb_enqueue_no_block_def Let_def simp del: above_ctrl.simps)

text \<open>A flush while the audio decoder works on a packet: the rest of it comes back to the queue with the epoch from before.\<close>

theorem stale_audio_after_flush:
  assumes "typed mp" "mb_data_type mb = MB_AUDIO" "mb_epoch mb = mp_epoch mp" "left \<noteq> 0"
  shows "\<exists>ad' mp'. ad_process left mb ad (mp_flush mp) = Some (ad', mp') \<and>
    mq_q_data (mp_audio mp') = [mb\<lparr>mb_size := left\<rparr>] \<and> mb_epoch mb \<noteq> mp_epoch mp'"
  using assms flush_lists(1) [of Audio False mp] flush_lists(2) [of False mp]
    filter_no_ctrl [of "mq_q_data (mp_audio mp)" False]
  by (simp add: typed_def queue_typed_def lists_of_def mp_flush_def ad_process_def put_back_def account_def)

end
