(* ===== verification/Htsmsg_Xml.thy ===== *)
theory Htsmsg_Xml
  imports Htsmsg Html
begin

text \<open>
  Messages from XML, \<^verbatim>\<open>src/src/htsmsg/htsmsg_xml.c\<close>. The parser works in the buffer that holds the document:
  a name or value of the message is a pointer into it, and the byte after it is overwritten with a NUL. A pointer
  into the document is the list of bytes from there to its end, so a position is the length of that list and goes
  down as the parser goes on; reading at the end gives the terminating NUL.

  Bytes are overwritten behind the current position only, so the strings of the message are values here, with one
  exception: a tag name that ends in a slash which begins an attribute name (see \<open>htsmsg_xml_parse_tag\<close>). The
  positions that are overwritten are kept in \<open>xp_written\<close>, as the report of an error counts lines in the same
  buffer. The program is compiled with \<^verbatim>\<open>-funsigned-char\<close>, so bytes are compared unsigned.
\<close>

section \<open>Parser state\<close>

datatype xml_encoding = XML_ENCODING_UTF8 | XML_ENCODING_8859_1

text \<open>A namespace prefix in scope. \<open>xmlns_at\<close> is the position of its declaration, which stands for the address
  of the structure.\<close>

record xmlns =
  xmlns_at :: nat
  xmlns_prefix :: bytes
  xmlns_normalized :: bytes

text \<open>\<open>xp_errpos\<close> is \<open>None\<close> as long as the field is not initialised. \<open>xp_heap\<close> is what the heap holds behind the
  characters of a reference (the parser reads that byte without writing it first), and \<open>xp_dangling\<close> counts the
  fields of the message that point into a block which is free.\<close>

record xmlparser =
  xp_encoding :: xml_encoding
  xp_errmsg :: bytes
  xp_errpos :: "nat option"
  xp_parser_err_line :: nat
  xp_trim_whitespace :: bool
  xp_namespaces :: "xmlns list"
  xp_written :: "nat list"
  xp_heap :: u8
  xp_dangling :: nat

text \<open>A piece of text: its bytes, and the bytes of the document from \<^verbatim>\<open>cc_end\<close>, or \<open>None\<close> when it is the
  \<^verbatim>\<open>cc_buf\<close> of the structure.\<close>

datatype cdata_content = Cdata (cc_encoding: xml_encoding) (cc_text: bytes) (cc_end: "bytes option")

definition xmlerr2 :: "xmlparser \<Rightarrow> bytes \<Rightarrow> nat \<Rightarrow> bytes \<Rightarrow> xmlparser" where
  "xmlerr2 xp pos line msg =
     xp\<lparr>xp_errmsg := take 127 (c_str msg), xp_errpos := Some (length pos), xp_parser_err_line := line\<rparr>"

definition overwrite :: "xmlparser \<Rightarrow> bytes \<Rightarrow> xmlparser" where
  "overwrite xp pos = xp\<lparr>xp_written := length pos # xp_written xp\<rparr>"

section \<open>Characters\<close>

definition xml_is_cc_ws :: "cdata_content \<Rightarrow> bool" where
  "xml_is_cc_ws cc \<longleftrightarrow> list_all (\<lambda>c. c \<le> 32) (cc_text cc)"

definition add_unicode :: "cdata_content list \<Rightarrow> int \<Rightarrow> cdata_content list" where
  "add_unicode ccq c = ccq @ [Cdata XML_ENCODING_UTF8 (utf8_put c) None]"

text \<open>The two loops of \<open>decode_character_reference\<close>; \<^verbatim>\<open>v\<close> is a 32 bit integer. They differ in the base
  and in the digits they accept.\<close>

definition reference_digit :: "bool \<Rightarrow> u8 \<Rightarrow> u32 option" where
  "reference_digit hex c =
     (if chr CHR ''0'' \<le> c \<and> c \<le> chr CHR ''9'' then Some (ucast c - 48)
      else if hex \<and> chr CHR ''a'' \<le> c \<and> c \<le> chr CHR ''f'' then Some (ucast c - 97 + 10)
      else if hex \<and> chr CHR ''A'' \<le> c \<and> c \<le> chr CHR ''F'' then Some (ucast c - 65 + 10)
      else None)"

fun reference_loop :: "bool \<Rightarrow> u32 \<Rightarrow> bytes \<Rightarrow> u32 \<times> bytes" where
  "reference_loop hex v [] = (0, [])"
| "reference_loop hex v (c # src) =
     (case reference_digit hex c of
        Some d \<Rightarrow> reference_loop hex (v * (if hex then 0x10 else 10) + d) src
      | None \<Rightarrow> if c = chr CHR '';'' then (v, src) else (0, c # src))"

definition decode_character_reference :: "bytes \<Rightarrow> int \<times> bytes" where
  "decode_character_reference src =
     (let (v, rest) = (if deref src = chr CHR ''x'' then reference_loop True 0 (tl src)
                       else reference_loop False 0 src)
      in (sint v, rest))"

definition is_xmlws :: "u8 \<Rightarrow> bool" where
  "is_xmlws c \<longleftrightarrow> c > 0 \<and> c \<le> 32"

abbreviation skip_xmlws :: "bytes \<Rightarrow> bytes" where
  "skip_xmlws src \<equiv> dropWhile is_xmlws src"

section \<open>Names\<close>

definition xmlns_destroy :: "xmlparser \<Rightarrow> nat \<Rightarrow> xmlparser" where
  "xmlns_destroy xp ns = xp\<lparr>xp_namespaces := filter (\<lambda>n. xmlns_at n \<noteq> ns) (xp_namespaces xp)\<rparr>"

text \<open>Messages are made by \<open>htsmsg_create_map\<close> here, so the assertion of \<open>htsmsg_field_add\<close> holds. The new
  field is the last one; \<open>set_namespace\<close> stores through the pointer to it.\<close>

definition field_add :: "htsmsg \<Rightarrow> bytes \<Rightarrow> hmf_value \<Rightarrow> u8 \<Rightarrow> htsmsg" where
  "field_add parent name type flags =
     (case htsmsg_field_add parent (Some name) type flags None of Some m \<Rightarrow> m | None \<Rightarrow> parent)"

definition set_last :: "htsmsg \<Rightarrow> htsmsg_field \<Rightarrow> htsmsg" where
  "set_last msg f = Htsmsg (hm_islist msg) (butlast (hm_fields msg) @ [f])"

definition set_namespace :: "htsmsg \<Rightarrow> bytes \<Rightarrow> htsmsg" where
  "set_namespace msg ns =
     (let f = last (hm_fields msg)
      in set_last msg (Field (hmf_name f) (hmf_u f) (hmf_flags f) (hmf_childs f) (Some ns)))"

definition add_xml_field ::
    "xmlparser \<Rightarrow> htsmsg \<Rightarrow> bytes \<Rightarrow> hmf_value \<Rightarrow> u8 \<Rightarrow> htsmsg" where
  "add_xml_field xp parent tagname type flags =
     (let prefix = takeWhile (\<lambda>c. c \<noteq> chr CHR '':'') tagname;
          rest = drop (length prefix) tagname;
          plain = field_add parent tagname type flags
      in if deref rest \<noteq> 0 \<and> deref (tl rest) \<noteq> 0 then
           (case find (\<lambda>ns. xmlns_prefix ns = prefix) (xp_namespaces xp) of
              Some ns \<Rightarrow> set_namespace (field_add parent (tl rest) type flags)
                                      (xmlns_normalized ns)
            | None \<Rightarrow> plain)
         else plain)"

section \<open>Attributes\<close>

definition attrib_char :: "u8 \<Rightarrow> bool" where
  "attrib_char c \<longleftrightarrow> c \<noteq> 0 \<and> \<not> is_xmlws c \<and> c \<noteq> chr CHR ''=''"

text \<open>The part of \<open>htsmsg_xml_parse_attrib\<close> after the syntax: a declaration of a namespace, or a field.
  \<open>src\<close> is where the name begins, \<open>s1\<close> and \<open>s5\<close> where name and value end.\<close>

definition xml_add_attrib ::
    "xmlparser \<Rightarrow> htsmsg \<Rightarrow> nat list option \<Rightarrow> bytes \<Rightarrow> bytes \<Rightarrow> bytes \<Rightarrow> bytes \<Rightarrow> bytes \<Rightarrow>
     xmlparser \<times> htsmsg \<times> nat list option" where
  "xml_add_attrib xp msg scope src name payload s1 s5 =
     (if scope \<noteq> None \<and> 6 < length name \<and> take 6 name = cstr ''xmlns:'' then
        (xp\<lparr>xp_namespaces := \<lparr>xmlns_at = length src, xmlns_prefix = drop 6 name, xmlns_normalized = payload\<rparr>
                             # xp_namespaces xp\<rparr>,
         msg, map_option (Cons (length src)) scope)
      else if deref s1 = 10 \<or> deref s5 = 10 then
        (xp, add_xml_field xp msg name (HMF_STR payload)
               (HMF_XML_ATTRIBUTE OR HMF_NAME_ALLOCED OR HMF_ALLOCED), scope)
      else
        (overwrite (overwrite xp s1) s5,
         add_xml_field xp msg name (HMF_STR payload) HMF_XML_ATTRIBUTE, scope))"

definition htsmsg_xml_parse_attrib ::
    "xmlparser \<Rightarrow> htsmsg \<Rightarrow> bytes \<Rightarrow> nat list option \<Rightarrow>
     xmlparser \<times> htsmsg \<times> nat list option \<times> bytes option" where
  "htsmsg_xml_parse_attrib xp msg src scope =
     (let name = takeWhile attrib_char src;
          s1 = dropWhile attrib_char src;
          s2 = skip_xmlws s1;
          s3 = skip_xmlws (tl s2);
          quote = deref s3;
          s4 = tl s3;
          payload = takeWhile (\<lambda>c. c \<noteq> 0 \<and> c \<noteq> quote) s4;
          s5 = dropWhile (\<lambda>c. c \<noteq> 0 \<and> c \<noteq> quote) s4
      in if deref s1 = 0 then
           (xmlerr2 xp s1 253 (cstr ''Unexpected end of file during attribute name parsing''), msg, scope, None)
         else if length name < 1 \<or> length name > 65535 then
           (xmlerr2 xp src 264 (cstr ''Invalid attribute name''), msg, scope, None)
         else if deref s2 \<noteq> chr CHR ''='' then
           (xmlerr2 xp s2 272 (cstr ''Expected '' @ [0x27] @ cstr ''='' @ [0x27] @ cstr '' in attribute parsing''),
            msg, scope, None)
         else if quote \<noteq> 0x22 \<and> quote \<noteq> 0x27 then
           (xmlerr2 xp s3 284 (cstr ''Expected '' @ [0x27] @ cstr '' or '' @ [0x22] @ cstr '' before attribute value''),
            msg, scope, None)
         else if deref s5 = 0 then
           (xmlerr2 xp s5 291 (cstr ''Unexpected end of file during attribute value parsing''), msg, scope, None)
         else if length payload > 65535 then
           (xmlerr2 xp s4 301 (cstr ''Invalid attribute value''), msg, scope, None)
         else
           (case xml_add_attrib xp msg scope src name payload s1 s5 of
              (xp1, msg1, scope1) \<Rightarrow> (xp1, msg1, scope1, Some (skip_xmlws (tl s5)))))"

lemma length_skip: "length (dropWhile P s) \<le> length s"
  by (rule length_dropWhile_le)

lemma deref_positive: "deref s \<noteq> 0 \<Longrightarrow> 0 < length s"
  by (cases s) (auto simp: deref_def)

text \<open>An attribute takes at least the equals sign and the two quotes.\<close>

lemma parse_attrib_shorter:
  assumes "htsmsg_xml_parse_attrib xp msg src scope = (xp1, msg1, scope1, Some rest)"
  shows "length rest < length src"
proof -
  let ?s2 = "skip_xmlws (dropWhile attrib_char src)"
  let ?s3 = "skip_xmlws (tl ?s2)"
  let ?s5 = "dropWhile (\<lambda>c. c \<noteq> 0 \<and> c \<noteq> deref ?s3) (tl ?s3)"
  have "deref ?s2 \<noteq> 0" and r: "rest = skip_xmlws (tl ?s5)"
    using assms by (auto simp: htsmsg_xml_parse_attrib_def Let_def split: if_splits prod.splits)
  have "length rest \<le> length ?s5 - 1"
    unfolding r using length_skip [of is_xmlws "tl ?s5"] by simp
  also have "\<dots> \<le> length ?s3 - 1 - 1"
    using length_skip [of "\<lambda>c. c \<noteq> 0 \<and> c \<noteq> deref ?s3" "tl ?s3"] by simp
  also have "\<dots> \<le> length ?s2 - 1"
    using length_skip [of is_xmlws "tl ?s2"] by simp
  also have "\<dots> < length ?s2"
    using deref_positive [OF \<open>deref ?s2 \<noteq> 0\<close>] by simp
  also have "\<dots> \<le> length src"
    using length_skip [of is_xmlws] length_skip [of attrib_char src] le_trans by blast
  finally show ?thesis .
qed

section \<open>Tags, processing instructions and comments\<close>

text \<open>The loop over the attributes of a tag. The result has the bytes after the tag and whether it is empty.\<close>

function xml_tag_attribs ::
    "xmlparser \<Rightarrow> htsmsg \<Rightarrow> nat list option \<Rightarrow> bytes \<Rightarrow>
     xmlparser \<times> htsmsg \<times> nat list option \<times> (bool \<times> bytes) option" where
  "xml_tag_attribs xp m scope src =
     (let src = skip_xmlws src
      in if deref src = 0 then
           (xmlerr2 xp src 396 (cstr ''Unexpected end of file in tag''), m, scope, None)
         else if deref src = chr CHR ''/'' \<and> deref (tl src) = chr CHR ''>'' then
           (xp, m, scope, Some (True, tl (tl src)))
         else if deref src = chr CHR ''>'' then (xp, m, scope, Some (False, tl src))
         else
           (case htsmsg_xml_parse_attrib xp m src scope of
              (xp, m, scope, None) \<Rightarrow> (xp, m, scope, None)
            | (xp, m, scope, Some rest) \<Rightarrow> xml_tag_attribs xp m scope rest))"
  by pat_completeness auto
termination
  by (relation "measure (\<lambda>(xp, m, scope, src). length src)")
    (auto dest!: parse_attrib_shorter [OF sym] intro: less_le_trans [OF _ length_skip])

declare xml_tag_attribs.simps [simp del]

text \<open>The tag name is terminated after the attributes are read. When it ends in a slash that is the first
  character of an attribute name, the terminator makes that name empty, unless the name was copied or is the part
  after a namespace prefix.\<close>

definition clobber_name :: "htsmsg \<Rightarrow> htsmsg" where
  "clobber_name m =
     (case hm_fields m of
        [] \<Rightarrow> m
      | f # fs \<Rightarrow>
          if hmf_flags f AND HMF_NAME_ALLOCED = 0 \<and> hmf_namespace f = None then
            Htsmsg (hm_islist m) (Field (Some []) (hmf_u f) (hmf_flags f) (hmf_childs f) None # fs)
          else m)"

definition tag_char :: "u8 \<Rightarrow> bool" where
  "tag_char c \<longleftrightarrow> c \<noteq> 0 \<and> \<not> is_xmlws c \<and> c \<noteq> chr CHR ''>'' \<and> c \<noteq> chr CHR ''/''"

type_synonym cd_parser =
  "xmlparser \<Rightarrow> htsmsg \<Rightarrow> htsmsg_field option \<Rightarrow> bytes \<Rightarrow>
   (xmlparser \<times> htsmsg \<times> htsmsg_field option \<times> bytes option) option"

text \<open>The end of \<open>htsmsg_xml_parse_tag\<close>, when the attributes are read: \<open>m\<close> holds them, \<open>s1\<close> is where the name
  ends. \<open>cd\<close> is \<open>htsmsg_xml_parse_cd\<close>; \<open>None\<close> is its lack of fuel.\<close>

definition xml_tag_body ::
    "cd_parser \<Rightarrow> xmlparser \<Rightarrow> htsmsg \<Rightarrow> bytes \<Rightarrow> bytes \<Rightarrow> htsmsg \<Rightarrow> nat list \<Rightarrow> bool \<Rightarrow> bytes \<Rightarrow>
     (xmlparser \<times> htsmsg \<times> bytes option) option" where
  "xml_tag_body cd xp parent tagname s1 m nslist isempty src =
     (let newline = (deref s1 = 10);
          xp1 = (if newline then xp else overwrite xp s1);
          parent1 = add_xml_field xp1 parent tagname HMF_MAP (if newline then HMF_NAME_ALLOCED else 0);
          m1 = (if deref s1 = chr CHR ''/'' \<and> deref (tl s1) \<noteq> chr CHR ''>'' then clobber_name m else m);
          f = last (hm_fields parent1)
      in case (if isempty then Some (xp1, m1, Some f, Some src) else cd xp1 m1 (Some f) src) of
           None \<Rightarrow> None
         | Some (xp2, m2, f1, r) \<Rightarrow>
             let f2 = (case f1 of None \<Rightarrow> f | Some f1 \<Rightarrow> f1);
                 childs = (if hm_fields m2 \<noteq> [] then Some m2 else hmf_childs f2)
             in Some (fold (\<lambda>ns xp. xmlns_destroy xp ns) nslist xp2,
                      set_last parent1
                        (Field (hmf_name f2) (hmf_u f2) (hmf_flags f2) childs (hmf_namespace f2)), r))"

definition htsmsg_xml_parse_tag ::
    "cd_parser \<Rightarrow> xmlparser \<Rightarrow> htsmsg \<Rightarrow> bytes \<Rightarrow> (xmlparser \<times> htsmsg \<times> bytes option) option" where
  "htsmsg_xml_parse_tag cd xp parent src =
     (let tagname = takeWhile tag_char src;
          s1 = dropWhile tag_char src
      in if deref s1 = 0 then
           Some (xmlerr2 xp s1 376 (cstr ''Unexpected end of file during tag name parsing''), parent, None)
         else if length tagname < 1 \<or> length tagname > 65535 then
           Some (xmlerr2 xp src 386 (cstr ''Invalid tag name''), parent, None)
         else
           (case xml_tag_attribs xp htsmsg_create_map (Some []) s1 of
              (xp1, m, nslist, None) \<Rightarrow> Some (xp1, parent, None)
            | (xp1, m, nslist, Some (isempty, rest)) \<Rightarrow>
                xml_tag_body cd xp1 parent tagname s1 m (case nslist of None \<Rightarrow> [] | Some l \<Rightarrow> l) isempty rest))"

definition pi_eof :: bytes where
  "pi_eof = cstr ''Unexpected end of file during parsing of Processing instructions''"

function xml_pi_attribs ::
    "xmlparser \<Rightarrow> htsmsg \<Rightarrow> bytes \<Rightarrow> xmlparser \<times> htsmsg \<times> bytes option" where
  "xml_pi_attribs xp attrs src =
     (let src = skip_xmlws src
      in if deref src = 0 then (xmlerr2 xp src 493 pi_eof, attrs, None)
         else if deref src = chr CHR ''?'' \<and> deref (tl src) = chr CHR ''>'' then (xp, attrs, Some (tl (tl src)))
         else
           (case htsmsg_xml_parse_attrib xp attrs src None of
              (xp, attrs, scope, None) \<Rightarrow> (xp, attrs, None)
            | (xp, attrs, scope, Some rest) \<Rightarrow> xml_pi_attribs xp attrs rest))"
  by pat_completeness auto
termination
  by (relation "measure (\<lambda>(xp, m, src). length src)")
    (auto dest!: parse_attrib_shorter [OF sym] intro: less_le_trans [OF _ length_skip])

declare xml_pi_attribs.simps [simp del]

definition pi_char :: "u8 \<Rightarrow> bool" where
  "pi_char c \<longleftrightarrow> c \<noteq> 0 \<and> \<not> is_xmlws c \<and> c \<noteq> chr CHR ''?''"

text \<open>\<open>parent\<close> is \<^verbatim>\<open>NULL\<close> inside of the document and the message of the instructions in the prolog.\<close>

definition htsmsg_xml_parse_pi ::
    "xmlparser \<Rightarrow> htsmsg option \<Rightarrow> bytes \<Rightarrow> xmlparser \<times> htsmsg option \<times> bytes option" where
  "htsmsg_xml_parse_pi xp parent src =
     (let piname = takeWhile pi_char src;
          s1 = dropWhile pi_char src
      in if deref s1 = 0 then (xmlerr2 xp s1 465 pi_eof, parent, None)
         else if length piname < 1 \<or> length piname > 1024 then
           (xmlerr2 xp s1 477
              (cstr ''Invalid '' @ [0x27] @ cstr ''Processing instructions'' @ [0x27] @ cstr '' name''), parent, None)
         else
           (case xml_pi_attribs xp htsmsg_create_map s1 of
              (xp1, attrs, None) \<Rightarrow> (xp1, parent, None)
            | (xp1, attrs, Some rest) \<Rightarrow>
                (xp1,
                 (case parent of
                    None \<Rightarrow> None
                  | Some p \<Rightarrow> if hm_fields attrs \<noteq> [] then htsmsg_add_msg p (Some piname) attrs else Some p),
                 Some rest)))"

fun comment_end :: "bytes \<Rightarrow> bytes option" where
  "comment_end [] = None"
| "comment_end (c # src) =
     (if c = 0 then None
      else if c = chr CHR ''-'' \<and> deref src = chr CHR ''-'' \<and> deref (tl src) = chr CHR ''>'' then Some (tl (tl src))
      else comment_end src)"

definition xml_parse_comment :: "xmlparser \<Rightarrow> bytes \<Rightarrow> xmlparser \<times> bytes option" where
  "xml_parse_comment xp src =
     (case comment_end src of
        None \<Rightarrow> (xmlerr2 xp src 529 (cstr ''Unexpected end of file inside a comment''), None)
      | Some rest \<Rightarrow> (xp, Some rest))"

definition decode_label_reference ::
    "xmlparser \<Rightarrow> cdata_content list \<Rightarrow> bytes \<Rightarrow> xmlparser \<times> cdata_content list \<times> bytes option" where
  "decode_label_reference xp ccq src =
     (let label = takeWhile (\<lambda>c. c \<noteq> 0 \<and> c \<noteq> chr CHR '';'') src;
          s1 = dropWhile (\<lambda>c. c \<noteq> 0 \<and> c \<noteq> chr CHR '';'') src;
          code = html_entity_lookup label
      in if deref s1 = 0 then
           (xmlerr2 xp src 555 (cstr ''Unexpected end of file during parsing of label reference''), ccq, None)
         else if length label < 1 then (xmlerr2 xp src 562 (cstr ''Too short label reference''), ccq, None)
         else if length label > 1024 then (xmlerr2 xp src 567 (cstr ''Too long label reference''), ccq, None)
         else if code \<noteq> -1 then (xp, add_unicode ccq code, Some (tl s1))
         else (xmlerr2 xp src 580
                 (cstr ''Unknown label referense: '' @ [0x22, 0x26] @ label @ [0x3b, 0x22, 0x0a]), ccq, None))"

section \<open>Text\<close>

text \<open>\<open>close_cc\<close> sets \<^verbatim>\<open>cc_end\<close> of the piece that is open, where \<open>cc\<close> is its \<^verbatim>\<open>cc_start\<close>; it puts the piece in the
  queue, where the code has it from the beginning: nothing else is queued while a piece is open.\<close>

definition close_cc :: "xmlparser \<Rightarrow> bytes option \<Rightarrow> bytes \<Rightarrow> cdata_content list \<Rightarrow> cdata_content list" where
  "close_cc xp cc src ccq =
     (case cc of
        None \<Rightarrow> ccq
      | Some start \<Rightarrow> ccq @ [Cdata (xp_encoding xp) (take (length start - length src) start) (Some src)])"

text \<open>Trimming takes whole pieces from both ends.\<close>

definition trim_ccq :: "cdata_content list \<Rightarrow> cdata_content list" where
  "trim_ccq ccq = rev (dropWhile xml_is_cc_ws (rev (dropWhile xml_is_cc_ws ccq)))"

text \<open>What one piece adds to the counters \<^verbatim>\<open>c\<close> and \<^verbatim>\<open>y\<close>, and the bytes it adds to the body.\<close>

definition cc_length :: "cdata_content \<Rightarrow> nat" where
  "cc_length cc =
     (case cc_encoding cc of
        XML_ENCODING_UTF8 \<Rightarrow> length (cc_text cc)
      | XML_ENCODING_8859_1 \<Rightarrow> sum_list (map (\<lambda>x. 1 + (if x \<ge> 0x80 then 1 else 0)) (cc_text cc)))"

definition cc_parts :: "cdata_content \<Rightarrow> nat" where
  "cc_parts cc =
     (case cc_encoding cc of
        XML_ENCODING_UTF8 \<Rightarrow> 1
      | XML_ENCODING_8859_1 \<Rightarrow> 1 + (if cc_length cc \<noteq> length (cc_text cc) then 1 else 0))"

definition cc_body :: "cdata_content \<Rightarrow> bytes" where
  "cc_body cc =
     (case cc_encoding cc of
        XML_ENCODING_UTF8 \<Rightarrow> cc_text cc
      | XML_ENCODING_8859_1 \<Rightarrow> concat (map (\<lambda>x. utf8_put (uint x)) (cc_text cc)))"

definition end_byte :: "xmlparser \<Rightarrow> cdata_content \<Rightarrow> u8" where
  "end_byte xp cc = (case cc_end cc of None \<Rightarrow> xp_heap xp | Some rest \<Rightarrow> deref rest)"

definition set_str :: "htsmsg_field \<Rightarrow> bytes \<Rightarrow> u8 \<Rightarrow> htsmsg_field" where
  "set_str f str flags =
     Field (hmf_name f) (HMF_STR (c_str str)) (hmf_flags f OR flags) (hmf_childs f) (hmf_namespace f)"

text \<open>The assembly of the body. A single piece becomes the value as it is: when it lies in the structure of the
  piece, which is freed, the field is left dangling.\<close>

definition xml_set_body ::
    "xmlparser \<Rightarrow> cdata_content list \<Rightarrow> htsmsg_field option \<Rightarrow> xmlparser \<times> htsmsg_field option" where
  "xml_set_body xp ccq field =
     (let c = sum_list (map cc_length ccq);
          y = sum_list (map cc_parts ccq)
      in case field of
           None \<Rightarrow> (xp, None)
         | Some f \<Rightarrow>
             if y = 1 \<and> c > 0 \<and> end_byte xp (hd ccq) \<noteq> 10 then
               ((case cc_end (hd ccq) of
                   None \<Rightarrow> xp\<lparr>xp_dangling := Suc (xp_dangling xp)\<rparr>
                 | Some rest \<Rightarrow> overwrite xp rest),
                Some (set_str f (cc_text (hd ccq)) 0))
             else if c > 1 then (xp, Some (set_str f (concat (map cc_body ccq)) HMF_ALLOCED))
             else (xp, Some f))"

type_synonym cd0_parser =
  "xmlparser \<Rightarrow> cdata_content list \<Rightarrow> bytes option \<Rightarrow> htsmsg \<Rightarrow> bytes \<Rightarrow> bool \<Rightarrow>
   (xmlparser \<times> cdata_content list \<times> htsmsg \<times> bytes option) option"

text \<open>\<open>cd0\<close> is \<open>htsmsg_xml_parse_cd0\<close>.\<close>

definition htsmsg_xml_parse_cd :: "cd0_parser \<Rightarrow> cd_parser" where
  "htsmsg_xml_parse_cd cd0 xp msg field src =
     (case cd0 xp [] None msg src False of
        None \<Rightarrow> None
      | Some (xp1, ccq, msg1, r) \<Rightarrow>
          (case xml_set_body xp1 (if xp_trim_whitespace xp1 then trim_ccq ccq else ccq) field of
             (xp2, field1) \<Rightarrow> Some (xp2, msg1, field1, r)))"

text \<open>One call is one turn of the loop of \<open>htsmsg_xml_parse_cd0\<close> with \<open>cc\<close> the piece that is open. The first
  argument bounds the number of turns.\<close>

fun htsmsg_xml_parse_cd0 :: "nat \<Rightarrow> cd0_parser" where
  "htsmsg_xml_parse_cd0 0 xp ccq cc tags src raw = None"
| "htsmsg_xml_parse_cd0 (Suc n) xp ccq cc tags src raw =
     (if deref src = 0 then Some (xp, close_cc xp cc src ccq, tags, Some src)
      else if raw \<and> take 3 src = cstr '']]>'' then Some (xp, close_cc xp cc src ccq, tags, Some (drop 3 src))
      else if deref src = chr CHR ''<'' \<and> \<not> raw then
        let ccq = close_cc xp cc src ccq; s1 = tl src
        in if deref s1 = chr CHR ''?'' then
             (case htsmsg_xml_parse_pi xp None (tl s1) of
                (xp, pis, None) \<Rightarrow> Some (xp, ccq, tags, None)
              | (xp, pis, Some rest) \<Rightarrow> htsmsg_xml_parse_cd0 n xp ccq None tags rest raw)
           else if deref s1 = chr CHR ''!'' then
             let s2 = tl s1
             in if deref s2 = chr CHR ''-'' \<and> deref (tl s2) = chr CHR ''-'' then
                  (case xml_parse_comment xp (tl (tl s2)) of
                     (xp, None) \<Rightarrow> Some (xp, ccq, tags, None)
                   | (xp, Some rest) \<Rightarrow> htsmsg_xml_parse_cd0 n xp ccq None tags rest raw)
                else if take 7 s2 = cstr ''[CDATA['' then
                  (case htsmsg_xml_parse_cd0 n xp ccq None tags (drop 7 s2) True of
                     None \<Rightarrow> None
                   | Some (xp, ccq, tags, None) \<Rightarrow> Some (xp, ccq, tags, None)
                   | Some (xp, ccq, tags, Some rest) \<Rightarrow> htsmsg_xml_parse_cd0 n xp ccq None tags rest raw)
                else
                  Some (xmlerr2 xp s2 635 (cstr ''Unknown syntatic element: <!'' @ take 10 (c_str s2)), ccq, tags, None)
           else if deref s1 = chr CHR ''/'' then
             let s2 = dropWhile (\<lambda>c. c \<noteq> chr CHR ''>'' \<and> c \<noteq> 0) (tl s1)
             in if deref s2 = 0 then
                  Some (xmlerr2 xp s2 644 (cstr ''Unexpected end of file inside close tag''), ccq, tags, None)
                else Some (xp, ccq, tags, Some (tl s2))
           else
             (case htsmsg_xml_parse_tag (htsmsg_xml_parse_cd (htsmsg_xml_parse_cd0 n)) xp tags s1 of
                None \<Rightarrow> None
              | Some (xp, tags, None) \<Rightarrow> Some (xp, ccq, tags, None)
              | Some (xp, tags, Some rest) \<Rightarrow> htsmsg_xml_parse_cd0 n xp ccq None tags rest raw)
      else if deref src = chr CHR ''&'' \<and> \<not> raw then
        let ccq1 = close_cc xp cc src ccq; s1 = tl src
        in if deref s1 = chr CHR ''#'' then
             (case decode_character_reference (tl s1) of
                (c, rest) \<Rightarrow>
                  if c \<noteq> 0 then htsmsg_xml_parse_cd0 n xp (add_unicode ccq1 c) None tags rest raw
                  else Some (xmlerr2 xp s1 670 (cstr ''Invalid character reference''), ccq1, tags, None))
           else
             (case decode_label_reference xp ccq1 s1 of
                (xp, ccq2, None) \<Rightarrow> htsmsg_xml_parse_cd0 n xp ccq cc tags s1 raw
              | (xp, ccq2, Some rest) \<Rightarrow> htsmsg_xml_parse_cd0 n xp ccq2 None tags rest raw)
      else
        (case cc of
           None \<Rightarrow>
             if deref src < 32 then htsmsg_xml_parse_cd0 n xp ccq None tags (tl src) raw
             else htsmsg_xml_parse_cd0 n xp ccq (Some src) tags (tl src) raw
         | Some start \<Rightarrow> htsmsg_xml_parse_cd0 n xp ccq (Some start) tags (tl src) raw))"

declare htsmsg_xml_parse_cd0.simps [simp del]

section \<open>The document\<close>

text \<open>The loop that skips a document type; \<open>None\<close> is a step over the terminating NUL: after a \<^verbatim>\<open>'>'\<close> that
  does not end the type, the position advances twice.\<close>

function doctype_skip :: "int \<Rightarrow> bytes \<Rightarrow> bytes option" where
  "doctype_skip depth src =
     (if deref src = 0 then Some src
      else if deref src = chr CHR ''<'' then doctype_skip (depth + 1) (tl src)
      else if deref src = chr CHR ''>'' then
        (if depth = 1 then Some (tl src)
         else if tl src = [] then None
         else doctype_skip (depth - 1) (tl (tl src)))
      else doctype_skip depth (tl src))"
  by pat_completeness auto
termination
  by (relation "measure (\<lambda>(depth, src). length src)") (auto simp: deref_def split: list.splits)

declare doctype_skip.simps [simp del]

lemma pi_attribs_shorter: "xml_pi_attribs xp attrs src = (xp1, attrs1, Some rest) \<Longrightarrow> length rest \<le> length src"
proof (induction xp attrs src rule: xml_pi_attribs.induct)
  case (1 xp attrs src)
  show ?case
  proof (cases "htsmsg_xml_parse_attrib xp attrs (skip_xmlws src) None")
    case (fields xp2 attrs2 scope2 r)
    have "length rest \<le> length (skip_xmlws src)"
    proof (cases r)
      case None
      then show ?thesis
        using 1(2) fields by (subst (asm) xml_pi_attribs.simps) (auto simp: Let_def split: if_splits)
    next
      case (Some rest2)
      show ?thesis
        using 1(2) 1(1) [OF refl _ _ fields [symmetric] refl refl Some] parse_attrib_shorter [OF fields [unfolded Some]]
          fields Some
        by (subst (asm) xml_pi_attribs.simps) (auto simp: Let_def split: if_splits)
    qed
    then show ?thesis
      using length_skip [of is_xmlws src] by linarith
  qed
qed

lemma parse_pi_shorter:
  "htsmsg_xml_parse_pi xp parent src = (xp1, pis, Some rest) \<Longrightarrow> length rest \<le> length src"
  using length_skip [of pi_char src]
  by (auto simp: htsmsg_xml_parse_pi_def Let_def dest!: pi_attribs_shorter split: if_splits prod.splits option.splits)

lemma comment_end_shorter: "comment_end src = Some rest \<Longrightarrow> length rest < length src"
  by (induction src rule: comment_end.induct) (auto split: if_splits)

lemma parse_comment_shorter: "xml_parse_comment xp src = (xp1, Some rest) \<Longrightarrow> length rest < length src"
  by (auto simp: xml_parse_comment_def comment_end_shorter split: option.splits)

lemma doctype_skip_length: "doctype_skip depth src = Some rest \<Longrightarrow> length rest \<le> length src"
proof (induction depth src rule: doctype_skip.induct)
  case (1 depth src)
  then show ?case
    using le_trans [OF _ diff_le_self [of "length src"]]
    by (simp only: doctype_skip.simps [of depth src]) (auto split: if_splits)
qed

lemma doctype_skip_shorter:
  assumes "doctype_skip 0 src = Some rest" "deref src = chr CHR ''<''"
  shows "length rest < length src"
proof -
  have "doctype_skip 1 (tl src) = Some rest"
    using assms by (subst (asm) doctype_skip.simps) simp
  from doctype_skip_length [OF this] show ?thesis
    using assms(2) by (cases src) (auto simp: deref_def)
qed

lemma drop_skip_shorter:
  assumes "take n (skip_xmlws src) = x # w"
  shows "length (skip_xmlws src) - n < length src"
proof -
  have "0 < n" "skip_xmlws src \<noteq> []"
    using assms by (auto intro!: gr0I simp del: dropWhile_eq_Nil_conv)
  then have "length (skip_xmlws src) - n < length (skip_xmlws src)"
    by simp
  also have "\<dots> \<le> length src"
    by (rule length_skip)
  finally show ?thesis .
qed

lemma deref_take: "take n s = x # w \<Longrightarrow> deref s = x"
  by (cases s; cases n) (auto simp: deref_def)

text \<open>The end of the loop, with the instructions it found, and the two ways in which it goes wrong: an
  instruction or a comment without an end makes the position \<^verbatim>\<open>NULL\<close>, which the next turn reads.\<close>

datatype prolog_result = Prolog xmlparser htsmsg bytes | Prolog_null | Prolog_overread

function prolog_loop :: "xmlparser \<Rightarrow> htsmsg \<Rightarrow> bytes \<Rightarrow> prolog_result" where
  "prolog_loop xp pis src =
     (if deref src = 0 then Prolog xp pis src
      else
        let src = skip_xmlws src
        in if take 2 src = cstr ''<?'' then
             (case htsmsg_xml_parse_pi xp (Some pis) (drop 2 src) of
                (xp, pis1, Some rest) \<Rightarrow> prolog_loop xp (case pis1 of None \<Rightarrow> pis | Some p \<Rightarrow> p) rest
              | (xp, pis1, None) \<Rightarrow> Prolog_null)
           else if take 4 src = cstr ''<!--'' then
             (case xml_parse_comment xp (drop 4 src) of
                (xp, Some rest) \<Rightarrow> prolog_loop xp pis rest
              | (xp, None) \<Rightarrow> Prolog_null)
           else if take 9 src = cstr ''<!DOCTYPE'' then
             (case doctype_skip 0 src of
                None \<Rightarrow> Prolog_overread
              | Some rest \<Rightarrow> prolog_loop xp pis rest)
           else Prolog xp pis src)"
  by pat_completeness auto
termination
  by (relation "measure (\<lambda>(xp, pis, src). length src)")
    (auto dest!: parse_pi_shorter [OF sym] parse_comment_shorter [OF sym] doctype_skip_shorter
      intro: le_less_trans [OF _ drop_skip_shorter] less_trans [OF _ drop_skip_shorter]
        less_le_trans [OF _ length_skip] dest: deref_take)

declare prolog_loop.simps [simp del]

text \<open>Equality up to \<^verbatim>\<open>strcasecmp\<close>.\<close>

definition lower :: "u8 \<Rightarrow> u8" where
  "lower c = (if chr CHR ''A'' \<le> c \<and> c \<le> chr CHR ''Z'' then c + 32 else c)"

definition same_nocase :: "bytes \<Rightarrow> bytes \<Rightarrow> bool" where
  "same_nocase a b \<longleftrightarrow> map lower (c_str a) = map lower (c_str b)"

definition htsmsg_parse_prolog :: "xmlparser \<Rightarrow> bytes \<Rightarrow> prolog_result" where
  "htsmsg_parse_prolog xp src =
     (case prolog_loop xp htsmsg_create_map src of
        Prolog xp pis src \<Rightarrow>
          Prolog
            (case htsmsg_get_map pis (Key (cstr ''xml'')) of
               None \<Rightarrow> xp
             | Some xmlpi \<Rightarrow>
                 (case fst (htsmsg_get_str xmlpi (Key (cstr ''encoding''))) of
                    None \<Rightarrow> xp
                  | Some encoding \<Rightarrow>
                      if same_nocase encoding (cstr ''iso-8859-1'') \<or> same_nocase encoding (cstr ''iso-8859_1'') \<or>
                         same_nocase encoding (cstr ''iso_8859-1'') \<or> same_nocase encoding (cstr ''iso_8859_1'')
                      then xp\<lparr>xp_encoding := XML_ENCODING_8859_1\<rparr> else xp))
            pis src
      | r \<Rightarrow> r)"

text \<open>\<open>pos\<close> is counted from the beginning here.\<close>

fun get_line_col :: "bytes \<Rightarrow> nat \<Rightarrow> int \<Rightarrow> int \<Rightarrow> int \<times> int" where
  "get_line_col [] pos line column = (line, column)"
| "get_line_col (c # str) pos line column =
     (let column1 = (if c = 10 \<or> c = 13 then 0 else column + 1);
          line1 = (if c = 10 then line + 1 else line)
      in if pos = 0 then (line1, column1) else get_line_col str (pos - 1) line1 column1)"

text \<open>The buffer as the parser leaves it.\<close>

definition overwritten :: "bytes \<Rightarrow> nat list \<Rightarrow> bytes" where
  "overwritten buf ps = map (\<lambda>i. if length buf - i \<in> set ps then 0 else buf ! i) [0..<length buf]"

definition xml_parser_init :: "u8 \<Rightarrow> xmlparser" where
  "xml_parser_init heap =
     \<lparr>xp_encoding = XML_ENCODING_UTF8, xp_errmsg = [], xp_errpos = None, xp_parser_err_line = 0,
      xp_trim_whitespace = True, xp_namespaces = [], xp_written = [], xp_heap = heap, xp_dangling = 0\<rparr>"

text \<open>The message that is written to the \<open>errbufsize\<close> bytes of the caller. The error position is initialised
  when it is read (\<open>xml_errors_located\<close>).\<close>

definition xml_errbuf :: "xmlparser \<Rightarrow> bytes \<Rightarrow> nat \<Rightarrow> bytes" where
  "xml_errbuf xp buf errbufsize =
     (let pos = length buf - (case xp_errpos xp of None \<Rightarrow> 0 | Some p \<Rightarrow> p);
          (line, col) = get_line_col (overwritten buf (xp_written xp)) pos 1 0
      in takeWhile (\<lambda>c. 32 \<le> c)
           (take (errbufsize - 1)
             (xp_errmsg xp @ cstr '' at line '' @ dec_int line @ cstr '' column '' @ dec_int col @
              cstr '' (XML error '' @ dec_nat (xp_parser_err_line xp) @ cstr '' at byte '' @ dec_nat pos @ cstr '')'')))"

datatype xml_result = XML_msg htsmsg | XML_error bytes | XML_crash prolog_result

text \<open>\<open>None\<close> is a lack of fuel, which the length of the buffer excludes (\<open>xml_deserialize_total\<close>). The parser
  is part of the result for the state in which it ends.\<close>

definition htsmsg_xml_deserialize_buf :: "u8 \<Rightarrow> bytes \<Rightarrow> nat \<Rightarrow> (xmlparser \<times> xml_result) option" where
  "htsmsg_xml_deserialize_buf heap buf errbufsize =
     (let xp = xml_parser_init heap
      in case htsmsg_parse_prolog xp buf of
           Prolog xp1 pis src \<Rightarrow>
             (case htsmsg_xml_parse_cd (htsmsg_xml_parse_cd0 (Suc (length buf))) xp1 htsmsg_create_map None src of
                None \<Rightarrow> None
              | Some (xp2, m, field, Some rest) \<Rightarrow> Some (xp2, XML_msg m)
              | Some (xp2, m, field, None) \<Rightarrow> Some (xp2, XML_error (xml_errbuf xp2 buf errbufsize)))
         | r \<Rightarrow> Some (xp, XML_crash r))"

definition htsmsg_xml_deserialize_cstr :: "u8 \<Rightarrow> bytes \<Rightarrow> nat \<Rightarrow> (xmlparser \<times> xml_result) option" where
  "htsmsg_xml_deserialize_cstr heap str errbufsize = htsmsg_xml_deserialize_buf heap (c_str str) errbufsize"

end
