(* ===== verification/Htsmsg_Xml_Run.thy ===== *)
theory Htsmsg_Xml_Run
  imports Htsmsg_Xml "HOL-Library.Sublist"
begin

text \<open>
  What every run of the XML parser keeps: the fuel is enough, the position moves forward in the document, errors
  have a position, bytes are overwritten only behind the position, and the namespaces of an element go out of
  scope with it.
\<close>

section \<open>Where a parser goes\<close>

text \<open>Position \<open>w\<close> was overwritten by a parser that started at \<open>src\<close> and ended with \<open>r\<close>: it is behind the end, or it
  is the NUL at which the parser stopped.\<close>

definition behind :: "bytes option \<Rightarrow> nat \<Rightarrow> bool" where
  "behind r w \<longleftrightarrow> (case r of None \<Rightarrow> True | Some rest \<Rightarrow> length rest < w \<or> w = length rest \<and> deref rest = 0)"

definition writes_ok :: "xmlparser \<Rightarrow> bytes \<Rightarrow> xmlparser \<Rightarrow> bytes option \<Rightarrow> bool" where
  "writes_ok xp src xp1 r \<longleftrightarrow>
     (\<forall>w \<in> set (xp_written xp1). w \<in> set (xp_written xp) \<or> w \<le> length src \<and> behind r w)"

definition same_setup :: "xmlparser \<Rightarrow> xmlparser \<Rightarrow> bool" where
  "same_setup xp xp1 \<longleftrightarrow>
     xp_encoding xp1 = xp_encoding xp \<and> xp_trim_whitespace xp1 = xp_trim_whitespace xp \<and> xp_heap xp1 = xp_heap xp"

definition goes_on :: "bytes \<Rightarrow> xmlparser \<Rightarrow> bytes option \<Rightarrow> bool" where
  "goes_on src xp1 r \<longleftrightarrow>
     (case r of None \<Rightarrow> (\<exists>p \<le> length src. xp_errpos xp1 = Some p) | Some rest \<Rightarrow> suffix rest src)"

definition run_ok :: "xmlparser \<Rightarrow> bytes \<Rightarrow> xmlparser \<Rightarrow> bytes option \<Rightarrow> bool" where
  "run_ok xp src xp1 r \<longleftrightarrow> same_setup xp xp1 \<and> goes_on src xp1 r \<and> writes_ok xp src xp1 r"

definition same_namespaces :: "xmlparser \<Rightarrow> xmlparser \<Rightarrow> bytes option \<Rightarrow> bool" where
  "same_namespaces xp xp1 r \<longleftrightarrow> (r \<noteq> None \<longrightarrow> xp_namespaces xp1 = xp_namespaces xp)"

lemma behind_None [simp]: "behind None w"
  by (simp add: behind_def)

lemma behind_suffix: "behind (Some s) w \<Longrightarrow> suffix rest s \<Longrightarrow> behind (Some rest) w"
  by (cases "rest = s") (auto simp: behind_def suffix_def)

lemma behind_goes_on: "behind (Some s) w \<Longrightarrow> goes_on s xp1 r \<Longrightarrow> behind r w"
  by (cases r) (auto simp: goes_on_def intro: behind_suffix)

lemma same_setup_refl [simp]: "same_setup xp xp"
  by (simp add: same_setup_def)

lemma run_ok_refl: "suffix rest src \<Longrightarrow> run_ok xp src xp (Some rest)"
  by (simp add: run_ok_def goes_on_def writes_ok_def)

lemma run_ok_error: "suffix pos src \<Longrightarrow> run_ok xp src (xmlerr2 xp pos line msg) None"
  by (auto simp: run_ok_def same_setup_def goes_on_def writes_ok_def xmlerr2_def suffix_def)

lemma suffix_length: "suffix s src \<Longrightarrow> length s \<le> length src"
  by (auto simp: suffix_def)

lemma run_ok_trans:
  assumes "run_ok xp src xp1 (Some s)" "run_ok xp1 s xp2 r"
  shows "run_ok xp src xp2 r"
proof -
  have s: "suffix s src" and g: "goes_on s xp2 r"
    using assms by (auto simp: run_ok_def goes_on_def)
  have "same_setup xp xp2"
    using assms by (simp add: run_ok_def same_setup_def)
  moreover have "goes_on src xp2 r"
    using s g suffix_length [OF s] by (cases r) (auto simp: goes_on_def intro: suffix_order.trans le_trans)
  moreover have "writes_ok xp src xp2 r"
    using assms suffix_length [OF s] behind_goes_on [OF _ g]
    unfolding run_ok_def writes_ok_def by (meson le_trans)
  ultimately show ?thesis
    by (simp add: run_ok_def)
qed

lemma run_ok_weaken: "run_ok xp s xp1 r \<Longrightarrow> suffix s src \<Longrightarrow> run_ok xp src xp1 r"
  by (rule run_ok_trans [OF run_ok_refl])

lemma run_ok_suffix: "run_ok xp src xp1 (Some rest) \<Longrightarrow> suffix rest src"
  by (simp add: run_ok_def goes_on_def)

lemma suffix_tl2: "suffix s src \<Longrightarrow> suffix (tl s) src"
  using suffix_order.trans suffix_tl by blast

lemma suffix_dropWhile2: "suffix s src \<Longrightarrow> suffix (dropWhile P s) src"
  using suffix_order.trans suffix_dropWhile by blast

lemma suffix_drop2: "suffix s src \<Longrightarrow> suffix (drop n s) src"
  using suffix_order.trans suffix_drop by blast

lemmas suffix_intros = suffix_tl2 suffix_dropWhile2 suffix_drop2 suffix_order.refl

section \<open>Attributes\<close>

text \<open>The namespaces that attributes from \<open>src\<close> to \<open>r\<close> declare: \<open>new\<close> is in front of those in scope, and each was
  declared between the two positions.\<close>

definition declares ::
    "xmlparser \<Rightarrow> nat list option \<Rightarrow> bytes \<Rightarrow> bytes option \<Rightarrow> xmlparser \<Rightarrow> nat list option \<Rightarrow> bool" where
  "declares xp scope src r xp1 scope1 \<longleftrightarrow>
     (\<exists>new. xp_namespaces xp1 = new @ xp_namespaces xp \<and> scope1 = map_option (append (map xmlns_at new)) scope \<and>
            (scope = None \<longrightarrow> new = []) \<and>
            (\<forall>n \<in> set new. xmlns_at n \<le> length src \<and> (\<forall>rest. r = Some rest \<longrightarrow> length rest < xmlns_at n)))"

lemma declares_refl: "xp_namespaces xp1 = xp_namespaces xp \<Longrightarrow> declares xp scope src r xp1 scope"
  by (cases scope) (auto simp: declares_def)

lemma declares_trans:
  assumes "declares xp scope src (Some s) xp1 scope1" "declares xp1 scope1 s r xp2 scope2" "suffix s src" "goes_on s xp2 r"
  shows "declares xp scope src r xp2 scope2"
proof -
  obtain new where n: "xp_namespaces xp1 = new @ xp_namespaces xp" "scope1 = map_option (append (map xmlns_at new)) scope"
      "scope = None \<longrightarrow> new = []" "\<forall>n \<in> set new. xmlns_at n \<le> length src \<and> length s < xmlns_at n"
    using assms(1) by (auto simp: declares_def)
  obtain new1 where n1: "xp_namespaces xp2 = new1 @ xp_namespaces xp1"
      "scope2 = map_option (append (map xmlns_at new1)) scope1" "scope1 = None \<longrightarrow> new1 = []"
      "\<forall>n \<in> set new1. xmlns_at n \<le> length s \<and> (\<forall>rest. r = Some rest \<longrightarrow> length rest < xmlns_at n)"
    using assms(2) by (auto simp: declares_def)
  have "length rest \<le> length s" if "r = Some rest" for rest
    using assms(4) that suffix_length by (auto simp: goes_on_def)
  then have "\<forall>n \<in> set (new1 @ new). xmlns_at n \<le> length src \<and> (\<forall>rest. r = Some rest \<longrightarrow> length rest < xmlns_at n)"
    using n(4) n1(4) suffix_length [OF assms(3)] by fastforce
  then show ?thesis
    unfolding declares_def
    by (intro exI [of _ "new1 @ new"], cases scope) (use n n1 in \<open>auto simp: option.map_comp o_def\<close>)
qed

lemma declares_weaken:
  "declares xp scope s r xp1 scope1 \<Longrightarrow> suffix s src \<Longrightarrow> declares xp scope src r xp1 scope1"
  using suffix_length [of s src] by (fastforce simp: declares_def)

lemma overwrite_sel [simp]:
  "xp_namespaces (overwrite xp p) = xp_namespaces xp" "xp_errpos (overwrite xp p) = xp_errpos xp"
  "xp_written (overwrite xp p) = length p # xp_written xp" "xp_encoding (overwrite xp p) = xp_encoding xp"
  "xp_trim_whitespace (overwrite xp p) = xp_trim_whitespace xp" "xp_heap (overwrite xp p) = xp_heap xp"
  "xp_dangling (overwrite xp p) = xp_dangling xp"
  by (simp_all add: overwrite_def)

lemma xmlerr2_sel [simp]:
  "xp_namespaces (xmlerr2 xp p line msg) = xp_namespaces xp" "xp_dangling (xmlerr2 xp p line msg) = xp_dangling xp"
  by (simp_all add: xmlerr2_def)

lemma run_ok_overwrite:
  assumes "run_ok xp src xp1 (Some rest)" "length rest < length p" "suffix p src"
  shows "run_ok xp src (overwrite xp1 p) (Some rest)"
  using assms suffix_length [OF assms(3)]
  by (auto simp: run_ok_def same_setup_def goes_on_def writes_ok_def behind_def)

lemma suffix_shorter: "suffix s (tl t) \<Longrightarrow> deref t \<noteq> 0 \<Longrightarrow> length s < length t"
  using suffix_length [of s "tl t"] by (cases t) (auto simp: deref_def)

lemma add_attrib_ok:
  assumes "xml_add_attrib xp msg scope src name payload s1 s5 = (xp1, msg1, scope1)"
    and "suffix s1 src" "suffix s5 (tl s1)" "suffix rest (tl s5)" "deref s1 \<noteq> 0" "deref s5 \<noteq> 0"
  shows "run_ok xp src xp1 (Some rest) \<and> declares xp scope src (Some rest) xp1 scope1"
proof -
  have l: "length rest < length s5" "length s5 < length s1" "length s1 \<le> length src"
    using assms by (auto intro: suffix_shorter suffix_length)
  have s: "suffix s5 src" "suffix rest src"
    using assms suffix_order.trans suffix_tl by meson+
  consider (ns) "xp1 = xp\<lparr>xp_namespaces := \<lparr>xmlns_at = length src, xmlns_prefix = drop 6 name, xmlns_normalized = payload\<rparr>
                             # xp_namespaces xp\<rparr>" "scope1 = map_option (Cons (length src)) scope" "scope \<noteq> None"
    | (copy) "xp1 = xp" "scope1 = scope"
    | (inplace) "xp1 = overwrite (overwrite xp s1) s5" "scope1 = scope"
    using assms(1) by (auto simp: xml_add_attrib_def split: if_splits)
  then show ?thesis
  proof cases
    case ns
    then have "declares xp scope src (Some rest) xp1 scope1"
      using l by (auto simp: declares_def)
    then show ?thesis
      using ns s by (auto simp: run_ok_def same_setup_def goes_on_def writes_ok_def)
  next
    case copy
    then show ?thesis
      using s declares_refl run_ok_refl by blast
  next
    case inplace
    have "declares xp scope src (Some rest) xp1 scope1"
      using inplace by (simp add: declares_refl)
    moreover have "run_ok xp src xp1 (Some rest)"
      unfolding inplace using run_ok_overwrite [OF run_ok_overwrite [OF run_ok_refl]] s l assms by simp
    ultimately show ?thesis by simp
  qed
qed

lemma parse_attrib_ok:
  assumes "htsmsg_xml_parse_attrib xp msg src scope = (xp1, msg1, scope1, r)"
  shows "run_ok xp src xp1 r \<and> declares xp scope src r xp1 scope1"
proof -
  let ?s1 = "dropWhile attrib_char src"
  let ?s2 = "skip_xmlws ?s1"
  let ?s3 = "skip_xmlws (tl ?s2)"
  let ?s5 = "dropWhile (\<lambda>c. c \<noteq> 0 \<and> c \<noteq> deref ?s3) (tl ?s3)"
  have s: "suffix ?s1 src" "suffix ?s2 src" "suffix ?s3 src" "suffix (tl ?s3) src" "suffix ?s5 src"
    by (intro suffix_intros)+
  show ?thesis
  proof (cases r)
    case None
    then obtain pos line m where "suffix pos src" "xp1 = xmlerr2 xp pos line m" "scope1 = scope"
      using assms s by (auto simp: htsmsg_xml_parse_attrib_def Let_def split: if_splits prod.splits)
    then show ?thesis
      using run_ok_error None by (simp add: declares_refl)
  next
    case (Some rest)
    have a: "xml_add_attrib xp msg scope src (takeWhile attrib_char src)
              (takeWhile (\<lambda>c. c \<noteq> 0 \<and> c \<noteq> deref ?s3) (tl ?s3)) ?s1 ?s5 = (xp1, msg1, scope1)"
      and r: "rest = skip_xmlws (tl ?s5)" and d: "deref ?s1 \<noteq> 0" "deref ?s2 \<noteq> 0" "deref ?s5 \<noteq> 0"
        "deref ?s2 = chr CHR ''=''"
      using assms Some by (auto simp: htsmsg_xml_parse_attrib_def Let_def split: if_splits prod.splits)
    have "suffix (tl ?s2) (tl ?s1)"
      using d(1) by (cases ?s1) (auto intro: suffix_intros)
    then have "suffix ?s5 (tl ?s1)"
      by (rule suffix_dropWhile2 [OF suffix_tl2 [OF suffix_dropWhile2]])
    then show ?thesis
      using add_attrib_ok [OF a s(1) _ suffix_dropWhile d(1,3)] unfolding Some r by blast
  qed
qed

lemma tag_attribs_ok:
  "xml_tag_attribs xp m scope src = (xp1, m1, scope1, r) \<Longrightarrow>
   run_ok xp src xp1 (map_option snd r) \<and> declares xp scope src (map_option snd r) xp1 scope1 \<and>
   (\<forall>e rest. r = Some (e, rest) \<longrightarrow> length rest < length src)"
proof (induction xp m scope src rule: xml_tag_attribs.induct)
  case (1 xp m scope src)
  let ?s = "skip_xmlws src"
  have s: "suffix ?s src" "length ?s \<le> length src"
    using suffix_dropWhile suffix_length by auto
  consider (eof) "deref ?s = 0" "xp1 = xmlerr2 xp ?s 396 (cstr ''Unexpected end of file in tag'')" "scope1 = scope" "r = None"
    | (fin) e rest where "xp1 = xp" "scope1 = scope" "r = Some (e, rest)" "suffix rest (tl ?s)" "deref ?s \<noteq> 0"
    | (attrib) xp2 m2 scope2 r2 where "deref ?s \<noteq> 0" "deref ?s \<noteq> chr CHR ''/'' \<or> deref (tl ?s) \<noteq> chr CHR ''>''"
        "deref ?s \<noteq> chr CHR ''>''" "htsmsg_xml_parse_attrib xp m ?s scope = (xp2, m2, scope2, r2)"
        "(case r2 of None \<Rightarrow> (xp2, m2, scope2, None) | Some rest \<Rightarrow> xml_tag_attribs xp2 m2 scope2 rest) = (xp1, m1, scope1, r)"
    using 1(2) by (subst (asm) xml_tag_attribs.simps)
      (auto simp: Let_def split: if_splits prod.splits intro: suffix_tl)
  then show ?case
  proof cases
    case eof
    then show ?thesis
      using run_ok_error [OF s(1)] by (simp add: declares_refl)
  next
    case fin
    then have "suffix rest src" "length rest < length src"
      using s suffix_shorter [of rest ?s] suffix_order.trans suffix_tl by (blast, simp)
    then show ?thesis
      using fin run_ok_refl declares_refl by auto
  next
    case attrib
    note a = parse_attrib_ok [OF attrib(4)]
    have d2: "declares xp scope src r2 xp2 scope2"
      using declares_weaken [OF _ s(1)] a by blast
    show ?thesis
    proof (cases r2)
      case None
      then show ?thesis
        using attrib(5) a d2 run_ok_weaken [OF _ s(1)] by auto
    next
      case (Some rest)
      have run: "run_ok xp src xp2 (Some rest)"
        using a run_ok_weaken [OF _ s(1)] Some by blast
      have "length rest < length src"
        using parse_attrib_shorter [OF attrib(4) [unfolded Some]] s(2) by simp
      moreover have "run_ok xp2 rest xp1 (map_option snd r) \<and> declares xp2 scope2 rest (map_option snd r) xp1 scope1 \<and>
          (\<forall>e rest1. r = Some (e, rest1) \<longrightarrow> length rest1 < length rest)"
        by (rule 1(1) [OF refl _ _ _ attrib(4) [symmetric] refl refl Some])
          (use attrib Some in auto)
      ultimately show ?thesis
        using run_ok_trans [OF run] declares_trans [OF d2 [unfolded Some] _ run_ok_suffix [OF run]]
        by (fastforce simp: run_ok_def)
    qed
  qed
qed

lemma pi_attribs_ok:
  "xml_pi_attribs xp m src = (xp1, m1, r) \<Longrightarrow> run_ok xp src xp1 r \<and> xp_namespaces xp1 = xp_namespaces xp"
proof (induction xp m src rule: xml_pi_attribs.induct)
  case (1 xp m src)
  let ?s = "skip_xmlws src"
  have s: "suffix ?s src"
    by (rule suffix_dropWhile)
  consider (eof) "xp1 = xmlerr2 xp ?s 493 pi_eof" "r = None"
    | (fin) rest where "xp1 = xp" "r = Some rest" "suffix rest src"
    | (attrib) xp2 m2 scope2 r2 where "deref ?s \<noteq> 0" "deref ?s \<noteq> chr CHR ''?'' \<or> deref (tl ?s) \<noteq> chr CHR ''>''"
        "htsmsg_xml_parse_attrib xp m ?s None = (xp2, m2, scope2, r2)"
        "(case r2 of None \<Rightarrow> (xp2, m2, None) | Some rest \<Rightarrow> xml_pi_attribs xp2 m2 rest) = (xp1, m1, r)"
    using 1(2) by (subst (asm) xml_pi_attribs.simps)
      (auto simp: Let_def split: if_splits prod.splits intro!: suffix_intros)
  then show ?case
  proof cases
    case eof
    then show ?thesis using run_ok_error [OF s] by simp
  next
    case fin
    then show ?thesis using run_ok_refl by simp
  next
    case attrib
    note a = parse_attrib_ok [OF attrib(3)]
    have ns: "xp_namespaces xp2 = xp_namespaces xp"
      using a by (auto simp: declares_def)
    show ?thesis
    proof (cases r2)
      case None
      then show ?thesis
        using attrib(4) a ns run_ok_weaken [OF _ s] by auto
    next
      case (Some rest)
      have run: "run_ok xp src xp2 (Some rest)"
        using a run_ok_weaken [OF _ s] Some by blast
      moreover have "run_ok xp2 rest xp1 r \<and> xp_namespaces xp1 = xp_namespaces xp2"
        by (rule 1(1) [OF refl _ _ attrib(3) [symmetric] refl refl Some]) (use attrib Some in auto)
      ultimately show ?thesis
        using run_ok_trans [OF run] ns by simp
    qed
  qed
qed

lemma parse_pi_ok:
  assumes "htsmsg_xml_parse_pi xp parent src = (xp1, pis, r)"
  shows "run_ok xp src xp1 r \<and> xp_namespaces xp1 = xp_namespaces xp"
proof -
  let ?s = "dropWhile pi_char src"
  have s: "suffix ?s src"
    by (rule suffix_dropWhile)
  consider (err) line m where "xp1 = xmlerr2 xp ?s line m" "r = None"
    | (attribs) attrs where "xml_pi_attribs xp htsmsg_create_map ?s = (xp1, attrs, r)"
    using assms by (auto simp: htsmsg_xml_parse_pi_def Let_def split: if_splits prod.splits option.splits)
  then show ?thesis
    using run_ok_error [OF s] pi_attribs_ok run_ok_weaken [OF _ s] by cases auto
qed

lemma comment_end_suffix: "comment_end src = Some rest \<Longrightarrow> suffix rest src"
  by (induction src rule: comment_end.induct)
    (auto split: if_splits intro: suffix_tl2 suffix_ConsI)

lemma parse_comment_ok:
  assumes "xml_parse_comment xp src = (xp1, r)"
  shows "run_ok xp src xp1 r \<and> xp_namespaces xp1 = xp_namespaces xp"
proof (cases "comment_end src")
  case None
  then show ?thesis
    using assms run_ok_error [OF suffix_order.refl [of src]] by (auto simp: xml_parse_comment_def)
next
  case (Some rest)
  then show ?thesis
    using assms run_ok_refl [OF comment_end_suffix [OF Some]] by (auto simp: xml_parse_comment_def)
qed

section \<open>Text and elements\<close>

text \<open>The pieces of text that a run from \<open>src\<close> to \<open>r\<close> has collected end at positions that may be overwritten.\<close>

definition pieces_ok :: "bytes \<Rightarrow> bytes option \<Rightarrow> cdata_content list \<Rightarrow> bool" where
  "pieces_ok src r ccq \<longleftrightarrow> (\<forall>cc \<in> set ccq. \<forall>e. cc_end cc = Some e \<longrightarrow> length e \<le> length src \<and> behind r (length e))"

lemma pieces_ok_simps [simp]:
  "pieces_ok src r []"
  "pieces_ok src r (ccq @ ccq1) \<longleftrightarrow> pieces_ok src r ccq \<and> pieces_ok src r ccq1"
  "pieces_ok src r [Cdata enc txt None]"
  "pieces_ok src r [Cdata enc txt (Some e)] \<longleftrightarrow> length e \<le> length src \<and> behind r (length e)"
  by (auto simp: pieces_ok_def)

lemma pieces_ok_move: "pieces_ok src (Some s) ccq \<Longrightarrow> goes_on s xp1 r \<Longrightarrow> pieces_ok src r ccq"
  by (auto simp: pieces_ok_def intro: behind_goes_on)

lemma pieces_ok_suffix: "pieces_ok src (Some s) ccq \<Longrightarrow> suffix t s \<Longrightarrow> pieces_ok src (Some t) ccq"
  by (auto simp: pieces_ok_def intro: behind_suffix)

lemma pieces_ok_None: "pieces_ok src (Some s) ccq \<Longrightarrow> pieces_ok src None ccq"
  by (simp add: pieces_ok_def)

lemma pieces_ok_close:
  assumes "pieces_ok src (Some s) ccq" "suffix s src" "suffix rest (tl s)" "deref s \<noteq> 0"
  shows "pieces_ok src (Some rest) (close_cc xp cc s ccq)"
proof -
  have "suffix rest s"
    using assms(3) suffix_order.trans suffix_tl by blast
  moreover have "length rest < length s"
    using assms suffix_shorter by blast
  ultimately show ?thesis
    using pieces_ok_suffix [OF assms(1)] suffix_length [OF assms(2)]
    by (auto simp: close_cc_def behind_def split: option.splits)
qed

lemma pieces_ok_close_eof:
  "pieces_ok src (Some s) ccq \<Longrightarrow> suffix s src \<Longrightarrow> deref s = 0 \<Longrightarrow> pieces_ok src (Some s) (close_cc xp cc s ccq)"
  using suffix_length [of s src] by (auto simp: close_cc_def behind_def split: option.splits)

lemma set_trim_ccq: "set (trim_ccq ccq) \<subseteq> set ccq"
  unfolding trim_ccq_def by (auto dest!: set_dropWhileD)

lemma pieces_ok_trim: "pieces_ok src r ccq \<Longrightarrow> pieces_ok src r (trim_ccq ccq)"
  using set_trim_ccq [of ccq] unfolding pieces_ok_def by blast

lemma label_reference_ok:
  assumes "decode_label_reference xp ccq src = (xp1, ccq1, r)"
  shows "same_setup xp xp1 \<and> xp_namespaces xp1 = xp_namespaces xp \<and> xp_written xp1 = xp_written xp \<and>
    (\<forall>rest. r = Some rest \<longrightarrow> xp1 = xp \<and> suffix rest src \<and> (\<exists>code. ccq1 = add_unicode ccq code))"
  using assms suffix_dropWhile [of "\<lambda>c. c \<noteq> 0 \<and> c \<noteq> chr CHR '';''" src]
  by (auto simp: decode_label_reference_def Let_def xmlerr2_def same_setup_def intro!: suffix_tl2 split: if_splits)

lemma reference_loop_suffix: "reference_loop hex v src = (v1, rest) \<Longrightarrow> suffix rest src"
  by (induction hex v src rule: reference_loop.induct) (auto split: option.splits if_splits intro: suffix_ConsI)

lemma character_reference_suffix: "decode_character_reference src = (c, rest) \<Longrightarrow> suffix rest src"
  by (auto simp: decode_character_reference_def split: if_splits prod.splits
      dest!: reference_loop_suffix intro: suffix_order.trans [OF _ suffix_tl])

lemma set_body_ok:
  assumes "xml_set_body xp ccq field = (xp1, field1)" "pieces_ok src r ccq"
  shows "same_setup xp xp1 \<and> xp_namespaces xp1 = xp_namespaces xp \<and> xp_errpos xp1 = xp_errpos xp \<and>
    (\<forall>w \<in> set (xp_written xp1). w \<in> set (xp_written xp) \<or> w \<le> length src \<and> behind r w) \<and>
    (field \<noteq> None \<longrightarrow> field1 \<noteq> None)"
proof (cases "ccq = []")
  case True
  then show ?thesis
    using assms(1) by (auto simp: xml_set_body_def Let_def split: option.splits)
next
  case False
  then have "cc_end (hd ccq) = Some e \<Longrightarrow> length e \<le> length src \<and> behind r (length e)" for e
    using assms(2) hd_in_set by (auto simp: pieces_ok_def)
  then show ?thesis
    using assms(1) by (auto simp: xml_set_body_def Let_def same_setup_def split: option.splits if_splits)
qed

text \<open>The namespaces in scope were declared before the position.\<close>

definition ns_fresh :: "xmlparser \<Rightarrow> bytes \<Rightarrow> bool" where
  "ns_fresh xp src \<longleftrightarrow> (\<forall>n \<in> set (xp_namespaces xp). length src < xmlns_at n)"

lemma ns_fresh_suffix: "ns_fresh xp src \<Longrightarrow> suffix s src \<Longrightarrow> ns_fresh xp s"
  using suffix_length [of s src] by (fastforce simp: ns_fresh_def)

lemma destroy_namespaces:
  "xp_namespaces (fold (\<lambda>ns xp. xmlns_destroy xp ns) l xp) = filter (\<lambda>n. xmlns_at n \<notin> set l) (xp_namespaces xp)"
  by (induction l arbitrary: xp) (auto simp: xmlns_destroy_def filter_filter intro: filter_cong)

lemma destroy_sel [simp]:
  "xp_errpos (fold (\<lambda>ns xp. xmlns_destroy xp ns) l xp) = xp_errpos xp"
  "xp_written (fold (\<lambda>ns xp. xmlns_destroy xp ns) l xp) = xp_written xp"
  "same_setup xp0 (fold (\<lambda>ns xp. xmlns_destroy xp ns) l xp) \<longleftrightarrow> same_setup xp0 xp"
  by (induction l arbitrary: xp) (simp_all add: xmlns_destroy_def same_setup_def)

text \<open>What the parser of the content of an element must do for the element.\<close>

definition cd_ok :: "cd_parser \<Rightarrow> nat \<Rightarrow> bool" where
  "cd_ok cd n \<longleftrightarrow>
     (\<forall>xp m f src. length src < n \<longrightarrow> ns_fresh xp src \<longrightarrow>
        (\<exists>xp1 m1 f1 r. cd xp m f src = Some (xp1, m1, f1, r) \<and> run_ok xp src xp1 r \<and> same_namespaces xp xp1 r))"

lemma cd_okD:
  assumes "cd_ok cd n" "length src < n" "ns_fresh xp src"
  obtains xp1 m1 f1 r where "cd xp m f src = Some (xp1, m1, f1, r)" "run_ok xp src xp1 r" "same_namespaces xp xp1 r"
  using assms unfolding cd_ok_def by blast

lemma run_ok_destroy:
  "run_ok xp src (fold (\<lambda>ns xp. xmlns_destroy xp ns) l xp1) r \<longleftrightarrow> run_ok xp src xp1 r"
  by (cases r) (simp_all add: run_ok_def goes_on_def writes_ok_def)

lemma run_ok_overwrite_pos:
  assumes "run_ok xp src xp1 (Some rest)" "length rest < length p" "suffix p src"
  shows "run_ok xp src (if b then xp1 else overwrite xp1 p) (Some rest)"
  using assms run_ok_overwrite by simp

lemma tag_body_ok:
  assumes cd: "cd_ok cd n" and len: "length rest < n" "length rest < length s1"
    and run: "run_ok xp src xp1 (Some rest)" and s1: "suffix s1 src"
    and decl: "declares xp (Some []) src (Some rest) xp1 (Some nslist)" and fresh: "ns_fresh xp src"
    and fresh1: "ns_fresh xp1 rest"
  shows "\<exists>xp2 p r. xml_tag_body cd xp1 parent tagname s1 m nslist isempty rest = Some (xp2, p, r) \<and>
    run_ok xp src xp2 r \<and> same_namespaces xp xp2 r"
proof -
  let ?xp = "if deref s1 = 10 then xp1 else overwrite xp1 s1"
  let ?m = "if deref s1 = chr CHR ''/'' \<and> deref (tl s1) \<noteq> chr CHR ''>'' then clobber_name m else m"
  let ?f = "last (hm_fields (add_xml_field ?xp parent tagname HMF_MAP (if deref s1 = 10 then HMF_NAME_ALLOCED else 0)))"
  have run1: "run_ok xp src ?xp (Some rest)"
    by (rule run_ok_overwrite_pos [OF run len(2) s1])
  have fresh2: "ns_fresh ?xp rest"
    using fresh1 by (simp add: ns_fresh_def)
  obtain xp2 m2 f2 r where body: "(if isempty then Some (?xp, ?m, Some ?f, Some rest) else cd ?xp ?m (Some ?f) rest) =
      Some (xp2, m2, f2, r)" "run_ok ?xp rest xp2 r" "same_namespaces ?xp xp2 r"
    using cd_okD [OF cd len(1) fresh2, of ?m "Some ?f"] run_ok_refl [of rest rest ?xp]
    by (metis (no_types, lifting) same_namespaces_def suffix_order.refl)
  obtain new where new: "xp_namespaces xp1 = new @ xp_namespaces xp" "nslist = map xmlns_at new"
      "\<forall>n \<in> set new. xmlns_at n \<le> length src"
    using decl by (auto simp: declares_def)
  have "xp_namespaces (fold (\<lambda>ns xp. xmlns_destroy xp ns) nslist xp2) = xp_namespaces xp" if "r \<noteq> None"
  proof -
    have "xp_namespaces xp2 = new @ xp_namespaces xp"
      using body(3) that new(1) by (simp add: same_namespaces_def split: if_splits)
    moreover have "xmlns_at n \<notin> set nslist" if "n \<in> set (xp_namespaces xp)" for n
      using that new(2,3) fresh by (force simp: ns_fresh_def)
    ultimately show ?thesis
      by (simp add: destroy_namespaces new(2) filter_empty_conv cong: filter_cong)
  qed
  then show ?thesis
    using body(1) run_ok_trans [OF run1 body(2)]
    by (auto simp: xml_tag_body_def Let_def run_ok_destroy same_namespaces_def)
qed

lemma parse_tag_ok:
  assumes cd: "cd_ok cd n" and len: "length src \<le> n" and fresh: "ns_fresh xp src"
  shows "\<exists>xp2 p r. htsmsg_xml_parse_tag cd xp parent src = Some (xp2, p, r) \<and>
    run_ok xp src xp2 r \<and> same_namespaces xp xp2 r"
proof -
  let ?s1 = "dropWhile tag_char src"
  have s1: "suffix ?s1 src"
    by (rule suffix_dropWhile)
  obtain xp1 m scope r where a: "xml_tag_attribs xp htsmsg_create_map (Some []) ?s1 = (xp1, m, scope, r)"
    by (metis prod_cases4)
  note ok = tag_attribs_ok [OF a]
  show ?thesis
  proof (cases "deref ?s1 = 0 \<or> length (takeWhile tag_char src) < 1 \<or> length (takeWhile tag_char src) > 65535 \<or> r = None")
    case True
    then show ?thesis
      using a ok run_ok_weaken [OF _ s1] run_ok_error [OF s1] run_ok_error [OF suffix_order.refl [of src]]
      by (auto simp: htsmsg_xml_parse_tag_def Let_def same_namespaces_def)
  next
    case False
    then obtain e rest where r: "r = Some (e, rest)"
      by auto
    obtain nslist where l: "scope = Some nslist"
      using ok by (auto simp: declares_def)
    have len1: "length rest < length ?s1" "length rest < length src"
      using ok r suffix_length [OF s1] by auto
    have run: "run_ok xp src xp1 (Some rest)"
      using ok r run_ok_weaken [OF _ s1] by simp
    have decl: "declares xp (Some []) src (Some rest) xp1 (Some nslist)"
      using ok l r declares_weaken [OF _ s1] by simp
    have "ns_fresh xp1 rest"
      using decl ns_fresh_suffix [OF fresh run_ok_suffix [OF run]] by (auto simp: declares_def ns_fresh_def)
    then show ?thesis
      using False a r l tag_body_ok [OF cd _ len1(1) run s1 decl fresh] len len1(2)
      by (auto simp: htsmsg_xml_parse_tag_def Let_def)
  qed
qed

definition cd0_good ::
    "bytes \<Rightarrow> xmlparser \<Rightarrow> bytes \<Rightarrow> (xmlparser \<times> cdata_content list \<times> htsmsg \<times> bytes option) option \<Rightarrow> bool" where
  "cd0_good src xp s res \<longleftrightarrow>
     (\<exists>xp1 ccq1 tags1 r. res = Some (xp1, ccq1, tags1, r) \<and> run_ok xp s xp1 r \<and> same_namespaces xp xp1 r \<and>
        pieces_ok src r ccq1)"

definition cd0_ok :: "cd0_parser \<Rightarrow> nat \<Rightarrow> bool" where
  "cd0_ok cd0 n \<longleftrightarrow>
     (\<forall>src xp ccq cc tags s raw. length s < n \<longrightarrow> suffix s src \<longrightarrow> ns_fresh xp s \<longrightarrow> pieces_ok src (Some s) ccq \<longrightarrow>
        cd0_good src xp s (cd0 xp ccq cc tags s raw))"

lemma cd0_good_stop:
  "run_ok xp s xp1 r \<Longrightarrow> xp_namespaces xp1 = xp_namespaces xp \<Longrightarrow> pieces_ok src r ccq \<Longrightarrow>
   cd0_good src xp s (Some (xp1, ccq, tags, r))"
  by (auto simp: cd0_good_def same_namespaces_def)

lemma cd0_good_trans:
  assumes "run_ok xp s xp1 (Some rest)" "xp_namespaces xp1 = xp_namespaces xp" "cd0_good src xp1 rest res"
  shows "cd0_good src xp s res"
  using assms run_ok_trans [OF assms(1)] unfolding cd0_good_def same_namespaces_def by metis

text \<open>A turn of the loop that is followed by another.\<close>

lemma cd0_good_step:
  assumes ok: "cd0_ok cd0 n" and len: "length s < Suc n" and s: "suffix s src" and fresh: "ns_fresh xp s"
    and run: "run_ok xp s xp1 (Some rest)" "xp_namespaces xp1 = xp_namespaces xp" "length rest < length s"
    and ccq: "pieces_ok src (Some rest) ccq"
  shows "cd0_good src xp s (cd0 xp1 ccq cc tags rest raw)"
proof (rule cd0_good_trans [OF run(1,2)])
  have "ns_fresh xp1 rest"
    using ns_fresh_suffix [OF fresh run_ok_suffix [OF run(1)]] run(2) by (simp add: ns_fresh_def)
  then show "cd0_good src xp1 rest (cd0 xp1 ccq cc tags rest raw)"
    using ok ccq len run(3) suffix_order.trans [OF run_ok_suffix [OF run(1)] s] by (simp add: cd0_ok_def)
qed

lemma parse_cd_ok: "cd0_ok cd0 n \<Longrightarrow> cd_ok (htsmsg_xml_parse_cd cd0) n"
proof (unfold cd_ok_def, intro allI impI)
  fix xp m f src
  assume "cd0_ok cd0 n" "length src < n" "ns_fresh xp src"
  then obtain xp1 ccq m1 r where c: "cd0 xp [] None m src False = Some (xp1, ccq, m1, r)"
      "run_ok xp src xp1 r" "same_namespaces xp xp1 r" "pieces_ok src r ccq"
    unfolding cd0_ok_def cd0_good_def by (metis pieces_ok_simps(1) suffix_order.refl)
  obtain xp2 f1 where b: "xml_set_body xp1 (if xp_trim_whitespace xp1 then trim_ccq ccq else ccq) f = (xp2, f1)"
    by fastforce
  note ok = set_body_ok [OF b, of src r]
  have "run_ok xp src xp2 r" "same_namespaces xp xp2 r"
    using c ok pieces_ok_trim [OF c(4)]
    by (cases r; auto simp: run_ok_def same_setup_def goes_on_def writes_ok_def same_namespaces_def)+
  then show "\<exists>xp1 m1 f1 r. htsmsg_xml_parse_cd cd0 xp m f src = Some (xp1, m1, f1, r) \<and>
      run_ok xp src xp1 r \<and> same_namespaces xp xp1 r"
    using c(1) b by (simp add: htsmsg_xml_parse_cd_def)
qed

text \<open>A result of one of the parsers called at a \<^verbatim>\<open>'<'\<close>, and the rest of the loop after it.\<close>

lemma cd0_good_call:
  assumes ok: "cd0_ok cd0 n" and len: "length s < Suc n" and s: "suffix s src" and fresh: "ns_fresh xp s"
    and ccq: "pieces_ok src (Some s) ccq" and d: "deref s \<noteq> 0"
    and call: "run_ok xp t xp1 r" "same_namespaces xp xp1 r" "suffix t (tl s)"
  shows "cd0_good src xp s
    (case r of None \<Rightarrow> Some (xp1, close_cc xp cc s ccq, tags1, None)
     | Some rest \<Rightarrow> cd0 xp1 (close_cc xp cc s ccq) None tags2 rest raw)"
proof (cases r)
  case None
  have "run_ok xp s xp1 None"
    using run_ok_weaken [OF call(1) suffix_order.trans [OF call(3) suffix_tl]] None by simp
  moreover have "pieces_ok src None (close_cc xp cc s ccq)"
    using pieces_ok_None [OF pieces_ok_close [OF ccq s suffix_order.refl d]] .
  ultimately show ?thesis
    using None by (auto simp: cd0_good_def same_namespaces_def)
next
  case (Some rest)
  have r: "suffix rest (tl s)"
    using run_ok_suffix [of xp t xp1 rest] call Some suffix_order.trans by blast
  have "run_ok xp s xp1 (Some rest)"
    using run_ok_weaken [OF call(1) suffix_order.trans [OF call(3) suffix_tl]] Some by simp
  then show ?thesis
    using cd0_good_step [OF ok len s fresh _ _ suffix_shorter [OF r d] pieces_ok_close [OF ccq s r d]] call(2) Some
    by (simp add: same_namespaces_def)
qed

lemma cd0_cdata_ok:
  assumes ok: "cd0_ok cd0 n" and len: "length s < Suc n" and s: "suffix s src" and fresh: "ns_fresh xp s"
    and ccq: "pieces_ok src (Some s) ccq" and d: "deref s \<noteq> 0" and t: "suffix t (tl s)"
  shows "cd0_good src xp s
    (case cd0 xp (close_cc xp cc s ccq) None tags t True of
       None \<Rightarrow> None
     | Some (xp, ccq, tags, None) \<Rightarrow> Some (xp, ccq, tags, None)
     | Some (xp, ccq, tags, Some rest) \<Rightarrow> cd0 xp ccq None tags rest raw)"
proof -
  have st: "suffix t s"
    using t suffix_order.trans suffix_tl by blast
  have len_t: "length t < length s"
    using suffix_shorter [OF t d] .
  have "cd0_good src xp t (cd0 xp (close_cc xp cc s ccq) None tags t True)"
    using ok len len_t suffix_order.trans [OF st s] ns_fresh_suffix [OF fresh st] pieces_ok_close [OF ccq s t d]
    by (simp add: cd0_ok_def)
  then obtain xp1 ccq1 tags1 r where c: "cd0 xp (close_cc xp cc s ccq) None tags t True = Some (xp1, ccq1, tags1, r)"
      "run_ok xp t xp1 r" "same_namespaces xp xp1 r" "pieces_ok src r ccq1"
    by (auto simp: cd0_good_def)
  have run: "run_ok xp s xp1 r"
    using run_ok_weaken [OF c(2) st] .
  show ?thesis
  proof (cases r)
    case None
    then show ?thesis
      using c run by (auto simp: cd0_good_def)
  next
    case (Some rest)
    have "length rest < length s"
      using suffix_length [OF run_ok_suffix, of xp t xp1 rest] c(2) Some len_t by simp
    then show ?thesis
      using cd0_good_step [OF ok len s fresh _ _ _ ] run c Some by (simp add: same_namespaces_def)
  qed
qed

lemma cd0_markup_ok:
  assumes ok: "cd0_ok (htsmsg_xml_parse_cd0 n) n" and len: "length s < Suc n" and s: "suffix s src"
    and fresh: "ns_fresh xp s" and ccq: "pieces_ok src (Some s) ccq" and d: "deref s = chr CHR ''<''"
  shows "cd0_good src xp s (htsmsg_xml_parse_cd0 (Suc n) xp ccq cc tags s False)"
proof -
  have d0: "deref s \<noteq> 0"
    using d by simp
  note call = cd0_good_call [OF ok len s fresh ccq d0]
  note stop = cd0_good_stop [OF run_ok_error _ pieces_ok_None [OF pieces_ok_close [OF ccq s suffix_order.refl d0]]]
  note unfold = htsmsg_xml_parse_cd0.simps(2) [of n xp ccq cc tags s False, unfolded Let_def]
  consider (pi) "deref (tl s) = chr CHR ''?''" | (bang) "deref (tl s) = chr CHR ''!''"
    | (fin) "deref (tl s) = chr CHR ''/''"
    | (tag) "deref (tl s) \<noteq> chr CHR ''?''" "deref (tl s) \<noteq> chr CHR ''!''" "deref (tl s) \<noteq> chr CHR ''/''"
    by blast
  then show ?thesis
  proof cases
    case pi
    obtain xp1 pis r where p: "htsmsg_xml_parse_pi xp None (tl (tl s)) = (xp1, pis, r)"
      by (metis prod_cases3)
    then show ?thesis
      using call [of "tl (tl s)" xp1 r] parse_pi_ok [OF p] d pi suffix_tl
      by (simp add: unfold same_namespaces_def Let_def)
  next
    case bang
    obtain xp1 r where c: "xml_parse_comment xp (tl (tl (tl (tl s)))) = (xp1, r)"
      by fastforce
    show ?thesis
      using d bang call [of "tl (tl (tl (tl s)))" xp1 r] parse_comment_ok [OF c] c
        cd0_cdata_ok [OF ok len s fresh ccq d0, of "drop 7 (tl (tl s))"] stop [of "tl (tl s)" s]
      by (simp add: unfold same_namespaces_def suffix_intros)
  next
    case fin
    let ?s2 = "dropWhile (\<lambda>c. c \<noteq> chr CHR ''>'' \<and> c \<noteq> 0) (tl (tl s))"
    have s2: "suffix (tl ?s2) (tl s)" "suffix (tl ?s2) s" "suffix ?s2 s"
      by (intro suffix_intros)+
    show ?thesis
      using d fin stop [OF s2(3)] cd0_good_stop [OF run_ok_refl [OF s2(2)] refl pieces_ok_close [OF ccq s s2(1) d0]]
      by (simp add: unfold)
  next
    case tag
    obtain xp1 tags1 r where p: "htsmsg_xml_parse_tag (htsmsg_xml_parse_cd (htsmsg_xml_parse_cd0 n)) xp tags (tl s)
        = Some (xp1, tags1, r)" "run_ok xp (tl s) xp1 r" "same_namespaces xp xp1 r"
      using parse_tag_ok [OF parse_cd_ok [OF ok] _ ns_fresh_suffix [OF fresh suffix_tl]] len by fastforce
    then show ?thesis
      using call [OF p(2,3)] d tag by (simp add: unfold)
  qed
qed

lemma cd0_reference_ok:
  assumes ok: "cd0_ok (htsmsg_xml_parse_cd0 n) n" and len: "length s < Suc n" and s: "suffix s src"
    and fresh: "ns_fresh xp s" and ccq: "pieces_ok src (Some s) ccq" and d: "deref s = chr CHR ''&''"
  shows "cd0_good src xp s (htsmsg_xml_parse_cd0 (Suc n) xp ccq cc tags s False)"
proof -
  have d0: "deref s \<noteq> 0"
    using d by simp
  note unfold = htsmsg_xml_parse_cd0.simps(2) [of n xp ccq cc tags s False, unfolded Let_def]
  have added: "pieces_ok src (Some rest) (add_unicode (close_cc xp cc s ccq) code)" if "suffix rest (tl s)" for rest code
    using pieces_ok_close [OF ccq s that d0] by (simp add: add_unicode_def)
  show ?thesis
  proof (cases "deref (tl s) = chr CHR ''#''")
    case True
    obtain c rest where c: "decode_character_reference (tl (tl s)) = (c, rest)"
      by fastforce
    have r: "suffix rest (tl s)"
      using character_reference_suffix [OF c] suffix_order.trans suffix_tl by blast
    show ?thesis
      using True d c cd0_good_stop [OF run_ok_error [OF suffix_tl] _ pieces_ok_None [OF pieces_ok_close [OF ccq s r d0]]]
        cd0_good_step [OF ok len s fresh run_ok_refl [OF suffix_order.trans [OF r suffix_tl]] refl suffix_shorter [OF r d0] added [OF r]]
      by (simp add: unfold Let_def)
  next
    case False
    obtain xp1 ccq1 r where l: "decode_label_reference xp (close_cc xp cc s ccq) (tl s) = (xp1, ccq1, r)"
      by (metis prod_cases3)
    note lab = label_reference_ok [OF l]
    show ?thesis
    proof (cases r)
      case None
      have "run_ok xp s xp1 (Some (tl s))"
        using lab by (simp add: run_ok_def goes_on_def writes_ok_def suffix_tl)
      then show ?thesis
        using False d l lab None cd0_good_step [OF ok len s fresh _ _ suffix_shorter [OF suffix_order.refl d0]
          pieces_ok_suffix [OF ccq suffix_tl]]
        by (simp add: unfold Let_def)
    next
      case (Some rest)
      then have r: "suffix rest (tl s)"
        using lab by simp
      show ?thesis
        using False d l lab Some cd0_good_step [OF ok len s fresh run_ok_refl [OF suffix_order.trans [OF r suffix_tl]] refl suffix_shorter [OF r d0] added [OF r]]
        by (auto simp: unfold Let_def)
    qed
  qed
qed

theorem cd0_total: "cd0_ok (htsmsg_xml_parse_cd0 n) n"
proof (induction n)
  case 0
  show ?case by (simp add: cd0_ok_def)
next
  case (Suc n)
  show ?case
    unfolding cd0_ok_def
  proof (intro allI impI)
    fix src xp ccq cc tags s raw
    assume len: "length s < Suc n" and s: "suffix s src" and fresh: "ns_fresh xp s" and ccq: "pieces_ok src (Some s) ccq"
    note unfold = htsmsg_xml_parse_cd0.simps(2) [of n xp ccq cc tags s raw, unfolded Let_def]
    consider (eof) "deref s = 0" | (fin) "raw" "deref s \<noteq> 0" "take 3 s = cstr '']]>''"
      | (markup) "\<not> raw" "deref s = chr CHR ''<''" | (ref) "\<not> raw" "deref s = chr CHR ''&''"
      | (plain) "deref s \<noteq> 0" "\<not> (raw \<and> take 3 s = cstr '']]>'')" "\<not> (deref s = chr CHR ''<'' \<and> \<not> raw)"
          "\<not> (deref s = chr CHR ''&'' \<and> \<not> raw)"
      by blast
    then show "cd0_good src xp s (htsmsg_xml_parse_cd0 (Suc n) xp ccq cc tags s raw)"
    proof cases
      case eof
      then show ?thesis
        using cd0_good_stop [OF run_ok_refl [OF suffix_order.refl] refl pieces_ok_close_eof [OF ccq s eof]]
        by (simp add: unfold)
    next
      case fin
      have r: "suffix (drop 3 s) (tl s)"
        using suffix_drop [of 2 "tl s"] by (simp add: drop_Suc numeral_3_eq_3 numeral_2_eq_2)
      show ?thesis
        using fin cd0_good_stop [OF run_ok_refl [OF suffix_drop] refl pieces_ok_close [OF ccq s r fin(2)]]
        by (simp add: htsmsg_xml_parse_cd0.simps)
    next
      case markup
      then show ?thesis
        using cd0_markup_ok [OF Suc len s fresh ccq] by simp
    next
      case ref
      then show ?thesis
        using cd0_reference_ok [OF Suc len s fresh ccq] by simp
    next
      case plain
      note step = cd0_good_step [OF Suc len s fresh run_ok_refl [OF suffix_tl] refl
          suffix_shorter [OF suffix_order.refl plain(1)] pieces_ok_suffix [OF ccq suffix_tl]]
      have "htsmsg_xml_parse_cd0 (Suc n) xp ccq cc tags s raw =
          htsmsg_xml_parse_cd0 n xp ccq (case cc of None \<Rightarrow> if deref s < 32 then None else Some s | Some start \<Rightarrow> Some start)
            tags (tl s) raw"
        using plain by (cases cc; cases raw) (simp_all add: htsmsg_xml_parse_cd0.simps(2))
      then show ?thesis
        using step by simp
    qed
  qed
qed

section \<open>Any document\<close>

lemma doctype_skip_suffix: "doctype_skip depth src = Some rest \<Longrightarrow> suffix rest src"
proof (induction depth src rule: doctype_skip.induct)
  case (1 depth src)
  then show ?case
    using suffix_order.trans [OF _ suffix_tl [of src]] suffix_tl2 [OF suffix_tl [of src]]
    by (simp only: doctype_skip.simps [of depth src]) (auto intro: suffix_order.trans split: if_splits)
qed

lemma prolog_loop_ok:
  "prolog_loop xp pis src = Prolog xp1 pis1 rest \<Longrightarrow>
   run_ok xp src xp1 (Some rest) \<and> xp_namespaces xp1 = xp_namespaces xp"
proof (induction xp pis src rule: prolog_loop.induct)
  case (1 xp pis src)
  let ?s = "skip_xmlws src"
  have s: "suffix ?s src" "suffix (drop n ?s) src" for n
    by (intro suffix_intros)+
  have again: ?case
    if "run_ok xp t xp2 (Some u)" "suffix t src" "xp_namespaces xp2 = xp_namespaces xp"
      "run_ok xp2 u xp1 (Some rest) \<and> xp_namespaces xp1 = xp_namespaces xp2" for xp2 t u
    using that run_ok_trans run_ok_weaken by metis
  obtain xp2 pis2 r2 where p: "htsmsg_xml_parse_pi xp (Some pis) (drop 2 ?s) = (xp2, pis2, r2)"
    by (metis prod_cases3)
  obtain xp3 r3 where c: "xml_parse_comment xp (drop 4 ?s) = (xp3, r3)"
    by fastforce
  note step = 1(4) [unfolded prolog_loop.simps [of xp pis src] Let_def]
  consider (stop) "xp1 = xp" "suffix rest src"
    | (pi) u where "deref src \<noteq> 0" "take 2 ?s = cstr ''<?''" "r2 = Some u"
        "prolog_loop xp2 (case pis2 of None \<Rightarrow> pis | Some p \<Rightarrow> p) u = Prolog xp1 pis1 rest"
    | (comment) u where "deref src \<noteq> 0" "take 2 ?s \<noteq> cstr ''<?''" "take 4 ?s = cstr ''<!--''" "r3 = Some u"
        "prolog_loop xp3 pis u = Prolog xp1 pis1 rest"
    | (doctype) u where "deref src \<noteq> 0" "take 2 ?s \<noteq> cstr ''<?''" "take 4 ?s \<noteq> cstr ''<!--''"
        "take 9 ?s = cstr ''<!DOCTYPE''" "doctype_skip 0 ?s = Some u" "prolog_loop xp pis u = Prolog xp1 pis1 rest"
    using step p c s(1) by (auto split: if_splits option.splits)
  then show ?case
  proof cases
    case stop
    then show ?thesis using run_ok_refl by simp
  next
    case pi
    then show ?thesis
      using again [OF _ s(2)] parse_pi_ok [OF p] 1(1) [OF pi(1) refl pi(2) p [symmetric] refl pi(3) pi(4)] by metis
  next
    case comment
    then show ?thesis
      using again [OF _ s(2)] parse_comment_ok [OF c] 1(2) [OF comment(1) refl comment(2,3) c [symmetric] comment(4,5)] by metis
  next
    case doctype
    then show ?thesis
      using again [OF run_ok_refl [OF doctype_skip_suffix [OF doctype(5)]] s(1) refl] 1(3) [OF doctype(1) refl doctype(2-6)] by blast
  qed
qed

lemma parse_prolog_ok:
  "htsmsg_parse_prolog xp src = Prolog xp1 pis rest \<Longrightarrow>
   goes_on src xp1 (Some rest) \<and> writes_ok xp src xp1 (Some rest) \<and> xp_namespaces xp1 = xp_namespaces xp"
  using prolog_loop_ok [of xp htsmsg_create_map src]
  by (auto simp: htsmsg_parse_prolog_def run_ok_def writes_ok_def goes_on_def
      split: prolog_result.splits option.splits if_splits)


end
