(* ===== verification/Htsmsg_Xml_Doc.thy ===== *)
theory Htsmsg_Xml_Doc
  imports Htsmsg_Xml_Run Htsbuf
begin

text \<open>
  Reading back a document: a reference printer of element trees, the message an element stands for, and the proof
  that the parser makes this message from the printed document. Text is escaped the way
  \<open>htsbuf_append_and_escape_xml\<close> escapes it.
\<close>

section \<open>Elements and their printed form\<close>

text \<open>An element has a name, attributes, text and, after the text, child elements.\<close>

datatype elem = Elem (e_name: bytes) (e_attrs: "(bytes \<times> bytes) list") (e_text: bytes) (e_childs: "elem list")

definition print_attr :: "bytes \<times> bytes \<Rightarrow> bytes" where
  "print_attr a = [0x20] @ fst a @ [0x3d, 0x22] @ snd a @ [0x22]"

abbreviation xml_text :: "bytes \<Rightarrow> bytes" where
  "xml_text t \<equiv> escape_all xml_escape t"

fun print_elem :: "elem \<Rightarrow> bytes" where
  "print_elem (Elem n as t es) =
     [0x3c] @ n @ concat (map print_attr as) @
     (if t = [] \<and> es = [] then [0x2f, 0x3e]
      else [0x3e] @ xml_text t @ concat (map print_elem es) @ [0x3c, 0x2f] @ n @ [0x3e])"

section \<open>The message of an element\<close>

type_synonym ns_env = "(bytes \<times> bytes) list"

text \<open>A name with a prefix that is in scope loses the prefix and gets the namespace.\<close>

definition resolve :: "ns_env \<Rightarrow> bytes \<Rightarrow> bytes \<times> bytes option" where
  "resolve env n =
     (let p = takeWhile (\<lambda>c. c \<noteq> chr CHR '':'') n; r = drop (length p) n
      in if r \<noteq> [] \<and> tl r \<noteq> [] then (case map_of env p of Some uri \<Rightarrow> (tl r, Some uri) | None \<Rightarrow> (n, None))
         else (n, None))"

definition declares_ns :: "bytes \<Rightarrow> bool" where
  "declares_ns k \<longleftrightarrow> 6 < length k \<and> take 6 k = cstr ''xmlns:''"

definition named_field :: "ns_env \<Rightarrow> bytes \<Rightarrow> hmf_value \<Rightarrow> u8 \<Rightarrow> htsmsg option \<Rightarrow> htsmsg_field" where
  "named_field env n u flags childs = Field (Some (fst (resolve env n))) u flags childs (snd (resolve env n))"

text \<open>Attributes are read in order: a declaration holds for the attributes after it and for the element.\<close>

fun attrs_env :: "ns_env \<Rightarrow> (bytes \<times> bytes) list \<Rightarrow> ns_env" where
  "attrs_env env [] = env"
| "attrs_env env ((k, v) # as) = attrs_env (if declares_ns k then (drop 6 k, v) # env else env) as"

fun attrs_fields :: "ns_env \<Rightarrow> (bytes \<times> bytes) list \<Rightarrow> htsmsg_field list" where
  "attrs_fields env [] = []"
| "attrs_fields env ((k, v) # as) =
     (if declares_ns k then attrs_fields ((drop 6 k, v) # env) as
      else named_field env k (HMF_STR v) HMF_XML_ATTRIBUTE None # attrs_fields env as)"

definition decode :: "xml_encoding \<Rightarrow> bytes \<Rightarrow> bytes" where
  "decode enc t =
     (case enc of XML_ENCODING_UTF8 \<Rightarrow> t | XML_ENCODING_8859_1 \<Rightarrow> concat (map (\<lambda>x. utf8_put (uint x)) t))"

text \<open>Text that stays in the buffer of the document: one piece that needs no conversion.\<close>

definition in_place :: "xml_encoding \<Rightarrow> bytes \<Rightarrow> bool" where
  "in_place enc t \<longleftrightarrow> list_all (\<lambda>c. xml_escape c = None \<and> (enc = XML_ENCODING_8859_1 \<longrightarrow> c < 0x80)) t"

definition text_value :: "xml_encoding \<Rightarrow> bytes \<Rightarrow> hmf_value" where
  "text_value enc t = (if t = [] then HMF_MAP else HMF_STR (decode enc t))"

definition text_flags :: "xml_encoding \<Rightarrow> bytes \<Rightarrow> u8" where
  "text_flags enc t = (if in_place enc t then 0 else HMF_ALLOCED)"

definition some_childs :: "htsmsg_field list \<Rightarrow> htsmsg option" where
  "some_childs fs = (if fs = [] then None else Some (Htsmsg False fs))"

fun elem_field :: "xml_encoding \<Rightarrow> ns_env \<Rightarrow> elem \<Rightarrow> htsmsg_field" where
  "elem_field enc env (Elem n as t es) =
     named_field (attrs_env env as) n (text_value enc t) (text_flags enc t)
       (some_childs (attrs_fields env as @ map (elem_field enc (attrs_env env as)) es))"

section \<open>Elements that can be read back\<close>

definition name_ok :: "bytes \<Rightarrow> bool" where
  "name_ok n \<longleftrightarrow> n \<noteq> [] \<and> length n \<le> 65535 \<and> list_all tag_char n \<and>
     hd n \<noteq> chr CHR ''?'' \<and> hd n \<noteq> chr CHR ''!''"

definition attr_ok :: "bytes \<times> bytes \<Rightarrow> bool" where
  "attr_ok a \<longleftrightarrow> fst a \<noteq> [] \<and> length (fst a) \<le> 65535 \<and> list_all attrib_char (fst a) \<and>
     hd (fst a) \<noteq> chr CHR ''/'' \<and> hd (fst a) \<noteq> chr CHR ''>'' \<and>
     length (snd a) \<le> 65535 \<and> list_all (\<lambda>c. c \<noteq> 0 \<and> c \<noteq> 0x22) (snd a)"

text \<open>No control characters, no space at either end, and not a single character that is escaped.\<close>

definition text_ok :: "bytes \<Rightarrow> bool" where
  "text_ok t \<longleftrightarrow> list_all (\<lambda>c. 32 \<le> c) t \<and> (t \<noteq> [] \<longrightarrow> 32 < hd t \<and> 32 < last t) \<and>
     \<not> (length t = 1 \<and> xml_escape (hd t) \<noteq> None)"

fun elem_ok :: "elem \<Rightarrow> bool" where
  "elem_ok (Elem n as t es) \<longleftrightarrow> name_ok n \<and> list_all attr_ok as \<and> text_ok t \<and> list_all elem_ok es"

section \<open>Names and attributes\<close>

definition env_of :: "xmlparser \<Rightarrow> ns_env" where
  "env_of xp = map (\<lambda>n. (xmlns_prefix n, xmlns_normalized n)) (xp_namespaces xp)"

lemma map_of_env: "map_of (env_of xp) p = map_option xmlns_normalized (find (\<lambda>ns. xmlns_prefix ns = p) (xp_namespaces xp))"
proof -
  have "map_of (map (\<lambda>n. (xmlns_prefix n, xmlns_normalized n)) l) p =
      map_option xmlns_normalized (find (\<lambda>ns. xmlns_prefix ns = p) l)" for l
    by (induction l) auto
  then show ?thesis by (simp add: env_of_def)
qed

lemma c_str_id: "list_all (\<lambda>c. c \<noteq> 0) s \<Longrightarrow> c_str s = s"
  by (induction s) (auto simp: c_str_def)

lemma list_all_drop: "list_all P s \<Longrightarrow> list_all P (drop n s)"
  by (auto simp: list_all_iff dest: in_set_dropD)

lemma list_all_tl: "list_all P s \<Longrightarrow> list_all P (tl s)"
  by (cases s) auto

lemma deref_zero: "list_all (\<lambda>c. c \<noteq> 0) s \<Longrightarrow> deref s = 0 \<longleftrightarrow> s = []"
  by (cases s) (auto simp: deref_def)

lemma set_last_snoc [simp]: "set_last (Htsmsg b (fs @ [f])) g = Htsmsg b (fs @ [g])"
  by (simp add: set_last_def)

lemma add_xml_field_resolve:
  assumes "\<not> hm_islist m" "list_all (\<lambda>c. c \<noteq> 0) name"
  shows "add_xml_field xp m name u flags = Htsmsg False (hm_fields m @ [named_field (env_of xp) name u flags None])"
proof -
  let ?r = "drop (length (takeWhile (\<lambda>c. c \<noteq> chr CHR '':'') name)) name"
  have r: "list_all (\<lambda>c. c \<noteq> 0) ?r" "list_all (\<lambda>c. c \<noteq> 0) (tl ?r)"
    using assms(2) list_all_drop list_all_tl by blast+
  show ?thesis
    using assms c_str_id [OF assms(2)] c_str_id [OF r(2)] deref_zero [OF r(1)] deref_zero [OF r(2)]
    by (auto simp: add_xml_field_def Let_def field_add_def htsmsg_field_add_def set_namespace_def named_field_def
        resolve_def map_of_env split: option.splits)
qed

lemma takeWhile_print: "list_all P n \<Longrightarrow> \<not> P c \<Longrightarrow> takeWhile P (n @ c # z) = n"
  by (induction n) auto

lemma dropWhile_print: "list_all P n \<Longrightarrow> \<not> P c \<Longrightarrow> dropWhile P (n @ c # z) = c # z"
  by (induction n) auto

lemma xml_chars [simp]:
  "\<not> is_xmlws 0" "is_xmlws 32" "\<not> is_xmlws 60" "\<not> is_xmlws 61" "\<not> is_xmlws 62" "\<not> is_xmlws 47" "\<not> is_xmlws 34"
  "\<not> attrib_char 61" "\<not> tag_char 32" "\<not> tag_char 62" "\<not> tag_char 47"
  by (simp_all add: is_xmlws_def attrib_char_def tag_char_def)

lemma parse_attrib_print:
  assumes "attr_ok (k, v)"
  shows "htsmsg_xml_parse_attrib xp m (k @ [0x3d, 0x22] @ v @ [0x22] @ z) scope =
    (case xml_add_attrib xp m scope (k @ [0x3d, 0x22] @ v @ [0x22] @ z) k v (0x3d # 0x22 # v @ 0x22 # z) (0x22 # z) of
       (xp1, m1, scope1) \<Rightarrow> (xp1, m1, scope1, Some (skip_xmlws z)))"
proof -
  have k: "list_all attrib_char k" and v: "list_all (\<lambda>c. c \<noteq> 0 \<and> c \<noteq> 0x22) v"
    and l: "0 < length k" "length k \<le> 65535" "length v \<le> 65535"
    using assms by (auto simp: attr_ok_def)
  note w = takeWhile_print [OF k xml_chars(8)] dropWhile_print [OF k xml_chars(8)]
    takeWhile_print [OF v] dropWhile_print [OF v]
  show ?thesis
    using l by (simp add: htsmsg_xml_parse_attrib_def Let_def w)
qed

definition agree :: "xmlparser \<Rightarrow> xmlparser \<Rightarrow> bool" where
  "agree xp xp1 \<longleftrightarrow> same_setup xp xp1 \<and> xp_dangling xp1 = xp_dangling xp"

lemma agree_refl [simp]: "agree xp xp"
  by (simp add: agree_def)

lemma agree_trans: "agree xp xp1 \<Longrightarrow> agree xp1 xp2 \<Longrightarrow> agree xp xp2"
  by (simp add: agree_def same_setup_def)

lemma add_attrib_print:
  assumes "attr_ok (k, v)" "\<not> hm_islist m" "deref s1 \<noteq> 10" "deref s5 \<noteq> 10"
  shows "\<exists>xp1 scope1. xml_add_attrib xp m (Some scope) src k v s1 s5 =
      (xp1, if declares_ns k then m else Htsmsg False (hm_fields m @ [named_field (env_of xp) k (HMF_STR v) HMF_XML_ATTRIBUTE None]),
       Some scope1) \<and> agree xp xp1 \<and> env_of xp1 = (if declares_ns k then (drop 6 k, v) # env_of xp else env_of xp)"
proof -
  have "list_all (\<lambda>c. c \<noteq> 0) k"
    using assms(1) by (auto simp: attr_ok_def attrib_char_def list_all_iff)
  then show ?thesis
    using assms add_xml_field_resolve [OF assms(2)]
    by (auto simp: xml_add_attrib_def declares_ns_def env_of_def agree_def same_setup_def)
qed

text \<open>The end of a tag: \<open>isempty\<close> tells which one.\<close>

definition tag_end :: "bool \<Rightarrow> bytes" where
  "tag_end isempty = (if isempty then [0x2f, 0x3e] else [0x3e])"

lemma skip_idem [simp]: "skip_xmlws (skip_xmlws s) = skip_xmlws s"
  by (induction s) auto

lemma tag_attribs_skip: "xml_tag_attribs xp m scope (skip_xmlws s) = xml_tag_attribs xp m scope s"
  by (simp add: xml_tag_attribs.simps [of xp m scope s] xml_tag_attribs.simps [of xp m scope "skip_xmlws s"])

lemma tag_attribs_print:
  "list_all attr_ok as \<Longrightarrow> \<not> hm_islist m \<Longrightarrow>
   \<exists>xp1 scope1. xml_tag_attribs xp m (Some scope) (concat (map print_attr as) @ tag_end isempty @ z) =
     (xp1, Htsmsg False (hm_fields m @ attrs_fields (env_of xp) as), Some scope1, Some (isempty, z)) \<and>
     agree xp xp1 \<and> env_of xp1 = attrs_env (env_of xp) as"
proof (induction as arbitrary: xp m scope)
  case Nil
  have "Htsmsg False (hm_fields m) = m"
    using Nil(2) by (cases m) simp
  then show ?case
    by (auto simp: xml_tag_attribs.simps [of xp m _ "47 # 62 # z"] xml_tag_attribs.simps [of xp m _ "62 # z"] tag_end_def Let_def deref_def)
next
  case (Cons a as)
  obtain k v where a: "a = (k, v)" by fastforce
  let ?z = "concat (map print_attr as) @ tag_end isempty @ z"
  let ?s = "k @ [0x3d, 0x22] @ v @ [0x22] @ ?z"
  have ok: "attr_ok (k, v)" "list_all attr_ok as"
    using Cons(2) a by simp_all
  obtain c k' where k: "k = c # k'" "attrib_char c" "c \<noteq> chr CHR ''/''" "c \<noteq> chr CHR ''>''"
    using ok(1) by (cases k) (auto simp: attr_ok_def)
  let ?m = "if declares_ns k then m
    else Htsmsg False (hm_fields m @ [named_field (env_of xp) k (HMF_STR v) HMF_XML_ATTRIBUTE None])"
  obtain xp1 scope1 where add: "xml_add_attrib xp m (Some scope) ?s k v (0x3d # 0x22 # v @ 0x22 # ?z) (0x22 # ?z) =
      (xp1, ?m, Some scope1)" "agree xp xp1"
      "env_of xp1 = (if declares_ns k then (drop 6 k, v) # env_of xp else env_of xp)"
    using add_attrib_print [OF ok(1) Cons(3), of "0x3d # 0x22 # v @ 0x22 # ?z" "0x22 # ?z" xp scope ?s]
    by (auto simp: deref_def)
  have "skip_xmlws (0x20 # ?s) = ?s" "deref ?s \<noteq> 0" "deref ?s \<noteq> chr CHR ''/''" "deref ?s \<noteq> chr CHR ''>''"
    using k by (simp_all add: attrib_char_def deref_def)
  moreover have "htsmsg_xml_parse_attrib xp m ?s (Some scope) = (xp1, ?m, Some scope1, Some (skip_xmlws ?z))"
    unfolding parse_attrib_print [OF ok(1)] add(1) by simp
  ultimately have "xml_tag_attribs xp m (Some scope) (0x20 # ?s) = xml_tag_attribs xp1 ?m (Some scope1) (skip_xmlws ?z)"
    by (subst xml_tag_attribs.simps) (simp only: Let_def if_False simp_thms prod.case option.case)
  then have first: "xml_tag_attribs xp m (Some scope) (0x20 # ?s) = xml_tag_attribs xp1 ?m (Some scope1) ?z"
    by (simp only: tag_attribs_skip)
  show ?case
    using Cons(1) [OF ok(2), of ?m xp1 scope1] Cons(3) add agree_trans [OF add(2)] first
    by (auto simp: a print_attr_def [of "(k, v)"])
qed

section \<open>Text\<close>

text \<open>The pieces of an escaped text that is followed by \<open>z\<close>; \<open>w\<close> is the beginning of the piece that is open.\<close>

fun pieces :: "xml_encoding \<Rightarrow> bytes \<Rightarrow> bytes \<Rightarrow> bytes \<Rightarrow> cdata_content list" where
  "pieces enc w [] z = (if w = [] then [] else [Cdata enc w (Some z)])"
| "pieces enc w (c # t) z =
     (case xml_escape c of
        None \<Rightarrow> pieces enc (w @ [c]) t z
      | Some e \<Rightarrow> (if w = [] then [] else [Cdata enc w (Some (xml_text (c # t) @ z))]) @
                 [Cdata XML_ENCODING_UTF8 [c] None] @ pieces enc [] t z)"

lemma xml_escape_nonempty: "xml_escape c = Some e \<Longrightarrow> e \<noteq> []"
  by (auto simp: xml_escape_def split: if_splits)

lemma cd0_plain:
  assumes "32 \<le> c" "xml_escape c = None"
  shows "htsmsg_xml_parse_cd0 (Suc n) xp ccq cc tags (c # s) False =
    htsmsg_xml_parse_cd0 n xp ccq (Some (case cc of None \<Rightarrow> c # s | Some start \<Rightarrow> start)) tags s False"
proof -
  have "c \<noteq> 0" "c \<noteq> 60" "c \<noteq> 38" "\<not> c < 32"
    using assms by (auto simp: xml_escape_def)
  then show ?thesis
    by (cases cc) (simp_all add: htsmsg_xml_parse_cd0.simps(2) deref_def)
qed

lemma cd0_escape:
  assumes "xml_escape c = Some e"
  shows "htsmsg_xml_parse_cd0 (Suc n) xp ccq cc tags (e @ s) False =
    htsmsg_xml_parse_cd0 n xp (close_cc xp cc (e @ s) ccq @ [Cdata XML_ENCODING_UTF8 [c] None]) None tags s False"
proof -
  have p: "utf8_put 38 = [38]" "utf8_put 60 = [60]" "utf8_put 62 = [62]" "utf8_put 39 = [39]" "utf8_put 34 = [34]"
    by (simp_all add: utf8_put_def)
  have "c = 60 \<and> e = cstr ''&lt;'' \<or> c = 62 \<and> e = cstr ''&gt;'' \<or> c = 38 \<and> e = cstr ''&amp;'' \<or>
      c = 39 \<and> e = cstr ''&apos;'' \<or> c = 34 \<and> e = cstr ''&quot;''"
    using assms by (auto simp: xml_escape_def split: if_splits)
  then show ?thesis
    using html_lookup_escapes xml_lookup_escapes p
    by (elim disjE conjE)
      (simp_all add: htsmsg_xml_parse_cd0.simps(2) Let_def deref_def decode_label_reference_def add_unicode_def)
qed

lemma cd0_markup_closes:
  assumes "deref z = chr CHR ''<''"
  shows "htsmsg_xml_parse_cd0 (Suc n) xp ccq cc tags z False =
    htsmsg_xml_parse_cd0 (Suc n) xp (close_cc xp cc z ccq) None tags z False"
  using assms by (simp add: htsmsg_xml_parse_cd0.simps(2) close_cc_def [of _ None])

lemma text_run:
  "list_all (\<lambda>c. 32 \<le> c) t \<Longrightarrow> deref z = chr CHR ''<'' \<Longrightarrow> length (xml_text t @ z) < n \<Longrightarrow>
   \<exists>n1. length z < n1 \<and>
     htsmsg_xml_parse_cd0 n xp ccq (if w = [] then None else Some (w @ xml_text t @ z)) tags (xml_text t @ z) False =
     htsmsg_xml_parse_cd0 n1 xp (ccq @ pieces (xp_encoding xp) w t z) None tags z False"
proof (induction t arbitrary: n w ccq)
  case Nil
  then show ?case
    using cd0_markup_closes [OF Nil(2), of "n - 1" xp ccq "if w = [] then None else Some (w @ z)" tags]
    by (intro exI [of _ n]) (auto simp: close_cc_def)
next
  case (Cons c t)
  show ?case
  proof (cases "xml_escape c")
    case None
    obtain k where k: "n = Suc k" "length (xml_text t @ z) < k"
      using Cons(4) None by (cases n) auto
    have "htsmsg_xml_parse_cd0 n xp ccq (if w = [] then None else Some (w @ xml_text (c # t) @ z)) tags (xml_text (c # t) @ z) False =
        htsmsg_xml_parse_cd0 k xp ccq (Some ((w @ [c]) @ xml_text t @ z)) tags (xml_text t @ z) False"
      using Cons(2) None cd0_plain [of c k xp ccq _ tags "xml_text t @ z"] by (simp add: k(1))
    then show ?thesis
      using Cons(1) [OF _ Cons(3) k(2), where w = "w @ [c]" and ccq = ccq] Cons(2) None by simp
  next
    case (Some e)
    obtain k where k: "n = Suc k" "length (xml_text t @ z) < k"
      using Cons(4) Some xml_escape_nonempty [OF Some] by (cases n; cases e) auto
    let ?q = "ccq @ (if w = [] then [] else [Cdata (xp_encoding xp) w (Some (xml_text (c # t) @ z))])"
    have "close_cc xp (if w = [] then None else Some (w @ xml_text (c # t) @ z)) (xml_text (c # t) @ z) ccq = ?q"
      by (simp add: close_cc_def)
    then have "htsmsg_xml_parse_cd0 n xp ccq (if w = [] then None else Some (w @ xml_text (c # t) @ z)) tags (xml_text (c # t) @ z) False =
        htsmsg_xml_parse_cd0 k xp (?q @ [Cdata XML_ENCODING_UTF8 [c] None]) None tags (xml_text t @ z) False"
      using cd0_escape [OF Some, of k xp ccq _ tags "xml_text t @ z"] Some by (simp add: k(1))
    then show ?thesis
      using Cons(1) [OF _ Cons(3) k(2), where w = "[]" and ccq = "?q @ [Cdata XML_ENCODING_UTF8 [c] None]"] Cons(2) Some by simp
  qed
qed

section \<open>The body of an element\<close>

lemma pieces_body:
  "concat (map cc_body (pieces enc w t z)) = decode enc (w @ t)"
proof (induction enc w t z rule: pieces.induct)
  case (2 enc w c t z)
  have p: "utf8_put 38 = [38]" "utf8_put 60 = [60]" "utf8_put 62 = [62]" "utf8_put 39 = [39]" "utf8_put 34 = [34]"
    by (simp_all add: utf8_put_def)
  have "xml_escape c = Some e \<Longrightarrow> utf8_put (uint c) = [c]" for e
    using p by (auto simp: xml_escape_def split: if_splits)
  then show ?case
    using 2 by (cases enc; cases "xml_escape c") (auto simp: cc_body_def decode_def)
qed (auto simp: cc_body_def decode_def split: xml_encoding.splits)

lemma sum_1_0: "(\<Sum>x\<leftarrow>s. Suc (if P x then 1 else 0)) = length s \<longleftrightarrow> list_all (\<lambda>x. \<not> P x) s"
proof (induction s)
  case (Cons x s)
  have "length s \<le> (\<Sum>x\<leftarrow>s. Suc (if P x then 1 else 0))"
    by (induction s) auto
  then show ?case
    using Cons by auto
qed simp

lemma pieces_Nil: "pieces enc w t z = [] \<longleftrightarrow> w = [] \<and> t = []"
  by (induction enc w t z rule: pieces.induct) (auto split: option.splits)

lemma pieces_in_place:
  "list_all (\<lambda>c. xml_escape c = None) t \<Longrightarrow> pieces enc w t z = (if w @ t = [] then [] else [Cdata enc (w @ t) (Some z)])"
  by (induction enc w t z rule: pieces.induct) auto

text \<open>The first and the last piece begin and end with the text.\<close>

lemma pieces_hd: "w @ t \<noteq> [] \<Longrightarrow> cc_text (hd (pieces enc w t z)) \<noteq> [] \<and> hd (cc_text (hd (pieces enc w t z))) = hd (w @ t)"
proof (induction enc w t z rule: pieces.induct)
  case (2 enc w c t z)
  then show ?case
    by (cases "xml_escape c"; cases w) auto
qed auto

lemma pieces_last: "w @ t \<noteq> [] \<Longrightarrow> cc_text (last (pieces enc w t z)) \<noteq> [] \<and> last (cc_text (last (pieces enc w t z))) = last (w @ t)"
proof (induction enc w t z rule: pieces.induct)
  case (2 enc w c t z)
  then show ?case
    by (cases "xml_escape c"; cases "t = []") (auto simp: pieces_Nil)
qed auto

lemma trim_pieces:
  assumes "text_ok t"
  shows "trim_ccq (pieces enc [] t z) = pieces enc [] t z"
proof (cases "t = []")
  case False
  let ?q = "pieces enc [] t z"
  have q: "?q \<noteq> []"
    using False by (simp add: pieces_Nil)
  have "\<not> xml_is_cc_ws (hd ?q)" "\<not> xml_is_cc_ws (last ?q)"
    using assms False pieces_hd [of "[]" t enc z] pieces_last [of "[]" t enc z]
    unfolding xml_is_cc_ws_def text_ok_def list_all_iff by (metis append_Nil hd_in_set linorder_not_le, metis append_Nil last_in_set linorder_not_le)
  then show ?thesis
    using q dropWhile_eq_self_iff [of xml_is_cc_ws ?q] dropWhile_eq_self_iff [of xml_is_cc_ws "rev ?q"]
    by (simp add: trim_ccq_def hd_rev)
qed (simp add: trim_ccq_def)

lemma cc_length_body: "cc_length cc = length (cc_body cc)"
proof -
  have "length (utf8_put (uint x)) = 1 + (if x \<ge> 0x80 then 1 else 0)" for x :: u8
    using uint_u8_bound [of x] by (auto simp: utf8_put_def word_le_def)
  then show ?thesis
    by (cases "cc_encoding cc") (simp_all add: cc_length_def cc_body_def length_concat comp_def)
qed

lemma pieces_length: "sum_list (map cc_length (pieces enc w t z)) = length (decode enc (w @ t))"
  unfolding pieces_body [symmetric, of enc w t z] length_concat map_map comp_def cc_length_body ..

lemma decode_in_place: "in_place enc t \<Longrightarrow> decode enc t = t"
proof (cases enc)
  case XML_ENCODING_8859_1
  have "c < 0x80 \<Longrightarrow> utf8_put (uint c) = [c]" for c :: u8
    using uint_u8_bound [of c] by (auto simp: utf8_put_def word_less_def)
  then show "in_place enc t \<Longrightarrow> decode enc t = t"
    using XML_ENCODING_8859_1 by (induction t) (auto simp: in_place_def decode_def)
qed (simp add: decode_def)

lemma decode_length: "length t \<le> length (decode enc t)"
  using cc_length_body [of "Cdata enc t None"]
  by (cases enc) (auto simp: decode_def cc_body_def cc_length_def sum_list_Suc)

lemma pieces_many:
  "\<not> list_all (\<lambda>c. xml_escape c = None) t \<Longrightarrow> w \<noteq> [] \<or> 2 \<le> length t \<Longrightarrow> 2 \<le> length (pieces enc w t z)"
proof (induction enc w t z rule: pieces.induct)
  case (2 enc w c t z)
  show ?case
  proof (cases "xml_escape c")
    case None
    then show ?thesis using 2 by simp
  next
    case (Some e)
    have "t \<noteq> [] \<Longrightarrow> 1 \<le> length (pieces enc [] t z)"
      by (simp add: pieces_Nil Suc_le_eq)
    then show ?thesis
      using 2(3,4) Some by (cases "w = []"; cases "t = []") auto
  qed
qed simp

lemma parts_length: "length ccq \<le> sum_list (map cc_parts ccq)"
  by (induction ccq) (auto simp: cc_parts_def split: xml_encoding.splits)

lemma text_ok_many: "text_ok t \<Longrightarrow> \<not> list_all (\<lambda>c. xml_escape c = None) t \<Longrightarrow> 2 \<le> length t"
  by (cases t rule: list.exhaust; cases "tl t") (auto simp: text_ok_def)

text \<open>One part exactly when the text stays in place.\<close>

lemma pieces_parts:
  assumes "t \<noteq> []" "text_ok t"
  shows "sum_list (map cc_parts (pieces enc [] t z)) = 1 \<longleftrightarrow> in_place enc t"
proof (cases "list_all (\<lambda>c. xml_escape c = None) t")
  case True
  then show ?thesis
    using assms(1) sum_1_0 [of "\<lambda>x. x \<ge> 0x80" t]
    by (cases enc) (auto simp: pieces_in_place cc_parts_def cc_length_def in_place_def list_all_iff not_le)
next
  case False
  then have "2 \<le> sum_list (map cc_parts (pieces enc [] t z))"
    using pieces_many [OF False disjI2 [OF text_ok_many [OF assms(2) False]], of enc "[]" z]
      parts_length [of "pieces enc [] t z"] by simp
  then show ?thesis
    using False by (auto simp: in_place_def list_all_iff)
qed

lemma decode_many:
  assumes "t \<noteq> []" "text_ok t" "\<not> in_place enc t"
  shows "1 < length (decode enc t)"
proof (cases "2 \<le> length t")
  case True
  then show ?thesis using decode_length [of t enc] by simp
next
  case False
  then obtain c where c: "t = [c]"
    using assms(1) by (cases t; cases "tl t") auto
  then have "enc = XML_ENCODING_8859_1" "\<not> c < 0x80"
    using assms(2,3) text_ok_many [OF assms(2)] by (auto simp: in_place_def)
  then show ?thesis
    using c cc_length_body [of "Cdata enc t None"] by (simp add: cc_length_def cc_body_def decode_def not_less)
qed

lemma nul_free_decode: "text_ok t \<Longrightarrow> c_str (decode enc t) = decode enc t"
proof -
  assume ok: "text_ok t"
  have "c \<noteq> 0" "nul_free (utf8_put (uint c))" if "c \<in> set t" for c
  proof -
    show "c \<noteq> 0"
      using ok that by (auto simp: text_ok_def list_all_iff)
    then show "nul_free (utf8_put (uint c))"
      using utf8_put_nul_free [of "uint c"] by (simp add: unsigned_eq_0_iff)
  qed
  then have "nul_free (decode enc t)"
    by (cases enc) (auto simp: decode_def nul_free_def)
  then show ?thesis
    by (intro c_str_id) (auto simp: nul_free_def list_all_iff)
qed

lemma set_body_print:
  assumes "text_ok t" "deref z \<noteq> 10"
  shows "\<exists>xp1. xml_set_body xp (pieces (xp_encoding xp) [] t z) (Some (named_field env n HMF_MAP 0 childs)) =
     (xp1, Some (named_field env n (text_value (xp_encoding xp) t) (text_flags (xp_encoding xp) t) childs)) \<and>
     agree xp xp1 \<and> xp_namespaces xp1 = xp_namespaces xp"
proof (cases "t = []")
  case True
  then show ?thesis
    by (simp add: xml_set_body_def text_value_def text_flags_def in_place_def)
next
  case False
  let ?enc = "xp_encoding xp"
  note len = pieces_length [of ?enc "[]" t z] and parts = pieces_parts [OF False assms(1), of ?enc z]
  show ?thesis
  proof (cases "in_place ?enc t")
    case True
    then have "pieces ?enc [] t z = [Cdata ?enc t (Some z)]"
      using pieces_in_place [of t ?enc "[]" z] False by (auto simp: in_place_def list_all_iff)
    then show ?thesis
      using True assms False len parts decode_in_place [OF True] nul_free_decode [OF assms(1), of ?enc]
      by (simp add: xml_set_body_def end_byte_def set_str_def named_field_def text_value_def text_flags_def
          agree_def same_setup_def)
  next
    case no: False
    then show ?thesis
      using False len parts decode_many [OF False assms(1) no] nul_free_decode [OF assms(1), of ?enc]
        pieces_body [of ?enc "[]" t z]
      by (simp add: xml_set_body_def set_str_def named_field_def text_value_def text_flags_def)
  qed
qed

section \<open>Elements\<close>

lemma name_okD:
  assumes "name_ok n"
  shows "list_all tag_char n" "0 < length n" "length n \<le> 65535" "list_all (\<lambda>c. c \<noteq> 0) n"
    "list_all (\<lambda>c. c \<noteq> chr CHR ''>'' \<and> c \<noteq> 0) n"
    "deref (n @ s) \<noteq> chr CHR ''?''" "deref (n @ s) \<noteq> chr CHR ''!''" "deref (n @ s) \<noteq> chr CHR ''/''" "deref (n @ s) \<noteq> 0"
  using assms by (cases n; auto simp: name_ok_def tag_char_def list_all_iff deref_def)+

lemma parse_tag_eq:
  assumes "takeWhile tag_char src = n" "dropWhile tag_char src = s1" "deref s1 \<noteq> 0" "0 < length n" "length n \<le> 65535"
    and "xml_tag_attribs xp htsmsg_create_map (Some []) s1 = (xp1, m, Some l, Some (isempty, z))"
  shows "htsmsg_xml_parse_tag cd xp parent src = xml_tag_body cd xp1 parent n s1 m l isempty z"
  using assms by (simp add: htsmsg_xml_parse_tag_def Let_def)

lemma tag_body_eq:
  assumes "\<not> hm_islist parent" "list_all (\<lambda>c. c \<noteq> 0) n" "deref s1 \<noteq> 10" "deref s1 = chr CHR ''/'' \<Longrightarrow> deref (tl s1) = chr CHR ''>''"
  shows "xml_tag_body cd xp1 parent n s1 m nslist isempty z =
      (case (if isempty
             then Some (overwrite xp1 s1, m, Some (named_field (env_of (overwrite xp1 s1)) n HMF_MAP 0 None), Some z)
             else cd (overwrite xp1 s1) m (Some (named_field (env_of (overwrite xp1 s1)) n HMF_MAP 0 None)) z) of
         None \<Rightarrow> None
       | Some (xp2, m2, f1, r) \<Rightarrow>
           let f2 = (case f1 of None \<Rightarrow> named_field (env_of (overwrite xp1 s1)) n HMF_MAP 0 None | Some f1 \<Rightarrow> f1);
               childs = (if hm_fields m2 \<noteq> [] then Some m2 else hmf_childs f2)
           in Some (fold (\<lambda>ns xp. xmlns_destroy xp ns) nslist xp2,
                    Htsmsg False (hm_fields parent @
                      [Field (hmf_name f2) (hmf_u f2) (hmf_flags f2) childs (hmf_namespace f2)]), r))"
  using assms add_xml_field_resolve [OF assms(1,2)] by (auto simp: xml_tag_body_def Let_def split: option.splits)

text \<open>The beginning of a printed element, up to the end of its tag.\<close>

lemma parse_tag_print:
  assumes n: "name_ok n" and as: "list_all attr_ok as" and p: "\<not> hm_islist parent"
    and fresh: "ns_fresh xp (n @ concat (map print_attr as) @ tag_end isempty @ z)"
  shows "\<exists>xp1 nslist. agree xp xp1 \<and> ns_fresh xp1 z \<and> env_of xp1 = attrs_env (env_of xp) as \<and>
    htsmsg_xml_parse_tag cd xp parent (n @ concat (map print_attr as) @ tag_end isempty @ z) =
      (case (if isempty
             then Some (xp1, Htsmsg False (attrs_fields (env_of xp) as),
                        Some (named_field (attrs_env (env_of xp) as) n HMF_MAP 0 None), Some z)
             else cd xp1 (Htsmsg False (attrs_fields (env_of xp) as))
                        (Some (named_field (attrs_env (env_of xp) as) n HMF_MAP 0 None)) z) of
         None \<Rightarrow> None
       | Some (xp2, m2, f1, r) \<Rightarrow>
           let f2 = (case f1 of None \<Rightarrow> named_field (attrs_env (env_of xp) as) n HMF_MAP 0 None | Some f1 \<Rightarrow> f1);
               childs = (if hm_fields m2 \<noteq> [] then Some m2 else hmf_childs f2)
           in Some (fold (\<lambda>ns xp. xmlns_destroy xp ns) nslist xp2,
                    Htsmsg False (hm_fields parent @
                      [Field (hmf_name f2) (hmf_u f2) (hmf_flags f2) childs (hmf_namespace f2)]), r))"
proof -
  let ?s1 = "concat (map print_attr as) @ tag_end isempty @ z"
  obtain c s where c: "?s1 = c # s" "\<not> tag_char c" "c \<noteq> 0" "c \<noteq> 10" "c = chr CHR ''/'' \<Longrightarrow> deref s = chr CHR ''>''"
    by (cases as; cases isempty) (auto simp: tag_end_def deref_def print_attr_def)
  have w: "takeWhile tag_char (n @ ?s1) = n" "dropWhile tag_char (n @ ?s1) = ?s1"
    using takeWhile_print [OF name_okD(1) [OF n] c(2)] dropWhile_print [OF name_okD(1) [OF n] c(2)] by (simp_all add: c(1))
  obtain xp1 nslist where a: "xml_tag_attribs xp htsmsg_create_map (Some []) ?s1 =
      (xp1, Htsmsg False (attrs_fields (env_of xp) as), Some nslist, Some (isempty, z))"
      "agree xp xp1" "env_of xp1 = attrs_env (env_of xp) as"
    using tag_attribs_print [OF as, of htsmsg_create_map xp "[]" isempty z] by (auto simp: htsmsg_create_map_def)
  have d: "deref ?s1 = c" "deref (tl ?s1) = deref s"
    by (simp_all add: c(1) deref_def)
  have e: "env_of (overwrite xp1 ?s1) = env_of xp1"
    by (simp add: env_of_def)
  have "agree xp (overwrite xp1 ?s1)"
    using a(2) by (simp add: agree_def same_setup_def)
  moreover have "ns_fresh (overwrite xp1 ?s1) z"
    using tag_attribs_ok [OF a(1)] fresh suffix_length [of z "n @ ?s1"]
    by (fastforce simp: ns_fresh_def declares_def suffix_def)
  moreover have "htsmsg_xml_parse_tag cd xp parent (n @ ?s1) =
      xml_tag_body cd xp1 parent n ?s1 (Htsmsg False (attrs_fields (env_of xp) as)) nslist isempty z"
    by (rule parse_tag_eq [OF w _ name_okD(2,3) [OF n] a(1)]) (simp only: d c(3) not_False_eq_True)
  ultimately show ?thesis
    using c(4,5) a(3) tag_body_eq [OF p name_okD(4) [OF n], of ?s1 cd xp1 _ nslist isempty z]
    by (intro exI [of _ "overwrite xp1 ?s1"] exI [of _ nslist]) (simp only: d e a(3) simp_thms)
qed

text \<open>What the loop does with elements: it adds their fields and goes on behind them.\<close>

definition reads :: "bytes \<Rightarrow> (xml_encoding \<Rightarrow> ns_env \<Rightarrow> htsmsg_field list) \<Rightarrow> bool" where
  "reads src ff \<longleftrightarrow>
     (\<forall>n xp ccq tags z. length (src @ z) < n \<longrightarrow> ns_fresh xp (src @ z) \<longrightarrow> \<not> hm_islist tags \<longrightarrow> xp_trim_whitespace xp \<longrightarrow>
       (\<exists>n1 xp1. length z < n1 \<and> agree xp xp1 \<and> xp_namespaces xp1 = xp_namespaces xp \<and>
          htsmsg_xml_parse_cd0 n xp ccq None tags (src @ z) False =
          htsmsg_xml_parse_cd0 n1 xp1 ccq None
            (Htsmsg False (hm_fields tags @ ff (xp_encoding xp) (env_of xp))) z False))"

lemma readsD:
  assumes "reads src ff" "length (src @ z) < n" "ns_fresh xp (src @ z)" "\<not> hm_islist tags" "xp_trim_whitespace xp"
  obtains n1 xp1 where "length z < n1" "agree xp xp1" "xp_namespaces xp1 = xp_namespaces xp"
    "htsmsg_xml_parse_cd0 n xp ccq None tags (src @ z) False =
     htsmsg_xml_parse_cd0 n1 xp1 ccq None
       (Htsmsg False (hm_fields tags @ ff (xp_encoding xp) (env_of xp))) z False"
  using assms unfolding reads_def by blast

lemma agree_sel:
  "agree xp xp1 \<Longrightarrow> xp_encoding xp1 = xp_encoding xp" "agree xp xp1 \<Longrightarrow> xp_trim_whitespace xp1 = xp_trim_whitespace xp"
  by (simp_all add: agree_def same_setup_def)

lemma ns_fresh_cong: "xp_namespaces xp1 = xp_namespaces xp \<Longrightarrow> ns_fresh xp1 s = ns_fresh xp s"
  by (simp add: ns_fresh_def)

lemma reads_Nil: "reads [] (\<lambda>enc env. [])"
proof -
  have "Htsmsg False (hm_fields tags) = tags" if "\<not> hm_islist tags" for tags
    using that by (cases tags) simp
  then show ?thesis
    unfolding reads_def by (metis agree_refl append.right_neutral append_Nil)
qed

lemma reads_append:
  assumes "reads s f" "reads t g"
  shows "reads (s @ t) (\<lambda>enc env. f enc env @ g enc env)"
  unfolding reads_def
proof (intro allI impI)
  fix n xp ccq tags z
  assume l: "length ((s @ t) @ z) < n" and fr: "ns_fresh xp ((s @ t) @ z)" and tags: "\<not> hm_islist tags" and tr: "xp_trim_whitespace xp"
  obtain n1 xp1 where 1: "length (t @ z) < n1" "agree xp xp1" "xp_namespaces xp1 = xp_namespaces xp"
     "htsmsg_xml_parse_cd0 n xp ccq None tags (s @ t @ z) False =
     htsmsg_xml_parse_cd0 n1 xp1 ccq None (Htsmsg False (hm_fields tags @ f (xp_encoding xp) (env_of xp))) (t @ z) False"
    by (rule readsD [OF assms(1), of "t @ z" n xp tags ccq]) (use l fr tags tr in simp_all)
  have fr1: "ns_fresh xp1 (t @ z)"
    using ns_fresh_suffix [OF fr, of "t @ z"] ns_fresh_cong [OF 1(3)] by (simp add: suffix_def)
  obtain n2 xp2 where 2: "length z < n2" "agree xp1 xp2" "xp_namespaces xp2 = xp_namespaces xp1"
     "htsmsg_xml_parse_cd0 n1 xp1 ccq None (Htsmsg False (hm_fields tags @ f (xp_encoding xp) (env_of xp))) (t @ z) False =
     htsmsg_xml_parse_cd0 n2 xp2 ccq None
       (Htsmsg False ((hm_fields tags @ f (xp_encoding xp) (env_of xp)) @ g (xp_encoding xp1) (env_of xp1))) z False"
    by (rule readsD [OF assms(2) 1(1) fr1, of "Htsmsg False (hm_fields tags @ f (xp_encoding xp) (env_of xp))" ccq])
      (use agree_sel(2) [OF 1(2)] tr in simp_all)
  have "env_of xp1 = env_of xp"
    using 1(3) by (simp add: env_of_def)
  then show "\<exists>n1 xp1. length z < n1 \<and> agree xp xp1 \<and> xp_namespaces xp1 = xp_namespaces xp \<and>
      htsmsg_xml_parse_cd0 n xp ccq None tags ((s @ t) @ z) False =
      htsmsg_xml_parse_cd0 n1 xp1 ccq None
        (Htsmsg False (hm_fields tags @ f (xp_encoding xp) (env_of xp) @ g (xp_encoding xp) (env_of xp))) z False"
    using 1 2 agree_trans [OF 1(2) 2(2)] agree_sel(1) [OF 1(2)] by auto
qed

lemma reads_concat:
  "(\<And>e. e \<in> set es \<Longrightarrow> reads (p e) (\<lambda>enc env. [f enc env e])) \<Longrightarrow>
   reads (concat (map p es)) (\<lambda>enc env. map (f enc env) es)"
proof (induction es)
  case Nil
  show ?case using reads_Nil by simp
next
  case (Cons e es)
  show ?case
    using reads_append [OF Cons(2) [of e] Cons(1)] Cons(2) by simp
qed

lemma cd0_end_tag:
  assumes "name_ok n"
  shows "htsmsg_xml_parse_cd0 (Suc k) xp ccq None tags ([0x3c, 0x2f] @ n @ [0x3e] @ z) False = Some (xp, ccq, tags, Some z)"
  using dropWhile_print [OF name_okD(5) [OF assms], of 62 z]
  by (simp add: htsmsg_xml_parse_cd0.simps(2) deref_def close_cc_def)

text \<open>The content of an element up to its end tag.\<close>

lemma content_print:
  assumes ok: "text_ok t" "name_ok nm" and es: "reads src ff" "src \<noteq> [] \<Longrightarrow> deref src = chr CHR ''<''"
    and z: "z = [0x3c, 0x2f] @ nm @ [0x3e] @ rest"
    and len: "length (xml_text t @ src @ z) < n" and fresh: "ns_fresh xp (xml_text t @ src @ z)"
    and m: "\<not> hm_islist m" and tr: "xp_trim_whitespace xp"
  shows "\<exists>xp1. htsmsg_xml_parse_cd (htsmsg_xml_parse_cd0 n) xp m (Some (named_field env k HMF_MAP 0 None)) (xml_text t @ src @ z) =
      Some (xp1, Htsmsg False (hm_fields m @ ff (xp_encoding xp) (env_of xp)),
        Some (named_field env k (text_value (xp_encoding xp) t) (text_flags (xp_encoding xp) t) None), Some rest) \<and>
     agree xp xp1"
proof -
  let ?q = "pieces (xp_encoding xp) [] t (src @ z)"
  have d: "deref (src @ z) = chr CHR ''<''"
    using es(2) by (cases src) (simp_all add: z deref_def)
  have "list_all (\<lambda>c. 32 \<le> c) t"
    using ok(1) by (simp add: text_ok_def)
  from text_run [OF this d len, of xp "[]" "[]" m]
  obtain n1 where 1: "length (src @ z) < n1" "htsmsg_xml_parse_cd0 n xp [] None m (xml_text t @ src @ z) False =
      htsmsg_xml_parse_cd0 n1 xp ?q None m (src @ z) False"
    by auto
  have fr: "ns_fresh xp (src @ z)"
    using ns_fresh_suffix [OF fresh] by (simp add: suffix_def)
  obtain n2 xp2 where 2: "length z < n2" "agree xp xp2" "xp_namespaces xp2 = xp_namespaces xp"
     "htsmsg_xml_parse_cd0 n1 xp ?q None m (src @ z) False =
     htsmsg_xml_parse_cd0 n2 xp2 ?q None (Htsmsg False (hm_fields m @ ff (xp_encoding xp) (env_of xp))) z False"
    by (rule readsD [OF es(1) 1(1) fr m tr, of ?q])
  obtain n3 where n3: "n2 = Suc n3"
    using 2(1) by (cases n2) auto
  have c: "htsmsg_xml_parse_cd0 n xp [] None m (xml_text t @ src @ z) False =
      Some (xp2, ?q, Htsmsg False (hm_fields m @ ff (xp_encoding xp) (env_of xp)), Some rest)"
    unfolding 1(2) 2(4) n3 using cd0_end_tag [OF ok(2), of n3 xp2] z by simp
  obtain xp3 where 3: "xml_set_body xp2 ?q (Some (named_field env k HMF_MAP 0 None)) =
     (xp3, Some (named_field env k (text_value (xp_encoding xp) t) (text_flags (xp_encoding xp) t) None))"
     "agree xp2 xp3"
    using set_body_print [OF ok(1), of "src @ z" xp2 env k None] d agree_sel(1) [OF 2(2)] by auto
  show ?thesis
    using c 3 tr agree_sel(2) [OF 2(2)] agree_trans [OF 2(2) 3(2)] trim_pieces [OF ok(1)]
    by (simp add: htsmsg_xml_parse_cd_def)
qed

lemma destroy_agree: "agree xp0 (fold (\<lambda>ns xp. xmlns_destroy xp ns) l xp) = agree xp0 xp"
  by (induction l arbitrary: xp) (simp_all add: xmlns_destroy_def agree_def same_setup_def)

lemma env_of_cong: "xp_namespaces xp1 = xp_namespaces xp \<Longrightarrow> env_of xp1 = env_of xp"
  by (simp add: env_of_def)

lemma named_field_simps [simp]:
  "hmf_u (named_field env n u flags childs) = u" "hmf_flags (named_field env n u flags childs) = flags"
  "hmf_childs (named_field env n u flags childs) = childs"
  "Field (hmf_name (named_field env n u flags childs)) u1 flags1 childs1 (hmf_namespace (named_field env n u flags childs))
     = named_field env n u1 flags1 childs1"
  by (simp_all add: named_field_def)

text \<open>A whole element through \<open>htsmsg_xml_parse_tag\<close>.\<close>

lemma tag_print:
  assumes ok: "name_ok n" "list_all attr_ok as" "text_ok t" and es: "reads src ff" "src \<noteq> [] \<Longrightarrow> deref src = chr CHR ''<''"
    and ff: "\<And>enc env. src = [] \<Longrightarrow> ff enc env = []"
    and s: "s = n @ concat (map print_attr as) @
         (if t = [] \<and> src = [] then [0x2f, 0x3e] else [0x3e] @ xml_text t @ src @ [0x3c, 0x2f] @ n @ [0x3e]) @ z"
    and len: "length s \<le> k" and fresh: "ns_fresh xp s" and p: "\<not> hm_islist parent" and tr: "xp_trim_whitespace xp"
  shows "\<exists>xp1. htsmsg_xml_parse_tag (htsmsg_xml_parse_cd (htsmsg_xml_parse_cd0 k)) xp parent s =
      Some (xp1, Htsmsg False (hm_fields parent @
        [named_field (attrs_env (env_of xp) as) n (text_value (xp_encoding xp) t) (text_flags (xp_encoding xp) t)
           (some_childs (attrs_fields (env_of xp) as @ ff (xp_encoding xp) (attrs_env (env_of xp) as)))]), Some z) \<and>
     agree xp xp1 \<and> xp_namespaces xp1 = xp_namespaces xp"
proof -
  let ?e = "t = [] \<and> src = []"
  let ?tail = "[0x3c, 0x2f] @ n @ [0x3e] @ z"
  let ?body = "if ?e then z else xml_text t @ src @ ?tail"
  let ?m = "Htsmsg False (attrs_fields (env_of xp) as)"
  let ?env = "attrs_env (env_of xp) as"
  let ?f = "named_field ?env n HMF_MAP 0 None"
  let ?g = "named_field ?env n (text_value (xp_encoding xp) t) (text_flags (xp_encoding xp) t) None"
  let ?fs = "attrs_fields (env_of xp) as @ ff (xp_encoding xp) ?env"
  have s1: "s = n @ concat (map print_attr as) @ tag_end ?e @ ?body"
    by (simp add: s tag_end_def)
  obtain xp1 l where 1: "agree xp xp1" "ns_fresh xp1 ?body" "env_of xp1 = ?env"
    "htsmsg_xml_parse_tag (htsmsg_xml_parse_cd (htsmsg_xml_parse_cd0 k)) xp parent s =
      (case (if ?e then Some (xp1, ?m, Some ?f, Some ?body) else htsmsg_xml_parse_cd (htsmsg_xml_parse_cd0 k) xp1 ?m (Some ?f) ?body) of
         None \<Rightarrow> None
       | Some (xp2, m2, f1, r) \<Rightarrow>
           let f2 = (case f1 of None \<Rightarrow> ?f | Some f1 \<Rightarrow> f1);
               childs = (if hm_fields m2 \<noteq> [] then Some m2 else hmf_childs f2)
           in Some (fold (\<lambda>ns xp. xmlns_destroy xp ns) l xp2,
                    Htsmsg False (hm_fields parent @
                      [Field (hmf_name f2) (hmf_u f2) (hmf_flags f2) childs (hmf_namespace f2)]), r))"
    using parse_tag_print [OF ok(1,2) p fresh [unfolded s1], of "htsmsg_xml_parse_cd (htsmsg_xml_parse_cd0 k)", folded s1]
    by (elim exE conjE) (rule that)
  have len1: "length ?body < k"
    using len s1 by (simp add: tag_end_def split: if_splits)
  have "\<exists>xp2. (if ?e then Some (xp1, ?m, Some ?f, Some ?body) else htsmsg_xml_parse_cd (htsmsg_xml_parse_cd0 k) xp1 ?m (Some ?f) ?body) =
      Some (xp2, Htsmsg False ?fs, Some ?g, Some z) \<and> agree xp xp2"
  proof (cases ?e)
    case True
    then show ?thesis
      using 1(1) ff by (simp add: text_value_def text_flags_def in_place_def)
  next
    case False
    then show ?thesis
      using content_print [OF ok(3,1) es refl, of z k xp1 ?m ?env n] len1 1 tr agree_sel [OF 1(1)] agree_trans [OF 1(1)]
      by auto
  qed
  then obtain xp2 where call: "(if ?e then Some (xp1, ?m, Some ?f, Some ?body)
      else htsmsg_xml_parse_cd (htsmsg_xml_parse_cd0 k) xp1 ?m (Some ?f) ?body) = Some (xp2, Htsmsg False ?fs, Some ?g, Some z)"
      and 2: "agree xp xp2"
    by blast
  have 3: "htsmsg_xml_parse_tag (htsmsg_xml_parse_cd (htsmsg_xml_parse_cd0 k)) xp parent s =
      Some (fold (\<lambda>ns xp. xmlns_destroy xp ns) l xp2, Htsmsg False (hm_fields parent @
        [named_field ?env n (text_value (xp_encoding xp) t) (text_flags (xp_encoding xp) t) (some_childs ?fs)]), Some z)"
    unfolding 1(4) call by (simp add: some_childs_def Let_def)
  moreover have "xp_namespaces (fold (\<lambda>ns xp. xmlns_destroy xp ns) l xp2) = xp_namespaces xp"
    using parse_tag_ok [OF parse_cd_ok [OF cd0_total] len fresh, of parent] 3 by (auto simp: same_namespaces_def)
  ultimately show ?thesis
    using 2 by (simp add: destroy_agree)
qed

lemma print_elem_hd: "deref (print_elem e) = chr CHR ''<''"
  by (cases e) (simp add: deref_def)

lemma elem_reads: "elem_ok e \<Longrightarrow> reads (print_elem e) (\<lambda>enc env. [elem_field enc env e])"
proof (induction e)
  case (Elem nm as t es)
  let ?src = "concat (map print_elem es)"
  let ?ff = "\<lambda>enc env. map (elem_field enc env) es"
  have ok: "name_ok nm" "list_all attr_ok as" "text_ok t" "list_all elem_ok es"
    using Elem(2) by simp_all
  have es: "reads ?src ?ff"
    using reads_concat [of es print_elem elem_field] Elem(1) ok(4) by (simp add: list_all_iff)
  have d: "?src \<noteq> [] \<Longrightarrow> deref ?src = chr CHR ''<''"
    using print_elem_hd by (cases es; cases "hd es") (auto simp: deref_def)
  have nil: "?src = [] \<longleftrightarrow> es = []"
    by (cases es; cases "hd es") auto
  show ?case
    unfolding reads_def
  proof (intro allI impI)
    fix n xp ccq tags z
    assume len: "length (print_elem (Elem nm as t es) @ z) < n" and fresh: "ns_fresh xp (print_elem (Elem nm as t es) @ z)"
      and tags: "\<not> hm_islist tags" and tr: "xp_trim_whitespace xp"
    obtain s where s: "print_elem (Elem nm as t es) @ z = 0x3c # s"
      "s = nm @ concat (map print_attr as) @
         (if t = [] \<and> ?src = [] then [0x2f, 0x3e] else [0x3e] @ xml_text t @ ?src @ [0x3c, 0x2f] @ nm @ [0x3e]) @ z"
      using nil by auto
    obtain k where k: "n = Suc k" "length s \<le> k"
      using len s(1) by (cases n) auto
    have fr: "ns_fresh xp s"
      using fresh s(1) ns_fresh_suffix [of xp "0x3c # s" s] by (simp add: suffix_ConsI)
    from tag_print [OF ok(1-3) es d _ s(2) k(2) fr tags tr] nil
    obtain xp1 where 1: "htsmsg_xml_parse_tag (htsmsg_xml_parse_cd (htsmsg_xml_parse_cd0 k)) xp tags s =
        Some (xp1, Htsmsg False (hm_fields tags @ [elem_field (xp_encoding xp) (env_of xp) (Elem nm as t es)]), Some z)"
        "agree xp xp1" "xp_namespaces xp1 = xp_namespaces xp"
      by auto
    have "htsmsg_xml_parse_cd0 n xp ccq None tags (0x3c # s) False =
        htsmsg_xml_parse_cd0 k xp1 ccq None (Htsmsg False (hm_fields tags @ [elem_field (xp_encoding xp) (env_of xp) (Elem nm as t es)])) z False"
      using 1(1) name_okD(6-9) [OF ok(1)] s(2)
      by (simp add: k(1) htsmsg_xml_parse_cd0.simps(2) close_cc_def)
    moreover have "length z < k"
      using k(2) s(2) name_okD(2) [OF ok(1)] by (simp only: length_append)
    ultimately show "\<exists>n1 xp1. length z < n1 \<and> agree xp xp1 \<and> xp_namespaces xp1 = xp_namespaces xp \<and>
        htsmsg_xml_parse_cd0 n xp ccq None tags (print_elem (Elem nm as t es) @ z) False =
        htsmsg_xml_parse_cd0 n1 xp1 ccq None
          (Htsmsg False (hm_fields tags @ [elem_field (xp_encoding xp) (env_of xp) (Elem nm as t es)])) z False"
      using 1 s(1) by auto
  qed
qed

section \<open>The declaration of the document\<close>

text \<open>A document with the attributes \<open>das\<close> in its declaration, and the encoding that the declaration selects.\<close>

definition xml_doc :: "(bytes \<times> bytes) list \<Rightarrow> elem \<Rightarrow> bytes" where
  "xml_doc das e =
     (if das = [] then [] else cstr ''<?xml'' @ concat (map print_attr das) @ cstr ''?>'') @ print_elem e"

definition declared :: "(bytes \<times> bytes) list \<Rightarrow> xml_encoding" where
  "declared das =
     (case map_of das (cstr ''encoding'') of
        None \<Rightarrow> XML_ENCODING_UTF8
      | Some v \<Rightarrow>
          if list_ex (same_nocase v) [cstr ''iso-8859-1'', cstr ''iso-8859_1'', cstr ''iso_8859-1'', cstr ''iso_8859_1'']
          then XML_ENCODING_8859_1 else XML_ENCODING_UTF8)"

definition decl_ok :: "(bytes \<times> bytes) list \<Rightarrow> bool" where
  "decl_ok das \<longleftrightarrow> list_all (\<lambda>a. attr_ok a \<and> hd (fst a) \<noteq> chr CHR ''?'') das"

definition attr_field :: "bytes \<times> bytes \<Rightarrow> htsmsg_field" where
  "attr_field a = Field (Some (fst a)) (HMF_STR (snd a)) HMF_XML_ATTRIBUTE None None"

lemma named_field_plain: "named_field [] n u fl c = Field (Some n) u fl c None"
  by (simp add: named_field_def resolve_def Let_def)

lemma pi_attribs_skip: "xml_pi_attribs xp m (skip_xmlws s) = xml_pi_attribs xp m s"
  by (simp add: xml_pi_attribs.simps [of xp m s] xml_pi_attribs.simps [of xp m "skip_xmlws s"])

lemma pi_attrib_print:
  assumes ok: "attr_ok (k, v)" and m: "\<not> hm_islist m" and k: "hd k \<noteq> chr CHR ''?''"
  shows "\<exists>ws. xml_pi_attribs xp m (print_attr (k, v) @ z) =
    xml_pi_attribs (xp\<lparr>xp_written := ws\<rparr>) (Htsmsg False (hm_fields m @ [named_field (env_of xp) k (HMF_STR v) HMF_XML_ATTRIBUTE None])) z"
proof -
  let ?s = "k @ [0x3d, 0x22] @ v @ [0x22] @ z"
  let ?s1 = "0x3d # 0x22 # v @ 0x22 # z"
  have nz: "list_all (\<lambda>c. c \<noteq> 0) k"
    using ok by (auto simp: attr_ok_def attrib_char_def list_all_iff)
  have p: "htsmsg_xml_parse_attrib xp m ?s None =
      (overwrite (overwrite xp ?s1) (0x22 # z),
       Htsmsg False (hm_fields m @ [named_field (env_of xp) k (HMF_STR v) HMF_XML_ATTRIBUTE None]), None, Some (skip_xmlws z))"
    unfolding parse_attrib_print [OF ok] by (simp add: xml_add_attrib_def add_xml_field_resolve [OF m nz])
  have "skip_xmlws (0x20 # ?s) = ?s" "deref ?s \<noteq> 0" "deref ?s \<noteq> chr CHR ''?''"
    using ok k by (cases k; simp add: attr_ok_def attrib_char_def)+
  then have "xml_pi_attribs xp m (0x20 # ?s) =
      xml_pi_attribs (overwrite (overwrite xp ?s1) (0x22 # z))
        (Htsmsg False (hm_fields m @ [named_field (env_of xp) k (HMF_STR v) HMF_XML_ATTRIBUTE None])) (skip_xmlws z)"
    by (subst xml_pi_attribs.simps) (simp only: Let_def p if_False simp_thms prod.case option.case)
  then show ?thesis
    by (auto simp: pi_attribs_skip print_attr_def overwrite_def)
qed

lemma prolog_stop:
  assumes "deref z = chr CHR ''<''" "deref (tl z) \<noteq> chr CHR ''?''" "deref (tl z) \<noteq> chr CHR ''!''"
  shows "prolog_loop xp pis z = Prolog xp pis z"
proof -
  obtain d w where z: "z = 0x3c # w" "w = [] \<or> w = d # tl w \<and> d \<noteq> 0x3f \<and> d \<noteq> 0x21"
    using assms by (cases z; cases "tl z") auto
  have "skip_xmlws z = z"
    by (simp add: z(1))
  then show ?thesis
    using z by (subst prolog_loop.simps) (cases w; auto simp: Let_def numeral_eq_Suc)
qed

lemma pi_attribs_print:
  "decl_ok das \<Longrightarrow> \<not> hm_islist m \<Longrightarrow> env_of xp = [] \<Longrightarrow>
   \<exists>ws. xml_pi_attribs xp m (concat (map print_attr das) @ cstr ''?>'' @ z) =
     (xp\<lparr>xp_written := ws\<rparr>, Htsmsg False (hm_fields m @ map attr_field das), Some z)"
proof (induction das arbitrary: xp m)
  case Nil
  have "Htsmsg False (hm_fields m) = m"
    using Nil(2) by (cases m) simp
  then show ?case
    by (intro exI [of _ "xp_written xp"]) (simp add: xml_pi_attribs.simps [of xp m "0x3f # 0x3e # z"] is_xmlws_def)
next
  case (Cons a das)
  obtain k v where a: "a = (k, v)" by fastforce
  let ?z = "concat (map print_attr das) @ cstr ''?>'' @ z"
  let ?m = "Htsmsg False (hm_fields m @ [attr_field a])"
  have ok: "attr_ok (k, v)" "hd k \<noteq> chr CHR ''?''" "decl_ok das"
    using Cons(2) by (simp_all add: decl_ok_def a)
  obtain ws where 1: "xml_pi_attribs xp m (print_attr a @ ?z) = xml_pi_attribs (xp\<lparr>xp_written := ws\<rparr>) ?m ?z"
    using pi_attrib_print [OF ok(1) Cons(3) ok(2), of xp ?z] Cons(4) by (auto simp: a attr_field_def named_field_plain)
  obtain ws1 where "xml_pi_attribs (xp\<lparr>xp_written := ws\<rparr>) ?m ?z =
      (xp\<lparr>xp_written := ws\<rparr>\<lparr>xp_written := ws1\<rparr>, Htsmsg False (hm_fields ?m @ map attr_field das), Some z)"
    using Cons(1) [OF ok(3), of ?m "xp\<lparr>xp_written := ws\<rparr>"] Cons(4) by (auto simp: env_of_def)
  then show ?case
    using 1 by (intro exI [of _ ws1]) simp
qed

lemma find_attr:
  "htsmsg_get_str (Htsmsg False (map attr_field das)) (Key (cstr ''encoding'')) =
   (map_of das (cstr ''encoding''), Htsmsg False (map attr_field das))"
proof -
  have "c_str (cstr ''encoding'') = cstr ''encoding''"
    by (rule c_str_id) simp
  then have "case find_field (\<lambda>f. hmf_name f = Some (c_str (cstr ''encoding''))) (map attr_field das) of
      None \<Rightarrow> map_of das (cstr ''encoding'') = None
    | Some i \<Rightarrow> i < length das \<and> map_of das (cstr ''encoding'') = Some (snd (das ! i))"
    by (induction das) (auto simp: attr_field_def split: option.splits)
  then show ?thesis
    by (auto simp: htsmsg_get_str_def htsmsg_field_find_def htsmsg_field_get_string_def attr_field_def split: option.splits)
qed

lemma prolog_print:
  assumes "deref (print_elem e) = chr CHR ''<''" "deref (tl (print_elem e)) \<noteq> chr CHR ''?''"
      "deref (tl (print_elem e)) \<noteq> chr CHR ''!''"
    and xp: "xp_namespaces xp = []" "xp_encoding xp = XML_ENCODING_UTF8" and das: "decl_ok das"
  shows "\<exists>ws pis. htsmsg_parse_prolog xp (xml_doc das e) =
    Prolog (xp\<lparr>xp_encoding := declared das, xp_written := ws\<rparr>) pis (print_elem e)"
proof (cases "das = []")
  case True
  show ?thesis
    using xp(2) by (intro exI [of _ "xp_written xp"] exI [of _ htsmsg_create_map])
      (simp add: True xml_doc_def declared_def htsmsg_parse_prolog_def prolog_stop [OF assms(1-3)] htsmsg_create_map_def
        htsmsg_get_map_def htsmsg_field_find_def)
next
  case False
  let ?z = "print_elem e"
  let ?s = "concat (map print_attr das) @ cstr ''?>'' @ ?z"
  let ?attrs = "Htsmsg False (map attr_field das)"
  obtain ws where a: "xml_pi_attribs xp htsmsg_create_map ?s = (xp\<lparr>xp_written := ws\<rparr>, ?attrs, Some ?z)"
    using pi_attribs_print [OF das, of htsmsg_create_map xp ?z] xp(1) by (auto simp: htsmsg_create_map_def env_of_def)
  obtain s where s: "?s = 0x20 # s"
    using False by (cases das) (auto simp: print_attr_def)
  have "takeWhile pi_char (cstr ''xml'' @ ?s) = cstr ''xml''" "dropWhile pi_char (cstr ''xml'' @ ?s) = ?s"
    unfolding s by (simp_all add: pi_char_def is_xmlws_def)
  moreover have "deref ?s = 32"
    unfolding s by simp
  ultimately have p: "htsmsg_xml_parse_pi xp (Some htsmsg_create_map) (cstr ''xml'' @ ?s) =
      (xp\<lparr>xp_written := ws\<rparr>, htsmsg_add_msg htsmsg_create_map (Some (cstr ''xml'')) ?attrs, Some ?z)"
    using False by (simp only: htsmsg_xml_parse_pi_def Let_def a) simp
  have "prolog_loop xp htsmsg_create_map (cstr ''<?'' @ cstr ''xml'' @ ?s) =
      Prolog (xp\<lparr>xp_written := ws\<rparr>) (Htsmsg False [Field (Some (cstr ''xml'')) HMF_MAP HMF_NAME_ALLOCED (Some ?attrs) None]) ?z"
    using p prolog_stop [OF assms(1-3)]
    by (subst prolog_loop.simps) (simp add: htsmsg_add_msg_def htsmsg_field_add_def htsmsg_create_map_def)
  moreover have "xml_doc das e = cstr ''<?'' @ cstr ''xml'' @ ?s"
    using False by (simp add: xml_doc_def)
  moreover have "htsmsg_get_map (Htsmsg False [Field (Some (cstr ''xml'')) HMF_MAP HMF_NAME_ALLOCED (Some ?attrs) None])
      (Key (cstr ''xml'')) = Some ?attrs"
    by (simp add: htsmsg_get_map_def htsmsg_field_find_def)
  ultimately show ?thesis
    using xp(2) find_attr [of das]
    by (intro exI [of _ ws]) (simp add: htsmsg_parse_prolog_def declared_def split: option.splits)
qed

lemma read_doc:
  assumes "elem_ok e" "decl_ok das"
  shows "\<exists>xp. htsmsg_xml_deserialize_buf heap (xml_doc das e) errbufsize =
      Some (xp, XML_msg (Htsmsg False [elem_field (declared das) [] e])) \<and> xp_dangling xp = 0 \<and> xp_namespaces xp = []"
proof -
  have z: "deref (print_elem e) = chr CHR ''<''" "deref (tl (print_elem e)) \<noteq> chr CHR ''?''"
      "deref (tl (print_elem e)) \<noteq> chr CHR ''!''"
    using assms(1) name_okD(2,6,7) by (cases e; fastforce)+
  let ?xp = "xml_parser_init heap"
  let ?buf = "xml_doc das e"
  obtain ws pis where p: "htsmsg_parse_prolog ?xp ?buf =
      Prolog (?xp\<lparr>xp_encoding := declared das, xp_written := ws\<rparr>) pis (print_elem e)"
    using prolog_print [OF z, of ?xp das] assms(2) by (auto simp: xml_parser_init_def)
  let ?xp1 = "?xp\<lparr>xp_encoding := declared das, xp_written := ws\<rparr>"
  have 1: "length (print_elem e @ []) < Suc (length ?buf)" "ns_fresh ?xp1 (print_elem e @ [])"
      "\<not> hm_islist htsmsg_create_map" "xp_trim_whitespace ?xp1" "env_of ?xp1 = []"
    by (simp_all add: ns_fresh_def xml_parser_init_def htsmsg_create_map_def env_of_def xml_doc_def)
  obtain n1 xp1 where 2: "length ([] :: bytes) < n1" "agree ?xp1 xp1" "xp_namespaces xp1 = xp_namespaces ?xp1"
      "htsmsg_xml_parse_cd0 (Suc (length ?buf)) ?xp1 [] None htsmsg_create_map (print_elem e @ []) False =
       htsmsg_xml_parse_cd0 n1 xp1 [] None
         (Htsmsg False (hm_fields htsmsg_create_map @ [elem_field (xp_encoding ?xp1) (env_of ?xp1) e])) [] False"
    by (rule readsD [OF elem_reads [OF assms(1)] 1(1-4)])
  have "htsmsg_xml_parse_cd0 n1 xp1 [] None m [] False = Some (xp1, [], m, Some [])" for m
    using 2(1) by (cases n1) (simp_all add: htsmsg_xml_parse_cd0.simps(2) close_cc_def)
  then have "htsmsg_xml_parse_cd (htsmsg_xml_parse_cd0 (Suc (length ?buf))) ?xp1 htsmsg_create_map None (print_elem e) =
      Some (xp1, Htsmsg False [elem_field (declared das) [] e], None, Some [])"
    using 2(4) 1(5) by (simp add: htsmsg_xml_parse_cd_def xml_set_body_def htsmsg_create_map_def)
  then show ?thesis
    using p 2(2,3) by (simp add: htsmsg_xml_deserialize_buf_def agree_def xml_parser_init_def)
qed

section \<open>Properties\<close>



lemma single_escape_body:
  assumes "xml_escape c = Some e"
  shows "xml_set_body xp [Cdata XML_ENCODING_UTF8 [c] None] (Some (named_field env n HMF_MAP 0 None)) =
    (if xp_heap xp = 10 then (xp, Some (named_field env n HMF_MAP 0 None))
     else (xp\<lparr>xp_dangling := Suc (xp_dangling xp)\<rparr>, Some (named_field env n (HMF_STR [c]) 0 None)))"
  using assms by (auto simp: xml_set_body_def cc_length_def cc_parts_def end_byte_def set_str_def named_field_def c_str_def
      xml_escape_def split: if_splits)

lemma single_escape_content:
  assumes "xml_escape c = Some e" "name_ok n" "xp_trim_whitespace xp"
  shows "htsmsg_xml_parse_cd (htsmsg_xml_parse_cd0 (Suc (Suc k))) xp m (Some (named_field env n HMF_MAP 0 None))
      (e @ [0x3c, 0x2f] @ n @ [0x3e] @ z) =
    (case xml_set_body xp [Cdata XML_ENCODING_UTF8 [c] None] (Some (named_field env n HMF_MAP 0 None)) of
       (xp1, f) \<Rightarrow> Some (xp1, m, f, Some z))"
proof -
  have "htsmsg_xml_parse_cd0 (Suc (Suc k)) xp [] None m (e @ [0x3c, 0x2f] @ n @ [0x3e] @ z) False =
      Some (xp, [Cdata XML_ENCODING_UTF8 [c] None], m, Some z)"
    unfolding cd0_escape [OF assms(1)] using cd0_end_tag [OF assms(2), of k xp "[Cdata XML_ENCODING_UTF8 [c] None]" m z]
    by (simp add: close_cc_def)
  moreover have "\<not> xml_is_cc_ws (Cdata XML_ENCODING_UTF8 [c] None)"
    using assms(1) by (auto simp: xml_is_cc_ws_def xml_escape_def split: if_splits)
  ultimately show ?thesis
    using assms(3) by (simp add: htsmsg_xml_parse_cd_def trim_ccq_def)
qed

text \<open>
  A text that consists of one escaped character is lost. The parser stores a pointer into the structure
  of the piece of text and frees that structure, so the field points to free memory (and reads a byte that was never
  written before it decides so: with a newline there, the field gets no text at all).
\<close>

theorem xml_single_reference_dangles:
  assumes "xml_escape c = Some e" "name_ok n"
  shows "\<exists>xp f. htsmsg_xml_deserialize_buf heap ([0x3c] @ n @ [0x3e] @ e @ [0x3c, 0x2f] @ n @ [0x3e]) errbufsize =
      Some (xp, XML_msg (Htsmsg False [f])) \<and>
    (if heap = 10 then hmf_u f = HMF_MAP else xp_dangling xp = 1)"
proof -
  let ?z = "e @ [0x3c, 0x2f] @ n @ [0x3e]"
  let ?s = "n @ tag_end False @ ?z"
  let ?xp = "xml_parser_init heap"
  define k where "k = length ?s - 2"
  have len: "Suc (Suc k) = length ?s" "length (0x3c # ?s) = Suc (Suc (Suc k))"
    by (simp_all add: k_def tag_end_def)
  have buf: "[0x3c] @ n @ [0x3e] @ e @ [0x3c, 0x2f] @ n @ [0x3e] = 0x3c # ?s"
    by (simp add: tag_end_def)
  have p: "prolog_loop ?xp htsmsg_create_map (0x3c # ?s) = Prolog ?xp htsmsg_create_map (0x3c # ?s)"
    by (rule prolog_stop) (use name_okD(6,7) [OF assms(2)] in simp_all)
  have fresh: "ns_fresh ?xp (n @ concat (map print_attr []) @ tag_end False @ ?z)"
    by (simp add: ns_fresh_def xml_parser_init_def)
  have no_attrs: "list_all attr_ok []"
    by simp
  have no_list: "\<not> hm_islist htsmsg_create_map" and no_fields: "hm_fields htsmsg_create_map = []" and env: "env_of ?xp = []"
    by (simp_all add: htsmsg_create_map_def env_of_def xml_parser_init_def)
  let ?f = "named_field [] n HMF_MAP 0 None"
  obtain xp1 l where 1: "agree ?xp xp1" "htsmsg_xml_parse_tag (htsmsg_xml_parse_cd (htsmsg_xml_parse_cd0 (Suc (Suc (Suc k))))) ?xp htsmsg_create_map ?s =
      (case htsmsg_xml_parse_cd (htsmsg_xml_parse_cd0 (Suc (Suc (Suc k)))) xp1 (Htsmsg False []) (Some ?f) ?z of
         None \<Rightarrow> None
       | Some (xp2, m2, f1, r) \<Rightarrow>
           let f2 = (case f1 of None \<Rightarrow> ?f | Some f1 \<Rightarrow> f1);
               childs = (if hm_fields m2 \<noteq> [] then Some m2 else hmf_childs f2)
           in Some (fold (\<lambda>ns xp. xmlns_destroy xp ns) l xp2,
                    Htsmsg False [Field (hmf_name f2) (hmf_u f2) (hmf_flags f2) childs (hmf_namespace f2)], r))"
    using parse_tag_print [OF assms(2) no_attrs no_list fresh, of "htsmsg_xml_parse_cd (htsmsg_xml_parse_cd0 (Suc (Suc (Suc k))))"]
    by (elim exE conjE) (rule that, assumption, simp only: list.map concat.simps append_Nil attrs_env.simps attrs_fields.simps if_False env no_fields)
  have heap: "xp_heap xp1 = heap" "xp_trim_whitespace xp1" "xp_dangling xp1 = 0"
    using 1(1) by (simp_all add: agree_def same_setup_def xml_parser_init_def)
  have dang: "xp_dangling (fold (\<lambda>ns xp. xmlns_destroy xp ns) l xp) = xp_dangling xp" for xp
    by (induction l arbitrary: xp) (simp_all add: xmlns_destroy_def)
  have "\<exists>xp2 f. htsmsg_xml_parse_tag (htsmsg_xml_parse_cd (htsmsg_xml_parse_cd0 (Suc (Suc (Suc k))))) ?xp htsmsg_create_map ?s =
      Some (xp2, Htsmsg False [f], Some []) \<and> (if heap = 10 then hmf_u f = HMF_MAP else xp_dangling xp2 = 1)"
    unfolding 1(2) single_escape_content [OF assms heap(2), of _ _ _ "[]", simplified append_Nil2] single_escape_body [OF assms(1)]
    using heap by (cases "heap = 10") (simp_all add: dang Let_def)
  then obtain xp2 f where tag: "htsmsg_xml_parse_tag (htsmsg_xml_parse_cd (htsmsg_xml_parse_cd0 (Suc (Suc (Suc k))))) ?xp
      htsmsg_create_map ?s = Some (xp2, Htsmsg False [f], Some [])"
      "if heap = 10 then hmf_u f = HMF_MAP else xp_dangling xp2 = 1"
    by blast
  have "htsmsg_xml_parse_cd0 (Suc (Suc (Suc k))) xp2 [] None m [] False = Some (xp2, [], m, Some [])" for m
    by (simp add: htsmsg_xml_parse_cd0.simps(2) close_cc_def)
  then have "htsmsg_xml_parse_cd0 (Suc (Suc (Suc (Suc k)))) ?xp [] None htsmsg_create_map (0x3c # ?s) False =
      Some (xp2, [], Htsmsg False [f], Some [])"
    using tag(1) name_okD(6-8) [OF assms(2)]
    by (subst htsmsg_xml_parse_cd0.simps(2)) (simp add: close_cc_def)
  then show ?thesis
    unfolding buf using p tag(2) len
    by (simp add: htsmsg_xml_deserialize_buf_def htsmsg_parse_prolog_def htsmsg_xml_parse_cd_def xml_set_body_def
        htsmsg_get_map_def htsmsg_field_find_def no_fields trim_ccq_def)
qed

lemma comment_open: "0x3e \<notin> set t \<Longrightarrow> comment_end t = None"
proof (induction t rule: comment_end.induct)
  case (2 c src)
  have "deref (tl src) \<noteq> 0x3e"
    using 2(2) by (cases src; cases "tl src") auto
  then show ?case using 2 by simp
qed simp

text \<open>
  Before the first element the parser does not check for errors: a comment that does not end makes it read
  through a null pointer, and a document type whose inner brackets are not closed makes it read behind the buffer.
\<close>

theorem xml_prolog_crashes:
  assumes "0x3e \<notin> set t"
  shows "htsmsg_xml_deserialize_buf heap (cstr ''<!--'' @ t) errbufsize =
      Some (xml_parser_init heap, XML_crash Prolog_null) \<and>
    htsmsg_xml_deserialize_buf heap (cstr ''<!DOCTYPE a <b>'') errbufsize =
      Some (xml_parser_init heap, XML_crash Prolog_overread)"
proof
  have "prolog_loop xp pis (cstr ''<!--'' @ t) = Prolog_null" for xp pis
    using comment_open [OF assms] by (subst prolog_loop.simps) (simp add: xml_parse_comment_def)
  then show "htsmsg_xml_deserialize_buf heap (cstr ''<!--'' @ t) errbufsize =
      Some (xml_parser_init heap, XML_crash Prolog_null)"
    by (simp add: htsmsg_xml_deserialize_buf_def htsmsg_parse_prolog_def)
  have "doctype_skip 0 (cstr ''<!DOCTYPE a <b>'') = None"
    by code_simp
  then have "prolog_loop xp pis (cstr ''<!DOCTYPE a <b>'') = Prolog_overread" for xp pis
    by (subst prolog_loop.simps) simp
  then show "htsmsg_xml_deserialize_buf heap (cstr ''<!DOCTYPE a <b>'') errbufsize =
      Some (xml_parser_init heap, XML_crash Prolog_overread)"
    unfolding htsmsg_xml_deserialize_buf_def htsmsg_parse_prolog_def by (simp only: prolog_result.case Let_def)
qed

end
