(* ===== verification/Soap.thy ===== *)
theory Soap
  imports Htsmsg_Xml_Doc
begin

text \<open>
  Remote calls in XML: the SOAP client \<^verbatim>\<open>src/src/api/soap.c\<close> and the UPnP control server
  \<^verbatim>\<open>src/src/upnp/upnp_control.c\<close>, on the byte queues and the XML parser. The HTTP client is an argument of the
  client; the methods of a service are functions in its table. \<open>None\<close> of the writers is an overrun of the buffer of
  \<open>htsbuf_vqprintf\<close>.
\<close>

section \<open>Arguments\<close>

definition arg_name :: "htsmsg_field \<Rightarrow> bytes" where
  "arg_name f = (case hmf_name f of Some n \<Rightarrow> n | None \<Rightarrow> cstr ''(null)'')"

definition open_tag :: "bytes \<Rightarrow> bytes" where
  "open_tag n = cstr ''<'' @ n @ cstr ''>''"

definition close_tag :: "bytes \<Rightarrow> bytes" where
  "close_tag n = cstr ''</'' @ n @ cstr ''>''"

definition soap_encode_arg :: "htsmsg_field \<Rightarrow> htsbuf_queue \<Rightarrow> htsbuf_queue option" where
  "soap_encode_arg f xml =
     (let n = arg_name f
      in case hmf_u f of
           HMF_S64 v \<Rightarrow> htsbuf_vqprintf xml (open_tag n @ dec_int (sint v) @ close_tag n)
         | HMF_STR str \<Rightarrow>
             if deref str = 0 then htsbuf_vqprintf xml (cstr ''<'' @ n @ cstr ''/>'')
             else
               (case htsbuf_vqprintf xml (open_tag n) of
                  None \<Rightarrow> None
                | Some xml \<Rightarrow> htsbuf_vqprintf (htsbuf_append_and_escape_xml xml str) (close_tag n))
         | _ \<Rightarrow> Some xml)"

fun encode_fields :: "htsmsg_field list \<Rightarrow> htsbuf_queue \<Rightarrow> htsbuf_queue option" where
  "encode_fields [] xml = Some xml"
| "encode_fields (f # fs) xml =
     (case soap_encode_arg f xml of None \<Rightarrow> None | Some xml \<Rightarrow> encode_fields fs xml)"

definition soap_encode_args :: "htsmsg \<Rightarrow> htsbuf_queue \<Rightarrow> htsbuf_queue option" where
  "soap_encode_args args xml = encode_fields (hm_fields args) xml"

text \<open>The conversion of the arguments of a reply: every string field of the message.\<close>

fun compact_fields :: "htsmsg_field list \<Rightarrow> htsmsg \<Rightarrow> htsmsg" where
  "compact_fields [] out = out"
| "compact_fields (f # fs) out =
     (case hmf_u f of
        HMF_STR str \<Rightarrow>
          compact_fields fs (case htsmsg_add_str out (hmf_name f) str of Some m \<Rightarrow> m | None \<Rightarrow> out)
      | _ \<Rightarrow> compact_fields fs out)"

section \<open>Client\<close>

definition soap_envelope_ns :: bytes where
  "soap_envelope_ns = cstr ''http://schemas.xmlsoap.org/soap/envelope/''"

definition soap_encoding :: bytes where
  "soap_encoding = cstr ''http://schemas.xmlsoap.org/soap/encoding/''"

definition service_urn :: "bytes \<Rightarrow> int \<Rightarrow> bytes" where
  "service_urn service version = cstr ''urn:schemas-upnp-org:service:'' @ service @ cstr '':'' @ dec_int version"

definition quoted :: "bytes \<Rightarrow> bytes" where
  "quoted s = [0x22] @ s @ [0x22]"

definition soap_request :: "bytes \<Rightarrow> int \<Rightarrow> bytes \<Rightarrow> htsmsg \<Rightarrow> htsbuf_queue option" where
  "soap_request service version meth args =
     (case htsbuf_vqprintf (htsbuf_queue_init 0)
             (cstr ''<?xml version='' @ quoted (cstr ''1.0'') @ cstr '' encoding='' @ quoted (cstr ''utf-8'') @ cstr ''?>'' @
              cstr ''<s:Envelope s:encodingStyle='' @ quoted soap_encoding @ cstr '' xmlns:s='' @ quoted soap_envelope_ns @
              cstr ''><s:Body><ns0:'' @ meth @ cstr '' xmlns:ns0='' @ quoted (service_urn service version) @ cstr ''>'') of
        None \<Rightarrow> None
      | Some post \<Rightarrow>
          (case soap_encode_args args post of
             None \<Rightarrow> None
           | Some post \<Rightarrow> htsbuf_vqprintf post (cstr ''</ns0:'' @ meth @ cstr ''></s:Body></s:Envelope>'')))"

datatype soap_result = Soap_error bytes | Soap_out "htsmsg option" | Soap_crash

text \<open>\<open>http uri post action\<close> is the HTTP request: the error text, or the body of the answer. The two buffers of
  100 bytes keep 99 of them.\<close>

definition soap_exec ::
    "(bytes \<Rightarrow> bytes \<Rightarrow> bytes \<Rightarrow> bytes + bytes) \<Rightarrow> u8 \<Rightarrow> bytes \<Rightarrow> bytes \<Rightarrow> int \<Rightarrow> bytes \<Rightarrow> htsmsg \<Rightarrow> nat \<Rightarrow> soap_result" where
  "soap_exec http heap uri service version meth args errlen =
     (case soap_request service version meth args of
        None \<Rightarrow> Soap_crash
      | Some post \<Rightarrow>
          (case http uri (htsbuf_content post) (take 99 (quoted (service_urn service version @ cstr ''#'' @ meth))) of
             Inl err \<Rightarrow> Soap_error err
           | Inr result \<Rightarrow>
               (case htsmsg_xml_deserialize_buf heap result errlen of
                  Some (xp, XML_msg out) \<Rightarrow>
                    Soap_out
                      (map_option (\<lambda>outargs. compact_fields (hm_fields outargs) htsmsg_create_map)
                        (htsmsg_get_map_multi (Some out)
                          [Key (cstr ''Envelope''), Key (cstr ''Body''), Key (take 99 (meth @ cstr ''Response''))]))
                | Some (xp, XML_error err) \<Rightarrow> Soap_error err
                | _ \<Rightarrow> Soap_crash)))"

section \<open>Server\<close>

datatype control_out = UPNP_CONTROL_INVALID_ARGS | Control_out "htsmsg option"

record upnp_service_method =
  usm_name :: bytes
  usm_fn :: "htsmsg \<Rightarrow> control_out"

record upnp_local_service =
  uls_name :: bytes
  uls_version :: int
  uls_methods :: "upnp_service_method list"

datatype http_answer = Http_reply int bytes | Http_error int bytes | Http_crash

text \<open>A format without arguments: \<open>None\<close> when it has a conversion, which takes an argument that is not there.\<close>

fun format_plain :: "bytes \<Rightarrow> bytes option" where
  "format_plain [] = Some []"
| "format_plain (c # s) =
     (if c \<noteq> chr CHR ''%'' then map_option (Cons c) (format_plain s)
      else case s of
             [] \<Rightarrow> None
           | d # s \<Rightarrow> if d = chr CHR ''%'' then map_option (Cons d) (format_plain s) else None)"

definition http_error :: "int \<Rightarrow> bytes \<Rightarrow> http_answer" where
  "http_error code fmt = (case format_plain fmt of None \<Rightarrow> Http_crash | Some extra \<Rightarrow> Http_error code (take 199 extra))"

definition reply_head :: bytes where
  "reply_head =
     cstr ''<?xml version='' @ quoted (cstr ''1.0'') @ cstr ''?>'' @
     cstr ''<s:Envelope xmlns:s='' @ quoted soap_envelope_ns @ cstr '' s:encodingStyle='' @ quoted soap_encoding @
     cstr ''><s:Body>''"

text \<open>The answer to a call, from the result of the method.\<close>

definition control_reply ::
    "upnp_local_service \<Rightarrow> upnp_service_method \<Rightarrow> control_out \<Rightarrow> (int \<times> htsbuf_queue) option" where
  "control_reply uls usm out =
     (let body =
        (\<lambda>xml. case out of
           UPNP_CONTROL_INVALID_ARGS \<Rightarrow>
             htsbuf_vqprintf xml (cstr ''<s:Fault><s:faultcode>500</s:faultcode></s:Fault>'')
         | Control_out out \<Rightarrow>
             (case htsbuf_vqprintf xml
                     (cstr ''<u:'' @ usm_name usm @ cstr ''Response xmlns:u='' @
                      quoted (service_urn (uls_name uls) (uls_version uls)) @ cstr ''>'') of
                None \<Rightarrow> None
              | Some xml \<Rightarrow>
                  (case (case out of None \<Rightarrow> Some xml | Some args \<Rightarrow> soap_encode_args args xml) of
                     None \<Rightarrow> None
                   | Some xml \<Rightarrow> htsbuf_vqprintf xml (cstr ''</u:'' @ usm_name usm @ cstr ''Response>''))))
      in case htsbuf_vqprintf (htsbuf_queue_init 0) reply_head of
           None \<Rightarrow> None
         | Some xml \<Rightarrow>
             (case body xml of
                None \<Rightarrow> None
              | Some xml \<Rightarrow>
                  map_option (Pair (if out = UPNP_CONTROL_INVALID_ARGS then 500 else 200))
                    (htsbuf_vqprintf xml (cstr ''</s:Body></s:Envelope>''))))"

text \<open>The arguments are taken from the message \<^verbatim>\<open>tags\<close> below the method, and the text of each from its field
  \<^verbatim>\<open>cdata\<close>.\<close>

fun control_args :: "htsmsg_field list \<Rightarrow> htsmsg \<Rightarrow> htsmsg" where
  "control_args [] args = args"
| "control_args (f # fs) args =
     (case hmf_childs f of
        None \<Rightarrow> control_args fs args
      | Some a \<Rightarrow>
          (case fst (htsmsg_get_str a (Key (cstr ''cdata''))) of
             None \<Rightarrow> control_args fs args
           | Some s \<Rightarrow> control_args fs (case htsmsg_add_str args (hmf_name f) s of Some m \<Rightarrow> m | None \<Rightarrow> args)))"

definition control_dispatch_method ::
    "upnp_local_service \<Rightarrow> upnp_service_method \<Rightarrow> htsmsg \<Rightarrow> http_answer" where
  "control_dispatch_method uls usm inargs =
     (let args = (case htsmsg_get_map inargs (Key (cstr ''tags'')) of
                    None \<Rightarrow> htsmsg_create_map
                  | Some m \<Rightarrow> control_args (hm_fields m) htsmsg_create_map)
      in case control_reply uls usm (usm_fn usm args) of
           None \<Rightarrow> Http_crash
         | Some (code, xml) \<Rightarrow> Http_reply code (htsbuf_content xml))"

text \<open>The part of a method name behind the prefix of the service, if it has that prefix. \<open>Inl\<close> goes on with the
  next field; the version is the character after the name, and \<open>None\<close> is a step behind the end of the name.\<close>

definition method_of :: "upnp_local_service \<Rightarrow> bytes \<Rightarrow> (unit + bytes) option" where
  "method_of uls name =
     (let urn = cstr ''urn:schemas-upnp-org:service:'';
          s = drop (length urn) name;
          s1 = drop (length (uls_name uls)) s;
          s2 = (if deref s1 = chr CHR '':'' then tl s1 else s1)
      in if take (length urn) name \<noteq> urn then Some (Inl ())
         else if take (length (uls_name uls)) s \<noteq> uls_name uls then Some (Inl ())
         else if uint (deref s2) - 48 > uls_version uls then Some (Inl ())
         else if s2 = [] then None
         else Some (Inr (tl s2)))"

fun control_methods :: "upnp_local_service \<Rightarrow> htsmsg_field list \<Rightarrow> http_answer" where
  "control_methods uls [] = Http_error 400 (cstr ''Unable to parse methods'')"
| "control_methods uls (f # fs) =
     (case hmf_childs f of
        None \<Rightarrow> control_methods uls fs
      | Some m \<Rightarrow>
          (case method_of uls (arg_name f) of
             None \<Rightarrow> Http_crash
           | Some (Inl _) \<Rightarrow> control_methods uls fs
           | Some (Inr s) \<Rightarrow>
               (case find (\<lambda>usm. usm_name usm = s) (uls_methods uls) of
                  None \<Rightarrow> Http_error 500 (take 199 (cstr ''Method '' @ uls_name uls @ cstr '':'' @
                            dec_int (uls_version uls) @ cstr ''::'' @ s @ cstr '' not found''))
                | Some usm \<Rightarrow> control_dispatch_method uls usm m)))"

definition control_parse_soap :: "upnp_local_service \<Rightarrow> htsmsg \<Rightarrow> http_answer" where
  "control_parse_soap uls envelope =
     (case htsmsg_get_map_multi (Some envelope)
             [Key (cstr ''tags''), Key (soap_envelope_ns @ cstr ''Envelope''), Key (cstr ''tags''),
              Key (soap_envelope_ns @ cstr ''Body''), Key (cstr ''tags'')] of
        None \<Rightarrow> Http_error 400 (cstr ''No methods found in envelope'')
      | Some methods \<Rightarrow> control_methods uls (hm_fields methods))"

text \<open>\<open>xml\<close> is the data of the POST request, if any.\<close>

definition upnp_control :: "upnp_local_service \<Rightarrow> u8 \<Rightarrow> bytes option \<Rightarrow> http_answer" where
  "upnp_control uls heap xml =
     (case xml of
        None \<Rightarrow> Http_error 400 (cstr ''Missing POST data'')
      | Some xml \<Rightarrow>
          (case htsmsg_xml_deserialize_buf heap (c_str xml) 100 of
             Some (xp, XML_msg inenv) \<Rightarrow> control_parse_soap uls inenv
           | Some (xp, XML_error err) \<Rightarrow> http_error 400 err
           | _ \<Rightarrow> Http_crash))"

section \<open>What the writers write\<close>

definition owrites :: "(htsbuf_queue \<Rightarrow> htsbuf_queue option) \<Rightarrow> bytes \<Rightarrow> bool" where
  "owrites w b \<longleftrightarrow> (\<forall>q. htsbuf_inv q \<longrightarrow> (\<exists>q1. w q = Some q1 \<and> htsbuf_inv q1 \<and> htsbuf_content q1 = htsbuf_content q @ b))"

lemma owrites_printf: "length t < 10000 \<Longrightarrow> owrites (\<lambda>q. htsbuf_vqprintf q t) t"
  by (simp add: owrites_def htsbuf_vqprintf_def htsbuf_append_correct)

lemma owrites_seq:
  "owrites f a \<Longrightarrow> owrites g b \<Longrightarrow> owrites (\<lambda>q. case f q of None \<Rightarrow> None | Some q \<Rightarrow> g q) (a @ b)"
  unfolding owrites_def by fastforce

lemma owrites_after: "hq.writes w a \<Longrightarrow> owrites g b \<Longrightarrow> owrites (\<lambda>q. g (w q)) (a @ b)"
  unfolding owrites_def hq.writes_def by fastforce

text \<open>The element of an argument.\<close>

definition arg_text :: "htsmsg_field \<Rightarrow> bytes" where
  "arg_text f = (case hmf_u f of HMF_S64 v \<Rightarrow> dec_int (sint v) | HMF_STR str \<Rightarrow> str | _ \<Rightarrow> [])"

definition arg_elem :: "htsmsg_field \<Rightarrow> elem" where
  "arg_elem f = Elem (arg_name f) [] (arg_text f) []"

definition arg_ok :: "htsmsg_field \<Rightarrow> bool" where
  "arg_ok f \<longleftrightarrow> hmf_name f \<noteq> None \<and> name_ok (arg_name f) \<and> length (arg_name f) \<le> 1000 \<and> chr CHR '':'' \<notin> set (arg_name f) \<and>
     (case hmf_u f of HMF_S64 v \<Rightarrow> True | HMF_STR str \<Rightarrow> text_ok str | _ \<Rightarrow> False)"

lemma dec_chars: "c \<in> set (dec_int i) \<Longrightarrow> 32 < c \<and> xml_escape c = None"
proof -
  have "32 < c \<and> xml_escape c = None" if "is_digit c" for c
  proof -
    have "48 \<le> c" "c \<le> 57"
      using that by (simp_all add: is_digit_def)
    then have "48 \<le> uint c" "uint c \<le> 57"
      by (simp_all add: word_le_def)
    then show ?thesis
      by (auto simp: word_less_def xml_escape_def)
  qed
  moreover assume "c \<in> set (dec_int i)"
  then have "is_digit c \<or> c = 0x2d"
    using dec_nat_digits unfolding list_all_iff dec_int_def by (auto split: if_splits)
  moreover have "xml_escape 0x2d = None" "(32 :: u8) < 0x2d"
    by (simp_all add: xml_escape_def)
  ultimately show ?thesis
    by blast
qed

lemma dec_s64_length: "length (dec_int (sint (v :: u64))) \<le> 21"
proof -
  have "- (2 ^ 63) \<le> sint v" "sint v < 2 ^ 63"
    using sint_u64_bounds [of v] by simp_all
  then have "nat (sint v) < 10 ^ 20" "nat (- sint v) < 10 ^ 20"
    by auto
  then show ?thesis
    using dec_nat_length [of "nat (sint v)" 20] dec_nat_length [of "nat (- sint v)" 20] by (simp add: dec_int_def)
qed

lemma dec_int_nonempty: "dec_int i \<noteq> []"
  by (simp add: dec_int_def)

lemma text_ok_dec: "text_ok (dec_int i)"
  using dec_chars hd_in_set [OF dec_int_nonempty] last_in_set [OF dec_int_nonempty]
  by (fastforce simp: text_ok_def list_all_iff)

lemma xml_text_id: "list_all (\<lambda>c. xml_escape c = None) t \<Longrightarrow> xml_text t = t"
  by (induction t) auto

lemma print_elem_text: "t \<noteq> [] \<Longrightarrow> print_elem (Elem n [] t []) = open_tag n @ xml_text t @ close_tag n"
  by (simp add: open_tag_def close_tag_def)

lemma text_ok_str: "text_ok t \<Longrightarrow> c_str t = t" "text_ok t \<Longrightarrow> deref t = 0 \<longleftrightarrow> t = []"
proof -
  assume "text_ok t"
  then have "list_all (\<lambda>c. c \<noteq> 0) t"
    by (auto simp: text_ok_def list_all_iff)
  then show "c_str t = t" "deref t = 0 \<longleftrightarrow> t = []"
    by (simp_all add: c_str_id deref_zero)
qed

lemma encode_arg_writes:
  assumes "arg_ok f"
  shows "owrites (soap_encode_arg f) (print_elem (arg_elem f))"
proof -
  let ?n = "arg_name f"
  have n: "length ?n \<le> 1000"
    using assms by (simp add: arg_ok_def)
  consider (int) v where "hmf_u f = HMF_S64 v" | (str) str where "hmf_u f = HMF_STR str" "text_ok str"
    using assms by (auto simp: arg_ok_def split: hmf_value.splits)
  then show ?thesis
  proof cases
    case int
    have "print_elem (arg_elem f) = open_tag ?n @ dec_int (sint v) @ close_tag ?n"
      using int dec_chars xml_text_id [of "dec_int (sint v)"]
      by (simp add: arg_elem_def arg_text_def print_elem_text [OF dec_int_nonempty] list_all_iff del: print_elem.simps)
    then show ?thesis
      using int owrites_printf [of "open_tag ?n @ dec_int (sint v) @ close_tag ?n"] n dec_s64_length [of v]
      by (simp add: soap_encode_arg_def [abs_def] Let_def open_tag_def close_tag_def)
  next
    case str
    show ?thesis
    proof (cases "str = []")
      case True
      then show ?thesis
        using str(1) owrites_printf [of "cstr ''<'' @ ?n @ cstr ''/>''"] n
        by (simp add: soap_encode_arg_def [abs_def] arg_elem_def arg_text_def)
    next
      case False
      have "owrites (soap_encode_arg f) (open_tag ?n @ xml_text (c_str str) @ close_tag ?n)"
        using str False text_ok_str(2) [OF str(2)]
          owrites_seq [OF owrites_printf [of "open_tag ?n"] owrites_after [OF xml_writes [of str] owrites_printf [of "close_tag ?n"]]] n
        by (simp add: soap_encode_arg_def [abs_def] Let_def open_tag_def close_tag_def)
      then show ?thesis
        using str False text_ok_str(1) [OF str(2)] by (simp add: arg_elem_def arg_text_def open_tag_def close_tag_def)
    qed
  qed
qed

lemma encode_args_writes:
  "list_all arg_ok fs \<Longrightarrow> owrites (encode_fields fs) (concat (map print_elem (map arg_elem fs)))"
proof (induction fs)
  case Nil
  show ?case by (simp add: owrites_def)
next
  case (Cons f fs)
  have "encode_fields (f # fs) = (\<lambda>q. case soap_encode_arg f q of None \<Rightarrow> None | Some q \<Rightarrow> encode_fields fs q)"
    by (rule ext) simp
  then show ?case
    using owrites_seq [OF encode_arg_writes Cons(1)] Cons(2) by simp
qed

section \<open>The documents\<close>

definition call_ok :: "bytes \<Rightarrow> int \<Rightarrow> bytes \<Rightarrow> bool" where
  "call_ok service version meth \<longleftrightarrow>
     meth \<noteq> [] \<and> list_all tag_char meth \<and> length meth \<le> 80 \<and>
     list_all (\<lambda>c. c \<noteq> 0 \<and> c \<noteq> 0x22) service \<and> length service \<le> 1000 \<and> 0 \<le> version \<and> version < 10 ^ 9"

text \<open>A method element with a prefix, its declaration and the arguments, in the envelope with its attributes.\<close>

definition method_elem :: "bytes \<Rightarrow> bytes \<Rightarrow> bytes \<Rightarrow> htsmsg \<Rightarrow> elem" where
  "method_elem pre name urn args =
     Elem (pre @ cstr '':'' @ name) [(cstr ''xmlns:'' @ pre, urn)] [] (map arg_elem (hm_fields args))"

definition envelope_elem :: "(bytes \<times> bytes) list \<Rightarrow> elem \<Rightarrow> elem" where
  "envelope_elem as e = Elem (cstr ''s:Envelope'') as [] [Elem (cstr ''s:Body'') [] [] [e]]"

definition request_attrs :: "(bytes \<times> bytes) list" where
  "request_attrs = [(cstr ''s:encodingStyle'', soap_encoding), (cstr ''xmlns:s'', soap_envelope_ns)]"

definition reply_attrs :: "(bytes \<times> bytes) list" where
  "reply_attrs = [(cstr ''xmlns:s'', soap_envelope_ns), (cstr ''s:encodingStyle'', soap_encoding)]"

definition request_doc :: "bytes \<Rightarrow> int \<Rightarrow> bytes \<Rightarrow> htsmsg \<Rightarrow> bytes" where
  "request_doc service version meth args =
     xml_doc [(cstr ''version'', cstr ''1.0''), (cstr ''encoding'', cstr ''utf-8'')]
       (envelope_elem request_attrs (method_elem (cstr ''ns0'') meth (service_urn service version) args))"

definition reply_doc :: "bytes \<Rightarrow> int \<Rightarrow> bytes \<Rightarrow> htsmsg \<Rightarrow> bytes" where
  "reply_doc service version meth args =
     xml_doc [(cstr ''version'', cstr ''1.0'')]
       (envelope_elem reply_attrs (method_elem (cstr ''u'') (meth @ cstr ''Response'') (service_urn service version) args))"

lemma print_arg_elems: "concat (map print_elem (map arg_elem fs)) = [] \<longleftrightarrow> fs = []"
  by (cases fs) (auto simp: arg_elem_def)

lemma version_length: "call_ok service version meth \<Longrightarrow> length (dec_int version) \<le> 9"
  using dec_nat_length [of "nat version" 9] by (simp add: call_ok_def dec_int_def nat_less_iff)

lemma urn_length: "call_ok service version meth \<Longrightarrow> length (service_urn service version) \<le> 1100"
  using version_length [of service version meth] by (simp add: service_urn_def call_ok_def)

lemma owrites_init: "owrites w b \<Longrightarrow> \<exists>q. w (htsbuf_queue_init 0) = Some q \<and> htsbuf_content q = b"
  using hq.empty_law by (fastforce simp: owrites_def)

lemma request_writes:
  assumes ok: "call_ok service version meth" and args: "list_all arg_ok (hm_fields args)" "hm_fields args \<noteq> []"
  shows "\<exists>q. soap_request service version meth args = Some q \<and> htsbuf_content q = request_doc service version meth args"
proof -
  let ?a = "cstr ''<?xml version='' @ quoted (cstr ''1.0'') @ cstr '' encoding='' @ quoted (cstr ''utf-8'') @ cstr ''?>'' @
      cstr ''<s:Envelope s:encodingStyle='' @ quoted soap_encoding @ cstr '' xmlns:s='' @ quoted soap_envelope_ns @
      cstr ''><s:Body><ns0:'' @ meth @ cstr '' xmlns:ns0='' @ quoted (service_urn service version) @ cstr ''>''"
  let ?b = "concat (map print_elem (map arg_elem (hm_fields args)))"
  let ?c = "cstr ''</ns0:'' @ meth @ cstr ''></s:Body></s:Envelope>''"
  have "length ?a < 10000" "length ?c < 10000"
    using urn_length [OF ok] ok by (simp_all add: call_ok_def quoted_def soap_encoding_def soap_envelope_ns_def)
  then have w: "owrites (\<lambda>q. case htsbuf_vqprintf q ?a of None \<Rightarrow> None
      | Some post \<Rightarrow> (case soap_encode_args args post of None \<Rightarrow> None | Some post \<Rightarrow> htsbuf_vqprintf post ?c)) (?a @ ?b @ ?c)"
    unfolding soap_encode_args_def by (intro owrites_seq owrites_printf encode_args_writes args)
  have "?a @ ?b @ ?c = request_doc service version meth args"
    using args(2)
    by (simp add: request_doc_def xml_doc_def envelope_elem_def method_elem_def request_attrs_def print_attr_def quoted_def)
  with owrites_init [OF w] show ?thesis
    unfolding soap_request_def by (simp only:)
qed

lemma reply_writes:
  assumes ok: "call_ok (uls_name uls) (uls_version uls) (usm_name usm)"
    and args: "list_all arg_ok (hm_fields args)" "hm_fields args \<noteq> []"
  shows "\<exists>q. control_reply uls usm (Control_out (Some args)) = Some (200, q) \<and>
    htsbuf_content q = reply_doc (uls_name uls) (uls_version uls) (usm_name usm) args"
proof -
  let ?urn = "service_urn (uls_name uls) (uls_version uls)"
  let ?a = "cstr ''<u:'' @ usm_name usm @ cstr ''Response xmlns:u='' @ quoted ?urn @ cstr ''>''"
  let ?b = "concat (map print_elem (map arg_elem (hm_fields args)))"
  let ?c = "cstr ''</u:'' @ usm_name usm @ cstr ''Response>''"
  let ?d = "cstr ''</s:Body></s:Envelope>''"
  have "length reply_head < 10000" "length ?a < 10000" "length ?c < 10000" "length ?d < 10000"
    using urn_length [OF ok] ok by (simp_all add: call_ok_def quoted_def reply_head_def soap_encoding_def soap_envelope_ns_def)
  then have "owrites (\<lambda>q. case htsbuf_vqprintf q reply_head of None \<Rightarrow> None
      | Some xml \<Rightarrow> (case (case htsbuf_vqprintf xml ?a of None \<Rightarrow> None
          | Some xml \<Rightarrow> (case soap_encode_args args xml of None \<Rightarrow> None | Some xml \<Rightarrow> htsbuf_vqprintf xml ?c)) of None \<Rightarrow> None
          | Some xml \<Rightarrow> htsbuf_vqprintf xml ?d)) (reply_head @ (?a @ ?b @ ?c) @ ?d)"
    unfolding soap_encode_args_def by (intro owrites_seq owrites_printf encode_args_writes args)
  from owrites_init [OF this] obtain q where "control_reply uls usm (Control_out (Some args)) = Some (200, q)"
      "htsbuf_content q = reply_head @ (?a @ ?b @ ?c) @ ?d"
    by (auto simp: control_reply_def Let_def split: option.splits)
  moreover have "reply_head @ (?a @ ?b @ ?c) @ ?d = reply_doc (uls_name uls) (uls_version uls) (usm_name usm) args"
    using args(2)
    by (simp add: reply_doc_def reply_head_def xml_doc_def envelope_elem_def method_elem_def reply_attrs_def print_attr_def quoted_def)
  ultimately show ?thesis by auto
qed

lemma arg_elem_ok: "arg_ok f \<Longrightarrow> elem_ok (arg_elem f)"
  using text_ok_dec by (auto simp: arg_ok_def arg_elem_def arg_text_def split: hmf_value.splits)

lemma urn_ok: "call_ok service version meth \<Longrightarrow> list_all (\<lambda>c. c \<noteq> 0 \<and> c \<noteq> 0x22) (service_urn service version)"
proof -
  have "c \<noteq> 0 \<and> c \<noteq> 0x22" if "c \<in> set (dec_int version)" for c
    using dec_chars [OF that] by (auto simp: xml_escape_def)
  then show "call_ok service version meth \<Longrightarrow> ?thesis"
    by (auto simp: service_urn_def call_ok_def list_all_iff)
qed

definition prefix_ok :: "bytes \<Rightarrow> bool" where
  "prefix_ok p \<longleftrightarrow> p = cstr ''ns0'' \<or> p = cstr ''u''"

lemma envelope_elem_ok:
  assumes ok: "call_ok service version meth" and args: "list_all arg_ok (hm_fields args)" and p: "prefix_ok p"
    and as: "as = request_attrs \<or> as = reply_attrs"
    and n: "n = meth \<or> n = meth @ cstr ''Response''"
  shows "elem_ok (envelope_elem as (method_elem p n (service_urn service version) args))"
proof -
  have "list_all tag_char n" "length n \<le> 100"
    using ok n by (auto simp: call_ok_def tag_char_def is_xmlws_def)
  then have "name_ok (p @ cstr '':'' @ n)"
    using p by (auto simp: name_ok_def prefix_ok_def tag_char_def is_xmlws_def)
  moreover have "attr_ok (cstr ''xmlns:'' @ p, service_urn service version)"
    using p urn_ok [OF ok] urn_length [OF ok] by (auto simp: attr_ok_def prefix_ok_def attrib_char_def is_xmlws_def)
  moreover have "list_all attr_ok as" "name_ok (cstr ''s:Envelope'')" "name_ok (cstr ''s:Body'')"
    using as by (auto simp: request_attrs_def reply_attrs_def soap_encoding_def soap_envelope_ns_def attr_ok_def name_ok_def
        attrib_char_def tag_char_def is_xmlws_def)
  moreover have "text_ok []"
    by (simp add: text_ok_def)
  ultimately show ?thesis
    using args arg_elem_ok by (simp add: envelope_elem_def method_elem_def list_all_iff)
qed

lemma xml_text_nonzero: "text_ok t \<Longrightarrow> 0 \<notin> set (xml_text t)"
proof -
  assume "text_ok t"
  then have "0 \<notin> set t"
    by (auto simp: text_ok_def list_all_iff)
  then show ?thesis
    by (induction t) (auto simp: xml_escape_def split: option.splits if_splits)
qed

lemma print_attr_nonzero: "attr_ok a \<Longrightarrow> 0 \<notin> set (print_attr a)"
  by (auto simp: attr_ok_def print_attr_def attrib_char_def list_all_iff)

lemma print_elem_nonzero: "elem_ok e \<Longrightarrow> 0 \<notin> set (print_elem e)"
proof (induction e)
  case (Elem n as t es)
  have "0 \<notin> set n"
    using Elem(2) name_okD(4) by (auto simp: list_all_iff)
  then show ?case
    using Elem xml_text_nonzero print_attr_nonzero by (auto simp: list_all_iff)
qed

lemma doc_str: "elem_ok e \<Longrightarrow> decl_ok das \<Longrightarrow> c_str (xml_doc das e) = xml_doc das e"
proof -
  assume "elem_ok e" "decl_ok das"
  then have "0 \<notin> set (xml_doc das e)"
    using print_elem_nonzero print_attr_nonzero by (auto simp: xml_doc_def decl_ok_def list_all_iff)
  then show ?thesis
    by (intro c_str_id) (auto simp: list_all_iff)
qed

section \<open>Reading a reply\<close>

lemma resolve_prefix:
  assumes "chr CHR '':'' \<notin> set p" "r \<noteq> []" "map_of env p = Some uri"
  shows "resolve env (p @ cstr '':'' @ r) = (r, Some uri)"
proof -
  have "takeWhile (\<lambda>c. c \<noteq> 58) (p @ 58 # r) = p"
    using assms(1) by (intro takeWhile_print) (auto simp: list_all_iff)
  then show ?thesis
    using assms by (simp add: resolve_def Let_def)
qed

lemma resolve_plain: "chr CHR '':'' \<notin> set n \<Longrightarrow> resolve env n = (n, None)"
proof -
  assume "chr CHR '':'' \<notin> set n"
  then have n: "takeWhile (\<lambda>c. c \<noteq> chr CHR '':'') n = n"
    by (intro takeWhile_eq_all_conv [THEN iffD2]) auto
  show ?thesis
    unfolding resolve_def Let_def n by simp
qed

definition read_arg :: "htsmsg_field \<Rightarrow> htsmsg_field" where
  "read_arg f = Field (hmf_name f) (text_value XML_ENCODING_UTF8 (arg_text f)) (text_flags XML_ENCODING_UTF8 (arg_text f)) None None"

lemma elem_field_arg: "arg_ok f \<Longrightarrow> elem_field XML_ENCODING_UTF8 env (arg_elem f) = read_arg f"
  by (auto simp: arg_elem_def read_arg_def named_field_def resolve_plain arg_ok_def arg_name_def some_childs_def)

lemma reply_field:
  assumes "list_all arg_ok (hm_fields args)" "hm_fields args \<noteq> []"
  shows "elem_field XML_ENCODING_UTF8 [] (envelope_elem reply_attrs (method_elem (cstr ''u'') (m @ cstr ''Response'') urn args)) =
    Field (Some (cstr ''Envelope'')) HMF_MAP 0
      (Some (Htsmsg False
        [Field (Some (cstr ''encodingStyle'')) (HMF_STR soap_encoding) HMF_XML_ATTRIBUTE None (Some soap_envelope_ns),
         Field (Some (cstr ''Body'')) HMF_MAP 0
           (Some (Htsmsg False
             [Field (Some (m @ cstr ''Response'')) HMF_MAP 0
                (Some (Htsmsg False (map read_arg (hm_fields args)))) (Some urn)])) (Some soap_envelope_ns)]))
      (Some soap_envelope_ns)"
proof -
  have r: "resolve [(cstr ''s'', soap_envelope_ns)] (cstr ''s:Envelope'') = (cstr ''Envelope'', Some soap_envelope_ns)"
    "resolve [(cstr ''s'', soap_envelope_ns)] (cstr ''s:encodingStyle'') = (cstr ''encodingStyle'', Some soap_envelope_ns)"
    "resolve [(cstr ''s'', soap_envelope_ns)] (cstr ''s:Body'') = (cstr ''Body'', Some soap_envelope_ns)"
    "resolve [(cstr ''u'', urn), (cstr ''s'', soap_envelope_ns)] (cstr ''u'' @ cstr '':'' @ m @ cstr ''Response'') =
       (m @ cstr ''Response'', Some urn)"
    using resolve_prefix [of "cstr ''s''" _ "[(cstr ''s'', soap_envelope_ns)]"]
      resolve_prefix [of "cstr ''u''" "m @ cstr ''Response''" "[(cstr ''u'', urn), (cstr ''s'', soap_envelope_ns)]"]
    by simp_all
  have "map (elem_field XML_ENCODING_UTF8 env) (map arg_elem (hm_fields args)) = map read_arg (hm_fields args)" for env
    using assms(1) elem_field_arg by (simp add: list_all_iff)
  then show ?thesis
    using r assms(2)
    by (simp add: envelope_elem_def reply_attrs_def method_elem_def declares_ns_def named_field_def text_value_def
        text_flags_def in_place_def some_childs_def)
qed

text \<open>The arguments as the client gets them: those with a text that is not empty.\<close>

definition received :: "htsmsg_field list \<Rightarrow> htsmsg_field list" where
  "received fs =
     map (\<lambda>f. Field (hmf_name f) (HMF_STR (arg_text f)) (HMF_ALLOCED OR HMF_NAME_ALLOCED) None None)
       (filter (\<lambda>f. arg_text f \<noteq> []) fs)"

lemma arg_text_ok: "arg_ok f \<Longrightarrow> text_ok (arg_text f)"
  using text_ok_dec by (auto simp: arg_ok_def arg_text_def split: hmf_value.splits)

lemma compact_read:
  "list_all arg_ok fs \<Longrightarrow> \<not> hm_islist out \<Longrightarrow>
   compact_fields (map read_arg fs) out = Htsmsg False (hm_fields out @ received fs)"
proof (induction fs arbitrary: out)
  case Nil
  then show ?case
    by (cases out) (simp add: received_def)
next
  case (Cons f fs)
  obtain n where n: "hmf_name f = Some n" "c_str n = n"
    using Cons(2) name_okD(4) [of "arg_name f"] c_str_id by (auto simp: arg_ok_def arg_name_def)
  have "c_str (arg_text f) = arg_text f"
    using Cons(2) arg_text_ok text_ok_str(1) by simp
  then show ?case
    using Cons n
    by (simp add: read_arg_def text_value_def decode_def received_def htsmsg_add_str_def htsmsg_field_add_def)
qed

section \<open>Properties\<close>

lemma declared_plain: "declared [(cstr ''version'', cstr ''1.0'')] = XML_ENCODING_UTF8"
  "declared [(cstr ''version'', cstr ''1.0''), (cstr ''encoding'', cstr ''utf-8'')] = XML_ENCODING_UTF8"
  "decl_ok [(cstr ''version'', cstr ''1.0'')]"
  "decl_ok [(cstr ''version'', cstr ''1.0''), (cstr ''encoding'', cstr ''utf-8'')]"
  by (simp_all add: declared_def same_nocase_def lower_def decl_ok_def attr_ok_def attrib_char_def is_xmlws_def)


definition example_args :: htsmsg where
  "example_args = Htsmsg False [Field (Some (cstr ''InstanceID'')) (HMF_S64 7) 0 None None]"

definition example_result :: htsmsg where
  "example_result = Htsmsg False [Field (Some (cstr ''Title'')) (HMF_STR (cstr ''a & b'')) 0 None None,
     Field (Some (cstr ''Url'')) (HMF_STR []) 0 None None]"

definition example_method :: upnp_service_method where
  "example_method = \<lparr>usm_name = cstr ''Get'', usm_fn = (\<lambda>_. Control_out (Some example_result))\<rparr>"

definition example_service :: upnp_local_service where
  "example_service = \<lparr>uls_name = cstr ''AVTransport'', uls_version = 2, uls_methods = [example_method]\<rparr>"

definition example_http :: "bytes \<Rightarrow> bytes \<Rightarrow> bytes \<Rightarrow> bytes + bytes" where
  "example_http uri post action =
     (case control_dispatch_method example_service example_method htsmsg_create_map of
        Http_reply code body \<Rightarrow> Inr body | _ \<Rightarrow> Inl [])"

lemma example_ok:
  "call_ok (cstr ''AVTransport'') 2 (cstr ''Get'')" "list_all arg_ok (hm_fields example_args)"
  "list_all arg_ok (hm_fields example_result)"
  by (simp_all add: call_ok_def example_args_def example_result_def arg_ok_def arg_name_def name_ok_def tag_char_def
      is_xmlws_def text_ok_def)


text \<open>
  Property C20. The UPnP control server rejects every call of the SOAP client: the server looks for a field \<^verbatim>\<open>tags\<close> around
  the envelope and for names that contain the namespace, and the XML parser makes neither.
\<close>

theorem upnp_control_rejects_calls:
  assumes "call_ok service version meth" "list_all arg_ok (hm_fields args)" "hm_fields args \<noteq> []"
  shows "\<exists>q. soap_request service version meth args = Some q \<and>
    upnp_control uls heap (Some (htsbuf_content q)) = Http_error 400 (cstr ''No methods found in envelope'')"
proof -
  let ?e = "envelope_elem request_attrs (method_elem (cstr ''ns0'') meth (service_urn service version) args)"
  obtain q where q: "soap_request service version meth args = Some q" "htsbuf_content q = request_doc service version meth args"
    using request_writes [OF assms] by blast
  have ok: "elem_ok ?e"
    by (rule envelope_elem_ok [OF assms(1,2)]) (simp_all add: prefix_ok_def)
  have str: "c_str (request_doc service version meth args) = request_doc service version meth args"
    unfolding request_doc_def by (rule doc_str [OF ok declared_plain(4)])
  obtain xp where xml: "htsmsg_xml_deserialize_buf heap (request_doc service version meth args) 100 =
      Some (xp, XML_msg (Htsmsg False [elem_field XML_ENCODING_UTF8 [] ?e]))"
    using read_doc [OF ok declared_plain(4), of heap 100] unfolding declared_plain(2) request_doc_def by blast
  have "hmf_name (elem_field XML_ENCODING_UTF8 [] ?e) = Some (cstr ''Envelope'')"
    by (simp add: envelope_elem_def request_attrs_def named_field_def declares_ns_def resolve_def)
  then show ?thesis
    using q xml str
    by (simp add: upnp_control_def control_parse_soap_def htsmsg_get_map_def htsmsg_field_find_def)
qed

theorem upnp_control_rejects_calls_witness:
  "\<exists>q. soap_request (cstr ''AVTransport'') 2 (cstr ''Get'') example_args = Some q \<and>
    upnp_control example_service 0 (Some (htsbuf_content q)) = Http_error 400 (cstr ''No methods found in envelope'')"
  by (rule upnp_control_rejects_calls [OF example_ok(1,2)]) (simp add: example_args_def)

lemma format_conversion:
  "list_all (\<lambda>c. c \<noteq> chr CHR ''%'') a \<Longrightarrow> w = [] \<or> hd w \<noteq> chr CHR ''%'' \<Longrightarrow> format_plain (a @ chr CHR ''%'' # w) = None"
  by (induction a) (auto split: list.splits)

lemma errbuf_begins: "\<exists>w. xml_errbuf xp buf n = takeWhile (\<lambda>c. 32 \<le> c) (take (n - 1) (xp_errmsg xp @ w))"
  unfolding xml_errbuf_def Let_def case_prod_beta by (intro exI) (rule refl)

text \<open>The error of a declaration that the parser does not know, at the beginning of a document.\<close>

lemma unknown_declaration:
  assumes "c \<noteq> 0x2d" "c \<noteq> 0x5b" "c \<noteq> 0x44" "0 \<notin> set (c # u)"
  shows "\<exists>xp. htsmsg_xml_deserialize_buf heap (0x3c # 0x21 # c # u) n = Some (xp, XML_error (xml_errbuf xp (0x3c # 0x21 # c # u) n)) \<and>
    xp_errmsg xp = cstr ''Unknown syntatic element: <!'' @ take 10 (c # u)"
proof -
  let ?s = "0x3c # 0x21 # c # u"
  let ?xp = "xml_parser_init heap"
  have p: "prolog_loop ?xp htsmsg_create_map ?s = Prolog ?xp htsmsg_create_map ?s"
    using assms by (subst prolog_loop.simps) (simp add: Let_def)
  let ?msg = "cstr ''Unknown syntatic element: <!'' @ take 10 (c_str (c # u))"
  have c: "htsmsg_xml_parse_cd0 (Suc (length ?s)) ?xp [] None htsmsg_create_map ?s False =
      Some (xmlerr2 ?xp (c # u) 635 ?msg, [], htsmsg_create_map, None)"
    using assms by (subst htsmsg_xml_parse_cd0.simps(2)) (simp add: close_cc_def)
  have str: "c_str (c # u) = c # u"
    using assms(4) by (intro c_str_id) (auto simp: list_all_iff)
  have msg: "xp_errmsg (xmlerr2 xp pos line m) = take 127 (c_str m)" for xp pos line m
    by (simp add: xmlerr2_def)
  have "0 \<notin> set (take 10 (c # u))"
    using assms(4) in_set_takeD by metis
  then have "c_str (cstr ''Unknown syntatic element: <!'' @ take 10 (c # u)) = cstr ''Unknown syntatic element: <!'' @ take 10 (c # u)"
    by (intro c_str_id) (auto simp: list_all_iff)
  moreover have "take 127 (cstr ''Unknown syntatic element: <!'' @ take 10 (c # u)) = cstr ''Unknown syntatic element: <!'' @ take 10 (c # u)"
    by (rule take_all) simp
  ultimately have "xp_errmsg (xmlerr2 ?xp (c # u) 635 ?msg) = cstr ''Unknown syntatic element: <!'' @ take 10 (c # u)"
    unfolding msg str by (simp only:)
  moreover have "htsmsg_parse_prolog ?xp ?s = Prolog ?xp htsmsg_create_map ?s"
    unfolding htsmsg_parse_prolog_def p by (simp add: htsmsg_get_map_def htsmsg_field_find_def htsmsg_create_map_def)
  moreover have "htsmsg_xml_parse_cd (htsmsg_xml_parse_cd0 (Suc (length ?s))) ?xp htsmsg_create_map None ?s =
      Some (xmlerr2 ?xp (c # u) 635 ?msg, htsmsg_create_map, None, None)"
    unfolding htsmsg_xml_parse_cd_def c by (simp add: xml_set_body_def)
  ultimately show ?thesis
    by (intro exI [of _ "xmlerr2 ?xp (c # u) 635 ?msg"])
      (simp only: htsmsg_xml_deserialize_buf_def Let_def prolog_result.case option.case prod.case simp_thms)
qed

text \<open>
  The control server uses the text of an XML error as a format: a request that begins with a declaration the
  parser does not know and a conversion in its name makes the server format arguments that are not there.
\<close>

theorem upnp_control_formats_request:
  assumes "c \<noteq> chr CHR ''%''" "c \<noteq> 0"
  shows "upnp_control uls heap (Some (cstr ''<!%'' @ [c] @ t)) = Http_crash"
proof -
  let ?u = "c # c_str t"
  let ?a = "cstr ''Unknown syntatic element: <!''"
  have buf: "c_str (cstr ''<!%'' @ [c] @ t) = 0x3c # 0x21 # 0x25 # ?u"
    using assms(2) by (simp add: c_str_def)
  have "0 \<notin> set (0x25 # ?u)"
    using assms(2) by (auto simp: c_str_def dest: set_takeWhileD)
  then obtain xp where xml: "htsmsg_xml_deserialize_buf heap (0x3c # 0x21 # 0x25 # ?u) 100 =
      Some (xp, XML_error (xml_errbuf xp (0x3c # 0x21 # 0x25 # ?u) 100))" "xp_errmsg xp = ?a @ take 10 (0x25 # ?u)"
    using unknown_declaration [of "0x25" ?u heap 100] by auto
  obtain w where w: "xml_errbuf xp (0x3c # 0x21 # 0x25 # ?u) 100 = takeWhile (\<lambda>c. 32 \<le> c) (take (100 - 1) (xp_errmsg xp @ w))"
    using errbuf_begins by blast
  define v where "v = take 8 (c_str t) @ w"
  have v: "xml_errbuf xp (0x3c # 0x21 # 0x25 # ?u) 100 = takeWhile (\<lambda>c. 32 \<le> c) (take 99 (?a @ 0x25 # c # v))"
    unfolding w xml(2) v_def by simp
  have "takeWhile (\<lambda>c. 32 \<le> c) (take 99 (?a @ 0x25 # c # v)) = ?a @ chr CHR ''%'' # takeWhile (\<lambda>c. 32 \<le> c) (c # take 69 v)"
    by simp
  then have "format_plain (xml_errbuf xp (0x3c # 0x21 # 0x25 # ?u) 100) = None"
    using v format_conversion [of ?a "takeWhile (\<lambda>c. 32 \<le> c) (c # take 69 v)"] assms(1) by simp
  then show ?thesis
    unfolding upnp_control_def buf option.case xml(1) by (simp add: http_error_def)
qed

end
