(* ===== verification/Bencode.thy ===== *)
theory Bencode
  imports Htsmsg
begin

text \<open>
  Messages in the format of BitTorrent, \<^verbatim>\<open>src/src/backend/bittorrent/bencode.c\<close>. A position is the list of bytes up to
  \<^verbatim>\<open>stop\<close>. The code reads the byte at \<^verbatim>\<open>stop\<close> in some places: it is the argument \<open>nxt\<close> of the functions.
  The report of an error takes the message for a C string and may read further: \<open>bencode_deserialize\<close> has
  the bytes from \<^verbatim>\<open>stop\<close> up to the next NUL, \<open>behind\<close>.
\<close>

section \<open>Outcomes\<close>

text \<open>The fail message with its position, or \<open>None\<close> when the two were not set.\<close>

type_synonym ben_failure = "(string \<times> bytes) option"

text \<open>\<open>Ben_past\<close> is a result whose end is one byte behind \<^verbatim>\<open>stop\<close>. \<open>Ben_crash\<close> is a use of memory outside of the buffer.
  \<open>Ben_fuel\<close> is excluded by the theorem on termination.\<close>

datatype 'a ben =
  Ben_ok 'a bytes | Ben_past 'a | Ben_fail ben_failure | Ben_not_this_type | Ben_crash | Ben_fuel

definition peek :: "u8 \<Rightarrow> bytes \<Rightarrow> u8" where
  "peek nxt s = (case s of [] \<Rightarrow> nxt | c # _ \<Rightarrow> c)"

section \<open>Parsing\<close>

text \<open>The loop over the digits of a length, an \<^verbatim>\<open>int\<close>.\<close>

fun binary_len :: "u32 \<Rightarrow> bytes \<Rightarrow> u32 ben" where
  "binary_len len [] = Ben_fail (Some (''Unexpected end of BENCODE message'', []))"
| "binary_len len (c # s) =
     (if c = chr CHR '':'' then Ben_ok len s
      else if c < chr CHR ''0'' \<or> c > chr CHR ''9'' then Ben_not_this_type
      else binary_len (len * 10 + ucast c - 48) s)"

text \<open>A negative length passes the check against \<^verbatim>\<open>stop\<close> and is taken as a huge size by \<^verbatim>\<open>memcpy\<close>.\<close>

definition bencode_parse_binary :: "bytes \<Rightarrow> bytes ben" where
  "bencode_parse_binary start =
     (case binary_len 0 start of
        Ben_ok len s \<Rightarrow>
          if sint len < 0 then Ben_crash
          else if length s \<le> unat len then Ben_fail (Some (''Excessive binary length'', s))
          else Ben_ok (take (unat len) s) (drop (unat len) s)
      | Ben_fail f \<Rightarrow> Ben_fail f
      | _ \<Rightarrow> Ben_not_this_type)"

definition bencode_parse_string :: "bytes \<Rightarrow> bytes ben" where
  "bencode_parse_string start =
     (case bencode_parse_binary start of
        Ben_ok x s \<Rightarrow>
          if 0 \<in> set x
          then Ben_fail (Some (''Unexpected NUL byte'', drop (length (takeWhile (\<lambda>c. c \<noteq> 0) x)) start))
          else Ben_ok x s
      | r \<Rightarrow> r)"

fun integer_loop :: "u64 \<Rightarrow> bytes \<Rightarrow> u64 \<times> bytes" where
  "integer_loop val [] = (val, [])"
| "integer_loop val (c # s) =
     (if c = chr CHR ''e'' then (val, s) else integer_loop (val * 10 + ucast c - 48) s)"

definition bencode_parse_integer :: "bytes \<Rightarrow> (u64 \<times> bytes) option" where
  "bencode_parse_integer s =
     (if deref s \<noteq> chr CHR ''i'' then None
      else
        let neg = (deref (tl s) = chr CHR ''-'');
            (val, rest) = integer_loop 0 (if neg then tl (tl s) else tl s)
        in Some (if neg then - val else val, rest))"

text \<open>The end of a map or list: the position is at its last byte, or at \<^verbatim>\<open>stop\<close>.\<close>

definition ben_finish :: "'a \<Rightarrow> bytes \<Rightarrow> 'a ben" where
  "ben_finish r s = (case s of [] \<Rightarrow> Ben_past r | _ # s \<Rightarrow> Ben_ok r s)"

text \<open>The assertion of \<open>htsmsg_field_add\<close> holds: values in maps have a name and values in lists have none.\<close>

definition ben_add :: "htsmsg \<Rightarrow> htsmsg option \<Rightarrow> htsmsg" where
  "ben_add parent r = (case r of Some m \<Rightarrow> m | None \<Rightarrow> parent)"

definition ben_scalar :: "bytes \<Rightarrow> htsmsg \<Rightarrow> bytes option \<Rightarrow> htsmsg ben" where
  "ben_scalar s parent name =
     (case bencode_parse_integer s of
        Some (l, s2) \<Rightarrow> Ben_ok (ben_add parent (htsmsg_add_s64 parent name l)) s2
      | None \<Rightarrow>
          (case bencode_parse_binary s of
             Ben_ok str s2 \<Rightarrow>
               Ben_ok (ben_add parent (if list_all (\<lambda>c. 0x20 \<le> c) str then htsmsg_add_str parent name str
                                       else htsmsg_add_bin parent name str)) s2
           | Ben_fail f \<Rightarrow> Ben_fail f
           | Ben_not_this_type \<Rightarrow> Ben_fail (Some (''Unknown token'', s))
           | _ \<Rightarrow> Ben_crash))"

definition ben_sub :: "htsmsg \<Rightarrow> bytes option \<Rightarrow> (htsmsg \<times> 'b) ben \<Rightarrow> htsmsg ben" where
  "ben_sub parent name r =
     (case r of
        Ben_ok (c, _) s \<Rightarrow> Ben_ok (ben_add parent (htsmsg_add_msg parent name c)) s
      | Ben_past (c, _) \<Rightarrow> Ben_past (ben_add parent (htsmsg_add_msg parent name c))
      | Ben_fail f \<Rightarrow> Ben_fail f | Ben_not_this_type \<Rightarrow> Ben_not_this_type | Ben_crash \<Rightarrow> Ben_crash | Ben_fuel \<Rightarrow> Ben_fuel)"

text \<open>The callback gets the name of each field and the bytes of its value. The calls are collected in their order; those
  made before an error was found are not in the model.\<close>

type_synonym ben_calls = "(bytes \<times> bytes) list"

text \<open>Maps and lists begin with their letter; \<open>loop\<close> is the loop over the elements.\<close>

definition bencode_parse_map :: "(bytes \<Rightarrow> (htsmsg \<times> ben_calls) ben) \<Rightarrow> bytes \<Rightarrow> (htsmsg \<times> ben_calls) ben" where
  "bencode_parse_map loop s =
     (if deref s \<noteq> chr CHR ''d'' then Ben_not_this_type
      else if tl s \<noteq> [] \<and> deref (tl s) \<noteq> chr CHR ''e'' then loop (tl s)
      else ben_finish (htsmsg_create_map, []) (tl s))"

definition bencode_parse_list :: "(bytes \<Rightarrow> (htsmsg \<times> ben_calls) ben) \<Rightarrow> bytes \<Rightarrow> (htsmsg \<times> ben_calls) ben" where
  "bencode_parse_list loop s =
     (if deref s \<noteq> chr CHR ''l'' then Ben_not_this_type
      else if tl s \<noteq> [] \<and> deref (tl s) \<noteq> chr CHR ''e'' then loop (tl s)
      else ben_finish (htsmsg_create_list, []) (tl s))"

fun bencode_parse_value :: "nat \<Rightarrow> u8 \<Rightarrow> bytes \<Rightarrow> htsmsg \<Rightarrow> bytes option \<Rightarrow> htsmsg ben"
and map_loop :: "nat \<Rightarrow> u8 \<Rightarrow> htsmsg \<Rightarrow> ben_calls \<Rightarrow> bytes \<Rightarrow> (htsmsg \<times> ben_calls) ben"
and list_loop :: "nat \<Rightarrow> u8 \<Rightarrow> htsmsg \<Rightarrow> bytes \<Rightarrow> (htsmsg \<times> ben_calls) ben" where
  "bencode_parse_value 0 nxt s parent name = Ben_fuel"
| "map_loop 0 nxt r calls s = Ben_fuel"
| "list_loop 0 nxt r s = Ben_fuel"
| "bencode_parse_value (Suc n) nxt s parent name =
     (if s = [] then Ben_fail None
      else
        case bencode_parse_map (map_loop n nxt htsmsg_create_map []) s of
          Ben_not_this_type \<Rightarrow>
            (case bencode_parse_list (list_loop n nxt htsmsg_create_list) s of
               Ben_not_this_type \<Rightarrow> ben_scalar s parent name
             | r \<Rightarrow> ben_sub parent name r)
        | r \<Rightarrow> ben_sub parent name r)"
| "map_loop (Suc n) nxt r calls s =
     (case bencode_parse_string s of
        Ben_not_this_type \<Rightarrow> Ben_fail (Some (''Expected string'', s))
      | Ben_fail f \<Rightarrow> Ben_fail f
      | Ben_ok name s1 \<Rightarrow>
          (case bencode_parse_value n nxt s1 r (Some name) of
             Ben_ok r s2 \<Rightarrow>
               let calls = calls @ [(name, take (length s1 - length s2) s1)]
               in if peek nxt s2 = chr CHR ''e'' then ben_finish (r, calls) s2 else map_loop n nxt r calls s2
           | Ben_fail f \<Rightarrow> Ben_fail f
           | Ben_fuel \<Rightarrow> Ben_fuel
           | _ \<Rightarrow> Ben_crash)
      | _ \<Rightarrow> Ben_crash)"
| "list_loop (Suc n) nxt r s =
     (case bencode_parse_value n nxt s r None of
        Ben_ok r s2 \<Rightarrow> if peek nxt s2 = chr CHR ''e'' then ben_finish (r, []) s2 else list_loop n nxt r s2
      | Ben_fail f \<Rightarrow> Ben_fail f
      | Ben_fuel \<Rightarrow> Ben_fuel
      | _ \<Rightarrow> Ben_crash)"

text \<open>\<open>Ben_doc\<close> has the message, the calls of the callback and the bytes that were read. The report of an error
  uses the message and position of the failure, whether they were set or not.\<close>

datatype ben_doc = Ben_doc htsmsg ben_calls nat | Ben_error bytes | Ben_doc_crash | Ben_doc_fuel

definition ben_report :: "bytes \<Rightarrow> bytes \<Rightarrow> nat \<Rightarrow> string \<times> bytes \<Rightarrow> bytes" where
  "ben_report behind src errlen f =
     (let offset = length src - length (snd f)
      in take (errlen - 1)
           (if offset > strlen (src @ behind) then cstr (fst f) @ cstr '' at (bad) offset '' @ dec_nat offset
            else cstr (fst f) @ cstr '' at offset '' @ dec_nat (offset - 10) @ cstr '' : '' @ [0x27] @
                 take 20 (c_str (drop (offset - 10) (src @ behind))) @ [0x27]))"

definition bencode_deserialize :: "bytes \<Rightarrow> bytes \<Rightarrow> nat \<Rightarrow> ben_doc" where
  "bencode_deserialize behind src errlen =
     (if src = [] then Ben_error (take (errlen - 1) (cstr ''zero size bencode''))
      else
        let n = 2 * length src;
            c = (case bencode_parse_map (map_loop n (deref behind) htsmsg_create_map []) src of
                   Ben_not_this_type \<Rightarrow> bencode_parse_list (list_loop n (deref behind) htsmsg_create_list) src
                 | r \<Rightarrow> r)
        in case c of
             Ben_ok (m, calls) rest \<Rightarrow> Ben_doc m calls (length src - length rest)
           | Ben_past (m, calls) \<Rightarrow> Ben_doc m calls (Suc (length src))
           | Ben_not_this_type \<Rightarrow>
               Ben_error (take (errlen - 1) (cstr ''Invalid BENCODE, expected '' @ [0x27] @ cstr ''d'' @ [0x27] @
                 cstr '' or '' @ [0x27] @ cstr ''l'' @ [0x27]))
           | Ben_fail None \<Rightarrow> Ben_doc_crash
           | Ben_fail (Some f) \<Rightarrow> Ben_error (ben_report behind src errlen f)
           | Ben_crash \<Rightarrow> Ben_doc_crash
           | Ben_fuel \<Rightarrow> Ben_doc_fuel)"

section \<open>Writing\<close>

text \<open>The writer runs twice, first without a buffer to get the size. The results are the bytes it stores, none in the
  first run, and the length it returns. \<open>None\<close> is a map or list without its child message
  or a field of a map without a name; \<open>dbl\<close> is the conversion
  of a floating point number to an integer. The lengths, \<^verbatim>\<open>int\<close>s in the code, are taken to be below 2^31.\<close>

definition serialize_bytes :: "bytes \<Rightarrow> bool \<Rightarrow> bytes \<times> nat" where
  "serialize_bytes data ptr =
     (let buf = dec_nat (length data) @ cstr '':''
      in (if ptr then buf @ data else [], length buf + length data))"

definition ben_integer :: "u64 \<Rightarrow> bool \<Rightarrow> bytes \<times> nat" where
  "ben_integer v ptr =
     (let buf = cstr ''i'' @ dec_int (sint v) @ cstr ''e'' in (if ptr then buf else [], length buf))"

definition add_len :: "bytes \<times> nat \<Rightarrow> bytes \<times> nat \<Rightarrow> bytes \<times> nat" where
  "add_len a b = (fst a @ fst b, snd a + snd b)"

definition serialize_name :: "bool \<Rightarrow> htsmsg_field \<Rightarrow> bool \<Rightarrow> (bytes \<times> nat) option" where
  "serialize_name isarray f ptr =
     (if isarray then Some ([], 0)
      else case hmf_name f of None \<Rightarrow> None | Some n \<Rightarrow> Some (serialize_bytes (c_str n) ptr))"

fun bencode_serialize_r :: "(u64 \<Rightarrow> u64) \<Rightarrow> htsmsg \<Rightarrow> bool \<Rightarrow> (bytes \<times> nat) option"
and serialize_fields :: "(u64 \<Rightarrow> u64) \<Rightarrow> bool \<Rightarrow> htsmsg_field list \<Rightarrow> bool \<Rightarrow> (bytes \<times> nat) option"
and serialize_value :: "(u64 \<Rightarrow> u64) \<Rightarrow> htsmsg_field \<Rightarrow> bool \<Rightarrow> (bytes \<times> nat) option" where
  "bencode_serialize_r dbl (Htsmsg isarray fs) ptr =
     map_option
       (\<lambda>b. add_len (if ptr then cstr (if isarray then ''l'' else ''d'') else [], 1)
              (add_len b (if ptr then cstr ''e'' else [], 1)))
       (serialize_fields dbl isarray fs ptr)"
| "serialize_fields dbl isarray [] ptr = Some ([], 0)"
| "serialize_fields dbl isarray (f # fs) ptr =
     (case (serialize_name isarray f ptr, serialize_value dbl f ptr) of
        (Some k, Some v) \<Rightarrow> map_option (\<lambda>b. add_len k (add_len v b)) (serialize_fields dbl isarray fs ptr)
      | _ \<Rightarrow> None)"
| "serialize_value dbl (Field name u flags childs ns) ptr =
     (case u of
        HMF_S64 v \<Rightarrow> Some (ben_integer v ptr)
      | HMF_DBL d \<Rightarrow> Some (ben_integer (dbl d) ptr)
      | HMF_STR str \<Rightarrow> Some (serialize_bytes (c_str str) ptr)
      | HMF_BIN bin \<Rightarrow> Some (serialize_bytes bin ptr)
      | _ \<Rightarrow> (case childs of None \<Rightarrow> None | Some c \<Rightarrow> bencode_serialize_r dbl c ptr))"

text \<open>The size of the buffer, and the bytes the second run stores there.\<close>

definition bencode_serialize :: "(u64 \<Rightarrow> u64) \<Rightarrow> htsmsg \<Rightarrow> (nat \<times> bytes) option" where
  "bencode_serialize dbl src =
     (case (bencode_serialize_r dbl src False, bencode_serialize_r dbl src True) of
        (Some sz, Some b) \<Rightarrow> Some (snd sz, fst b)
      | _ \<Rightarrow> None)"

section \<open>Numbers\<close>

lemma digit_bytes: "is_digit c \<Longrightarrow> \<not> c < 48 \<and> \<not> 57 < c \<and> c \<noteq> 58 \<and> c \<noteq> 0x65"
  by (auto simp: is_digit_def)

text \<open>A step of the loops over digits, in the arithmetic of the type.\<close>

lemma digit_step:
  assumes "is_digit c"
  shows "of_nat a * 10 + ucast c - 48 = (of_nat (a * 10 + (unat c - 48)) :: 'a::len word)"
proof -
  have "48 \<le> unat c"
    using assms by (simp add: is_digit_unat)
  then have "(of_nat (unat c - 48) :: 'a word) = of_nat (unat c) - 48"
    by (simp add: of_nat_diff)
  moreover have "(of_nat (unat c) :: 'a word) = ucast c"
    by (simp add: unsigned_def)
  ultimately show ?thesis
    by (simp only: of_nat_add of_nat_mult) (simp add: algebra_simps)
qed

lemma binary_len_digits:
  "list_all is_digit ds \<Longrightarrow> binary_len (of_nat a) (ds @ 0x3a # t) = Ben_ok (of_nat (digits_value a ds)) t"
proof (induction ds arbitrary: a)
  case (Cons c ds)
  then have "binary_len (of_nat a) ((c # ds) @ 0x3a # t) = binary_len (of_nat (a * 10 + (unat c - 48))) (ds @ 0x3a # t)"
    using digit_bytes [of c] by (simp del: of_nat_add of_nat_mult add: digit_step)
  with Cons show ?case
    by (simp del: of_nat_add of_nat_mult)
qed simp

lemma integer_loop_digits:
  "list_all is_digit ds \<Longrightarrow> integer_loop (of_nat a) (ds @ 0x65 # t) = (of_nat (digits_value a ds), t)"
proof (induction ds arbitrary: a)
  case (Cons c ds)
  then have "integer_loop (of_nat a) ((c # ds) @ 0x65 # t) = integer_loop (of_nat (a * 10 + (unat c - 48))) (ds @ 0x65 # t)"
    using digit_bytes [of c] by (simp del: of_nat_add of_nat_mult add: digit_step)
  with Cons show ?case
    by (simp del: of_nat_add of_nat_mult)
qed simp

lemma parse_integer_print: "bencode_parse_integer (fst (ben_integer v True) @ z) = Some (v, z)"
proof (cases "sint v < 0")
  case True
  have "integer_loop 0 (dec_nat (nat (- sint v)) @ 0x65 # z) = (of_nat (nat (- sint v)), z)"
    using integer_loop_digits [OF dec_nat_digits, of 0 "nat (- sint v)"] by (simp add: digits_value_dec_nat)
  moreover have "- (of_nat (nat (- sint v)) :: u64) = v"
    using True by (simp add: of_nat_nat)
  ultimately show ?thesis
    using True by (simp add: bencode_parse_integer_def ben_integer_def dec_int_def)
next
  case False
  have "integer_loop 0 (dec_nat (nat (sint v)) @ 0x65 # z) = (of_nat (nat (sint v)), z)"
    using integer_loop_digits [OF dec_nat_digits, of 0 "nat (sint v)"] by (simp add: digits_value_dec_nat)
  moreover have "deref (dec_nat (nat (sint v))) \<noteq> 0x2d"
    using dec_nat_prefix(1) [of "nat (sint v)"] by (auto simp: is_digit_def)
  ultimately show ?thesis
    using False by (simp add: bencode_parse_integer_def ben_integer_def dec_int_def)
qed

lemma parse_binary_print:
  assumes "length x < 2 ^ 31" "z \<noteq> []"
  shows "bencode_parse_binary (fst (serialize_bytes x True) @ z) = Ben_ok x z"
proof -
  have "binary_len 0 (dec_nat (length x) @ 0x3a # x @ z) = Ben_ok (of_nat (length x)) (x @ z)"
    using binary_len_digits [OF dec_nat_digits, of 0 "length x"] by (simp add: digits_value_dec_nat)
  moreover have u: "unat (of_nat (length x) :: u32) = length x"
    using assms(1) by (simp add: unat_of_nat take_bit_nat_eq_self)
  moreover have "\<not> sint (of_nat (length x) :: u32) < 0"
    using assms(1) by (simp add: sint_uint unsigned_of_nat take_bit_nat_eq_self signed_take_bit_int_eq_self)
  ultimately show ?thesis
    using assms(2) by (simp add: bencode_parse_binary_def serialize_bytes_def)
qed

section \<open>The two passes of the writer\<close>

definition passes_agree :: "(bytes \<times> nat) option \<Rightarrow> (bytes \<times> nat) option \<Rightarrow> bool" where
  "passes_agree sized stored \<longleftrightarrow>
     (case (sized, stored) of
        (None, None) \<Rightarrow> True
      | (Some a, Some b) \<Rightarrow> a = ([], length (fst b)) \<and> snd b = length (fst b)
      | _ \<Rightarrow> False)"

lemma passes_agree_simps [simp]:
  "passes_agree (Some a) (Some b) \<longleftrightarrow> a = ([], length (fst b)) \<and> snd b = length (fst b)"
  "passes_agree None None"
  by (simp_all add: passes_agree_def)

lemma passes_agreeE:
  assumes "passes_agree a b"
  obtains "a = None" "b = None" | x where "a = Some ([], length x)" "b = Some (x, length x)"
  using assms by (cases a; cases b) (auto simp: passes_agree_def)

lemma passes_scalar:
  "passes_agree (Some (serialize_bytes x False)) (Some (serialize_bytes x True))"
  "passes_agree (Some (ben_integer v False)) (Some (ben_integer v True))"
  "passes_agree (serialize_name l f False) (serialize_name l f True)"
  by (simp_all add: serialize_bytes_def ben_integer_def serialize_name_def Let_def split: option.splits)

lemma serialize_passes:
  "passes_agree (bencode_serialize_r dbl m False) (bencode_serialize_r dbl m True)"
  "list_all (\<lambda>f. passes_agree (serialize_value dbl f False) (serialize_value dbl f True)) fs \<Longrightarrow>
   passes_agree (serialize_fields dbl l fs False) (serialize_fields dbl l fs True)"
  "passes_agree (serialize_value dbl f False) (serialize_value dbl f True)"
proof -
  show fields: "list_all (\<lambda>f. passes_agree (serialize_value dbl f False) (serialize_value dbl f True)) fs \<Longrightarrow>
    passes_agree (serialize_fields dbl l fs False) (serialize_fields dbl l fs True)" for fs l
  proof (induction fs)
    case (Cons f fs)
    then have "passes_agree (serialize_value dbl f False) (serialize_value dbl f True)"
      "passes_agree (serialize_fields dbl l fs False) (serialize_fields dbl l fs True)"
      by simp_all
    then show ?case
      using passes_scalar(3) [of l f] by (elim passes_agreeE) (simp_all add: add_len_def)
  qed simp
  show "passes_agree (bencode_serialize_r dbl m False) (bencode_serialize_r dbl m True)"
    "passes_agree (serialize_value dbl f False) (serialize_value dbl f True)"
  proof (induction m and f)
    case (Htsmsg l fs)
    then have "passes_agree (serialize_fields dbl l fs False) (serialize_fields dbl l fs True)"
      by (intro fields) (simp add: list_all_iff)
    then show ?case
      by (elim passes_agreeE) (simp_all add: add_len_def)
  next
    case (Field name u flags childs ns)
    then show ?case
      using passes_scalar by (auto split: hmf_value.split option.split)
  qed
qed

lemma serialize_wf:
  "htsmsg_wf m \<Longrightarrow> bencode_serialize_r dbl m True \<noteq> None"
  "field_wf l f \<Longrightarrow> serialize_name l f True \<noteq> None \<and> serialize_value dbl f True \<noteq> None"
proof (induction m and f arbitrary: and l)
  case (Htsmsg l fs)
  have "list_all (field_wf l) gs \<Longrightarrow> set gs \<subseteq> set fs \<Longrightarrow> serialize_fields dbl l gs True \<noteq> None" for gs
    using Htsmsg.IH by (induction gs) (fastforce split: option.splits)+
  then show ?case
    using Htsmsg.prems by auto
next
  case (Field name u flags childs ns)
  then show ?case
    by (auto simp: serialize_name_def split: hmf_value.splits option.splits)
qed

section \<open>Progress\<close>

lemma binary_len_shorter: "binary_len len s = Ben_ok l t \<Longrightarrow> length t < length s"
  by (induction len s rule: binary_len.induct) (auto split: if_splits)

lemma binary_len_cases: "binary_len len s \<noteq> Ben_fuel" "binary_len len s \<noteq> Ben_past l"
  by (induction len s rule: binary_len.induct) auto

lemma parse_binary_shorter:
  "bencode_parse_binary s = Ben_ok x t \<Longrightarrow> length t < length s"
  by (auto simp: bencode_parse_binary_def dest: binary_len_shorter split: ben.splits if_splits)

lemma parse_binary_cases: "bencode_parse_binary s \<noteq> Ben_fuel" "bencode_parse_binary s \<noteq> Ben_past x"
  by (auto simp: bencode_parse_binary_def split: ben.splits if_splits)

lemma parse_string_binary: "bencode_parse_string s = Ben_ok x t \<Longrightarrow> bencode_parse_binary s = Ben_ok x t \<and> nul_free x"
  by (auto simp: bencode_parse_string_def nul_free_def split: ben.splits if_splits)

lemma parse_string_shorter: "bencode_parse_string s = Ben_ok x t \<Longrightarrow> length t < length s"
  using parse_string_binary parse_binary_shorter by blast

lemma parse_string_cases: "bencode_parse_string s \<noteq> Ben_fuel" "bencode_parse_string s \<noteq> Ben_past x"
  using parse_binary_cases by (auto simp: bencode_parse_string_def split: ben.splits if_splits)

lemma integer_loop_shorter: "integer_loop v s = (w, t) \<Longrightarrow> length t \<le> length s"
  by (induction v s rule: integer_loop.induct) (auto split: if_splits)

lemma parse_integer_shorter:
  assumes "bencode_parse_integer s = Some (v, t)"
  shows "length t < length s"
proof -
  have "s \<noteq> []"
    using assms by (auto simp: bencode_parse_integer_def split: if_splits)
  moreover have "\<exists>w. integer_loop 0 (tl s) = (w, t) \<or> integer_loop 0 (tl (tl s)) = (w, t)"
    using assms by (auto simp: bencode_parse_integer_def Let_def split: if_splits prod.splits)
  ultimately show ?thesis
    by (cases s) (auto dest!: integer_loop_shorter)
qed

lemma ben_scalar_result:
  "ben_scalar s p name \<noteq> Ben_fuel"
  "ben_scalar s p name = Ben_ok r t \<Longrightarrow> length t < length s"
  using parse_binary_cases parse_binary_shorter parse_integer_shorter
  by (auto simp: ben_scalar_def split: ben.splits option.splits prod.splits)

lemma ben_finish_shorter: "ben_finish r s = Ben_ok q t \<Longrightarrow> length t < length s"
  by (auto simp: ben_finish_def split: list.splits)

lemma ben_finish_cases: "ben_finish r s \<noteq> Ben_fuel"
  by (auto simp: ben_finish_def split: list.splits)

text \<open>What the loops promise about their end carries over to the whole map or list.\<close>

lemma parse_map_shorter:
  assumes "\<And>s t. loop s = Ben_ok r t \<Longrightarrow> length t < length s"
    and "bencode_parse_map loop s = Ben_ok r t"
  shows "length t < length s"
  using assms by (cases s) (fastforce simp: bencode_parse_map_def split: if_splits dest: ben_finish_shorter)+

lemma parse_list_shorter:
  assumes "\<And>s t. loop s = Ben_ok r t \<Longrightarrow> length t < length s"
    and "bencode_parse_list loop s = Ben_ok r t"
  shows "length t < length s"
  using assms by (cases s) (fastforce simp: bencode_parse_list_def split: if_splits dest: ben_finish_shorter)+

lemma ben_sub_ok: "ben_sub p name r = Ben_ok q t \<Longrightarrow> \<exists>c. r = Ben_ok c t"
  by (auto simp: ben_sub_def split: ben.splits)

lemma ben_sub_fuel: "ben_sub p name r = Ben_fuel \<longleftrightarrow> r = Ben_fuel"
  by (auto simp: ben_sub_def split: ben.splits)

text \<open>The steps of the loops, and the ways a value is read.\<close>

lemma map_loop_ok:
  assumes "map_loop (Suc n) nxt r calls s = Ben_ok q t"
  obtains x u r' v where "bencode_parse_string s = Ben_ok x u" "bencode_parse_value n nxt u r (Some x) = Ben_ok r' v"
    "ben_finish (r', calls @ [(x, take (length u - length v) u)]) v = Ben_ok q t \<or>
     map_loop n nxt r' (calls @ [(x, take (length u - length v) u)]) v = Ben_ok q t"
  using assms by (simp add: Let_def split: ben.splits if_splits)

lemma list_loop_ok:
  assumes "list_loop (Suc n) nxt r s = Ben_ok q t"
  obtains r' v where "bencode_parse_value n nxt s r None = Ben_ok r' v"
    "ben_finish (r', []) v = Ben_ok q t \<or> list_loop n nxt r' v = Ben_ok q t"
  using assms by (simp split: ben.splits if_splits)

lemma parse_value_cases:
  assumes "bencode_parse_value (Suc n) nxt s p name = q"
  obtains "s = []" "q = Ben_fail None"
  | "s \<noteq> []" "q = ben_sub p name (bencode_parse_map (map_loop n nxt htsmsg_create_map []) s)"
  | "s \<noteq> []" "q = ben_sub p name (bencode_parse_list (list_loop n nxt htsmsg_create_list) s)"
  | "s \<noteq> []" "q = ben_scalar s p name"
  using assms by (simp split: ben.splits if_splits)

lemma parse_loops_fuel:
  "loop (tl s) \<noteq> Ben_fuel \<Longrightarrow> bencode_parse_map loop s \<noteq> Ben_fuel"
  "loop (tl s) \<noteq> Ben_fuel \<Longrightarrow> bencode_parse_list loop s \<noteq> Ben_fuel"
  by (simp_all add: bencode_parse_map_def bencode_parse_list_def ben_finish_cases)

lemma parse_shorter:
  "bencode_parse_value n nxt s p name = Ben_ok q t \<Longrightarrow> length t < length s"
  "map_loop n nxt r calls s = Ben_ok q1 t \<Longrightarrow> length t < length s"
  "list_loop n nxt r s = Ben_ok q1 t \<Longrightarrow> length t < length s"
proof (induction n arbitrary: s p name q t r calls q1)
  case (Suc n)
  {
    case 1
    then show ?case
    proof (cases rule: parse_value_cases)
      case 2
      then obtain c where "bencode_parse_map (map_loop n nxt htsmsg_create_map []) s = Ben_ok c t"
        using ben_sub_ok by metis
      then show ?thesis
        by (rule parse_map_shorter [rotated]) (rule Suc.IH(2))
    next
      case 3
      then obtain c where "bencode_parse_list (list_loop n nxt htsmsg_create_list) s = Ben_ok c t"
        using ben_sub_ok by metis
      then show ?thesis
        by (rule parse_list_shorter [rotated]) (rule Suc.IH(3))
    qed (simp, metis ben_scalar_result(2))
  next
    case 2
    then show ?case
    proof (rule map_loop_ok)
      fix x u r' v
      assume s: "bencode_parse_string s = Ben_ok x u" and v: "bencode_parse_value n nxt u r (Some x) = Ben_ok r' v"
        and t: "ben_finish (r', calls @ [(x, take (length u - length v) u)]) v = Ben_ok q1 t \<or>
          map_loop n nxt r' (calls @ [(x, take (length u - length v) u)]) v = Ben_ok q1 t"
      show ?thesis
        using parse_string_shorter [OF s] Suc.IH(1) [OF v] t by (auto dest: ben_finish_shorter Suc.IH(2))
    qed
  next
    case 3
    then show ?case
      by (elim list_loop_ok) (fastforce dest: ben_finish_shorter Suc.IH(1) Suc.IH(3))
  }
qed simp_all

text \<open>A step of a loop reads a byte at least, and a value needs a step for itself and one for each loop.\<close>

lemma enough_fuel:
  "2 * length s < n \<Longrightarrow> bencode_parse_value n nxt s p name \<noteq> Ben_fuel"
  "2 * length s + 1 < n \<Longrightarrow> map_loop n nxt r calls s \<noteq> Ben_fuel"
  "2 * length s + 1 < n \<Longrightarrow> list_loop n nxt r s \<noteq> Ben_fuel"
proof (induction n arbitrary: s p name r calls)
  case (Suc n)
  {
    case 1
    then have "s = [] \<or> 2 * length (tl s) + 1 < n"
      by (cases s) simp_all
    then have "s \<noteq> [] \<Longrightarrow> bencode_parse_map (map_loop n nxt htsmsg_create_map []) s \<noteq> Ben_fuel"
      "s \<noteq> [] \<Longrightarrow> bencode_parse_list (list_loop n nxt htsmsg_create_list) s \<noteq> Ben_fuel"
      using Suc.IH(2,3) [of "tl s"] parse_loops_fuel by blast+
    then show ?case
      using ben_scalar_result(1) [of s p name]
      by (cases rule: parse_value_cases [where n = n and nxt = nxt and s = s and p = p and name = name, OF refl]) (simp_all only: ben_sub_fuel, simp_all)
  next
    case 2
    have "bencode_parse_string s = Ben_ok x u \<Longrightarrow> bencode_parse_value n nxt u r (Some x) \<noteq> Ben_fuel" for x u
      using 2 Suc.IH(1) [of u] parse_string_shorter [of s x u] by simp
    moreover have "bencode_parse_string s = Ben_ok x u \<Longrightarrow> bencode_parse_value n nxt u r (Some x) = Ben_ok q t \<Longrightarrow>
        map_loop n nxt q c t \<noteq> Ben_fuel" for x u q t c
      using 2 Suc.IH(2) [of t] parse_string_shorter [of s x u] parse_shorter(1) [of n nxt u r "Some x" q t] by simp
    ultimately show ?case
      by (auto simp: Let_def ben_finish_cases parse_string_cases split: ben.splits if_splits)
  next
    case 3
    have "bencode_parse_value n nxt s r None \<noteq> Ben_fuel"
      using 3 Suc.IH(1) [of s] by simp
    moreover have "bencode_parse_value n nxt s r None = Ben_ok q t \<Longrightarrow> list_loop n nxt q t \<noteq> Ben_fuel" for q t
      using 3 Suc.IH(3) [of t] parse_shorter(1) [of n nxt s r None q t] by simp
    ultimately show ?case
      by (auto simp: ben_finish_cases split: ben.splits if_splits)
  }
qed simp_all

section \<open>The messages that come out\<close>

text \<open>A property of the result, when there is one.\<close>

definition ben_result :: "('a \<Rightarrow> bool) \<Rightarrow> 'a ben \<Rightarrow> bool" where
  "ben_result P r = (case r of Ben_ok x _ \<Rightarrow> P x | Ben_past x \<Rightarrow> P x | _ \<Rightarrow> True)"

lemma ben_result_simps [simp]:
  "ben_result P (Ben_ok x t) = P x" "ben_result P (Ben_past x) = P x" "ben_result P (Ben_fail f)"
  "ben_result P Ben_not_this_type" "ben_result P Ben_crash" "ben_result P Ben_fuel"
  "ben_result P (ben_finish x s) = P x"
  by (simp_all add: ben_result_def ben_finish_def split: list.split)

text \<open>A value was added to the message.\<close>

definition extended :: "htsmsg \<Rightarrow> bytes option \<Rightarrow> htsmsg \<Rightarrow> bool" where
  "extended p name q \<longleftrightarrow>
     htsmsg_wf q \<and> hm_islist q = hm_islist p \<and> map hmf_name (hm_fields q) = map hmf_name (hm_fields p) @ [name]"

definition takes :: "htsmsg \<Rightarrow> bytes option \<Rightarrow> bool" where
  "takes p name \<longleftrightarrow> htsmsg_wf p \<and> (case name of None \<Rightarrow> hm_islist p | Some n \<Rightarrow> \<not> hm_islist p \<and> nul_free n)"

text \<open>The message of a document and the calls that were made for it, one for each field of a map.\<close>

definition doc_ok :: "bool \<Rightarrow> htsmsg \<times> ben_calls \<Rightarrow> bool" where
  "doc_ok l d \<longleftrightarrow>
     htsmsg_wf (fst d) \<and> hm_islist (fst d) = l \<and>
     (if l then snd d = [] else map hmf_name (hm_fields (fst d)) = map (Some \<circ> fst) (snd d))"

lemma ben_add_extended:
  "takes p name \<Longrightarrow> value_ok u c \<Longrightarrow> extended p name (ben_add p (htsmsg_field_add p name u flags c))"
  by (auto simp: takes_def extended_def ben_add_def htsmsg_field_add_def htsmsg_wf_iff field_wf_iff
      split: option.splits)

lemma ben_scalar_extended: "takes p name \<Longrightarrow> ben_result (extended p name) (ben_scalar s p name)"
  by (auto simp: ben_scalar_def htsmsg_add_s64_def htsmsg_add_str_def htsmsg_add_bin_def
      intro!: ben_add_extended split: option.split prod.split ben.split)

lemma add_msg_extended:
  "takes p name \<Longrightarrow> htsmsg_wf c \<Longrightarrow> extended p name (ben_add p (htsmsg_add_msg p name c))"
  by (simp add: htsmsg_add_msg_def ben_add_extended)

lemma ben_sub_extended:
  "takes p name \<Longrightarrow> ben_result (doc_ok l) r \<Longrightarrow> ben_result (extended p name) (ben_sub p name r)"
  by (cases r) (auto simp: ben_sub_def doc_ok_def add_msg_extended split: prod.split)

lemma create_ok: "doc_ok False (htsmsg_create_map, [])" "doc_ok True (htsmsg_create_list, [])"
  by (simp_all add: doc_ok_def htsmsg_create_map_def htsmsg_create_list_def)

lemma parse_map_ok: "ben_result (doc_ok False) (loop (tl s)) \<Longrightarrow> ben_result (doc_ok False) (bencode_parse_map loop s)"
  by (simp add: bencode_parse_map_def create_ok)

lemma parse_list_ok: "ben_result (doc_ok True) (loop (tl s)) \<Longrightarrow> ben_result (doc_ok True) (bencode_parse_list loop s)"
  by (simp add: bencode_parse_list_def create_ok)

lemma doc_ok_step:
  "doc_ok False (r, calls) \<Longrightarrow> extended r (Some x) r' \<Longrightarrow> doc_ok False (r', calls @ [(x, b)])"
  "doc_ok True (r, []) \<Longrightarrow> extended r None r' \<Longrightarrow> doc_ok True (r', [])"
  by (simp_all add: doc_ok_def extended_def)

lemma parse_wf:
  "takes p name \<Longrightarrow> ben_result (extended p name) (bencode_parse_value n nxt s p name)"
  "doc_ok False (r, calls) \<Longrightarrow> ben_result (doc_ok False) (map_loop n nxt r calls s)"
  "doc_ok True (r, []) \<Longrightarrow> ben_result (doc_ok True) (list_loop n nxt r s)"
proof (induction n arbitrary: s p name r calls)
  case (Suc n)
  {
    case 1
    then show ?case
      using ben_sub_extended [OF 1 parse_map_ok [OF Suc.IH(2) [OF create_ok(1)]]]
        ben_sub_extended [OF 1 parse_list_ok [OF Suc.IH(3) [OF create_ok(2)]]] ben_scalar_extended [OF 1]
      by (cases rule: parse_value_cases [where n = n and nxt = nxt and s = s and p = p and name = name, OF refl])
        (simp_all only: ben_result_simps)
  next
    case (2 s r calls)
    have "doc_ok False (r', calls @ [(x, b)])"
      if "bencode_parse_string s = Ben_ok x u" "bencode_parse_value n nxt u r (Some x) = Ben_ok r' v" for x u r' v b
      using 2 that parse_string_binary [of s x u] Suc.IH(1) [of r "Some x" u]
      by (intro doc_ok_step) (simp_all add: takes_def doc_ok_def)
    then show ?case
      by (auto simp: Let_def Suc.IH(2) split: ben.split)
  next
    case (3 s r)
    have "doc_ok True (r', [])" if "bencode_parse_value n nxt s r None = Ben_ok r' v" for r' v
    proof (rule doc_ok_step(2))
      show "doc_ok True (r, [])"
        by (rule 3)
      show "extended r None r'"
        using 3 that Suc.IH(1) [of r None s] by (simp add: takes_def doc_ok_def)
    qed
    then show ?case
      by (cases "bencode_parse_value n nxt s r None") (simp_all add: Suc.IH(3))
  }
qed simp_all

lemma document_ok:
  fixes s nxt
  defines "n \<equiv> 2 * length s"
  defines "m \<equiv> bencode_parse_map (map_loop n nxt htsmsg_create_map []) s"
    and "l \<equiv> bencode_parse_list (list_loop n nxt htsmsg_create_list) s"
  shows "ben_result (doc_ok False) m" "ben_result (doc_ok True) l" "s \<noteq> [] \<Longrightarrow> m \<noteq> Ben_fuel \<and> l \<noteq> Ben_fuel"
    "m = Ben_ok d t \<or> l = Ben_ok d t \<Longrightarrow> length t < length s"
proof -
  show "ben_result (doc_ok False) m" "ben_result (doc_ok True) l"
    using parse_map_ok parse_list_ok parse_wf create_ok by (simp_all add: m_def l_def)
  show "m \<noteq> Ben_fuel \<and> l \<noteq> Ben_fuel" if "s \<noteq> []"
    using that enough_fuel(2,3) [of "tl s" n nxt] by (cases s) (simp_all add: n_def m_def l_def parse_loops_fuel)
  show "length t < length s" if "m = Ben_ok d t \<or> l = Ben_ok d t"
    using that unfolding m_def l_def
    by (elim disjE) (rule parse_map_shorter [rotated] parse_list_shorter [rotated], assumption, erule parse_shorter)+
qed


section \<open>Reading what was written\<close>

text \<open>The messages the format can carry, and what comes back: a number for a floating point number, a string for
  bytes without control characters and bytes for a string with one.\<close>

fun ben_ok :: "htsmsg \<Rightarrow> bool" and ben_field_ok :: "bool \<Rightarrow> htsmsg_field \<Rightarrow> bool" where
  "ben_ok (Htsmsg l fs) = list_all (\<lambda>f. ben_field_ok l f) fs"
| "ben_field_ok l (Field name u flags childs ns) =
     ((case name of None \<Rightarrow> l | Some n \<Rightarrow> \<not> l \<and> nul_free n \<and> length n < 2 ^ 31) \<and>
      (case u of
         HMF_MAP \<Rightarrow> (case childs of None \<Rightarrow> False | Some c \<Rightarrow> \<not> hm_islist c \<and> ben_ok c)
       | HMF_LIST \<Rightarrow> (case childs of None \<Rightarrow> False | Some c \<Rightarrow> hm_islist c \<and> ben_ok c)
       | HMF_STR str \<Rightarrow> nul_free str \<and> length str < 2 ^ 31
       | HMF_BIN bin \<Rightarrow> length bin < 2 ^ 31
       | _ \<Rightarrow> True))"

definition ben_read_bytes :: "bytes option \<Rightarrow> bytes \<Rightarrow> htsmsg_field" where
  "ben_read_bytes name x =
     Field name (if list_all (\<lambda>c. 0x20 \<le> c) x then HMF_STR x else HMF_BIN x) (HMF_ALLOCED OR HMF_NAME_ALLOCED) None None"

fun ben_read :: "(u64 \<Rightarrow> u64) \<Rightarrow> htsmsg \<Rightarrow> htsmsg"
and ben_read_field :: "(u64 \<Rightarrow> u64) \<Rightarrow> htsmsg_field \<Rightarrow> htsmsg_field" where
  "ben_read dbl (Htsmsg l fs) = Htsmsg l (map (\<lambda>f. ben_read_field dbl f) fs)"
| "ben_read_field dbl (Field name u flags childs ns) =
     (case u of
        HMF_S64 v \<Rightarrow> Field name (HMF_S64 v) HMF_NAME_ALLOCED None None
      | HMF_DBL d \<Rightarrow> Field name (HMF_S64 (dbl d)) HMF_NAME_ALLOCED None None
      | HMF_STR str \<Rightarrow> ben_read_bytes name str
      | HMF_BIN bin \<Rightarrow> ben_read_bytes name bin
      | _ \<Rightarrow> Field name u HMF_NAME_ALLOCED (map_option (\<lambda>c. ben_read dbl c) childs) None)"

text \<open>The bytes of a value, which the callback gets with its name.\<close>

definition value_bytes :: "(u64 \<Rightarrow> u64) \<Rightarrow> htsmsg_field \<Rightarrow> bytes" where
  "value_bytes dbl f = (case serialize_value dbl f True of None \<Rightarrow> [] | Some b \<Rightarrow> fst b)"

definition named_value :: "(u64 \<Rightarrow> u64) \<Rightarrow> htsmsg_field \<Rightarrow> bytes \<times> bytes" where
  "named_value dbl f = ((case hmf_name f of None \<Rightarrow> [] | Some n \<Rightarrow> n), value_bytes dbl f)"

lemma field_ok_name:
  "ben_field_ok l f \<Longrightarrow> l = (hmf_name f = None) \<and> map_option c_str (hmf_name f) = hmf_name f"
  by (cases f) (auto split: option.splits)

lemma add_named:
  "hm_islist p = (name = None) \<Longrightarrow> map_option c_str name = name \<Longrightarrow>
   htsmsg_field_add p name u flags c = Some (Htsmsg (hm_islist p) (hm_fields p @ [Field name u flags c None]))"
  by (auto simp: htsmsg_field_add_def)

text \<open>A value that is no map or list.\<close>

lemma scalar_first:
  assumes "is_digit (deref s) \<or> deref s = chr CHR ''i''"
  shows "bencode_parse_value (Suc n) nxt s p name = ben_scalar s p name"
  using assms by (cases s) (auto simp: bencode_parse_map_def bencode_parse_list_def is_digit_def)

lemma bytes_digit: "is_digit (deref (fst (serialize_bytes x True) @ z))"
  using dec_nat_prefix(1) [of "length x"] by (simp add: serialize_bytes_def)

lemma scalar_read:
  assumes "hm_islist p = (name = None)" "map_option c_str name = name"
  shows "bencode_parse_value (Suc n) nxt (fst (ben_integer v True) @ z) p name =
      Ben_ok (Htsmsg (hm_islist p) (hm_fields p @ [Field name (HMF_S64 v) HMF_NAME_ALLOCED None None])) z"
    and "length x < 2 ^ 31 \<Longrightarrow> z \<noteq> [] \<Longrightarrow> bencode_parse_value (Suc n) nxt (fst (serialize_bytes x True) @ z) p name =
      Ben_ok (Htsmsg (hm_islist p) (hm_fields p @ [ben_read_bytes name x])) z"
proof -
  have i: "deref (fst (ben_integer v True) @ z) = chr CHR ''i''"
    by (simp add: ben_integer_def)
  show "bencode_parse_value (Suc n) nxt (fst (ben_integer v True) @ z) p name =
      Ben_ok (Htsmsg (hm_islist p) (hm_fields p @ [Field name (HMF_S64 v) HMF_NAME_ALLOCED None None])) z"
    unfolding scalar_first [OF disjI2 [OF i]] ben_scalar_def parse_integer_print
    by (simp add: ben_add_def htsmsg_add_s64_def add_named [OF assms(1,2)])
  assume x: "length x < 2 ^ 31" "z \<noteq> []"
  have "bencode_parse_integer (fst (serialize_bytes x True) @ z) = None"
    using bytes_digit [of x z] by (auto simp: bencode_parse_integer_def is_digit_def)
  moreover have "c_str x = x" if "list_all (\<lambda>c. 0x20 \<le> c) x"
    using that by (intro c_str_nul_free) (auto simp: nul_free_def list_all_iff)
  ultimately show "bencode_parse_value (Suc n) nxt (fst (serialize_bytes x True) @ z) p name =
      Ben_ok (Htsmsg (hm_islist p) (hm_fields p @ [ben_read_bytes name x])) z"
    unfolding scalar_first [OF disjI1 [OF bytes_digit]]
    by (simp add: ben_scalar_def parse_binary_print [OF x] ben_add_def htsmsg_add_str_def
        htsmsg_add_bin_def add_named [OF assms(1,2)] ben_read_bytes_def)
qed

text \<open>A message is a document: a map or a list.\<close>

definition ben_document :: "nat \<Rightarrow> u8 \<Rightarrow> bytes \<Rightarrow> (htsmsg \<times> ben_calls) ben" where
  "ben_document n nxt s =
     (case bencode_parse_map (map_loop n nxt htsmsg_create_map []) s of
        Ben_not_this_type \<Rightarrow> bencode_parse_list (list_loop n nxt htsmsg_create_list) s
      | r \<Rightarrow> r)"

lemma message_read:
  assumes "ben_document n nxt s = Ben_ok (c, calls) z" "s \<noteq> []"
    and "hm_islist p = (name = None)" "map_option c_str name = name"
  shows "bencode_parse_value (Suc n) nxt s p name =
    Ben_ok (Htsmsg (hm_islist p)
      (hm_fields p @ [Field name (if hm_islist c then HMF_LIST else HMF_MAP) HMF_NAME_ALLOCED (Some c) None])) z"
  using assms(1,2) unfolding ben_document_def
  by (auto simp: ben_sub_def ben_add_def htsmsg_add_msg_def add_named [OF assms(3,4)] split: ben.splits)

lemma peek_append [simp]: "peek nxt (s @ t) = (if s = [] then peek nxt t else deref s)"
  by (cases s) (simp_all add: peek_def)

lemma peek_Cons [simp]: "peek nxt (c # s) = c"
  by (simp add: peek_def)

lemma value_first:
  assumes "serialize_value dbl f True = Some b"
  shows "fst b \<noteq> [] \<and> deref (fst b) \<noteq> chr CHR ''e''"
proof -
  have "fst b \<noteq> [] \<and> deref (fst b) \<noteq> chr CHR ''e''" if "bencode_serialize_r dbl m True = Some b" for m
    using that by (cases m) (auto simp: add_len_def split: if_splits)
  moreover have "fst (serialize_bytes x True) \<noteq> [] \<and> deref (fst (serialize_bytes x True)) \<noteq> chr CHR ''e''" for x
    using bytes_digit [of x "[]"] by (auto simp: serialize_bytes_def is_digit_def)
  ultimately show ?thesis
    using assms by (cases f) (auto simp: ben_integer_def split: hmf_value.splits option.splits)
qed


text \<open>A value is read back wherever it stands.\<close>

definition reads_back :: "(u64 \<Rightarrow> u64) \<Rightarrow> u8 \<Rightarrow> htsmsg_field \<Rightarrow> bool" where
  "reads_back dbl nxt f \<longleftrightarrow>
     (\<forall>n p z b.
        hm_islist p = (hmf_name f = None) \<longrightarrow> z \<noteq> [] \<longrightarrow> serialize_value dbl f True = Some b \<longrightarrow>
        2 * length (fst b @ z) < n \<longrightarrow>
        bencode_parse_value n nxt (fst b @ z) p (hmf_name f) =
          Ben_ok (Htsmsg (hm_islist p) (hm_fields p @ [ben_read_field dbl f])) z)"

lemma reads_backD:
  "reads_back dbl nxt f \<Longrightarrow> hm_islist p = (hmf_name f = None) \<Longrightarrow> z \<noteq> [] \<Longrightarrow> serialize_value dbl f True = Some (v, k) \<Longrightarrow>
   2 * length (v @ z) < n \<Longrightarrow>
   bencode_parse_value n nxt (v @ z) p (hmf_name f) = Ben_ok (Htsmsg (hm_islist p) (hm_fields p @ [ben_read_field dbl f])) z"
  unfolding reads_back_def by fastforce

lemma parse_name_print:
  "nul_free x \<Longrightarrow> length x < 2 ^ 31 \<Longrightarrow> z \<noteq> [] \<Longrightarrow>
   bencode_parse_string (fst (serialize_bytes x True) @ z) = Ben_ok x z"
  by (simp add: bencode_parse_string_def parse_binary_print nul_free_def)

lemma serialize_fields_Cons:
  assumes "serialize_fields dbl l (f # fs) True = Some b"
  obtains k v b' kn vn bn where "serialize_name l f True = Some (k, kn)" "serialize_value dbl f True = Some (v, vn)"
    "serialize_fields dbl l fs True = Some (b', bn)" "fst b = k @ v @ b'"
  using assms by (auto simp: add_len_def split: option.splits)

lemma e_no_digit: "\<not> is_digit (chr CHR ''e'')"
  by (simp add: is_digit_def)

text \<open>The next field does not begin like the end of its message.\<close>

lemma fields_first:
  assumes "serialize_fields dbl l fs True = Some b" "fs \<noteq> []"
  shows "fst b \<noteq> [] \<and> deref (fst b) \<noteq> chr CHR ''e''"
proof -
  obtain f gs where "fs = f # gs"
    using assms(2) by (cases fs) auto
  with assms(1) obtain k v b' kn vn bn where b: "serialize_name l f True = Some (k, kn)"
      "serialize_value dbl f True = Some (v, vn)" "fst b = k @ v @ b'"
    using serialize_fields_Cons by metis
  have "k = [] \<or> is_digit (deref k)"
  proof (cases "hmf_name f")
    case (Some x)
    then show ?thesis
      using b(1) bytes_digit [of "c_str x" "[]"] by (cases "serialize_bytes (c_str x) True") (simp add: serialize_name_def split: if_splits)
  qed (use b(1) in \<open>simp add: serialize_name_def split: if_splits\<close>)
  then have "k = [] \<or> k \<noteq> [] \<and> deref k \<noteq> chr CHR ''e''"
    using e_no_digit by auto
  then show ?thesis
    using value_first [OF b(2)] b(3) by auto
qed

lemma list_loop_read:
  assumes "list_all (\<lambda>f. hmf_name f = None \<and> reads_back dbl nxt f) fs" "fs \<noteq> []"
    and "serialize_fields dbl True fs True = Some b" "2 * length (fst b @ chr CHR ''e'' # z) + 1 < n"
  shows "list_loop n nxt (Htsmsg True gs) (fst b @ chr CHR ''e'' # z) =
    Ben_ok (Htsmsg True (gs @ map (\<lambda>f. ben_read_field dbl f) fs), []) z"
  using assms
proof (induction fs arbitrary: gs b n)
  case (Cons f fs)
  from Cons.prems(3) obtain k v b' kn vn bn where b: "serialize_name True f True = Some (k, kn)"
      "serialize_value dbl f True = Some (v, vn)" "serialize_fields dbl True fs True = Some (b', bn)" "fst b = k @ v @ b'"
    by (rule serialize_fields_Cons)
  then have k: "k = []"
    by (simp add: serialize_name_def)
  obtain m where n: "n = Suc m"
    using Cons.prems(4) by (cases n) auto
  have v: "bencode_parse_value m nxt (v @ b' @ chr CHR ''e'' # z) (Htsmsg True gs) None =
      Ben_ok (Htsmsg True (gs @ [ben_read_field dbl f])) (b' @ chr CHR ''e'' # z)"
    using reads_backD [of dbl nxt f "Htsmsg True gs" "b' @ chr CHR ''e'' # z", OF _ _ _ b(2)] Cons.prems(1,4) b(4) k n
    by simp
  show ?case
  proof (cases "fs = []")
    case True
    then show ?thesis
      using v b k n by (simp add: ben_finish_def)
  next
    case False
    have "v \<noteq> []"
      using value_first [OF b(2)] by simp
    then have "list_loop m nxt (Htsmsg True (gs @ [ben_read_field dbl f])) (b' @ chr CHR ''e'' # z) =
        Ben_ok (Htsmsg True ((gs @ [ben_read_field dbl f]) @ map (\<lambda>f. ben_read_field dbl f) fs), []) z"
      using Cons.IH [OF _ False b(3), of m] Cons.prems(1,4) b(4) k n by (cases v) simp_all
    then show ?thesis
      using v fields_first [OF b(3) False] b k n by simp
  qed
qed simp

lemma map_loop_read:
  assumes "list_all (\<lambda>f. ben_field_ok False f \<and> reads_back dbl nxt f) fs" "fs \<noteq> []"
    and "serialize_fields dbl False fs True = Some b" "2 * length (fst b @ chr CHR ''e'' # z) + 1 < n"
  shows "map_loop n nxt (Htsmsg False gs) calls (fst b @ chr CHR ''e'' # z) =
    Ben_ok (Htsmsg False (gs @ map (\<lambda>f. ben_read_field dbl f) fs), calls @ map (named_value dbl) fs) z"
  using assms
proof (induction fs arbitrary: gs calls b n)
  case (Cons f fs)
  from Cons.prems(3) obtain k v b' kn vn bn where b: "serialize_name False f True = Some (k, kn)"
      "serialize_value dbl f True = Some (v, vn)" "serialize_fields dbl False fs True = Some (b', bn)" "fst b = k @ v @ b'"
    by (rule serialize_fields_Cons)
  obtain x where x: "hmf_name f = Some x" "nul_free x" "length x < 2 ^ 31"
    using Cons.prems(1) by (cases f) (auto split: option.splits)
  then have k: "k = fst (serialize_bytes x True)"
    using b(1) by (simp add: serialize_name_def)
  obtain m where n: "n = Suc m"
    using Cons.prems(4) by (cases n) auto
  have ne: "v \<noteq> []" "k \<noteq> []"
    using value_first [OF b(2)] by (auto simp: k serialize_bytes_def)
  have s: "bencode_parse_string (k @ v @ b' @ chr CHR ''e'' # z) = Ben_ok x (v @ b' @ chr CHR ''e'' # z)"
    using x by (simp add: k parse_name_print)
  have v: "bencode_parse_value m nxt (v @ b' @ chr CHR ''e'' # z) (Htsmsg False gs) (Some x) =
      Ben_ok (Htsmsg False (gs @ [ben_read_field dbl f])) (b' @ chr CHR ''e'' # z)"
    using reads_backD [of dbl nxt f "Htsmsg False gs" "b' @ chr CHR ''e'' # z", OF _ _ _ b(2)] Cons.prems(1,4) b(4) n x(1)
    by simp
  have c: "named_value dbl f = (x, v)"
    using x(1) b(2) by (simp add: named_value_def value_bytes_def)
  show ?case
  proof (cases "fs = []")
    case True
    then show ?thesis
      using s v b n c by (simp add: ben_finish_def)
  next
    case False
    have "map_loop m nxt (Htsmsg False (gs @ [ben_read_field dbl f])) (calls @ [(x, v)]) (b' @ chr CHR ''e'' # z) =
        Ben_ok (Htsmsg False ((gs @ [ben_read_field dbl f]) @ map (\<lambda>f. ben_read_field dbl f) fs),
          (calls @ [(x, v)]) @ map (named_value dbl) fs) z"
      using Cons.IH [OF _ False b(3), of m] Cons.prems(1,4) b(4) n ne by (cases v) simp_all
    then show ?thesis
      using s v fields_first [OF b(3) False] b n c by simp
  qed
qed simp

lemma document_empty: "ben_document n nxt (chr CHR ''d'' # chr CHR ''e'' # z) = Ben_ok (htsmsg_create_map, []) z"
  "ben_document n nxt (chr CHR ''l'' # chr CHR ''e'' # z) = Ben_ok (htsmsg_create_list, []) z"
  by (simp_all add: ben_document_def bencode_parse_map_def bencode_parse_list_def ben_finish_def)

lemma document_fields:
  "s \<noteq> [] \<Longrightarrow> deref s \<noteq> chr CHR ''e'' \<Longrightarrow> ben_document n nxt (chr CHR ''d'' # s) =
     (case map_loop n nxt htsmsg_create_map [] s of Ben_not_this_type \<Rightarrow> Ben_not_this_type | r \<Rightarrow> r)"
  "s \<noteq> [] \<Longrightarrow> deref s \<noteq> chr CHR ''e'' \<Longrightarrow>
     ben_document n nxt (chr CHR ''l'' # s) = list_loop n nxt htsmsg_create_list s"
  by (simp_all add: ben_document_def bencode_parse_map_def bencode_parse_list_def split: ben.split)

definition top_calls :: "(u64 \<Rightarrow> u64) \<Rightarrow> htsmsg \<Rightarrow> ben_calls" where
  "top_calls dbl m = (if hm_islist m then [] else map (named_value dbl) (hm_fields m))"

lemma document_read:
  assumes "list_all (\<lambda>f. ben_field_ok l f \<and> reads_back dbl nxt f) fs"
    and "bencode_serialize_r dbl (Htsmsg l fs) True = Some b" "2 * length (fst b @ z) \<le> n"
  shows "ben_document n nxt (fst b @ z) = Ben_ok (ben_read dbl (Htsmsg l fs), top_calls dbl (Htsmsg l fs)) z"
proof -
  obtain b' where b: "serialize_fields dbl l fs True = Some b'"
      "fst b = chr (if l then CHR ''l'' else CHR ''d'') # fst b' @ [chr CHR ''e'']"
    using assms(2) by (cases l) (auto simp: add_len_def)
  show ?thesis
  proof (cases "fs = []")
    case True
    then show ?thesis
      using b document_empty by (cases l) (auto simp: htsmsg_create_map_def htsmsg_create_list_def top_calls_def)
  next
    case False
    note first = fields_first [OF b(1) False]
    show ?thesis
    proof (cases l)
      case True
      have "list_all (\<lambda>f. hmf_name f = None \<and> reads_back dbl nxt f) fs"
        using assms(1) True field_ok_name by (auto simp: list_all_iff)
      then have "list_loop n nxt (Htsmsg True []) (fst b' @ chr CHR ''e'' # z) =
          Ben_ok (Htsmsg True ([] @ map (\<lambda>f. ben_read_field dbl f) fs), []) z"
        using b assms(3) True False by (intro list_loop_read) simp_all
      then show ?thesis
        using first True b(2) document_fields(2) [of "fst b' @ chr CHR ''e'' # z" n nxt]
        by (simp add: htsmsg_create_list_def top_calls_def)
    next
      case l: False
      have "map_loop n nxt (Htsmsg False []) [] (fst b' @ chr CHR ''e'' # z) =
          Ben_ok (Htsmsg False ([] @ map (\<lambda>f. ben_read_field dbl f) fs), [] @ map (named_value dbl) fs) z"
        using b assms(1,3) l False by (intro map_loop_read) simp_all
      then show ?thesis
        using first l b(2) document_fields(1) [of "fst b' @ chr CHR ''e'' # z" n nxt]
        by (simp add: htsmsg_create_map_def top_calls_def)
    qed
  qed
qed

lemma ben_read_islist [simp]: "hm_islist (ben_read dbl m) = hm_islist m"
  by (cases m) simp

lemma all_read_back:
  "ben_ok m \<Longrightarrow> list_all (\<lambda>f. ben_field_ok (hm_islist m) f \<and> reads_back dbl nxt f) (hm_fields m)"
  "ben_field_ok l f \<Longrightarrow> reads_back dbl nxt f"
proof (induction m and f arbitrary: and l)
  case (Htsmsg l fs)
  then show ?case
    by (auto simp: list_all_iff)
next
  case (Field name u flags childs ns)
  have name: "map_option c_str name = name"
    using field_ok_name [OF Field.prems] by simp
  show ?case
    unfolding reads_back_def
  proof (intro allI impI)
    fix n :: nat and p z b
    assume p: "hm_islist p = (hmf_name (Field name u flags childs ns) = None)" and z: "z \<noteq> []"
      and b: "serialize_value dbl (Field name u flags childs ns) True = Some b" and len: "2 * length (fst b @ z) < n"
    obtain k where n: "n = Suc k"
      using len by (cases n) auto
    have sub: "bencode_parse_value n nxt (fst b @ z) p name =
        Ben_ok (Htsmsg (hm_islist p) (hm_fields p @ [Field name u HMF_NAME_ALLOCED (Some (ben_read dbl c)) None])) z"
      if c: "childs = Some c" "ben_ok c" "u = (if hm_islist c then HMF_LIST else HMF_MAP)"
        "bencode_serialize_r dbl c True = Some b" for c
    proof -
      have "ben_document k nxt (fst b @ z) = Ben_ok (ben_read dbl c, top_calls dbl c) z"
        using Field.IH [of c] c len n document_read [of "hm_islist c" dbl nxt "hm_fields c" b z k] by simp
      then show ?thesis
        using message_read [of k nxt "fst b @ z" "ben_read dbl c" "top_calls dbl c" z p name] z p name c n by simp
    qed
    show "bencode_parse_value n nxt (fst b @ z) p (hmf_name (Field name u flags childs ns)) =
        Ben_ok (Htsmsg (hm_islist p) (hm_fields p @ [ben_read_field dbl (Field name u flags childs ns)])) z"
      using Field.prems b p z n name sub scalar_read [where p = p and name = name and z = z and n = k and nxt = nxt]
      by (cases u; cases childs) auto
  qed
qed


text \<open>Property C12. A message that was written is read back: the same names in the same order, the same numbers,
  strings and bytes, where bytes without control characters come back as a string and strings with a control
  character as bytes. The callback gets each field of the top map with the bytes of its value, and the reader
  stops where the message ends, whatever follows it.\<close>

theorem bencode_roundtrip:
  assumes "ben_ok m"
    and "bencode_serialize dbl m = Some (n, b)"
  shows "bencode_deserialize behind (b @ rest) errlen = Ben_doc (ben_read dbl m) (top_calls dbl m) (length b)"
proof -
  obtain x where x: "bencode_serialize_r dbl m True = Some x" "b = fst x"
    using assms(2) by (auto simp: bencode_serialize_def split: option.splits)
  have ne: "b \<noteq> []"
    using x by (cases m) (auto simp: add_len_def split: if_splits)
  have "ben_document (2 * length (b @ rest)) (deref behind) (b @ rest) = Ben_ok (ben_read dbl m, top_calls dbl m) rest"
    using document_read [of "hm_islist m" dbl "deref behind" "hm_fields m" x rest] all_read_back(1) [OF assms(1)] x
    by simp
  then show ?thesis
    using ne by (simp add: bencode_deserialize_def ben_document_def Let_def)
qed

theorem bencode_roundtrip_witness:
  "let m = Htsmsg False [Field (Some [0x61]) (HMF_S64 (- 7)) 0 None None,
             Field (Some [0x62]) HMF_LIST 0 (Some (Htsmsg True [Field None (HMF_BIN [0x41, 0]) 0 None None])) None]
   in bencode_serialize id m = Some (18, cstr ''d1:ai-7e1:bl2:A'' @ [0] @ cstr ''ee'') \<and>
      bencode_deserialize [] (cstr ''d1:ai-7e1:bl2:A'' @ [0] @ cstr ''ee'' @ [0x78]) 80 =
        Ben_doc (ben_read id m) [([0x61], cstr ''i-7e''), ([0x62], cstr ''l2:A'' @ [0] @ cstr ''e'')] 18"
proof -
  define m where "m = Htsmsg False [Field (Some [0x61]) (HMF_S64 (- 7)) 0 None None,
             Field (Some [0x62]) HMF_LIST 0 (Some (Htsmsg True [Field None (HMF_BIN [0x41, 0]) 0 None None])) None]"
  have s: "bencode_serialize id m = Some (18, cstr ''d1:ai-7e1:bl2:A'' @ [0] @ cstr ''ee'')"
    unfolding m_def by code_simp
  have c: "top_calls id m = [([0x61], cstr ''i-7e''), ([0x62], cstr ''l2:A'' @ [0] @ cstr ''e'')]"
    unfolding m_def by code_simp
  have "ben_ok m"
    by (simp add: m_def)
  from bencode_roundtrip [OF this s, of "[]" "[0x78]" 80] show ?thesis
    by (simp add: m_def [symmetric] s c)
qed


section \<open>Messages that are cut off or lie about a length\<close>

definition read_integer :: "u64 \<Rightarrow> htsmsg_field" where
  "read_integer v = Field None (HMF_S64 v) HMF_NAME_ALLOCED None None"

definition integers_bytes :: "u64 list \<Rightarrow> bytes" where
  "integers_bytes vs = concat (map (\<lambda>v. fst (ben_integer v True)) vs)"

lemma integers_bytes_simps [simp]:
  "integers_bytes [] = []" "integers_bytes (v # vs) = fst (ben_integer v True) @ integers_bytes vs"
  by (simp_all add: integers_bytes_def)

lemma ben_integer_first:
  "fst (ben_integer v True) \<noteq> []" "deref (fst (ben_integer v True)) = chr CHR ''i''"
  by (simp_all add: ben_integer_def)

lemma list_loop_step:
  "bencode_parse_value n nxt s r None = Ben_ok r' [] \<Longrightarrow> nxt = chr CHR ''e'' \<Longrightarrow> list_loop (Suc n) nxt r s = Ben_past (r', [])"
  "bencode_parse_value n nxt s r None = Ben_ok r' t \<Longrightarrow> peek nxt t \<noteq> chr CHR ''e'' \<Longrightarrow>
     list_loop (Suc n) nxt r s = list_loop n nxt r' t"
  "list_loop (Suc (Suc n)) nxt r [] = Ben_fail None"
  by (simp_all add: peek_def ben_finish_def)

lemma cut_list_loop:
  assumes "2 * length (integers_bytes (v # vs)) + 1 < n"
  shows "list_loop n nxt (Htsmsg True fs) (integers_bytes (v # vs)) =
    (if nxt = chr CHR ''e'' then Ben_past (Htsmsg True (fs @ map read_integer (v # vs)), []) else Ben_fail None)"
  using assms
proof (induction vs arbitrary: v n fs)
  case Nil
  have "2 \<le> length (fst (ben_integer v True))"
    by (simp add: ben_integer_def)
  with Nil obtain k where n: "n = Suc (Suc (Suc k))"
    by (cases n; cases "n - 1"; cases "n - 2") auto
  have "bencode_parse_value (Suc (Suc k)) nxt (integers_bytes [v]) (Htsmsg True fs) None = Ben_ok (Htsmsg True (fs @ [read_integer v])) []"
    using scalar_read(1) [of "Htsmsg True fs" None "Suc k" nxt v "[]"]
    by (simp add: read_integer_def del: bencode_parse_value.simps)
  note step = list_loop_step(1,2) [OF this]
  show ?case
    using step by (cases "nxt = chr CHR ''e''") (simp_all add: n list_loop_step(3) peek_def del: list_loop.simps)
next
  case (Cons w vs)
  then obtain k where n: "n = Suc (Suc k)"
    by (cases n; cases "n - 1") auto
  have v: "bencode_parse_value (Suc k) nxt (integers_bytes (v # w # vs)) (Htsmsg True fs) None =
      Ben_ok (Htsmsg True (fs @ [read_integer v])) (integers_bytes (w # vs))"
    using scalar_read(1) [of "Htsmsg True fs" None k nxt v "integers_bytes (w # vs)"]
    by (simp add: read_integer_def del: bencode_parse_value.simps)
  have "2 * length (integers_bytes (w # vs)) + 1 < Suc k"
    using Cons.prems ben_integer_first(1) [of v] n by (cases "fst (ben_integer v True)") simp_all
  from Cons.IH [OF this, of "fs @ [read_integer v]"] show ?case
    using list_loop_step(2) [OF v] ben_integer_first [of w] by (simp add: n del: list_loop.simps)
qed

text \<open>Property C26. A list of numbers that is cut off before its end crashes the reader, which reports an error with a
  message and a position it has not set, unless the byte behind the buffer happens to be the letter that ends a
  list: then the list is taken, and its end is behind the buffer.\<close>

theorem bencode_cut_list_crashes:
  "bencode_deserialize behind (chr CHR ''l'' # integers_bytes (v # vs)) errlen =
     (if deref behind = chr CHR ''e''
      then Ben_doc (Htsmsg True (map read_integer (v # vs))) [] (length (integers_bytes (v # vs)) + 2)
      else Ben_doc_crash)"
proof -
  have "integers_bytes (v # vs) \<noteq> []" "deref (integers_bytes (v # vs)) \<noteq> chr CHR ''e''"
    using ben_integer_first [of v] by simp_all
  then show ?thesis
    using cut_list_loop [of v vs "2 * length (chr CHR ''l'' # integers_bytes (v # vs))" "deref behind" "[]"]
    by (simp add: bencode_deserialize_def Let_def bencode_parse_map_def bencode_parse_list_def htsmsg_create_list_def
        del: integers_bytes_simps)
qed

text \<open>Property C25. The length of a string is an \<^verbatim>\<open>int\<close>: when it is read as a negative number, the check
  against the end of the message passes and the copy leaves the buffer.\<close>

theorem bencode_length_wraps:
  assumes "2 ^ 31 \<le> k mod 2 ^ 32"
  shows "bencode_deserialize behind (chr CHR ''d'' # dec_nat k @ chr CHR '':'' # rest) errlen = Ben_doc_crash"
proof -
  have "binary_len 0 (dec_nat k @ 0x3a # rest) = Ben_ok (of_nat k) rest"
    using binary_len_digits [OF dec_nat_digits, of 0 k rest] by (simp add: digits_value_dec_nat)
  moreover have "sint (of_nat k :: u32) < 0"
  proof -
    have "k mod 2 ^ 32 div 2 ^ 31 = 1"
      using assms by (intro div_nat_eqI) simp_all
    then have "int (k mod 2 ^ 32) div 2 ^ 31 = 1"
      by (metis of_nat_1 of_nat_numeral of_nat_power zdiv_int)
    then show ?thesis
      by (simp add: sint_uint unsigned_of_nat bit_iff_odd take_bit_eq_mod)
  qed
  ultimately have "bencode_parse_string (dec_nat k @ 0x3a # rest) = Ben_crash"
    by (simp add: bencode_parse_string_def bencode_parse_binary_def)
  moreover have "deref (dec_nat k) \<noteq> chr CHR ''e''"
    using dec_nat_prefix(1) [of k] e_no_digit by metis
  ultimately show ?thesis
    by (simp add: bencode_deserialize_def Let_def bencode_parse_map_def)
qed

theorem bencode_length_wraps_witness:
  "bencode_deserialize [] (cstr ''d4294967295:x'') 80 = Ben_doc_crash"
proof -
  have eq: "cstr ''d4294967295:x'' = chr CHR ''d'' # dec_nat 4294967295 @ chr CHR '':'' # [chr CHR ''x'']"
    by (simp add: dec_nat_rec)
  show ?thesis
    unfolding eq by (rule bencode_length_wraps) simp
qed

end
