(* ===== verification/Callout.thy ===== *)
theory Callout
  imports Prop_Run
begin

text \<open>
  The timers of the program, \<^verbatim>\<open>src/src/misc/callout.c\<close>: the list of armed timers, the operations that other threads call,
  the thread that calls the callbacks, and the clock of the user interface on top of them. The thread holds the lock
  from one look at the list to the next call or wait, so a turn of its loop is one step; callbacks run without the
  lock, and may arm and disarm timers like every other thread. Files and lines of the callers are only traced.
\<close>

section \<open>Timers\<close>

text \<open>A timer is known by its address, a callback by its number; no callback is \<^verbatim>\<open>NULL\<close>.\<close>

type_synonym cid = nat

record callout =
  c_callback :: "nat option"
  c_opaque :: nat
  c_deadline :: u64

record timers =
  callouts :: "cid list"
  callout_at :: "cid \<Rightarrow> callout"

definition calloutcmp :: "callout \<Rightarrow> callout \<Rightarrow> int" where
  "calloutcmp a b = (if c_deadline a < c_deadline b then - 1 else if c_deadline a > c_deadline b then 1 else 0)"

fun insert_sorted :: "(cid \<Rightarrow> callout) \<Rightarrow> cid \<Rightarrow> cid list \<Rightarrow> cid list" where
  "insert_sorted f d [] = [d]"
| "insert_sorted f d (t # ts) =
     (if calloutcmp (f d) (f t) \<le> 0 then d # t # ts else if ts = [] then [t, d] else t # insert_sorted f d ts)"

text \<open>\<open>malloced\<close> is the address of a timer that the code allocates itself.\<close>

definition callout_arm_abs :: "cid \<Rightarrow> cid option \<Rightarrow> nat \<Rightarrow> nat \<Rightarrow> u64 \<Rightarrow> timers \<Rightarrow> timers" where
  "callout_arm_abs malloced d callback opaque deadline T =
     (let (i, l) = (case d of
            None \<Rightarrow> (malloced, callouts T)
          | Some i \<Rightarrow> (i, if c_callback (callout_at T i) \<noteq> None then remove1 i (callouts T) else callouts T));
          f = (callout_at T)(i := \<lparr>c_callback = Some callback, c_opaque = opaque, c_deadline = deadline\<rparr>)
      in \<lparr>callouts = insert_sorted f i l, callout_at = f\<rparr>)"

definition callout_arm_x :: "cid \<Rightarrow> cid option \<Rightarrow> nat \<Rightarrow> nat \<Rightarrow> u32 \<Rightarrow> u64 \<Rightarrow> timers \<Rightarrow> timers" where
  "callout_arm_x malloced d callback opaque delta ts T =
     callout_arm_abs malloced d callback opaque (ts + scast delta * 1000000) T"

definition callout_arm_hires_x :: "cid \<Rightarrow> cid option \<Rightarrow> nat \<Rightarrow> nat \<Rightarrow> u64 \<Rightarrow> u64 \<Rightarrow> timers \<Rightarrow> timers" where
  "callout_arm_hires_x malloced d callback opaque delta ts T =
     callout_arm_abs malloced d callback opaque (ts + delta) T"

definition callout_disarm :: "cid \<Rightarrow> timers \<Rightarrow> timers" where
  "callout_disarm d T =
     (if c_callback (callout_at T d) \<noteq> None
      then \<lparr>callouts = remove1 d (callouts T),
            callout_at = (callout_at T)(d := (callout_at T d)\<lparr>c_callback := None\<rparr>)\<rparr>
      else T)"

text \<open>A turn of the loop at the time \<open>now\<close>: a callback is called, or the thread waits, for a time in milliseconds
  when a timer is armed.\<close>

datatype turn = Call cid "nat option" nat | Wait u32 | Wait_signal

definition callout_turn :: "u64 \<Rightarrow> timers \<Rightarrow> turn \<times> timers" where
  "callout_turn now T =
     (case callouts T of
        c # cs \<Rightarrow>
          let t = callout_at T c
          in if c_deadline t \<le> now
             then (Call c (c_callback t) (c_opaque t),
                   \<lparr>callouts = cs, callout_at = (callout_at T)(c := t\<lparr>c_callback := None\<rparr>)\<rparr>)
             else (Wait (ucast ((c_deadline t - now + 999) div 1000)), T)
      | [] \<Rightarrow> (Wait_signal, T))"

section \<open>What is pending\<close>

text \<open>The abstract state: callback, argument and deadline of the armed timers.\<close>

definition pending :: "timers \<Rightarrow> cid \<rightharpoonup> nat \<times> nat \<times> u64" where
  "pending T c =
     map_option (\<lambda>cb. (cb, c_opaque (callout_at T c), c_deadline (callout_at T c))) (c_callback (callout_at T c))"

definition timers_ok :: "timers \<Rightarrow> bool" where
  "timers_ok T \<longleftrightarrow>
     distinct (callouts T) \<and> sorted (map (\<lambda>c. c_deadline (callout_at T c)) (callouts T)) \<and>
     (\<forall>c. c \<in> set (callouts T) \<longleftrightarrow> pending T c \<noteq> None)"

lemma set_insert_sorted [simp]: "set (insert_sorted f d ts) = insert d (set ts)"
  by (induction f d ts rule: insert_sorted.induct) auto

lemma distinct_insert_sorted [simp]: "distinct (insert_sorted f d ts) \<longleftrightarrow> d \<notin> set ts \<and> distinct ts"
  by (induction f d ts rule: insert_sorted.induct) auto

lemma sorted_insert_sorted:
  "sorted (map (\<lambda>c. c_deadline (f c)) ts) \<Longrightarrow> sorted (map (\<lambda>c. c_deadline (f c)) (insert_sorted f d ts))"
  by (induction f d ts rule: insert_sorted.induct) (auto simp: calloutcmp_def split: if_splits intro: order_trans)

lemma arm_pending:
  assumes "timers_ok T" "d = None \<Longrightarrow> malloced \<notin> set (callouts T)"
  defines "i \<equiv> (case d of None \<Rightarrow> malloced | Some i \<Rightarrow> i)"
  shows "timers_ok (callout_arm_abs malloced d cb opaque dl T)"
    "pending (callout_arm_abs malloced d cb opaque dl T) = (pending T)(i \<mapsto> (cb, opaque, dl))"
proof -
  define l where "l = (case d of None \<Rightarrow> callouts T
    | Some i \<Rightarrow> if c_callback (callout_at T i) \<noteq> None then remove1 i (callouts T) else callouts T)"
  define f where "f = (callout_at T)(i := \<lparr>c_callback = Some cb, c_opaque = opaque, c_deadline = dl\<rparr>)"
  have arm: "callout_arm_abs malloced d cb opaque dl T = \<lparr>callouts = insert_sorted f i l, callout_at = f\<rparr>"
    by (simp add: callout_arm_abs_def l_def f_def i_def Let_def split: option.split)
  have l: "i \<notin> set l" "distinct l" "set l = set (callouts T) - {i}"
      "sorted (map (\<lambda>c. c_deadline (callout_at T c)) l)"
    using assms(1,2) by (auto simp: l_def i_def timers_ok_def pending_def sorted_map_remove1 split: option.split)
  show p: "pending (callout_arm_abs malloced d cb opaque dl T) = (pending T)(i \<mapsto> (cb, opaque, dl))"
    by (rule ext) (simp add: arm pending_def f_def)
  have eq: "map (\<lambda>c. c_deadline (f c)) l = map (\<lambda>c. c_deadline (callout_at T c)) l"
    using l(1) by (auto simp: f_def)
  have "sorted (map (\<lambda>c. c_deadline (f c)) l)"
    unfolding eq by (rule l(4))
  with l assms(1) show "timers_ok (callout_arm_abs malloced d cb opaque dl T)"
    unfolding timers_ok_def p by (simp add: arm sorted_insert_sorted timers_ok_def)
qed

lemma disarm_pending:
  assumes "timers_ok T"
  shows "timers_ok (callout_disarm d T)" "pending (callout_disarm d T) = (pending T)(d := None)"
proof -
  show p: "pending (callout_disarm d T) = (pending T)(d := None)"
    by (rule ext) (auto simp: callout_disarm_def pending_def)
  show "timers_ok (callout_disarm d T)"
  proof (cases "c_callback (callout_at T d)")
    case None
    then show ?thesis
      using assms by (simp add: callout_disarm_def)
  next
    case (Some cb)
    have "(\<lambda>c. c_deadline (((callout_at T)(d := (callout_at T d)\<lparr>c_callback := None\<rparr>)) c)) = (\<lambda>c. c_deadline (callout_at T c))"
      by auto
    then show ?thesis
      using assms Some unfolding timers_ok_def p by (simp add: callout_disarm_def sorted_map_remove1 set_remove1_eq)
  qed
qed

lemma turn_pending:
  assumes "timers_ok T"
  shows "timers_ok (snd (callout_turn now T))"
    "fst (callout_turn now T) = Call c cb opaque \<Longrightarrow>
      \<exists>f dl. cb = Some f \<and> pending T c = Some (f, opaque, dl) \<and> dl \<le> now \<and> (\<forall>v \<in> ran (pending T). dl \<le> snd (snd v)) \<and>
        pending (snd (callout_turn now T)) = (pending T)(c := None)"
    "fst (callout_turn now T) = Wait t \<Longrightarrow>
      snd (callout_turn now T) = T \<and>
      (\<exists>c f opaque dl. pending T c = Some (f, opaque, dl) \<and> now < dl \<and> (\<forall>v \<in> ran (pending T). dl \<le> snd (snd v)) \<and>
        t = ucast ((dl - now + 999) div 1000))"
    "fst (callout_turn now T) = Wait_signal \<Longrightarrow> snd (callout_turn now T) = T \<and> pending T = Map.empty"
proof -
  have first: "\<exists>f. c_callback (callout_at T c) = Some f"
      "\<forall>v \<in> ran (pending T). c_deadline (callout_at T c) \<le> snd (snd v)"
    if "callouts T = c # cs" for c cs
  proof -
    show "\<exists>f. c_callback (callout_at T c) = Some f"
      using assms that by (auto simp: timers_ok_def pending_def)
    have "c_deadline (callout_at T c) \<le> c_deadline (callout_at T c')" if "pending T c' \<noteq> None" for c'
      using assms that \<open>callouts T = c # cs\<close> unfolding timers_ok_def by auto
    then show "\<forall>v \<in> ran (pending T). c_deadline (callout_at T c) \<le> snd (snd v)"
      by (fastforce simp: ran_def pending_def)
  qed
  show "timers_ok (snd (callout_turn now T))"
  proof (cases "callouts T")
    case (Cons c cs)
    have "(\<lambda>a. c_deadline (((callout_at T)(c := (callout_at T c)\<lparr>c_callback := None\<rparr>)) a)) = (\<lambda>a. c_deadline (callout_at T a))"
      by auto
    then show ?thesis
      using assms Cons by (auto simp: callout_turn_def Let_def timers_ok_def pending_def)
  qed (use assms in \<open>simp add: callout_turn_def\<close>)
  show "\<exists>f dl. cb = Some f \<and> pending T c = Some (f, opaque, dl) \<and> dl \<le> now \<and> (\<forall>v \<in> ran (pending T). dl \<le> snd (snd v)) \<and>
        pending (snd (callout_turn now T)) = (pending T)(c := None)" if call: "fst (callout_turn now T) = Call c cb opaque"
  proof -
    from call obtain cs where c: "callouts T = c # cs" "c_deadline (callout_at T c) \<le> now"
        "cb = c_callback (callout_at T c)" "opaque = c_opaque (callout_at T c)"
      by (cases "callouts T") (auto simp: callout_turn_def Let_def split: if_splits)
    have "pending (snd (callout_turn now T)) = (pending T)(c := None)"
      using c by (auto simp: callout_turn_def Let_def pending_def)
    then show ?thesis
      using c first [OF c(1)] by (auto simp: pending_def)
  qed
  show "snd (callout_turn now T) = T \<and>
      (\<exists>c f opaque dl. pending T c = Some (f, opaque, dl) \<and> now < dl \<and> (\<forall>v \<in> ran (pending T). dl \<le> snd (snd v)) \<and>
        t = ucast ((dl - now + 999) div 1000))" if wait: "fst (callout_turn now T) = Wait t"
  proof -
    from wait obtain c cs where c: "callouts T = c # cs" "now < c_deadline (callout_at T c)"
        "t = ucast ((c_deadline (callout_at T c) - now + 999) div 1000)" "snd (callout_turn now T) = T"
      by (cases "callouts T") (auto simp: callout_turn_def Let_def split: if_splits)
    then show ?thesis
      using first [OF c(1)] unfolding pending_def by (metis (mono_tags, lifting) option.map(2))
  qed
  show "snd (callout_turn now T) = T \<and> pending T = Map.empty" if wait: "fst (callout_turn now T) = Wait_signal"
  proof -
    from wait have c: "callouts T = []" "snd (callout_turn now T) = T"
      by (cases "callouts T"; simp add: callout_turn_def Let_def split: if_splits)+
    then have "pending T c = None" for c
      using assms unfolding timers_ok_def by (metis empty_iff list.set(1))
    then show ?thesis
      using c(2) by auto
  qed
qed

section \<open>The timers at work\<close>

text \<open>What happened so far, the last event first: a timer was armed or disarmed by a thread, its callback was called at
  a time, or the thread of the timers went to sleep at a time.\<close>

datatype event = Armed cid nat nat u64 | Disarmed cid | Called cid "nat option" nat u64 | Slept u64

record system =
  sy_timers :: timers
  sy_log :: "event list"

definition armed_id :: "cid \<Rightarrow> cid option \<Rightarrow> cid" where
  "armed_id malloced d = (case d of None \<Rightarrow> malloced | Some i \<Rightarrow> i)"

inductive callout_step :: "system \<Rightarrow> system \<Rightarrow> bool" where
  arm: "(d = None \<Longrightarrow> malloced \<notin> set (callouts T)) \<Longrightarrow>
    callout_step \<lparr>sy_timers = T, sy_log = l\<rparr>
      \<lparr>sy_timers = callout_arm_x malloced d cb opaque delta ts T,
       sy_log = Armed (armed_id malloced d) cb opaque (ts + scast delta * 1000000) # l\<rparr>"
| arm_hires: "(d = None \<Longrightarrow> malloced \<notin> set (callouts T)) \<Longrightarrow>
    callout_step \<lparr>sy_timers = T, sy_log = l\<rparr>
      \<lparr>sy_timers = callout_arm_hires_x malloced d cb opaque delta64 ts T,
       sy_log = Armed (armed_id malloced d) cb opaque (ts + delta64) # l\<rparr>"
| disarm: "callout_step \<lparr>sy_timers = T, sy_log = l\<rparr> \<lparr>sy_timers = callout_disarm c T, sy_log = Disarmed c # l\<rparr>"
| call: "callout_turn now T = (Call c f opaque, T') \<Longrightarrow>
    callout_step \<lparr>sy_timers = T, sy_log = l\<rparr> \<lparr>sy_timers = T', sy_log = Called c f opaque now # l\<rparr>"
| wait: "callout_turn now T = (Wait t, T') \<Longrightarrow>
    callout_step \<lparr>sy_timers = T, sy_log = l\<rparr> \<lparr>sy_timers = T', sy_log = Slept now # l\<rparr>"
| wait_signal: "callout_turn now T = (Wait_signal, T') \<Longrightarrow>
    callout_step \<lparr>sy_timers = T, sy_log = l\<rparr> \<lparr>sy_timers = T', sy_log = Slept now # l\<rparr>"

definition no_timers :: system where
  "no_timers = \<lparr>sy_timers = \<lparr>callouts = [], callout_at = (\<lambda>_. \<lparr>c_callback = None, c_opaque = 0, c_deadline = 0\<rparr>)\<rparr>, sy_log = []\<rparr>"

text \<open>The specification speaks of the log only. The timers that are pending after it:\<close>

fun pending_after :: "event list \<Rightarrow> cid \<rightharpoonup> nat \<times> nat \<times> u64" where
  "pending_after [] = Map.empty"
| "pending_after (Armed c cb opaque dl # l) = (pending_after l)(c \<mapsto> (cb, opaque, dl))"
| "pending_after (Disarmed c # l) = (pending_after l)(c := None)"
| "pending_after (Called c cb opaque now # l) = (pending_after l)(c := None)"
| "pending_after (Slept now # l) = pending_after l"

text \<open>A callback is called only for a timer that is pending, with what it was armed with, when it is due, and when no
  pending timer has an earlier deadline. The thread sleeps only when no timer is due.\<close>

fun log_ok :: "event list \<Rightarrow> bool" where
  "log_ok (Called c cb opaque now # l) \<longleftrightarrow>
     log_ok l \<and>
     (\<exists>f dl. cb = Some f \<and> pending_after l c = Some (f, opaque, dl) \<and> dl \<le> now \<and>
        (\<forall>v \<in> ran (pending_after l). dl \<le> snd (snd v)))"
| "log_ok (Slept now # l) \<longleftrightarrow> log_ok l \<and> (\<forall>v \<in> ran (pending_after l). now < snd (snd v))"
| "log_ok (_ # l) \<longleftrightarrow> log_ok l"
| "log_ok [] \<longleftrightarrow> True"

definition timers_inv :: "system \<Rightarrow> bool" where
  "timers_inv S \<longleftrightarrow> timers_ok (sy_timers S) \<and> pending (sy_timers S) = pending_after (sy_log S) \<and> log_ok (sy_log S)"

interpretation tm: invariant_of no_timers callout_step timers_inv
proof
  show "timers_inv no_timers"
    by (auto simp: timers_inv_def no_timers_def timers_ok_def pending_def)
  fix S S'
  assume inv: "timers_inv S" and step: "callout_step S S'"
  from step show "timers_inv S'"
  proof cases
    case (arm d malloced T l cb opaque delta ts)
    then show ?thesis
      using inv arm_pending [of T d malloced] by (simp add: timers_inv_def callout_arm_x_def armed_id_def)
  next
    case (arm_hires d malloced T l cb opaque delta64 ts)
    then show ?thesis
      using inv arm_pending [of T d malloced] by (simp add: timers_inv_def callout_arm_hires_x_def armed_id_def)
  next
    case (disarm T l c)
    then show ?thesis
      using inv disarm_pending [of T c] by (simp add: timers_inv_def)
  next
    case (call now T c f opaque T' l)
    then show ?thesis
      using inv turn_pending(1,2) [of T now] by (fastforce simp: timers_inv_def)
  next
    case (wait now T t T' l)
    then show ?thesis
      using inv turn_pending(1,3) [of T now] by (fastforce simp: timers_inv_def)
  next
    case (wait_signal now T T' l)
    then show ?thesis
      using inv turn_pending(1,4) [of T now] by (simp add: timers_inv_def)
  qed
qed

lemma tm_init: "timers_ok (sy_timers no_timers)"
  using tm.init by (simp add: timers_inv_def)

text \<open>Property C13. Whatever threads arm and disarm, and whenever the thread of the timers looks at the clock: the
  timers that are armed are those that were armed last and neither disarmed nor called since; a callback is called
  only when its timer is pending and due, with what it was armed with, the earliest deadline first; and the thread
  never sleeps while a timer is due.\<close>

theorem callbacks_called_when_due:
  assumes "callout_step\<^sup>*\<^sup>* no_timers S"
  shows "log_ok (sy_log S) \<and> pending (sy_timers S) = pending_after (sy_log S)"
  using tm.reachable [OF assms] by (simp add: timers_inv_def)

theorem callbacks_called_when_due_witness:
  "log_ok [Slept 2000000, Called 5 (Some 7) 1 2000000, Armed 6 7 2 3000000, Armed 5 7 1 2000000]"
proof -
  define T1 where "T1 = callout_arm_x 0 (Some 5) 7 1 2 0 (sy_timers no_timers)"
  define T2 where "T2 = callout_arm_hires_x 0 (Some 6) 7 2 3000000 0 T1"
  have a: "callout_step no_timers \<lparr>sy_timers = T1, sy_log = [Armed 5 7 1 2000000]\<rparr>"
    using callout_step.arm [of "Some 5" 0 "sy_timers no_timers" "[]" 7 1 2 0] by (simp add: T1_def no_timers_def armed_id_def)
  have b: "callout_step \<lparr>sy_timers = T1, sy_log = [Armed 5 7 1 2000000]\<rparr>
      \<lparr>sy_timers = T2, sy_log = [Armed 6 7 2 3000000, Armed 5 7 1 2000000]\<rparr>"
    using callout_step.arm_hires [of "Some 6" 0 T1 "[Armed 5 7 1 2000000]" 7 2 3000000 0] by (simp add: T2_def armed_id_def)
  have T2: "callouts T2 = [5, 6]" "callout_at T2 5 = \<lparr>c_callback = Some 7, c_opaque = 1, c_deadline = 2000000\<rparr>"
      "callout_at T2 6 = \<lparr>c_callback = Some 7, c_opaque = 2, c_deadline = 3000000\<rparr>"
    by (simp_all add: T2_def T1_def no_timers_def callout_arm_x_def callout_arm_hires_x_def callout_arm_abs_def calloutcmp_def)
  obtain T3 where t: "callout_turn 2000000 T2 = (Call 5 (Some 7) 1, T3)" "callouts T3 = [6]"
      "c_deadline (callout_at T3 6) = 3000000"
    by (simp add: callout_turn_def T2)
  have c: "callout_step \<lparr>sy_timers = T2, sy_log = [Armed 6 7 2 3000000, Armed 5 7 1 2000000]\<rparr>
      \<lparr>sy_timers = T3, sy_log = [Called 5 (Some 7) 1 2000000, Armed 6 7 2 3000000, Armed 5 7 1 2000000]\<rparr>"
    by (rule callout_step.call [OF t(1)])
  obtain w where "callout_turn 2000000 T3 = (Wait w, T3)"
    using t(2,3) by (simp add: callout_turn_def)
  note d = callout_step.wait [OF this, of "[Called 5 (Some 7) 1 2000000, Armed 6 7 2 3000000, Armed 5 7 1 2000000]"]
  have "callout_step\<^sup>*\<^sup>* no_timers \<lparr>sy_timers = T3, sy_log =
      [Slept 2000000, Called 5 (Some 7) 1 2000000, Armed 6 7 2 3000000, Armed 5 7 1 2000000]\<rparr>"
    using a b c d by (meson converse_rtranclp_into_rtranclp rtranclp.rtrancl_refl)
  from callbacks_called_when_due [OF this] show ?thesis
    by simp
qed

section \<open>How long the thread sleeps\<close>



section \<open>The clock of the user interface\<close>

record clock_props =
  prop_hour :: "pid option"
  prop_minute :: "pid option"
  prop_dayminute :: "pid option"
  prop_unixtime :: "pid option"

record tm =
  tm_hour :: u32
  tm_min :: u32
  tm_sec :: u32

text \<open>The address of the timer and the number of the callback, which are constants of the program.\<close>

definition callout_clock :: cid where
  "callout_clock = 0"

definition SET_GLOBAL_CLOCK :: nat where
  "SET_GLOBAL_CLOCK = 0"

text \<open>The operating system gives the time, the local time and the clock of the timers.\<close>

definition set_global_clock ::
  "(u32 \<Rightarrow> u32) \<Rightarrow> clock_props \<Rightarrow> u64 \<Rightarrow> tm \<Rightarrow> u64 \<Rightarrow> timers \<times> pstate \<Rightarrow> (timers \<times> pstate) option" where
  "set_global_clock f2i ps now tm ts S =
     do {
       P1 \<leftarrow> prop_set_int_ex f2i (prop_unixtime ps) None (ucast now) (snd S);
       P2 \<leftarrow> prop_set_int_ex f2i (prop_hour ps) None (tm_hour tm) P1;
       P3 \<leftarrow> prop_set_int_ex f2i (prop_minute ps) None (tm_min tm) P2;
       P4 \<leftarrow> prop_set_int_ex f2i (prop_dayminute ps) None (tm_hour tm * 60 + tm_min tm) P3;
       Some (callout_arm_x 0 (Some callout_clock) SET_GLOBAL_CLOCK 0 (61 - tm_sec tm) ts (fst S), P4)
     }"

text \<open>The property tree has the directory of the clock below its root \<open>global\<close>.\<close>

definition callout_init ::
  "(u32 \<Rightarrow> u32) \<Rightarrow> pid \<Rightarrow> u64 \<Rightarrow> tm \<Rightarrow> u64 \<Rightarrow> timers \<times> pstate \<Rightarrow> (clock_props \<times> timers \<times> pstate) option" where
  "callout_init f2i global now tm ts S =
     do {
       (clock, P0) \<leftarrow> prop_create_ex (Some global) (Some (cstr ''clock'')) None (snd S);
       (hour, P1) \<leftarrow> prop_create_ex clock (Some (cstr ''hour'')) None P0;
       (minute, P2) \<leftarrow> prop_create_ex clock (Some (cstr ''minute'')) None P1;
       (dayminute, P3) \<leftarrow> prop_create_ex clock (Some (cstr ''dayminute'')) None P2;
       (unixtime, P4) \<leftarrow> prop_create_ex clock (Some (cstr ''unixtime'')) None P3;
       let ps = \<lparr>prop_hour = hour, prop_minute = minute, prop_dayminute = dayminute, prop_unixtime = unixtime\<rparr>;
       map_option (Pair ps) (set_global_clock f2i ps now tm ts (fst S, P4))
     }"

text \<open>Property C32. The clock shows the time and keeps going: its callback always returns, keeps the property tree and what
  its subscribers know in order, and arms its timer again, a second after the minute ends.\<close>

theorem clock_keeps_going:
  assumes "prop_inv K P" "timers_ok T" "tm_sec tm \<le> 60"
  shows "\<exists>T' P'. set_global_clock f2i ps now tm ts (T, P) = Some (T', P') \<and> prop_inv K P' \<and> timers_ok T' \<and>
    pending T' = (pending T)(callout_clock \<mapsto> (SET_GLOBAL_CLOCK, 0, ts + of_nat ((61 - unat (tm_sec tm)) * 1000000)))"
proof -
  have set: "\<exists>S'. prop_set_int_ex f2i p None v S = Some S' \<and> prop_inv K S'" if "prop_inv K S" for p v S
    using that set_int_ex_inv skip_ok_None by blast
  obtain P1 where P1: "prop_set_int_ex f2i (prop_unixtime ps) None (ucast now) P = Some P1" "prop_inv K P1"
    using set [OF assms(1)] by blast
  obtain P2 where P2: "prop_set_int_ex f2i (prop_hour ps) None (tm_hour tm) P1 = Some P2" "prop_inv K P2"
    using set [OF P1(2)] by blast
  obtain P3 where P3: "prop_set_int_ex f2i (prop_minute ps) None (tm_min tm) P2 = Some P3" "prop_inv K P3"
    using set [OF P2(2)] by blast
  obtain P4 where P4: "prop_set_int_ex f2i (prop_dayminute ps) None (tm_hour tm * 60 + tm_min tm) P3 = Some P4" "prop_inv K P4"
    using set [OF P3(2)] by blast
  have sec: "unat (tm_sec tm) \<le> 60"
    using assms(3) by (simp add: word_le_nat_alt)
  have "61 - tm_sec tm = (of_nat (61 - unat (tm_sec tm)) :: u32)"
    using sec by (simp add: of_nat_diff)
  moreover have "sint (of_nat (61 - unat (tm_sec tm)) :: u32) = int (61 - unat (tm_sec tm))"
    by (simp only: sint_uint unsigned_of_nat) (simp add: take_bit_nat_eq_self signed_take_bit_int_eq_self)
  ultimately have "scast (61 - tm_sec tm) = (of_nat (61 - unat (tm_sec tm)) :: u64)"
    by (metis of_int_of_nat_eq of_int_sint)
  then have "ts + scast (61 - tm_sec tm) * 1000000 = ts + of_nat ((61 - unat (tm_sec tm)) * 1000000)"
    by simp
  then show ?thesis
    using arm_pending [OF assms(2), of "Some callout_clock" 0] P1 P2 P3 P4
    by (simp add: set_global_clock_def callout_arm_x_def)
qed

theorem clock_keeps_going_witness:
  "\<exists>T' P'. set_global_clock id \<lparr>prop_hour = None, prop_minute = None, prop_dayminute = None, prop_unixtime = None\<rparr> 0
      \<lparr>tm_hour = 12, tm_min = 30, tm_sec = 20\<rparr> 5 (sy_timers no_timers, empty_state) = Some (T', P') \<and>
    prop_inv {} P' \<and> timers_ok T' \<and> pending T' = (pending (sy_timers no_timers))(callout_clock \<mapsto> (SET_GLOBAL_CLOCK, 0, 41000005))"
  using clock_keeps_going [OF empty_state_inv [of "{}"] tm_init, of "\<lparr>tm_hour = 12, tm_min = 30, tm_sec = 20\<rparr>" id
      "\<lparr>prop_hour = None, prop_minute = None, prop_dayminute = None, prop_unixtime = None\<rparr>" 0 5]
  by simp

text \<open>The clock is armed once the program has started.\<close>

lemma callout_init_arms:
  assumes "callout_init f2i global now tm ts (T, P) = Some (ps, T', P')" "prop_inv K P" "timers_ok T"
  shows "prop_inv K P' \<and> timers_ok T' \<and> pending T' callout_clock \<noteq> None"
proof -
  have set: "prop_inv K S'" if "prop_set_int_ex f2i p None v S = Some S'" "prop_inv K S" for p v S S'
    using set_int_ex_inv [OF that(2) skip_ok_None, of f2i p v] that(1) by auto
  from assms(1) obtain clock hour minute dayminute unixtime P0 P1 P2 P3 P4 P5 P6 P7 where
    c: "prop_create_ex (Some global) (Some (cstr ''clock'')) None P = Some (clock, P0)"
      "prop_create_ex clock (Some (cstr ''hour'')) None P0 = Some (hour, P1)"
      "prop_create_ex clock (Some (cstr ''minute'')) None P1 = Some (minute, P2)"
      "prop_create_ex clock (Some (cstr ''dayminute'')) None P2 = Some (dayminute, P3)"
      "prop_create_ex clock (Some (cstr ''unixtime'')) None P3 = Some (unixtime, P4)"
    and s: "prop_set_int_ex f2i unixtime None (ucast now) P4 = Some P5"
      "prop_set_int_ex f2i hour None (tm_hour tm) P5 = Some P6" "prop_set_int_ex f2i minute None (tm_min tm) P6 = Some P7"
      "prop_set_int_ex f2i dayminute None (tm_hour tm * 60 + tm_min tm) P7 = Some P'"
    and t: "T' = callout_arm_x 0 (Some callout_clock) SET_GLOBAL_CLOCK 0 (61 - tm_sec tm) ts T"
    by (auto simp: callout_init_def set_global_clock_def Let_def simp del: cstr_simps split: bind_splits prod.splits)
  note create = create_ex_inv [OF _ skip_ok_None]
  have "prop_inv K P4"
    by (rule create [OF create [OF create [OF create [OF create [OF assms(2) c(1)] c(2)] c(3)] c(4)] c(5)])
  then have "prop_inv K P'"
    using set s by blast
  then show ?thesis
    using arm_pending [OF assms(3), of "Some callout_clock" 0] by (simp add: t callout_arm_x_def)
qed

end
