(* ===== verification/Spec2Isabelle.thy ===== *)
theory Spec2Isabelle
  imports Prelude Utf8 Url Html Str_Util Collate Htsbuf Htsmsg Htsmsg_Binary Json Htsmsg_Json Extents
    Prop Prop_Tree Prop_Ops Prop_Run Bitstream H264 Media Media_Run Media_System
    Htsmsg_Xml Htsmsg_Xml_Run Htsmsg_Xml_Doc Soap Bencode Callout
begin

text \<open>
  A verification of the foundation libraries, the message formats, the timers, the property tree and the media
  pipes of Showtime, a media player written in C.

  \<^bold>\<open>The program.\<close> The user interface, the media pipeline, the plugins and the network code of Showtime
  exchange text and structured data. Text is handled by \<^verbatim>\<open>src/src/misc/str.c\<close>. Structured data is the
  message tree of \<^verbatim>\<open>src/src/htsmsg/htsmsg.c\<close>, which is read from and written to JSON
  (\<^verbatim>\<open>src/src/misc/json.c\<close>, \<^verbatim>\<open>src/src/htsmsg/htsmsg_json.c\<close>) and a binary form
  (\<^verbatim>\<open>src/src/htsmsg/htsmsg_binary.c\<close>); writers append to the byte queue of \<^verbatim>\<open>src/src/htsmsg/htsbuf.c\<close>.
  Video memory is handed out by the region allocator of \<^verbatim>\<open>src/src/misc/extents.c\<close>. The parts of the program
  share their state through the property tree of \<^verbatim>\<open>src/src/prop/prop_core.c\<close>: user interface, plugins and
  players set the values of nodes and subscribe to them. Players send packets through the media pipes of
  \<^verbatim>\<open>src/src/media\<close> to the threads that decode video and audio.

  \<^bold>\<open>The theories\<close>, in the order in which they build on each other:

  \<^item> \<open>Prelude\<close>: the machine types (the build passes \<^verbatim>\<open>-funsigned-char\<close>), C strings as lists that end
    at the NUL, bit operations as arithmetic, decimal numbers and \<^verbatim>\<open>strtol\<close>.
  \<^item> \<open>Utf8\<close> (\<^verbatim>\<open>utf8_get\<close>, \<^verbatim>\<open>utf8_put\<close>, \<^verbatim>\<open>utf8_verify\<close>, \<^verbatim>\<open>utf8_cleanup\<close>, the UCS-2 and UTF-16 converters of
    \<^verbatim>\<open>str.c\<close>): the decoder inverts the encoder, accepts only shortest forms, and the two passes of each
    converter agree on the size of the allocation.
  \<^item> \<open>Url\<close> (\<^verbatim>\<open>url_escape\<close>, \<^verbatim>\<open>url_deescape\<close>, \<^verbatim>\<open>url_resolve_relative\<close>): the escapes are undone by the decoder
    and no store leaves a buffer.
  \<^item> \<open>Html\<close> (\<^verbatim>\<open>html_entities_decode\<close>, \<^verbatim>\<open>html_enteties_escape\<close>, the entity table): decoding in place never
    overtakes its own input.
  \<^item> \<open>Str_Util\<close> (\<^verbatim>\<open>hex2binl\<close>, \<^verbatim>\<open>bin2hex\<close>, \<^verbatim>\<open>strvec_split\<close>, \<^verbatim>\<open>lp_get\<close>, \<^verbatim>\<open>find_str\<close>, \<^verbatim>\<open>deescape_cstyle\<close> and others).
  \<^item> \<open>Collate\<close> (\<^verbatim>\<open>unicode_casefold\<close> with its table, \<^verbatim>\<open>dictcmp\<close>, \<^verbatim>\<open>mystrstr\<close>): the comparison is a lexicographic
    order on strings without huge numbers, and is not antisymmetric beyond them.
  \<^item> \<open>Htsbuf\<close>: the chunks of the queue as a record and every operation on them. The locale \<open>byte_queue\<close>
    states what its users rely on, a first in first out queue of bytes; the interpretation \<open>hq\<close>
    discharges its laws for the chunked queue, and the writers are shown to append a known text.
  \<^item> \<open>Htsmsg\<close>: the message tree as a datatype, every operation of \<^verbatim>\<open>htsmsg.c\<close> that adds, finds, reads or
    removes a field, and the invariant that names and kinds fit. The locale \<open>named_fields\<close> states the
    laws of lookup after insert and delete; the interpretation \<open>msg\<close> discharges them.
  \<^item> \<open>Htsmsg_Binary\<close>: reader and writer of the binary form, the reader with an explicit outcome for a
    read outside its buffer.
  \<^item> \<open>Json\<close>: the reader over the interface \<^verbatim>\<open>json_deserializer_t\<close>, a record of functions, as in the code.
  \<^item> \<open>Htsmsg_Json\<close>: the writer on the byte queue, the reader instantiated for messages, and the round trip
    through all four components.
  \<^item> \<open>Extents\<close>: the two trees of the region allocator as sorted lists and all of its operations. The locale
    \<open>region_allocator\<close> states the contract of allocation and release, defines the behaviour of clients
    by an inductive relation and shows that the blocks a client holds never overlap; the interpretation
    \<open>pool\<close> carries this to the code.
  \<^item> \<open>Prop\<close>: the nodes and subscriptions of the property tree as an explicit store, and the operations of
    \<^verbatim>\<open>prop_core.c\<close> on it, from creation over values, hierarchy and selection to destruction, with the
    notifications each of them sends. \<open>Prop_Tree\<close>: the invariant of the store, what a subscriber knows from
    its events (\<open>view_of\<close>), and that destruction ends and keeps both. \<open>Prop_Ops\<close>: the same for every other
    operation. \<open>Prop_Run\<close>: programs as sequences of operations (\<open>prop_step\<close>); the locale \<open>invariant_of\<close> is
    interpreted for them as \<open>pt\<close>, which gives that subscribers are in sync in every reachable state; and
    the operations that break this contract.
  \<^item> \<open>Bitstream\<close> (\<^verbatim>\<open>src/src/misc/bitstream.c\<close>): the reader of bits as a record, shown to read the bits of the payload
    in order, and the Exp-Golomb codes on top of it. \<open>H264\<close> (\<^verbatim>\<open>src/src/video/h264_parser.c\<close>): parameter sets, slice
    headers and the split of a stream into units, as readers over the bit reader that fail where the code
    would leave its arrays or its data; the theorems say when it stays inside and that it finds the units.

  \<^item> \<open>Media\<close> (\<^verbatim>\<open>src/src/media\<close>, with the loops of the two decoders): the pipe between a demuxer and the decoders as a
    record with its queues, and what producers, decoders and the user interface do to it while they hold its lock.
    \<open>Media_Run\<close>: the relation \<open>conserves\<close> between the states before and after an operation, and that every operation
    is in it. \<open>Media_System\<close>: these operations as the step relation \<open>pipe_op\<close>, all pipes with their creation and release as
    \<open>media_step\<close>, a second instance of \<open>invariant_of\<close> (\<open>pipes\<close>) for the books of the queues; what a flush and a seek
    leave in the queues, that a waiting producer goes on, and the operations that lose commands or references.

  \<^item> \<open>Htsmsg_Xml\<close> (\<^verbatim>\<open>src/src/htsmsg/htsmsg_xml.c\<close>): the XML parser, which works in place in the buffer of the document; positions are
    the bytes that are left, and the state keeps the positions it overwrote and the fields it left dangling.
    \<open>Htsmsg_Xml_Run\<close>: every run keeps \<open>run_ok\<close>, from which it follows that the parser ends, that errors are located and
    that namespaces are scoped. \<open>Htsmsg_Xml_Doc\<close>: element trees with a reference printer, and that the parser reads them
    back; the inputs on which it goes wrong. \<open>Soap\<close> (\<^verbatim>\<open>src/src/api/soap.c\<close>, \<^verbatim>\<open>src/src/upnp/upnp_control.c\<close>): remote calls on top of the
    byte queue and the parser, the round trip of results from the server to the client, and why the server rejects
    the client's calls.
  \<^item> \<open>Bencode\<close> (\<^verbatim>\<open>src/src/backend/bittorrent/bencode.c\<close>): the messages of BitTorrent. The reader returns for every input with a
    well formed message, an error or the crash the code has there; the two passes of the writer agree on the size
    of the buffer; what was written is read back, with the bytes of each field passed to the callback; and what
    cut off lists and huge lengths do to the reader.
  \<^item> \<open>Callout\<close> (\<^verbatim>\<open>src/src/misc/callout.c\<close>): the sorted list of timers, the operations that arm and disarm them and a turn of
    the thread that calls their callbacks. \<open>callout_step\<close> is the relation of all threads, a third instance of
    \<open>invariant_of\<close> (\<open>tm\<close>): every run refines a specification that speaks of the history of calls only. The clock puts the
    time into the property tree and arms its timer again.

  \<^bold>\<open>How code becomes definitions.\<close> A function that advances a pointer returns the new pointer, one that
  fills a buffer returns the bytes it stores, or \<open>None\<close> where a store would leave the buffer. A failed
  assertion and a use of memory that the code does not own are outcomes of their own. Integers are
  words where the code's arithmetic can wrap, and unbounded where it cannot; the lengths the BitTorrent writer adds up are taken to fit an \<^verbatim>\<open>int\<close>.

  \<^bold>\<open>Fuel.\<close> The JSON reader has fuel, a bound of its recursion depth; it starts with the length of the
  input, and every level of recursion reads at least one byte, so that the theorem on termination can
  exclude that the fuel is used up. The recursions over the property tree start with the number of nodes
  that were ever made: the tree has no cycle, so no path is longer, and the theorem on destruction shows
  that it always returns. The XML parser has one
  unit of fuel for each turn of its loop over the text of the document, and every turn reads a byte. The reader of
  BitTorrent messages has two units for each byte, one for a value and one for the loop it stands in. The loop
  over units with a length before each (\<open>length_loop\<close>) has fuel because it may not end in the code either;
  the theorem on it shows that no amount of fuel is enough. Every other loop has a termination proof.

  \<^bold>\<open>Not modelled.\<close> The reference counts of messages (\<^verbatim>\<open>htsmsg_retain\<close>, \<^verbatim>\<open>htsmsg_release\<close>): messages are
  values here. Floating point (\<^verbatim>\<open>my_str2double\<close>, \<^verbatim>\<open>my_double2str\<close>, \<^verbatim>\<open>rgbstr_to_floatvec\<close>), which are arguments where
  the modelled code calls them. The wording of error messages, printing and tracing. The balancing of
  the red-black trees in \<^verbatim>\<open>redblack.h\<close>: a tree is the sorted list of its elements. Of the property
  tree, the links between nodes (\<^verbatim>\<open>prop_link0\<close>), subscriptions by a path of names, the couriers that carry
  notifications to threads, and floating point values. Of the media pipeline, what the codecs do with a
  packet (an argument of the operations), the statistics and the volume. File access, metadata, the
  user interface and the script engines are threads around locks, sockets, devices and a database, and
  are outside of this development.
\<close>

end
